(* ===== verification/Prelude.thy ===== *)
theory Prelude
  imports Main "HOL-Library.Word" "HOL-Library.Monad_Syntax" "HOL-Library.Signed_Division"
begin

unbundle bit_operations_syntax

text \<open>
  Shared vocabulary of the development: the machine integer types of the C sources, the
  memory buffers they read and write, and the generic lemmas on lists, options and words that the
  component theories use.  A C computation that may perform an out-of-bounds access is an
  \<open>option\<close>: \<^term>\<open>None\<close> stands for undefined behaviour, never for an error code of the program
  (error codes are ordinary values).
\<close>

section \<open>Types\<close>

type_synonym u8 = "8 word"
type_synonym u32 = "32 word"
type_synonym u64 = "64 word"

section \<open>Collections of facts\<close>

named_theorems buf_simps \<open>reads and writes of byte buffers\<close>
named_theorems wlen \<open>lengths of the arrays a function returns\<close>

section \<open>Buffers\<close>

text \<open>
  A C array or a heap block is a list.  \<open>buf_read b off n\<close> reads \<open>n\<close> elements from offset
  \<open>off\<close>, \<open>buf_write b off xs\<close> stores \<open>xs\<close> there.  Both are undefined outside the block.
\<close>

definition buf_read :: "'a list \<Rightarrow> nat \<Rightarrow> nat \<Rightarrow> 'a list option" where
  "buf_read b off n = (if off + n \<le> length b then Some (take n (drop off b)) else None)"

definition buf_write :: "'a list \<Rightarrow> nat \<Rightarrow> 'a list \<Rightarrow> 'a list option" where
  "buf_write b off xs =
     (if off + length xs \<le> length b
      then Some (take off b @ xs @ drop (off + length xs) b) else None)"

lemma buf_read_eq_Some [buf_simps]:
  "buf_read b off n = Some xs \<longleftrightarrow> off + n \<le> length b \<and> xs = take n (drop off b)"
  by (auto simp: buf_read_def)

lemma buf_write_eq_Some [buf_simps]:
  "buf_write b off xs = Some b' \<longleftrightarrow>
     off + length xs \<le> length b \<and> b' = take off b @ xs @ drop (off + length xs) b"
  by (auto simp: buf_write_def)

lemma length_buf_write: "buf_write b off xs = Some b' \<Longrightarrow> length b' = length b"
  by (auto simp: buf_write_eq_Some)

lemma buf_read_write_same:
  "buf_write b off xs = Some b' \<Longrightarrow> n = length xs \<Longrightarrow> buf_read b' off n = Some xs"
  by (auto simp: buf_write_eq_Some buf_read_def)

section \<open>Signed arithmetic\<close>

text \<open>
  Signed C integers are mathematical integers kept inside their range: \<open>i32\<close> and \<open>i64\<close> pass a
  result on when it fits and are undefined when it overflows.  Division and remainder truncate
  towards zero and are undefined for a zero divisor.
\<close>

definition i32 :: "int \<Rightarrow> int option" where
  "i32 x = (if - (2 ^ 31) \<le> x \<and> x < 2 ^ 31 then Some x else None)"

definition i64 :: "int \<Rightarrow> int option" where
  "i64 x = (if - (2 ^ 63) \<le> x \<and> x < 2 ^ 63 then Some x else None)"

definition cdiv :: "int \<Rightarrow> int \<Rightarrow> int option" where
  "cdiv x y = (if y = 0 then None else Some (x sdiv y))"

definition crem :: "int \<Rightarrow> int \<Rightarrow> int option" where
  "crem x y = (if y = 0 then None else Some (x smod y))"

lemma smod_nonneg: "0 \<le> x \<Longrightarrow> 0 \<le> y \<Longrightarrow> x smod y = x mod (y :: int)"
  by (auto simp: signed_modulo_int_def sgn_if)

lemma sdiv_nonneg: "0 \<le> x \<Longrightarrow> 0 \<le> y \<Longrightarrow> x sdiv y = x div (y :: int)"
  by (auto simp: signed_divide_int_def sgn_if)

lemma crem_pos [simp]: "0 \<le> x \<Longrightarrow> 0 < y \<Longrightarrow> crem x y = Some (x mod y)"
  by (simp add: crem_def smod_nonneg)

lemma cdiv_pos [simp]: "0 \<le> x \<Longrightarrow> 0 < y \<Longrightarrow> cdiv x y = Some (x div y)"
  by (simp add: cdiv_def sdiv_nonneg)

lemma i32_fits: "\<bar>x\<bar> < 2 ^ 31 \<Longrightarrow> i32 x = Some x"
  by (auto simp: i32_def)

lemma i64_fits: "\<bar>x\<bar> < 2 ^ 63 \<Longrightarrow> i64 x = Some x"
  by (auto simp: i64_def)

section \<open>Lists\<close>

lemma list_eq_4: "length xs = 4 \<Longrightarrow> xs = [xs ! 0, xs ! 1, xs ! 2, xs ! 3]"
  by (rule nth_equalityI) (auto simp: less_Suc_eq numeral_eq_Suc)

lemma less_4_cases: "i < (4::nat) \<Longrightarrow> i = 0 \<or> i = 1 \<or> i = 2 \<or> i = 3"
  by arith

section \<open>Words\<close>

lemma mask8: "(0xff :: 'a::len word) = mask 8"
  by (simp add: mask_eq_exp_minus_1)

lemma u8_and_ff [simp]: "(x :: u8) AND 0xff = x"
  by (rule bit_word_eqI) (auto simp: bit_simps mask8)

lemma u8_ucast_and_ff: "(ucast (x AND 0xff) :: u8) = ucast (x :: u32)"
  by (rule bit_word_eqI) (auto simp: bit_simps mask8)

lemma unat_u8_less: "unat (x :: u8) < 256"
  using unsigned_less [of x] by simp

lemma xor_cancel_right [simp]: "(a XOR b) XOR b = (a :: 'a::len word)"
  by (simp add: xor.assoc)

lemma xor_cancel_left [simp]: "b XOR (b XOR a) = (a :: 'a::len word)"
  by (simp add: xor.assoc [symmetric])

section \<open>Machines that serve requests\<close>

text \<open>
  Running a list of requests: \<^term>\<open>None\<close> as soon as one step is undefined.  A component whose steps
  keep an invariant keeps it over every run.
\<close>

fun run_steps :: "('r \<Rightarrow> 's \<Rightarrow> 's option) \<Rightarrow> 'r list \<Rightarrow> 's \<Rightarrow> 's option" where
  "run_steps step [] s = Some s"
| "run_steps step (r # rs) s = Option.bind (step r s) (run_steps step rs)"

locale machine =
  fixes step :: "'r \<Rightarrow> 's \<Rightarrow> 's option"
    and inv :: "'s \<Rightarrow> bool"
    and allowed :: "'r \<Rightarrow> bool"
  assumes step_inv: "inv s \<Longrightarrow> allowed r \<Longrightarrow> step r s = Some s' \<Longrightarrow> inv s'"
begin

lemma run_inv: "inv s \<Longrightarrow> \<forall>r \<in> set rs. allowed r \<Longrightarrow> run_steps step rs s = Some s' \<Longrightarrow> inv s'"
  by (induction rs arbitrary: s) (auto split: bind_splits intro: step_inv)

end

text \<open>A machine none of whose allowed steps is undefined in a state of the invariant.\<close>

locale total_machine = machine +
  assumes step_total: "inv s \<Longrightarrow> allowed r \<Longrightarrow> step r s \<noteq> None"
begin

lemma run_total: "inv s \<Longrightarrow> \<forall>r \<in> set rs. allowed r \<Longrightarrow> \<exists>s'. run_steps step rs s = Some s' \<and> inv s'"
proof (induction rs arbitrary: s)
  case (Cons r rs)
  then obtain s1 where "step r s = Some s1" "inv s1" using step_total step_inv by fastforce
  with Cons show ?case by auto
qed simp

end

lemma run_steps_append:
  "run_steps step (rs @ qs) s = Option.bind (run_steps step rs s) (run_steps step qs)"
  by (induction rs arbitrary: s) (auto split: bind_split)

end
