(* ===== verification/KvmException.thy ===== *)
theory KvmException
  imports Prelude
begin

unbundle bit_operations_syntax

text \<open>
  Exceptions queued for a guest (\<^verbatim>\<open>kvm/x86.c\<close>): the class and type of a vector, the merging of a new
  exception with one that has not been delivered, the payload of debug exceptions and page faults,
  and the entry points through which the rest of the hypervisor queues exceptions.  Vector numbers,
  register masks and the processor mode belong to headers and to vendor code: they are the
  parameter \<open>xenv\<close>.
\<close>

section \<open>State\<close>

record exception_state =
  pending :: bool
  injected :: bool
  has_error_code :: bool
  nr :: nat
  error_code :: u32
  has_payload :: bool
  payload :: u64
  nested_apf :: bool

datatype req = REQ_EVENT | REQ_TRIPLE_FAULT | REQ_NMI

record xvcpu =
  exc :: exception_state
  x_dr6 :: u64
  x_cr2 :: u64
  requests :: "req set"
  pf_guest :: nat
  nested_apf_token :: u64
  nmi_queued :: nat
  skipped_insns :: nat
  invalidated :: "u64 list"

record x86_fault =
  f_error_code :: u32
  f_address :: u64
  async_page_fault :: bool
  nested_page_fault :: bool

record xenv =
  DE_VECTOR :: nat
  DB_VECTOR :: nat
  NMI_VECTOR :: nat
  BP_VECTOR :: nat
  OF_VECTOR :: nat
  UD_VECTOR :: nat
  DF_VECTOR :: nat
  TS_VECTOR :: nat
  NP_VECTOR :: nat
  SS_VECTOR :: nat
  GP_VECTOR :: nat
  PF_VECTOR :: nat
  MC_VECTOR :: nat
  DR_TRAP_BITS :: u64
  DR6_ACTIVE_LOW :: u64
  PFERR_PRESENT :: u32
  PFERR_RSVD :: u32
  guest_mode :: bool
  x_cpl :: nat
  cr4_de :: bool
  skip_result :: int
  mmu_inject :: "bool \<Rightarrow> x86_fault \<Rightarrow> xvcpu \<Rightarrow> xvcpu"
  inject_gp :: "xvcpu \<Rightarrow> xvcpu"

section \<open>Classes and types\<close>

datatype excpt_class = EXCPT_BENIGN | EXCPT_CONTRIBUTORY | EXCPT_PF

definition exception_class :: "xenv \<Rightarrow> nat \<Rightarrow> excpt_class" where
  "exception_class e vector =
     (if vector = PF_VECTOR e then EXCPT_PF
      else if vector = DE_VECTOR e \<or> vector = TS_VECTOR e \<or> vector = NP_VECTOR e \<or>
              vector = SS_VECTOR e \<or> vector = GP_VECTOR e then EXCPT_CONTRIBUTORY
      else EXCPT_BENIGN)"

datatype excpt_type = EXCPT_FAULT | EXCPT_TRAP | EXCPT_ABORT | EXCPT_INTERRUPT

definition exception_type :: "xenv \<Rightarrow> nat \<Rightarrow> excpt_type" where
  "exception_type e vector =
     (if vector > 31 \<or> vector = NMI_VECTOR e then EXCPT_INTERRUPT
      else
        let mask = push_bit vector (1 :: u32)
        in if mask AND (push_bit (DB_VECTOR e) 1 OR push_bit (BP_VECTOR e) 1 OR push_bit (OF_VECTOR e) 1) \<noteq> 0
           then EXCPT_TRAP
           else if mask AND (push_bit (DF_VECTOR e) 1 OR push_bit (MC_VECTOR e) 1) \<noteq> 0 then EXCPT_ABORT
           else EXCPT_FAULT)"

section \<open>Queueing\<close>

definition make_request :: "req \<Rightarrow> xvcpu \<Rightarrow> xvcpu" where
  "make_request r c = c\<lparr>requests := insert r (requests c)\<rparr>"

definition db_dr6 :: "xenv \<Rightarrow> u64 \<Rightarrow> u64 \<Rightarrow> u64" where
  "db_dr6 e p d =
     (let d1 = d AND NOT (DR_TRAP_BITS e);
          d2 = d1 OR DR6_ACTIVE_LOW e;
          d3 = d2 OR p;
          d4 = d3 XOR (p AND DR6_ACTIVE_LOW e)
      in d4 AND NOT (push_bit 12 1))"

definition kvm_deliver_exception_payload :: "xenv \<Rightarrow> xvcpu \<Rightarrow> xvcpu" where
  "kvm_deliver_exception_payload e c =
     (if \<not> has_payload (exc c) then c
      else
        let p = payload (exc c);
            c1 = (if nr (exc c) = DB_VECTOR e then c\<lparr>x_dr6 := db_dr6 e p (x_dr6 c)\<rparr>
                  else if nr (exc c) = PF_VECTOR e then c\<lparr>x_cr2 := p\<rparr>
                  else c)
        in c1\<lparr>exc := (exc c1)\<lparr>has_payload := False, payload := 0\<rparr>\<rparr>)"

text \<open>The code after the label \<open>queue\<close>.\<close>

definition queue_exc ::
  "xenv \<Rightarrow> nat \<Rightarrow> bool \<Rightarrow> u32 \<Rightarrow> bool \<Rightarrow> u64 \<Rightarrow> bool \<Rightarrow> xvcpu \<Rightarrow> xvcpu" where
  "queue_exc e n has_error code has_pl pl reinject c =
     (let (x, hp, p) =
            (if reinject then ((exc c)\<lparr>injected := True\<rparr>, False, if has_pl then 0 else pl)
             else ((exc c)\<lparr>pending := True, injected := False\<rparr>, has_pl, pl));
          x1 = x\<lparr>has_error_code := has_error, nr := n, error_code := code, has_payload := hp, payload := p\<rparr>;
          c1 = c\<lparr>exc := x1\<rparr>
      in if \<not> guest_mode e then kvm_deliver_exception_payload e c1 else c1)"

definition kvm_multiple_exception ::
  "xenv \<Rightarrow> nat \<Rightarrow> bool \<Rightarrow> u32 \<Rightarrow> bool \<Rightarrow> u64 \<Rightarrow> bool \<Rightarrow> xvcpu \<Rightarrow> xvcpu" where
  "kvm_multiple_exception e n has_error code has_pl pl reinject c0 =
     (let c = make_request REQ_EVENT c0
      in if \<not> pending (exc c) \<and> \<not> injected (exc c)
         then queue_exc e n has_error code has_pl pl reinject c
         else
           let prev_nr = nr (exc c)
           in if prev_nr = DF_VECTOR e then make_request REQ_TRIPLE_FAULT c
              else
                let class1 = exception_class e prev_nr; class2 = exception_class e n
                in if (class1 = EXCPT_CONTRIBUTORY \<and> class2 = EXCPT_CONTRIBUTORY) \<or>
                      (class1 = EXCPT_PF \<and> class2 \<noteq> EXCPT_BENIGN)
                   then c\<lparr>exc := (exc c)\<lparr>pending := True, injected := False, has_error_code := True,
                          nr := DF_VECTOR e, error_code := 0, has_payload := False, payload := 0\<rparr>\<rparr>
                   else queue_exc e n has_error code has_pl pl reinject c)"

definition kvm_queue_exception :: "xenv \<Rightarrow> nat \<Rightarrow> xvcpu \<Rightarrow> xvcpu" where
  "kvm_queue_exception e n = kvm_multiple_exception e n False 0 False 0 False"

definition kvm_requeue_exception :: "xenv \<Rightarrow> nat \<Rightarrow> xvcpu \<Rightarrow> xvcpu" where
  "kvm_requeue_exception e n = kvm_multiple_exception e n False 0 False 0 True"

definition kvm_queue_exception_p :: "xenv \<Rightarrow> nat \<Rightarrow> u64 \<Rightarrow> xvcpu \<Rightarrow> xvcpu" where
  "kvm_queue_exception_p e n pl = kvm_multiple_exception e n False 0 True pl False"

definition kvm_queue_exception_e_p :: "xenv \<Rightarrow> nat \<Rightarrow> u32 \<Rightarrow> u64 \<Rightarrow> xvcpu \<Rightarrow> xvcpu" where
  "kvm_queue_exception_e_p e n code pl = kvm_multiple_exception e n True code True pl False"

definition kvm_queue_exception_e :: "xenv \<Rightarrow> nat \<Rightarrow> u32 \<Rightarrow> xvcpu \<Rightarrow> xvcpu" where
  "kvm_queue_exception_e e n code = kvm_multiple_exception e n True code False 0 False"

definition kvm_requeue_exception_e :: "xenv \<Rightarrow> nat \<Rightarrow> u32 \<Rightarrow> xvcpu \<Rightarrow> xvcpu" where
  "kvm_requeue_exception_e e n code = kvm_multiple_exception e n True code False 0 True"

definition kvm_complete_insn_gp :: "xenv \<Rightarrow> int \<Rightarrow> xvcpu \<Rightarrow> int \<times> xvcpu" where
  "kvm_complete_insn_gp e er c =
     (if er \<noteq> 0 then (1, inject_gp e c)
      else (skip_result e, c\<lparr>skipped_insns := skipped_insns c + 1\<rparr>))"

definition kvm_inject_page_fault :: "xenv \<Rightarrow> x86_fault \<Rightarrow> xvcpu \<Rightarrow> xvcpu" where
  "kvm_inject_page_fault e f c =
     (let c1 = c\<lparr>pf_guest := pf_guest c + 1\<rparr>;
          apf = (guest_mode e \<and> async_page_fault f);
          c2 = c1\<lparr>exc := (exc c1)\<lparr>nested_apf := apf\<rparr>\<rparr>
      in if apf
         then kvm_queue_exception_e e (PF_VECTOR e) (f_error_code f) (c2\<lparr>nested_apf_token := f_address f\<rparr>)
         else kvm_queue_exception_e_p e (PF_VECTOR e) (f_error_code f) (f_address f) c2)"

definition kvm_inject_emulated_page_fault :: "xenv \<Rightarrow> x86_fault \<Rightarrow> xvcpu \<Rightarrow> bool \<times> xvcpu" where
  "kvm_inject_emulated_page_fault e f c =
     (let c1 = (if f_error_code f AND PFERR_PRESENT e \<noteq> 0 \<and> f_error_code f AND PFERR_RSVD e = 0
                then c\<lparr>invalidated := invalidated c @ [f_address f]\<rparr> else c)
      in (nested_page_fault f, mmu_inject e (nested_page_fault f) f c1))"

definition kvm_inject_nmi :: "xvcpu \<Rightarrow> xvcpu" where
  "kvm_inject_nmi c = make_request REQ_NMI (c\<lparr>nmi_queued := nmi_queued c + 1\<rparr>)"

definition kvm_require_cpl :: "xenv \<Rightarrow> nat \<Rightarrow> xvcpu \<Rightarrow> bool \<times> xvcpu" where
  "kvm_require_cpl e required_cpl c =
     (if x_cpl e \<le> required_cpl then (True, c)
      else (False, kvm_queue_exception_e e (GP_VECTOR e) 0 c))"

definition kvm_require_dr :: "xenv \<Rightarrow> nat \<Rightarrow> xvcpu \<Rightarrow> bool \<times> xvcpu" where
  "kvm_require_dr e dr c =
     (if (dr \<noteq> 4 \<and> dr \<noteq> 5) \<or> \<not> cr4_de e then (True, c)
      else (False, kvm_queue_exception e (UD_VECTOR e) c))"

text \<open>What the hypervisor may be asked to do between two entries of the guest.\<close>

datatype xrequest =
  Queue nat | Requeue nat | QueueP nat u64 | QueueE nat u32 | RequeueE nat u32
| PageFault x86_fault | Nmi | RequireCpl nat | RequireDr nat

fun xstep :: "xenv \<Rightarrow> xrequest \<Rightarrow> xvcpu \<Rightarrow> xvcpu" where
  "xstep e (Queue n) c = kvm_queue_exception e n c"
| "xstep e (Requeue n) c = kvm_requeue_exception e n c"
| "xstep e (QueueP n pl) c = kvm_queue_exception_p e n pl c"
| "xstep e (QueueE n code) c = kvm_queue_exception_e e n code c"
| "xstep e (RequeueE n code) c = kvm_requeue_exception_e e n code c"
| "xstep e (PageFault f) c = kvm_inject_page_fault e f c"
| "xstep e Nmi c = kvm_inject_nmi c"
| "xstep e (RequireCpl n) c = snd (kvm_require_cpl e n c)"
| "xstep e (RequireDr n) c = snd (kvm_require_dr e n c)"

section \<open>Abstract specification\<close>

text \<open>
  The architecture's view: at most one exception is waiting, and the table of the manual says what
  happens when another is raised.  A processor that has shut down stays shut down.
\<close>

datatype waiting = Free | Waiting nat | Shutdown nat

definition doubles :: "xenv \<Rightarrow> nat \<Rightarrow> nat \<Rightarrow> bool" where
  "doubles e p n \<longleftrightarrow>
     (let contributory = {DE_VECTOR e, TS_VECTOR e, NP_VECTOR e, SS_VECTOR e, GP_VECTOR e} - {PF_VECTOR e}
      in (p \<in> contributory \<and> n \<in> contributory) \<or> (p = PF_VECTOR e \<and> n \<in> insert (PF_VECTOR e) contributory))"

fun raise_exc :: "xenv \<Rightarrow> nat \<Rightarrow> waiting \<Rightarrow> waiting" where
  "raise_exc e n Free = Waiting n"
| "raise_exc e n (Waiting p) =
     (if p = DF_VECTOR e then Shutdown p else if doubles e p n then Waiting (DF_VECTOR e) else Waiting n)"
| "raise_exc e n (Shutdown p) = (if p = DF_VECTOR e then Shutdown p else Shutdown n)"

fun raised :: "xenv \<Rightarrow> xrequest \<Rightarrow> nat option" where
  "raised e (PageFault f) = Some (PF_VECTOR e)"
| "raised e Nmi = None"
| "raised e (RequireCpl n) = (if x_cpl e \<le> n then None else Some (GP_VECTOR e))"
| "raised e (RequireDr n) = (if (n \<noteq> 4 \<and> n \<noteq> 5) \<or> \<not> cr4_de e then None else Some (UD_VECTOR e))"
| "raised e (Queue n) = Some n" | "raised e (Requeue n) = Some n" | "raised e (QueueP n p) = Some n"
| "raised e (QueueE n c) = Some n" | "raised e (RequeueE n c) = Some n"

definition abs_waiting :: "xvcpu \<Rightarrow> waiting" where
  "abs_waiting c =
     (if REQ_TRIPLE_FAULT \<in> requests c then Shutdown (nr (exc c))
      else if pending (exc c) \<or> injected (exc c) then Waiting (nr (exc c)) else Free)"

section \<open>Refinement\<close>

lemma deliver_simps [simp]:
  "nr (exc (kvm_deliver_exception_payload e c)) = nr (exc c)"
  "pending (exc (kvm_deliver_exception_payload e c)) = pending (exc c)"
  "injected (exc (kvm_deliver_exception_payload e c)) = injected (exc c)"
  "requests (kvm_deliver_exception_payload e c) = requests c"
  "has_payload (exc (kvm_deliver_exception_payload e c)) = False"
  by (simp_all add: kvm_deliver_exception_payload_def Let_def)

lemma queue_simps [simp]:
  "nr (exc (queue_exc e n he code hp pl r c)) = n"
  "pending (exc (queue_exc e n he code hp pl r c)) = (if r then pending (exc c) else True)"
  "injected (exc (queue_exc e n he code hp pl r c)) = r"
  "requests (queue_exc e n he code hp pl r c) = requests c"
  by (simp_all add: queue_exc_def Let_def)

lemma doubles_classes:
  "doubles e p n \<longleftrightarrow> (exception_class e p = EXCPT_CONTRIBUTORY \<and> exception_class e n = EXCPT_CONTRIBUTORY) \<or>
     (exception_class e p = EXCPT_PF \<and> exception_class e n \<noteq> EXCPT_BENIGN)"
  by (auto simp: doubles_def exception_class_def Let_def)

definition has_exc :: "xvcpu \<Rightarrow> bool" where
  "has_exc c \<longleftrightarrow> pending (exc c) \<or> injected (exc c)"

definition exc_ok :: "xenv \<Rightarrow> xvcpu \<Rightarrow> bool" where
  "exc_ok e c \<longleftrightarrow> (REQ_TRIPLE_FAULT \<in> requests c \<longrightarrow> nr (exc c) = DF_VECTOR e \<and> has_exc c)"

lemma multiple_refines:
  assumes "exc_ok e c"
  shows "abs_waiting (kvm_multiple_exception e n he code hp pl r c) = raise_exc e n (abs_waiting c)"
    and "exc_ok e (kvm_multiple_exception e n he code hp pl r c)"
  using assms
  by (auto simp: kvm_multiple_exception_def abs_waiting_def make_request_def Let_def doubles_classes exc_ok_def has_exc_def)

lemmas queue_defs = kvm_queue_exception_def kvm_requeue_exception_def kvm_queue_exception_p_def
  kvm_queue_exception_e_p_def kvm_queue_exception_e_def kvm_requeue_exception_e_def

lemma abs_upd [simp]:
  "abs_waiting (c\<lparr>pf_guest := k\<rparr>) = abs_waiting c" "abs_waiting (c\<lparr>nested_apf_token := t\<rparr>) = abs_waiting c"
  "abs_waiting (c\<lparr>exc := (exc c)\<lparr>nested_apf := b\<rparr>\<rparr>) = abs_waiting c"
  "abs_waiting (c\<lparr>exc := (exc c)\<lparr>nested_apf := b\<rparr>, nested_apf_token := t\<rparr>) = abs_waiting c"
  "abs_waiting (kvm_inject_nmi c) = abs_waiting c"
  by (simp_all add: abs_waiting_def kvm_inject_nmi_def make_request_def)

lemma ok_upd [simp]:
  "exc_ok e (c\<lparr>pf_guest := k\<rparr>) = exc_ok e c" "exc_ok e (c\<lparr>nested_apf_token := t\<rparr>) = exc_ok e c"
  "exc_ok e (c\<lparr>exc := (exc c)\<lparr>nested_apf := b\<rparr>\<rparr>) = exc_ok e c"
  "exc_ok e (kvm_inject_nmi c) = exc_ok e c"
  by (simp_all add: exc_ok_def has_exc_def kvm_inject_nmi_def make_request_def)

lemma page_fault_refines:
  assumes "exc_ok e c"
  shows "abs_waiting (kvm_inject_page_fault e f c) = raise_exc e (PF_VECTOR e) (abs_waiting c)"
    and "exc_ok e (kvm_inject_page_fault e f c)"
proof -
  let ?c = "\<lambda>b. (c\<lparr>pf_guest := pf_guest c + 1\<rparr>)\<lparr>exc := (exc c)\<lparr>nested_apf := b\<rparr>\<rparr>"
  have ok: "exc_ok e (?c b)" "exc_ok e ((?c b)\<lparr>nested_apf_token := f_address f\<rparr>)" for b
    using assms by (simp_all add: exc_ok_def has_exc_def)
  have ab: "abs_waiting (?c b) = abs_waiting c" "abs_waiting ((?c b)\<lparr>nested_apf_token := f_address f\<rparr>) = abs_waiting c" for b
    by (simp_all add: abs_waiting_def)
  show "abs_waiting (kvm_inject_page_fault e f c) = raise_exc e (PF_VECTOR e) (abs_waiting c)"
    using multiple_refines(1) [OF ok(1)] multiple_refines(1) [OF ok(2)] ab
    by (simp add: kvm_inject_page_fault_def queue_defs Let_def)
  show "exc_ok e (kvm_inject_page_fault e f c)"
    using multiple_refines(2) [OF ok(1)] multiple_refines(2) [OF ok(2)]
    by (simp add: kvm_inject_page_fault_def queue_defs Let_def)
qed

lemma xstep_refines:
  assumes "exc_ok e c"
  shows "abs_waiting (xstep e r c) = (case raised e r of None \<Rightarrow> abs_waiting c | Some n \<Rightarrow> raise_exc e n (abs_waiting c))
    \<and> exc_ok e (xstep e r c)"
  using assms
  by (cases r) (simp_all add: queue_defs multiple_refines page_fault_refines kvm_require_cpl_def kvm_require_dr_def)

definition spec_step :: "xenv \<Rightarrow> xrequest \<Rightarrow> waiting \<Rightarrow> waiting" where
  "spec_step e r w = (case raised e r of None \<Rightarrow> w | Some n \<Rightarrow> raise_exc e n w)"

lemma run_refines:
  "exc_ok e c \<Longrightarrow> abs_waiting (fold (xstep e) rs c) = fold (spec_step e) rs (abs_waiting c) \<and>
    exc_ok e (fold (xstep e) rs c)"
  by (induction rs arbitrary: c) (simp_all add: xstep_refines spec_step_def)


text \<open>
  Remark.  Three exceptions in a row, the first two contributory or page faults: after the
  second a double fault with error code 0 is pending, after the third the processor is asked to shut
  down, whatever the third is.
\<close>

theorem triple_fault:
  assumes "\<not> pending (exc c)" "\<not> injected (exc c)" "doubles e a b" "a \<noteq> DF_VECTOR e"
  shows "let c2 = kvm_queue_exception e b (kvm_queue_exception e a c); c3 = kvm_queue_exception e n c2
    in pending (exc c2) \<and> \<not> injected (exc c2) \<and> nr (exc c2) = DF_VECTOR e \<and> has_error_code (exc c2) \<and>
       error_code (exc c2) = 0 \<and> REQ_TRIPLE_FAULT \<in> requests c3 \<and> exc c3 = exc c2"
proof -
  define c1 where "c1 = kvm_queue_exception e a c"
  have c1: "pending (exc c1)" "nr (exc c1) = a"
    using assms by (simp_all add: c1_def kvm_queue_exception_def kvm_multiple_exception_def make_request_def Let_def)
  have c2: "exc (kvm_queue_exception e b c1) = (exc c1)\<lparr>pending := True, injected := False, has_error_code := True,
      nr := DF_VECTOR e, error_code := 0, has_payload := False, payload := 0\<rparr>"
    using c1 assms(3,4) unfolding doubles_classes
    by (auto simp: kvm_queue_exception_def kvm_multiple_exception_def make_request_def Let_def)
  have c3: "exc (kvm_queue_exception e n d) = exc d \<and> REQ_TRIPLE_FAULT \<in> requests (kvm_queue_exception e n d)"
    if "pending (exc d)" "nr (exc d) = DF_VECTOR e" for d
    using that by (simp add: kvm_queue_exception_def kvm_multiple_exception_def make_request_def Let_def)
  have "pending (exc (kvm_queue_exception e b c1))" "nr (exc (kvm_queue_exception e b c1)) = DF_VECTOR e"
    by (simp_all add: c2)
  from c3 [OF this] show ?thesis by (simp add: Let_def c1_def [symmetric] c2)
qed

text \<open>The debug status a \<open>#DB\<close> payload leaves, bit by bit.\<close>

lemma db_dr6_bits:
  assumes "i < 64"
  shows "bit (db_dr6 e p d) i \<longleftrightarrow> i \<noteq> 12 \<and>
    (if bit (DR6_ACTIVE_LOW e) i then \<not> bit p i else bit p i \<or> (bit d i \<and> \<not> bit (DR_TRAP_BITS e) i))"
proof -
  have "bit (4096 :: u64) i \<longleftrightarrow> i = 12" using bit_exp_iff [of 12 i, where 'a = u64] by auto
  then show ?thesis using assms by (auto simp: db_dr6_def Let_def bit_simps)
qed

section \<open>A concrete processor\<close>

definition intelX :: xenv where
  "intelX = \<lparr>DE_VECTOR = 0, DB_VECTOR = 1, NMI_VECTOR = 2, BP_VECTOR = 3, OF_VECTOR = 4, UD_VECTOR = 6,
     DF_VECTOR = 8, TS_VECTOR = 10, NP_VECTOR = 11, SS_VECTOR = 12, GP_VECTOR = 13, PF_VECTOR = 14, MC_VECTOR = 18,
     DR_TRAP_BITS = 0xf, DR6_ACTIVE_LOW = 0xffff0ff0, PFERR_PRESENT = 1, PFERR_RSVD = 8, guest_mode = False,
     x_cpl = 0, cr4_de = True, skip_result = 1, mmu_inject = (\<lambda>_ _ c. c), inject_gp = id\<rparr>"

definition freshX :: xvcpu where
  "freshX = \<lparr>exc = \<lparr>pending = False, injected = False, has_error_code = False, nr = 0, error_code = 0,
       has_payload = False, payload = 0, nested_apf = False\<rparr>,
     x_dr6 = 0xffff0ff0, x_cr2 = 0, requests = {}, pf_guest = 0, nested_apf_token = 0, nmi_queued = 0,
     skipped_insns = 0, invalidated = []\<rparr>"


theorem triple_fault_witness:
  "REQ_TRIPLE_FAULT \<in> requests (kvm_queue_exception intelX 3 (kvm_queue_exception intelX 13 (kvm_queue_exception intelX 14 freshX)))"
proof -
  have "doubles intelX 14 13" by (simp add: doubles_def intelX_def Let_def)
  then show ?thesis using triple_fault [of freshX intelX 14 13 3] by (simp add: freshX_def intelX_def Let_def)
qed
end
