(* ===== verification/KvmAsyncPf.thy ===== *)
theory KvmAsyncPf
  imports KvmException "HOL-Library.Multiset"
begin

unbundle bit_operations_syntax

text \<open>
  Asynchronous page faults of a guest (\<^verbatim>\<open>kvm/x86.c\<close>): the open-addressing table of the frames whose
  pages are being fetched, its deletion by backward shift, the delivery of \<open>page not present\<close> and
  \<open>page ready\<close> to the guest, and the states in which a virtual processor halts and runs again.
  The hash function \<open>hash_32\<close> and the size of the table belong to kernel headers: they are
  fields of the parameter \<open>aenv\<close>, with the size given by its binary logarithm, as the
  \<open>BUILD_BUG_ON\<close> of the code demands.  The queue of finished work items is the generic part of KVM,
  which is not in the repository: the calls into it are logged.
\<close>

section \<open>State\<close>

datatype mp_state = MP_RUNNABLE | MP_HALTED | MP_AP_RESET_HOLD | MP_INIT_RECEIVED | MP_UNINITIALIZED

datatype areq = REQ_APF_HALT | REQ_APF_READY

datatype aevent =
  ClearQueue | WakeupAll | CheckCompletion | SetIrq "16 word" | Kick | RetryFault u64 | BlockVcpu

datatype pv_feature = ASYNC_PF_VMEXIT | ASYNC_PF_INT | ASYNC_PF

record apf_state =
  gfns :: "u64 list"
  msr_en_val :: u64
  msr_int_val :: u64
  apf_vec :: "16 word"
  apf_gpa :: u64
  send_user_only :: bool
  delivery_as_pf_vmexit :: bool
  pageready_pending :: bool
  apf_halted :: bool

record avcpu =
  apf :: apf_state
  xv :: xvcpu
  areqs :: "areq set"
  mp :: mp_state
  pv_unhalted :: bool
  halt_exits :: nat
  exit_reason :: "nat option"
  area_flags :: u32
  area_token :: u32
  aevents :: "aevent list"

record async_work =
  w_gfn :: u64
  w_token :: u32
  w_cr2_or_gpa :: u64
  w_cr3 :: u64
  w_direct_map :: bool
  wakeup_all :: bool
  notpresent_injected :: bool

record aenv =
  xe :: xenv
  hash_32 :: "u32 \<Rightarrow> nat \<Rightarrow> u32"
  apf_order :: nat
  APF_ENABLED :: u64
  APF_SEND_ALWAYS :: u64
  APF_AS_PF_VMEXIT :: u64
  APF_AS_INT :: u64
  APF_VEC_MASK :: u64
  REASON_NOT_PRESENT :: u32
  pv_has :: "pv_feature \<Rightarrow> bool"
  lapic_in_kernel :: bool
  lapic_enabled :: bool
  needs_reinjection :: bool
  hlt_in_guest :: bool
  interrupt_allowed :: bool
  work_done :: bool
  apic_has_events :: bool
  nmi_ready :: bool
  smi_ready :: bool
  has_interrupt :: bool
  timer_pending :: bool
  cache_init_fails :: "u64 \<Rightarrow> bool"
  area_fails :: bool
  mmu_direct_map :: bool
  mmu_reload_fails :: bool
  guest_pgd :: u64
  pre_block_skips :: bool
  unhalt_requested :: bool
  nested_events :: "avcpu \<Rightarrow> avcpu"
  accept_events :: "avcpu \<Rightarrow> int \<times> avcpu"

definition log_ev :: "aevent \<Rightarrow> avcpu \<Rightarrow> avcpu" where
  "log_ev ev c = c\<lparr>aevents := aevents c @ [ev]\<rparr>"

section \<open>The table of frames\<close>

definition ASYNC_PF_PER_VCPU :: "aenv \<Rightarrow> u32" where
  "ASYNC_PF_PER_VCPU e = 2 ^ apf_order e"

definition kvm_async_pf_hash_reset :: "aenv \<Rightarrow> avcpu \<Rightarrow> avcpu" where
  "kvm_async_pf_hash_reset e c = c\<lparr>apf := (apf c)\<lparr>gfns := replicate (unat (ASYNC_PF_PER_VCPU e)) (- 1)\<rparr>\<rparr>"

definition kvm_async_pf_hash_fn :: "aenv \<Rightarrow> u64 \<Rightarrow> u32" where
  "kvm_async_pf_hash_fn e gfn = hash_32 e (ucast (gfn AND 0xffffffff)) (apf_order e)"

definition kvm_async_pf_next_probe :: "aenv \<Rightarrow> u32 \<Rightarrow> u32" where
  "kvm_async_pf_next_probe e key = (key + 1) AND (ASYNC_PF_PER_VCPU e - 1)"

text \<open>The loop of \<open>kvm_add_async_pf_gfn\<close>: it ends at the first free slot, and only there.\<close>

partial_function (option) add_probe :: "aenv \<Rightarrow> u64 list \<Rightarrow> u32 \<Rightarrow> u32 option" where
  "add_probe e g key =
     (if unat key < length g
      then if g ! unat key \<noteq> - 1 then add_probe e g (kvm_async_pf_next_probe e key) else Some key
      else None)"

definition kvm_add_async_pf_gfn :: "aenv \<Rightarrow> u64 \<Rightarrow> u64 list \<Rightarrow> u64 list option" where
  "kvm_add_async_pf_gfn e gfn g =
     map_option (\<lambda>key. g[unat key := gfn]) (add_probe e g (kvm_async_pf_hash_fn e gfn))"

fun slot_probe :: "aenv \<Rightarrow> u64 list \<Rightarrow> u64 \<Rightarrow> nat \<Rightarrow> u32 \<Rightarrow> u32 option" where
  "slot_probe e g gfn 0 key = Some key"
| "slot_probe e g gfn (Suc n) key =
     (if unat key < length g
      then if g ! unat key \<noteq> gfn \<and> g ! unat key \<noteq> - 1
           then slot_probe e g gfn n (kvm_async_pf_next_probe e key) else Some key
      else None)"

definition kvm_async_pf_gfn_slot :: "aenv \<Rightarrow> u64 list \<Rightarrow> u64 \<Rightarrow> u32 option" where
  "kvm_async_pf_gfn_slot e g gfn =
     slot_probe e g gfn (unat (ASYNC_PF_PER_VCPU e)) (kvm_async_pf_hash_fn e gfn)"

definition kvm_find_async_pf_gfn :: "aenv \<Rightarrow> u64 list \<Rightarrow> u64 \<Rightarrow> bool option" where
  "kvm_find_async_pf_gfn e g gfn =
     Option.bind (kvm_async_pf_gfn_slot e g gfn)
       (\<lambda>key. if unat key < length g then Some (g ! unat key = gfn) else None)"

text \<open>
  Deletion.  The inner loop either meets a free slot, which ends the function, or stops at an
  entry that must move into the hole \<open>i\<close>.
\<close>

datatype scan = Stop | Move u32

partial_function (option) del_scan :: "aenv \<Rightarrow> u64 list \<Rightarrow> u32 \<Rightarrow> u32 \<Rightarrow> scan option" where
  "del_scan e g i j0 =
     (let j = kvm_async_pf_next_probe e j0
      in if unat j < length g
         then if g ! unat j = - 1 then Some Stop
              else let k = kvm_async_pf_hash_fn e (g ! unat j)
                   in if (if i \<le> j then i < k \<and> k \<le> j else i < k \<or> k \<le> j)
                      then del_scan e g i j else Some (Move j)
         else None)"

partial_function (option) del_loop :: "aenv \<Rightarrow> u64 list \<Rightarrow> u32 \<Rightarrow> u32 \<Rightarrow> u64 list option" where
  "del_loop e g i j =
     (let g1 = g[unat i := - 1]
      in case del_scan e g1 i j of
           None \<Rightarrow> None
         | Some Stop \<Rightarrow> Some g1
         | Some (Move j1) \<Rightarrow> del_loop e (g1[unat i := g1 ! unat j1]) j1 j1)"

definition kvm_del_async_pf_gfn :: "aenv \<Rightarrow> u64 \<Rightarrow> u64 list \<Rightarrow> u64 list option" where
  "kvm_del_async_pf_gfn e gfn g =
     Option.bind (kvm_async_pf_gfn_slot e g gfn)
       (\<lambda>i. if unat i < length g
            then if g ! unat i \<noteq> gfn then Some g else del_loop e g i i
            else None)"

section \<open>Enabling the feature\<close>

definition kvm_pv_async_pf_enabled :: "aenv \<Rightarrow> avcpu \<Rightarrow> bool" where
  "kvm_pv_async_pf_enabled e c \<longleftrightarrow>
     (let m = APF_ENABLED e OR APF_AS_INT e in msr_en_val (apf c) AND m = m)"

definition kvm_pv_enable_async_pf :: "aenv \<Rightarrow> u64 \<Rightarrow> avcpu \<Rightarrow> nat \<times> avcpu" where
  "kvm_pv_enable_async_pf e data c =
     (let gpa = data AND NOT 0x3f
      in if data AND 0x30 \<noteq> 0 then (1, c)
         else if \<not> pv_has e ASYNC_PF_VMEXIT \<and> data AND APF_AS_PF_VMEXIT e \<noteq> 0 then (1, c)
         else if \<not> pv_has e ASYNC_PF_INT \<and> data AND APF_AS_INT e \<noteq> 0 then (1, c)
         else if \<not> lapic_in_kernel e then (if data \<noteq> 0 then 1 else 0, c)
         else
           let c1 = c\<lparr>apf := (apf c)\<lparr>msr_en_val := data\<rparr>\<rparr>
           in if \<not> kvm_pv_async_pf_enabled e c1
              then (0, kvm_async_pf_hash_reset e (log_ev ClearQueue c1))
              else if cache_init_fails e gpa then (1, c1)
              else (0, log_ev WakeupAll
                     (c1\<lparr>apf := (apf c1)\<lparr>apf_gpa := gpa, send_user_only := (data AND APF_SEND_ALWAYS e = 0),
                        delivery_as_pf_vmexit := (data AND APF_AS_PF_VMEXIT e \<noteq> 0)\<rparr>\<rparr>)))"

definition kvm_pv_enable_async_pf_int :: "aenv \<Rightarrow> u64 \<Rightarrow> avcpu \<Rightarrow> nat \<times> avcpu" where
  "kvm_pv_enable_async_pf_int e data c =
     (if drop_bit 8 data \<noteq> 0 then (1, c)
      else if \<not> lapic_in_kernel e then (1, c)
      else (0, c\<lparr>apf := (apf c)\<lparr>msr_int_val := data, apf_vec := ucast (data AND APF_VEC_MASK e)\<rparr>\<rparr>))"

datatype apf_msr = MSR_ASYNC_PF_EN | MSR_ASYNC_PF_INT | MSR_ASYNC_PF_ACK

fun set_msr_apf :: "aenv \<Rightarrow> apf_msr \<Rightarrow> u64 \<Rightarrow> avcpu \<Rightarrow> nat \<times> avcpu" where
  "set_msr_apf e MSR_ASYNC_PF_EN data c =
     (if \<not> pv_has e ASYNC_PF then (1, c)
      else let (r, c1) = kvm_pv_enable_async_pf e data c in (if r \<noteq> 0 then 1 else 0, c1))"
| "set_msr_apf e MSR_ASYNC_PF_INT data c =
     (if \<not> pv_has e ASYNC_PF_INT then (1, c)
      else let (r, c1) = kvm_pv_enable_async_pf_int e data c in (if r \<noteq> 0 then 1 else 0, c1))"
| "set_msr_apf e MSR_ASYNC_PF_ACK data c =
     (if \<not> pv_has e ASYNC_PF_INT then (1, c)
      else if data AND 1 \<noteq> 0
           then (0, log_ev CheckCompletion (c\<lparr>apf := (apf c)\<lparr>pageready_pending := False\<rparr>\<rparr>))
           else (0, c))"

fun get_msr_apf :: "aenv \<Rightarrow> apf_msr \<Rightarrow> avcpu \<Rightarrow> u64 option" where
  "get_msr_apf e MSR_ASYNC_PF_EN c = (if \<not> pv_has e ASYNC_PF then None else Some (msr_en_val (apf c)))"
| "get_msr_apf e MSR_ASYNC_PF_INT c = (if \<not> pv_has e ASYNC_PF_INT then None else Some (msr_int_val (apf c)))"
| "get_msr_apf e MSR_ASYNC_PF_ACK c = (if \<not> pv_has e ASYNC_PF_INT then None else Some 0)"

section \<open>Telling the guest\<close>

definition apf_put_user_notpresent :: "aenv \<Rightarrow> avcpu \<Rightarrow> nat \<times> avcpu" where
  "apf_put_user_notpresent e c =
     (if area_fails e then (1, c) else (0, c\<lparr>area_flags := REASON_NOT_PRESENT e\<rparr>))"

definition apf_put_user_ready :: "aenv \<Rightarrow> u32 \<Rightarrow> avcpu \<Rightarrow> nat \<times> avcpu" where
  "apf_put_user_ready e token c = (if area_fails e then (1, c) else (0, c\<lparr>area_token := token\<rparr>))"

definition apf_pageready_slot_free :: "aenv \<Rightarrow> avcpu \<Rightarrow> bool" where
  "apf_pageready_slot_free e c = (if area_fails e then False else area_token c = 0)"

definition kvm_can_deliver_async_pf :: "aenv \<Rightarrow> avcpu \<Rightarrow> bool" where
  "kvm_can_deliver_async_pf e c =
     (if \<not> delivery_as_pf_vmexit (apf c) \<and> guest_mode (xe e) then False
      else if \<not> kvm_pv_async_pf_enabled e c \<or> (send_user_only (apf c) \<and> x_cpl (xe e) = 0) then False
      else True)"

definition kvm_can_do_async_pf :: "aenv \<Rightarrow> avcpu \<Rightarrow> bool" where
  "kvm_can_do_async_pf e c =
     (if \<not> lapic_in_kernel e \<or> needs_reinjection e \<or> pending (exc (xv c)) then False
      else if hlt_in_guest e \<and> \<not> kvm_can_deliver_async_pf e c then False
      else interrupt_allowed e)"

definition kvm_arch_async_page_not_present :: "aenv \<Rightarrow> async_work \<Rightarrow> avcpu \<Rightarrow> (bool \<times> avcpu) option" where
  "kvm_arch_async_page_not_present e work c =
     do {
       g \<leftarrow> kvm_add_async_pf_gfn e (w_gfn work) (gfns (apf c));
       let c1 = c\<lparr>apf := (apf c)\<lparr>gfns := g\<rparr>\<rparr>;
       let (r, c2) = (if kvm_can_deliver_async_pf e c1 then apf_put_user_notpresent e c1 else (1, c1));
       Some (if r = 0
             then (True, c2\<lparr>xv := kvm_inject_page_fault (xe e)
                     \<lparr>f_error_code = 0, f_address = ucast (w_token work), async_page_fault = True,
                      nested_page_fault = False\<rparr> (xv c2)\<rparr>)
             else (False, c2\<lparr>areqs := insert REQ_APF_HALT (areqs c2)\<rparr>))
     }"

definition kvm_arch_async_page_present :: "aenv \<Rightarrow> async_work \<Rightarrow> avcpu \<Rightarrow> avcpu option" where
  "kvm_arch_async_page_present e work c =
     do {
       let token = (if wakeup_all work then - 1 else w_token work);
       g \<leftarrow> (if wakeup_all work then Some (gfns (apf c)) else kvm_del_async_pf_gfn e (w_gfn work) (gfns (apf c)));
       let c1 = c\<lparr>apf := (apf c)\<lparr>gfns := g\<rparr>\<rparr>;
       let (r, c2) = (if (wakeup_all work \<or> notpresent_injected work) \<and> kvm_pv_async_pf_enabled e c1
                      then apf_put_user_ready e token c1 else (1, c1));
       let c3 = (if r = 0
                 then log_ev (SetIrq (apf_vec (apf c2))) (c2\<lparr>apf := (apf c2)\<lparr>pageready_pending := True\<rparr>\<rparr>)
                 else c2);
       Some (c3\<lparr>apf := (apf c3)\<lparr>apf_halted := False\<rparr>, mp := MP_RUNNABLE\<rparr>)
     }"

definition kvm_arch_async_page_ready :: "aenv \<Rightarrow> async_work \<Rightarrow> avcpu \<Rightarrow> avcpu" where
  "kvm_arch_async_page_ready e work c =
     (if mmu_direct_map e \<noteq> w_direct_map work \<or> wakeup_all work then c
      else if mmu_reload_fails e then c
      else if \<not> mmu_direct_map e \<and> w_cr3 work \<noteq> guest_pgd e then c
      else log_ev (RetryFault (w_cr2_or_gpa work)) c)"

definition kvm_arch_async_page_present_queued :: "avcpu \<Rightarrow> avcpu" where
  "kvm_arch_async_page_present_queued c =
     (let c1 = c\<lparr>areqs := insert REQ_APF_READY (areqs c)\<rparr>
      in if \<not> pageready_pending (apf c1) then log_ev Kick c1 else c1)"

definition kvm_arch_can_dequeue_async_page_present :: "aenv \<Rightarrow> avcpu \<Rightarrow> bool" where
  "kvm_arch_can_dequeue_async_page_present e c =
     (if \<not> kvm_pv_async_pf_enabled e c then True
      else lapic_enabled e \<and> apf_pageready_slot_free e c)"

section \<open>Halting and running\<close>

definition kvm_vcpu_halt' :: "aenv \<Rightarrow> mp_state \<Rightarrow> nat \<Rightarrow> avcpu \<Rightarrow> int \<times> avcpu" where
  "kvm_vcpu_halt' e st reason c =
     (let c1 = c\<lparr>halt_exits := halt_exits c + 1\<rparr>
      in if lapic_in_kernel e then (1, c1\<lparr>mp := st\<rparr>) else (0, c1\<lparr>exit_reason := Some reason\<rparr>))"

definition kvm_vcpu_halt :: "aenv \<Rightarrow> nat \<Rightarrow> avcpu \<Rightarrow> int \<times> avcpu" where
  "kvm_vcpu_halt e exit_hlt = kvm_vcpu_halt' e MP_HALTED exit_hlt"

definition skip_insn :: "aenv \<Rightarrow> avcpu \<Rightarrow> int \<times> avcpu" where
  "skip_insn e c = (let (r, x) = kvm_complete_insn_gp (xe e) 0 (xv c) in (r, c\<lparr>xv := x\<rparr>))"

definition kvm_emulate_halt :: "aenv \<Rightarrow> nat \<Rightarrow> avcpu \<Rightarrow> int \<times> avcpu" where
  "kvm_emulate_halt e exit_hlt c =
     (let (ret, c1) = skip_insn e c; (r, c2) = kvm_vcpu_halt e exit_hlt c1
      in (if r \<noteq> 0 \<and> ret \<noteq> 0 then 1 else 0, c2))"

definition kvm_emulate_ap_reset_hold :: "aenv \<Rightarrow> nat \<Rightarrow> avcpu \<Rightarrow> int \<times> avcpu" where
  "kvm_emulate_ap_reset_hold e exit_hold c =
     (let (ret, c1) = skip_insn e c; (r, c2) = kvm_vcpu_halt' e MP_AP_RESET_HOLD exit_hold c1
      in (if r \<noteq> 0 \<and> ret \<noteq> 0 then 1 else 0, c2))"

definition kvm_vcpu_running :: "aenv \<Rightarrow> avcpu \<Rightarrow> bool \<times> avcpu" where
  "kvm_vcpu_running e c =
     (let c1 = (if guest_mode (xe e) then nested_events e c else c)
      in (mp c1 = MP_RUNNABLE \<and> \<not> apf_halted (apf c1), c1))"

definition kvm_vcpu_has_events :: "aenv \<Rightarrow> avcpu \<Rightarrow> bool" where
  "kvm_vcpu_has_events e c \<longleftrightarrow>
     work_done e \<or> apic_has_events e \<or> pv_unhalted c \<or> pending (exc (xv c)) \<or>
     REQ_NMI \<in> requests (xv c) \<or> nmi_ready e \<or> smi_ready e \<or>
     (interrupt_allowed e \<and> has_interrupt e) \<or> timer_pending e"

definition kvm_arch_vcpu_runnable :: "aenv \<Rightarrow> avcpu \<Rightarrow> bool \<times> avcpu" where
  "kvm_arch_vcpu_runnable e c =
     (let (r, c1) = kvm_vcpu_running e c in (r \<or> kvm_vcpu_has_events e c1, c1))"

definition vcpu_unblock :: "aenv \<Rightarrow> avcpu \<Rightarrow> int \<times> avcpu" where
  "vcpu_unblock e c =
     (let (r, c1) = accept_events e c
      in if r < 0 then (0, c1)
         else case mp c1 of
                MP_HALTED \<Rightarrow> (1, c1\<lparr>pv_unhalted := False, mp := MP_RUNNABLE, apf := (apf c1)\<lparr>apf_halted := False\<rparr>\<rparr>)
              | MP_AP_RESET_HOLD \<Rightarrow> (1, c1\<lparr>pv_unhalted := False, mp := MP_RUNNABLE, apf := (apf c1)\<lparr>apf_halted := False\<rparr>\<rparr>)
              | MP_RUNNABLE \<Rightarrow> (1, c1\<lparr>apf := (apf c1)\<lparr>apf_halted := False\<rparr>\<rparr>)
              | MP_INIT_RECEIVED \<Rightarrow> (1, c1)
              | MP_UNINITIALIZED \<Rightarrow> (- 4, c1))"

definition vcpu_block :: "aenv \<Rightarrow> avcpu \<Rightarrow> int \<times> avcpu" where
  "vcpu_block e c =
     (let (r, c1) = kvm_arch_vcpu_runnable e c
      in if \<not> r \<and> \<not> pre_block_skips e
         then let c2 = log_ev BlockVcpu c1
              in if \<not> unhalt_requested e then (1, c2) else vcpu_unblock e c2
         else vcpu_unblock e c1)"

text \<open>The two requests of this component that \<open>vcpu_enter_guest\<close> serves: a synthetic halt leaves it.\<close>

definition serve_apf_halt :: "avcpu \<Rightarrow> bool \<times> avcpu" where
  "serve_apf_halt c =
     (if REQ_APF_HALT \<in> areqs c
      then (True, c\<lparr>areqs := areqs c - {REQ_APF_HALT}, apf := (apf c)\<lparr>apf_halted := True\<rparr>\<rparr>)
      else (False, c))"

definition serve_apf_ready :: "avcpu \<Rightarrow> avcpu" where
  "serve_apf_ready c =
     (if REQ_APF_READY \<in> areqs c
      then log_ev CheckCompletion (c\<lparr>areqs := areqs c - {REQ_APF_READY}\<rparr>) else c)"

section \<open>Cyclic distance\<close>

text \<open>
  \<open>cdist N a b\<close> is the number of probes that lead from slot \<open>a\<close> to slot \<open>b\<close> of a table of \<open>N\<close>
  slots.  Slot \<open>s\<close> lies on the probe path from \<open>a\<close> to \<open>p\<close> when it is strictly nearer to \<open>a\<close>.
\<close>

definition cdist :: "nat \<Rightarrow> nat \<Rightarrow> nat \<Rightarrow> nat" where
  "cdist N a b = (if a \<le> b then b - a else b + N - a)"

definition cnext :: "nat \<Rightarrow> nat \<Rightarrow> nat" where
  "cnext N a = (if Suc a = N then 0 else Suc a)"

lemma cdist_less: "a < N \<Longrightarrow> b < N \<Longrightarrow> cdist N a b < N"
  by (auto simp: cdist_def)

lemma cdist_self [simp]: "cdist N a a = 0"
  by (simp add: cdist_def)

lemma cdist_eq_0: "a < N \<Longrightarrow> b < N \<Longrightarrow> cdist N a b = 0 \<longleftrightarrow> a = b"
  by (auto simp: cdist_def)

lemma cdist_inj: "a < N \<Longrightarrow> b < N \<Longrightarrow> c < N \<Longrightarrow> cdist N a b = cdist N a c \<longleftrightarrow> b = c"
  by (auto simp: cdist_def split: if_splits)

lemma cnext_less: "a < N \<Longrightarrow> cnext N a < N"
  by (auto simp: cnext_def)

lemma cdist_next: "a < N \<Longrightarrow> b < N \<Longrightarrow> cdist N a (cnext N b) = (if cnext N b = a then 0 else Suc (cdist N a b))"
  by (auto simp: cdist_def cnext_def)

lemma cdist_next_start: "a < N \<Longrightarrow> b < N \<Longrightarrow> cnext N b = a \<longleftrightarrow> Suc (cdist N a b) = N"
  by (auto simp: cdist_def cnext_def)

text \<open>The comparison of the inner loop says that \<open>k\<close> lies cyclically in \<open>]i, j]\<close>.\<close>

lemma cyclic_interval:
  assumes "i < N" "j < N" "k < N" "i \<noteq> j"
  shows "(if i \<le> j then i < k \<and> k \<le> j else i < k \<or> k \<le> j) \<longleftrightarrow> \<not> cdist N k i < cdist N k j"
  using assms by (auto simp: cdist_def)

lemma cdist_between:
  assumes "k < N" "i < N" "s < N" "p < N" "cdist N k i < cdist N k p" "cdist N i s < cdist N i p"
  shows "cdist N k s < cdist N k p"
  using assms by (auto simp: cdist_def split: if_splits)

section \<open>Words of the table\<close>

definition apf_env_ok :: "aenv \<Rightarrow> bool" where
  "apf_env_ok e \<longleftrightarrow> apf_order e < 32 \<and> (\<forall>v b. b < 32 \<longrightarrow> unat (hash_32 e v b) < 2 ^ b)"

abbreviation slots :: "aenv \<Rightarrow> nat" where
  "slots e \<equiv> 2 ^ apf_order e"

definition home :: "aenv \<Rightarrow> u64 \<Rightarrow> nat" where
  "home e x = unat (kvm_async_pf_hash_fn e x)"

lemma home_less: "apf_env_ok e \<Longrightarrow> home e x < slots e"
  by (simp add: apf_env_ok_def home_def kvm_async_pf_hash_fn_def)

lemma unat_slots:
  assumes "apf_env_ok e"
  shows "unat (ASYNC_PF_PER_VCPU e) = slots e"
proof -
  have lt: "(2 :: nat) ^ apf_order e < 2 ^ 32"
    using assms by (intro power_strict_increasing) (auto simp: apf_env_ok_def)
  have eq: "ASYNC_PF_PER_VCPU e = of_nat (2 ^ apf_order e)"
    by (simp add: ASYNC_PF_PER_VCPU_def)
  show ?thesis using lt by (simp only: eq unat_of_nat) simp
qed

lemma unat_next_probe:
  assumes "apf_env_ok e" "unat key < slots e"
  shows "unat (kvm_async_pf_next_probe e key) = cnext (slots e) (unat key)"
proof -
  have o: "apf_order e < 32" using assms by (simp add: apf_env_ok_def)
  have p: "slots e \<le> 2 ^ 31" using o by (intro power_increasing) auto
  have "kvm_async_pf_next_probe e key = take_bit (apf_order e) (key + 1)"
    by (simp add: kvm_async_pf_next_probe_def ASYNC_PF_PER_VCPU_def take_bit_eq_mask mask_eq_exp_minus_1)
  moreover have "unat (key + 1) = unat key + 1"
    using assms(2) p by (simp add: unat_word_ariths)
  ultimately have "unat (kvm_async_pf_next_probe e key) = (unat key + 1) mod slots e"
    by (simp only: unsigned_take_bit_eq) (simp add: take_bit_eq_mod)
  then show ?thesis using assms(2) by (auto simp: cnext_def)
qed

section \<open>The invariant of the table\<close>

text \<open>No slot on the path from the home of an entry to the entry is free.\<close>

definition onpath :: "aenv \<Rightarrow> u64 \<Rightarrow> nat \<Rightarrow> nat \<Rightarrow> bool" where
  "onpath e x p s \<longleftrightarrow> cdist (slots e) (home e x) s < cdist (slots e) (home e x) p"

definition table_ok :: "aenv \<Rightarrow> u64 list \<Rightarrow> bool" where
  "table_ok e g \<longleftrightarrow> length g = slots e \<and>
     (\<forall>p < slots e. g ! p \<noteq> - 1 \<longrightarrow>
        (\<forall>s < slots e. onpath e (g ! p) p s \<longrightarrow> g ! s \<noteq> - 1))"

lemma table_okI:
  assumes "length g = slots e"
    and "\<And>p s. p < slots e \<Longrightarrow> g ! p \<noteq> - 1 \<Longrightarrow> s < slots e \<Longrightarrow> onpath e (g ! p) p s \<Longrightarrow> g ! s \<noteq> - 1"
  shows "table_ok e g"
  unfolding table_ok_def by (intro conjI allI impI) (rule assms; assumption?)+

lemma table_okD:
  assumes "table_ok e g"
  shows "length g = slots e"
    and "p < slots e \<Longrightarrow> g ! p \<noteq> - 1 \<Longrightarrow> s < slots e \<Longrightarrow> onpath e (g ! p) p s \<Longrightarrow> g ! s \<noteq> - 1"
  using assms unfolding table_ok_def by blast+

definition apf_ok :: "aenv \<Rightarrow> u64 list \<Rightarrow> bool" where
  "apf_ok e g \<longleftrightarrow> apf_env_ok e \<and> table_ok e g"

text \<open>The frames in the table, each as often as it was added.\<close>

definition frames :: "u64 list \<Rightarrow> u64 multiset" where
  "frames g = filter_mset (\<lambda>x. x \<noteq> - 1) (mset g)"

lemma frames_iff: "x \<in># frames g \<longleftrightarrow> x \<in> set g \<and> x \<noteq> - 1"
  by (simp add: frames_def)

lemma frames_update:
  assumes "i < length g"
  shows "frames (g[i := x]) + (if g ! i = - 1 then {#} else {# g ! i #}) =
         frames g + (if x = - 1 then {#} else {# x #})"
  using assms by (auto simp: frames_def mset_update in_multiset_in_set)

lemma frames_size: "size (frames g) \<le> length g"
  by (metis frames_def size_filter_mset_lesseq size_mset)

lemma frames_full: "size (frames g) < length g \<longleftrightarrow> - 1 \<in> set g"
proof -
  have "size (filter_mset (\<lambda>x. x \<noteq> - 1) (mset g)) + count (mset g) (- 1) = length g"
    by (induction g) auto
  moreover have "- 1 \<in> set g \<longleftrightarrow> 0 < count (mset g) (- 1)" by simp
  ultimately show ?thesis unfolding frames_def by linarith
qed

section \<open>Looking up\<close>

lemma slot_probe_result:
  assumes env: "apf_env_ok e" and len: "length g = slots e"
    and key: "unat key < slots e" and n: "n + cdist (slots e) a (unat key) = slots e" and a: "a < slots e"
    and before: "\<forall>s < slots e. cdist (slots e) a s < cdist (slots e) a (unat key) \<longrightarrow> g ! s \<noteq> gfn \<and> g ! s \<noteq> - 1"
  shows "\<exists>r. slot_probe e g gfn n key = Some r \<and> unat r < slots e \<and>
     ((\<forall>s < slots e. g ! s \<noteq> gfn \<and> g ! s \<noteq> - 1) \<or>
      (g ! unat r = gfn \<or> g ! unat r = - 1) \<and>
      (\<forall>s < slots e. cdist (slots e) a s < cdist (slots e) a (unat r) \<longrightarrow> g ! s \<noteq> gfn \<and> g ! s \<noteq> - 1))"
  using key n before
proof (induction n arbitrary: key)
  case 0
  then show ?case using cdist_less [OF a 0(1)] by simp
next
  case (Suc n)
  show ?case
  proof (cases "g ! unat key \<noteq> gfn \<and> g ! unat key \<noteq> - 1")
    case False
    then show ?thesis using Suc.prems len by auto
  next
    case True
    define k where "k = kvm_async_pf_next_probe e key"
    have k: "unat k = cnext (slots e) (unat key)" unfolding k_def by (rule unat_next_probe [OF env Suc.prems(1)])
    have kl: "unat k < slots e" using Suc.prems(1) by (simp add: k cnext_less)
    have upto: "g ! s \<noteq> gfn \<and> g ! s \<noteq> - 1"
      if "s < slots e" "cdist (slots e) a s \<le> cdist (slots e) a (unat key)" for s
      using that Suc.prems True cdist_inj [OF a that(1) Suc.prems(1)] by (metis le_neq_implies_less)
    have step: "slot_probe e g gfn (Suc n) key = slot_probe e g gfn n k"
      using True Suc.prems len by (simp add: k_def)
    show ?thesis
    proof (cases "unat k = a")
      case True
      then have "Suc (cdist (slots e) a (unat key)) = slots e"
        using cdist_next_start [OF a Suc.prems(1)] k by simp
      then have "n = 0" and "\<forall>s < slots e. g ! s \<noteq> gfn \<and> g ! s \<noteq> - 1"
        using Suc.prems(2) upto cdist_less [OF a] by (simp_all add: less_Suc_eq_le) (metis less_Suc_eq_le)
      then show ?thesis using step kl by auto
    next
      case False
      then have "cdist (slots e) a (unat k) = Suc (cdist (slots e) a (unat key))"
        using cdist_next [OF a Suc.prems(1)] k by simp
      then show ?thesis unfolding step using Suc.prems(2) upto kl by (intro Suc.IH) auto
    qed
  qed
qed

lemma gfn_slot_result:
  assumes "apf_ok e g"
  shows "\<exists>r. kvm_async_pf_gfn_slot e g gfn = Some r \<and> unat r < length g \<and> (gfn \<in> set g \<longrightarrow> gfn \<noteq> - 1 \<longrightarrow> g ! unat r = gfn)"
proof -
  have env: "apf_env_ok e" and ok: "table_ok e g" and len: "length g = slots e"
    using assms by (auto simp: apf_ok_def table_ok_def)
  obtain r where r: "kvm_async_pf_gfn_slot e g gfn = Some r" "unat r < slots e" and
    c: "(\<forall>s < slots e. g ! s \<noteq> gfn \<and> g ! s \<noteq> - 1) \<or> (g ! unat r = gfn \<or> g ! unat r = - 1) \<and>
      (\<forall>s < slots e. onpath e gfn (unat r) s \<longrightarrow> g ! s \<noteq> gfn \<and> g ! s \<noteq> - 1)"
    using slot_probe_result [OF env len, of "kvm_async_pf_hash_fn e gfn" "slots e" "home e gfn" gfn] home_less [OF env, of gfn]
    unfolding kvm_async_pf_gfn_slot_def unat_slots [OF env] onpath_def by (auto simp: home_def)
  have "g ! unat r = gfn" if "gfn \<in> set g" "gfn \<noteq> - 1"
  proof -
    obtain p where p: "p < slots e" "g ! p = gfn" using \<open>gfn \<in> set g\<close> len by (auto simp: in_set_conv_nth)
    with c have c: "g ! unat r = gfn \<or> g ! unat r = - 1"
      "\<not> onpath e gfn (unat r) p" by auto
    show ?thesis
    proof (cases "unat r = p")
      case False
      then have "onpath e gfn p (unat r)"
        using c(2) cdist_inj [OF home_less [OF env] r(2) p(1)] unfolding onpath_def by (metis linorder_neqE_nat)
      then show ?thesis using ok p r(2) that c(1) by (auto simp: table_ok_def)
    qed (use p in simp)
  qed
  then show ?thesis using r len by auto
qed

lemma find_correct:
  assumes "apf_ok e g" "gfn \<noteq> - 1"
  shows "kvm_find_async_pf_gfn e g gfn = Some (gfn \<in># frames g)"
  using gfn_slot_result [OF assms(1), of gfn] assms(2)
  by (auto simp: kvm_find_async_pf_gfn_def frames_iff)

section \<open>Adding\<close>

lemma add_probe_result:
  assumes env: "apf_env_ok e" and len: "length g = slots e" and a: "a < slots e"
    and key: "unat key < slots e" and free: "f < slots e" "g ! f = - 1"
    and near: "cdist (slots e) a (unat key) \<le> cdist (slots e) a f"
    and before: "\<forall>s < slots e. cdist (slots e) a s < cdist (slots e) a (unat key) \<longrightarrow> g ! s \<noteq> - 1"
  shows "\<exists>r. add_probe e g key = Some r \<and> unat r < slots e \<and> g ! unat r = - 1 \<and>
     (\<forall>s < slots e. cdist (slots e) a s < cdist (slots e) a (unat r) \<longrightarrow> g ! s \<noteq> - 1)"
  using key near before
proof (induction "cdist (slots e) a f - cdist (slots e) a (unat key)" arbitrary: key rule: less_induct)
  case less
  show ?case
  proof (cases "g ! unat key = - 1")
    case True
    then show ?thesis using less.prems len by (auto simp: add_probe.simps)
  next
    case False
    define k where "k = kvm_async_pf_next_probe e key"
    have k: "unat k = cnext (slots e) (unat key)" unfolding k_def by (rule unat_next_probe [OF env less.prems(1)])
    have kl: "unat k < slots e" using less.prems(1) by (simp add: k cnext_less)
    have lt: "cdist (slots e) a (unat key) < cdist (slots e) a f"
      using less.prems(2) False free cdist_inj [OF a less.prems(1) free(1)] by (metis le_neq_implies_less)
    then have "unat k \<noteq> a"
      using cdist_next_start [OF a less.prems(1)] cdist_less [OF a free(1)] k by simp
    then have d: "cdist (slots e) a (unat k) = Suc (cdist (slots e) a (unat key))"
      using cdist_next [OF a less.prems(1)] k by simp
    have "g ! s \<noteq> - 1" if "s < slots e" "cdist (slots e) a s < cdist (slots e) a (unat k)" for s
      using that less.prems False cdist_inj [OF a that(1) less.prems(1)] unfolding d by (metis less_antisym)
    moreover have "add_probe e g key = add_probe e g k"
      using False less.prems(1) len by (subst add_probe.simps) (simp add: k_def)
    ultimately show ?thesis using less.hyps [of k] lt d kl by simp
  qed
qed

lemma table_ok_fill:
  assumes ok: "table_ok e g" and p: "p < slots e" and x: "x \<noteq> - 1"
    and path: "\<forall>s < slots e. onpath e x p s \<longrightarrow> g ! s \<noteq> - 1"
  shows "table_ok e (g[p := x])"
proof (rule table_okI)
  have len: "length g = slots e" by (rule table_okD [OF ok])
  show "length (g[p := x]) = slots e" using len by simp
  fix q s assume q: "q < slots e" "g[p := x] ! q \<noteq> - 1" "s < slots e" "onpath e (g[p := x] ! q) q s"
  show "g[p := x] ! s \<noteq> - 1"
  proof (cases "s = p")
    case False
    have "onpath e x p s" if "q = p" using that q(4) len p by simp
    moreover have "g ! s \<noteq> - 1" if "q \<noteq> p" using that q table_okD(2) [OF ok q(1) _ q(3)] by simp
    ultimately show ?thesis using False path q(3) by (cases "q = p") simp_all
  qed (use x p len in simp)
qed

lemma add_correct:
  assumes ok: "apf_ok e g" and x: "x \<noteq> - 1" and room: "size (frames g) < slots e"
  shows "\<exists>g'. kvm_add_async_pf_gfn e x g = Some g' \<and> apf_ok e g' \<and> frames g' = add_mset x (frames g)"
proof -
  have env: "apf_env_ok e" and t: "table_ok e g" and len: "length g = slots e"
    using ok by (auto simp: apf_ok_def table_ok_def)
  obtain f where f: "f < slots e" "g ! f = - 1"
    using room len frames_full [of g] by (auto simp: in_set_conv_nth)
  obtain r where r: "add_probe e g (kvm_async_pf_hash_fn e x) = Some r" "unat r < slots e" "g ! unat r = - 1"
    "\<forall>s < slots e. onpath e x (unat r) s \<longrightarrow> g ! s \<noteq> - 1"
    using add_probe_result [OF env len home_less [OF env] _ f, of "kvm_async_pf_hash_fn e x" x] home_less [OF env, of x]
    unfolding onpath_def by (auto simp: home_def)
  have "frames (g[unat r := x]) = add_mset x (frames g)"
    using frames_update [of "unat r" g x] r len x by simp
  then show ?thesis
    using r env table_ok_fill [OF t r(2) x r(4)] by (simp add: kvm_add_async_pf_gfn_def apf_ok_def)
qed

text \<open>In a full table the loop of \<open>kvm_add_async_pf_gfn\<close> never ends.\<close>

lemma add_probe_free: "add_probe e g key = Some r \<Longrightarrow> unat r < length g \<and> g ! unat r = - 1"
  by (induction rule: add_probe.raw_induct [rotated, consumes 1]) (auto split: if_splits)

lemma add_full:
  assumes "length g \<le> size (frames g)"
  shows "kvm_add_async_pf_gfn e x g = None"
proof (rule ccontr)
  assume "kvm_add_async_pf_gfn e x g \<noteq> None"
  then obtain r where "add_probe e g (kvm_async_pf_hash_fn e x) = Some r"
    by (auto simp: kvm_add_async_pf_gfn_def)
  then have "- 1 \<in> set g" using add_probe_free by (metis nth_mem)
  then show False using assms frames_full [of g] by simp
qed

section \<open>Deleting\<close>

text \<open>
  While an entry is being deleted the table has a hole \<open>i\<close>.  Every path is free of gaps except for
  the hole, and no entry in \<open>]i, j]\<close> has the hole on its path.
\<close>

definition hole_ok :: "aenv \<Rightarrow> u64 list \<Rightarrow> nat \<Rightarrow> nat \<Rightarrow> bool" where
  "hole_ok e g i j \<longleftrightarrow> length g = slots e \<and> i < slots e \<and> j < slots e \<and> g ! i = - 1 \<and>
     (\<forall>p < slots e. g ! p \<noteq> - 1 \<longrightarrow>
        (\<forall>s < slots e. s \<noteq> i \<longrightarrow> onpath e (g ! p) p s \<longrightarrow> g ! s \<noteq> - 1) \<and>
        (onpath e (g ! p) p i \<longrightarrow>
           cdist (slots e) i j < cdist (slots e) i p))"

lemma hole_okD:
  assumes "hole_ok e g i j"
  shows "length g = slots e" "i < slots e" "j < slots e" "g ! i = - 1"
    and "p < slots e \<Longrightarrow> g ! p \<noteq> - 1 \<Longrightarrow> s < slots e \<Longrightarrow> s \<noteq> i \<Longrightarrow> onpath e (g ! p) p s \<Longrightarrow> g ! s \<noteq> - 1"
    and "p < slots e \<Longrightarrow> g ! p \<noteq> - 1 \<Longrightarrow> onpath e (g ! p) p i \<Longrightarrow> cdist (slots e) i j < cdist (slots e) i p"
  using assms unfolding hole_ok_def by blast+

lemma hole_okI:
  assumes "length g = slots e" "i < slots e" "j < slots e" "g ! i = - 1"
    and "\<And>p s. p < slots e \<Longrightarrow> g ! p \<noteq> - 1 \<Longrightarrow> s < slots e \<Longrightarrow> s \<noteq> i \<Longrightarrow> onpath e (g ! p) p s \<Longrightarrow> g ! s \<noteq> - 1"
    and "\<And>p. p < slots e \<Longrightarrow> g ! p \<noteq> - 1 \<Longrightarrow> onpath e (g ! p) p i \<Longrightarrow> cdist (slots e) i j < cdist (slots e) i p"
  shows "hole_ok e g i j"
  unfolding hole_ok_def by (intro conjI allI impI) (rule assms; assumption?)+

lemma hole_start:
  assumes ok: "table_ok e g" and i: "i < slots e"
  shows "hole_ok e (g[i := - 1]) i i"
proof (rule hole_okI)
  note T = table_okD [OF ok]
  show "length (g[i := - 1]) = slots e" "g[i := - 1] ! i = - 1" using T(1) i by simp_all
  fix p assume p: "p < slots e" "g[i := - 1] ! p \<noteq> - 1"
  then have "p \<noteq> i" using T(1) i by auto
  then show "cdist (slots e) i i < cdist (slots e) i p" using cdist_eq_0 [OF i p(1)] by simp
  fix s assume "s < slots e" "s \<noteq> i" "onpath e (g[i := - 1] ! p) p s"
  then show "g[i := - 1] ! s \<noteq> - 1" using p T(2) [OF p(1), of s] \<open>p \<noteq> i\<close> by simp
qed (rule i)+

lemma hole_stop:
  assumes env: "apf_env_ok e" and h: "hole_ok e g i j" and free: "g ! cnext (slots e) j = - 1"
  shows "table_ok e g"
proof -
  note H = hole_okD [OF h]
  let ?N = "slots e"
  have j': "cnext ?N j < ?N" using H(3) by (rule cnext_less)
  have "\<not> onpath e (g ! p) p i" if p: "p < ?N" "g ! p \<noteq> - 1" for p
  proof
    assume on: "onpath e (g ! p) p i"
    have far: "cdist ?N i j < cdist ?N i p" using H(6) [OF p on] .
    then have ne: "cnext ?N j \<noteq> i"
      using cdist_next_start [OF H(2) H(3)] cdist_less [OF H(2) p(1)] by auto
    then have "cdist ?N i (cnext ?N j) = Suc (cdist ?N i j)" using cdist_next [OF H(2) H(3)] by simp
    moreover have "cnext ?N j \<noteq> p" using free p(2) by auto
    ultimately have "cdist ?N i (cnext ?N j) < cdist ?N i p"
      using far cdist_inj [OF H(2) j' p(1)] by (metis Suc_leI le_neq_implies_less)
    then have "onpath e (g ! p) p (cnext ?N j)"
      using cdist_between [OF home_less [OF env] H(2) j' p(1) on [unfolded onpath_def]] by (simp add: onpath_def)
    then show False using H(5) [OF p j' ne] free by simp
  qed
  then show ?thesis unfolding table_ok_def using H(1,5) by metis
qed

lemma hole_scan:
  assumes h: "hole_ok e g i j" and j': "cnext (slots e) j \<noteq> i"
    and stay: "\<not> onpath e (g ! cnext (slots e) j) (cnext (slots e) j) i"
  shows "hole_ok e g i (cnext (slots e) j)"
proof -
  note H = hole_okD [OF h]
  let ?N = "slots e"
  have d: "cdist ?N i (cnext ?N j) = Suc (cdist ?N i j)" using cdist_next [OF H(2) H(3)] j' by simp
  have "cdist ?N i (cnext ?N j) < cdist ?N i p"
    if "p < ?N" "g ! p \<noteq> - 1" "onpath e (g ! p) p i" for p
  proof -
    have "cdist ?N i j < cdist ?N i p" using H(6) that .
    moreover have "cnext ?N j \<noteq> p" using that(3) stay by auto
    ultimately show ?thesis
      using d cdist_inj [OF H(2) cnext_less [OF H(3)] that(1)] by (metis Suc_leI le_neq_implies_less)
  qed
  then show ?thesis using h cnext_less [OF H(3)] unfolding hole_ok_def by metis
qed

lemma hole_move:
  assumes h: "hole_ok e g i j" and q: "q < slots e" "g ! q \<noteq> - 1" and over: "onpath e (g ! q) q i"
  shows "hole_ok e (g[i := g ! q, q := - 1]) q q"
proof (rule hole_okI)
  note H = hole_okD [OF h]
  let ?g = "g[i := g ! q, q := - 1]"
  have ne: "q \<noteq> i" using q H(4) by auto
  show "length ?g = slots e" "?g ! q = - 1" using H(1) q by simp_all
  fix p assume p: "p < slots e" "?g ! p \<noteq> - 1"
  then have "p \<noteq> q" using H(1) by auto
  then show "cdist (slots e) q q < cdist (slots e) q p" using cdist_eq_0 [OF q(1) p(1)] by simp
  fix s assume s: "s < slots e" "s \<noteq> q" "onpath e (?g ! p) p s"
  show "?g ! s \<noteq> - 1"
  proof (cases "s = i")
    case True
    then show ?thesis using H(1,2) q ne by simp
  next
    case False
    show ?thesis
    proof (cases "p = i")
      case True
      then have "onpath e (g ! q) q s" using s(3) over H(1) ne p by (simp add: onpath_def)
      then show ?thesis using H(1) H(5) [OF q s(1) False] False s(2) by simp
    next
      assume "p \<noteq> i"
      then show ?thesis using p s H(1) H(5) [OF p(1) _ s(1)] False \<open>p \<noteq> q\<close> by simp
    qed
  qed
qed (rule q)+

text \<open>Every move brings an entry nearer to its home.\<close>

definition displacement :: "aenv \<Rightarrow> u64 list \<Rightarrow> nat" where
  "displacement e g = (\<Sum>p < slots e. if g ! p = - 1 then 0 else cdist (slots e) (home e (g ! p)) p)"

lemma displacement_move:
  assumes h: "hole_ok e g i j" and q: "q < slots e" "g ! q \<noteq> - 1" and over: "onpath e (g ! q) q i"
  shows "displacement e (g[i := g ! q, q := - 1]) < displacement e g"
proof -
  note H = hole_okD [OF h]
  let ?g = "g[i := g ! q, q := - 1]"
  let ?w = "\<lambda>g p. if g ! p = - 1 then 0 else cdist (slots e) (home e (g ! p)) p"
  have ne: "q \<noteq> i" using q H(4) by auto
  have split: "displacement e k = ?w k i + (?w k q + (\<Sum>p \<in> {..<slots e} - {i} - {q}. ?w k p))" for k
    unfolding displacement_def using H(2) q ne by (simp add: sum.remove [of _ i] sum.remove [of _ q])
  have same: "(\<Sum>p \<in> {..<slots e} - {i} - {q}. ?w ?g p) = (\<Sum>p \<in> {..<slots e} - {i} - {q}. ?w g p)"
    by (rule sum.cong) auto
  have "?w ?g i < ?w g q" "?w ?g q = 0"
    using H(1,2,4) q ne over by (simp_all add: onpath_def)
  then show ?thesis unfolding split [of ?g] split [of g] same by linarith
qed

lemma del_scan_result:
  assumes env: "apf_env_ok e" and h: "hole_ok e g (unat i) (unat j)"
  shows "del_scan e g i j = Some Stop \<and> table_ok e g \<or>
    (\<exists>q. del_scan e g i j = Some (Move q) \<and> unat q < slots e \<and> g ! unat q \<noteq> - 1 \<and> onpath e (g ! unat q) (unat q) (unat i))"
  using h
proof (induction "slots e - cdist (slots e) (unat i) (unat j)" arbitrary: j rule: less_induct)
  case less
  note H = hole_okD [OF less.prems]
  define q where "q = kvm_async_pf_next_probe e j"
  have q: "unat q = cnext (slots e) (unat j)" unfolding q_def by (rule unat_next_probe [OF env H(3)])
  have ql: "unat q < slots e" using H(3) by (simp add: q cnext_less)
  show ?case
  proof (cases "g ! unat q = - 1")
    case True
    then have "del_scan e g i j = Some Stop"
      using ql H(1) by (subst del_scan.simps) (simp add: q_def)
    then show ?thesis using hole_stop [OF env less.prems] True by (simp add: q)
  next
    case False
    then have ne: "unat q \<noteq> unat i" using H(4) by auto
    have test: "(if i \<le> q then i < kvm_async_pf_hash_fn e (g ! unat q) \<and> kvm_async_pf_hash_fn e (g ! unat q) \<le> q
         else i < kvm_async_pf_hash_fn e (g ! unat q) \<or> kvm_async_pf_hash_fn e (g ! unat q) \<le> q) \<longleftrightarrow>
         \<not> onpath e (g ! unat q) (unat q) (unat i)"
      using cyclic_interval [OF H(2) ql home_less [OF env], of "g ! unat q"] ne
      unfolding onpath_def home_def word_le_nat_alt word_less_nat_alt by simp
    show ?thesis
    proof (cases "onpath e (g ! unat q) (unat q) (unat i)")
      case True
      then have "del_scan e g i j = Some (Move q)"
        using False ql H(1) test unfolding q_def by (subst del_scan.simps) (simp only: Let_def simp_thms if_True if_False)
      then show ?thesis using True False ql by blast
    next
      case stay: False
      then have "del_scan e g i j = del_scan e g i q"
        using False ql H(1) test unfolding q_def by (subst del_scan.simps) (simp only: Let_def simp_thms if_True if_False, erule if_P)
      moreover have "hole_ok e g (unat i) (unat q)"
        using hole_scan [OF less.prems] ne stay unfolding q by blast
      moreover have "cdist (slots e) (unat i) (unat q) = Suc (cdist (slots e) (unat i) (unat j))"
        using cdist_next [OF H(2) H(3)] ne q by simp
      ultimately show ?thesis
        using less.hyps [of q] cdist_less [OF H(2) H(3)] by simp
    qed
  qed
qed

lemma del_loop_result:
  assumes env: "apf_env_ok e" and h: "hole_ok e (g[unat i := - 1]) (unat i) (unat i)" and len: "length g = slots e"
  shows "\<exists>g'. del_loop e g i i = Some g' \<and> table_ok e g' \<and> frames g' = frames (g[unat i := - 1])"
  using h len
proof (induction "displacement e (g[unat i := - 1])" arbitrary: g i rule: less_induct)
  case less
  define g1 where "g1 = g[unat i := - 1]"
  have h: "hole_ok e g1 (unat i) (unat i)" using less.prems(1) by (simp add: g1_def)
  note H = hole_okD [OF h]
  consider (stop) "del_scan e g1 i i = Some Stop" "table_ok e g1"
    | (move) q where "del_scan e g1 i i = Some (Move q)" "unat q < slots e" "g1 ! unat q \<noteq> - 1"
        "onpath e (g1 ! unat q) (unat q) (unat i)"
    using del_scan_result [OF env h] by blast
  then show ?case
  proof cases
    case stop
    then show ?thesis by (subst del_loop.simps) (simp add: g1_def)
  next
    case move
    let ?g = "g1[unat i := g1 ! unat q]"
    have step: "del_loop e g i i = del_loop e ?g q q"
      using move(1) by (subst del_loop.simps) (simp add: g1_def Let_def)
    have ne: "unat q \<noteq> unat i" using move(3) H(4) by auto
    have "frames ?g = frames g1 + {# g1 ! unat q #}"
      using frames_update [of "unat i" g1 "g1 ! unat q"] H(1,2,4) move(3) by simp
    moreover have "frames (?g[unat q := - 1]) + {# g1 ! unat q #} = frames ?g"
      using frames_update [of "unat q" ?g "- 1"] H(1) move(2,3) ne by simp
    ultimately have "frames (?g[unat q := - 1]) = frames g1" by simp
    then show ?thesis
      using less.hyps [of ?g q] displacement_move [OF h move(2-4)] hole_move [OF h move(2-4)] H(1)
      unfolding step g1_def [symmetric] by auto
  qed
qed

lemma del_correct:
  assumes ok: "apf_ok e g" and x: "x \<noteq> - 1"
  shows "\<exists>g'. kvm_del_async_pf_gfn e x g = Some g' \<and> apf_ok e g' \<and> frames g' = frames g - {# x #}"
proof -
  have env: "apf_env_ok e" and t: "table_ok e g" and len: "length g = slots e"
    using ok by (auto simp: apf_ok_def table_ok_def)
  obtain r where r: "kvm_async_pf_gfn_slot e g x = Some r" "unat r < length g" "x \<in> set g \<longrightarrow> g ! unat r = x"
    using gfn_slot_result [OF ok, of x] x by auto
  show ?thesis
  proof (cases "g ! unat r = x")
    case True
    obtain g' where g': "del_loop e g r r = Some g'" "table_ok e g'" "frames g' = frames (g[unat r := - 1])"
      using del_loop_result [OF env hole_start [OF t] len, of r] r(2) len by auto
    have "frames (g[unat r := - 1]) + {# x #} = frames g"
      using frames_update [OF r(2), of "- 1"] True x by simp
    then have "frames (g[unat r := - 1]) = frames g - {# x #}" by (metis add_diff_cancel_right')
    then show ?thesis using r g' True env by (auto simp: kvm_del_async_pf_gfn_def apf_ok_def)
  next
    case False
    then have "x \<notin># frames g" using r(3) by (auto simp: frames_iff)
    then show ?thesis using r ok False by (auto simp: kvm_del_async_pf_gfn_def diff_single_trivial)
  qed
qed

lemma reset_correct:
  assumes "apf_env_ok e"
  shows "apf_ok e (gfns (apf (kvm_async_pf_hash_reset e c)))" "frames (gfns (apf (kvm_async_pf_hash_reset e c))) = {#}"
proof -
  have "table_ok e (replicate (slots e) (- 1))" by (rule table_okI) simp_all
  then show "apf_ok e (gfns (apf (kvm_async_pf_hash_reset e c)))"
    using assms by (simp add: apf_ok_def kvm_async_pf_hash_reset_def unat_slots)
qed (simp add: assms kvm_async_pf_hash_reset_def unat_slots frames_def)

section \<open>The interface of the table\<close>

text \<open>What the users of the table rely on: it is a bag of frames with a fixed capacity.\<close>

datatype 'k bag_op = Fault 'k | Ready 'k | Query 'k

fun op_key :: "'k bag_op \<Rightarrow> 'k" where
  "op_key (Fault k) = k" | "op_key (Ready k) = k" | "op_key (Query k) = k"

fun run_bag :: "('k \<Rightarrow> 't \<Rightarrow> 't option) \<Rightarrow> ('k \<Rightarrow> 't \<Rightarrow> 't option) \<Rightarrow> ('t \<Rightarrow> 'k \<Rightarrow> bool option) \<Rightarrow>
    'k bag_op list \<Rightarrow> 't \<Rightarrow> ('t \<times> bool list) option" where
  "run_bag add del look [] t = Some (t, [])"
| "run_bag add del look (Fault k # ops) t = Option.bind (add k t) (run_bag add del look ops)"
| "run_bag add del look (Ready k # ops) t = Option.bind (del k t) (run_bag add del look ops)"
| "run_bag add del look (Query k # ops) t =
     Option.bind (look t k) (\<lambda>b. map_option (map_prod id ((#) b)) (run_bag add del look ops t))"

fun spec_bag :: "nat \<Rightarrow> 'k bag_op list \<Rightarrow> 'k multiset \<Rightarrow> ('k multiset \<times> bool list) option" where
  "spec_bag cap [] m = Some (m, [])"
| "spec_bag cap (Fault k # ops) m = (if size m < cap then spec_bag cap ops (add_mset k m) else None)"
| "spec_bag cap (Ready k # ops) m = spec_bag cap ops (m - {# k #})"
| "spec_bag cap (Query k # ops) m = map_option (map_prod id ((#) (k \<in># m))) (spec_bag cap ops m)"

locale frame_bag =
  fixes add :: "'k \<Rightarrow> 't \<Rightarrow> 't option"
    and del :: "'k \<Rightarrow> 't \<Rightarrow> 't option"
    and look :: "'t \<Rightarrow> 'k \<Rightarrow> bool option"
    and ok :: "'t \<Rightarrow> bool"
    and bag :: "'t \<Rightarrow> 'k multiset"
    and cap :: nat
    and valid :: "'k \<Rightarrow> bool"
  assumes add_room: "ok t \<Longrightarrow> valid k \<Longrightarrow> size (bag t) < cap \<Longrightarrow> \<exists>t'. add k t = Some t' \<and> ok t' \<and> bag t' = add_mset k (bag t)"
    and add_none: "ok t \<Longrightarrow> valid k \<Longrightarrow> cap \<le> size (bag t) \<Longrightarrow> add k t = None"
    and del_bag: "ok t \<Longrightarrow> valid k \<Longrightarrow> \<exists>t'. del k t = Some t' \<and> ok t' \<and> bag t' = bag t - {# k #}"
    and find_bag: "ok t \<Longrightarrow> valid k \<Longrightarrow> look t k = Some (k \<in># bag t)"
begin

lemma run_refines_bag:
  assumes "ok t" "\<forall>x \<in> set ops. valid (op_key x)"
  shows "map_option (map_prod bag id) (run_bag add del look ops t) = spec_bag cap ops (bag t)"
  using assms
proof (induction ops arbitrary: t)
  case (Cons x ops)
  show ?case
  proof (cases x)
    case (Fault k)
    show ?thesis
    proof (cases "size (bag t) < cap")
      case True
      then obtain t' where "add k t = Some t'" "ok t'" "bag t' = add_mset k (bag t)"
        using add_room [of t k] Cons.prems Fault by auto
      then show ?thesis using Cons True Fault by simp
    next
      case False
      then show ?thesis using add_none [of t k] Cons.prems Fault by simp
    qed
  next
    case (Ready k)
    obtain t' where "del k t = Some t'" "ok t'" "bag t' = bag t - {# k #}"
      using del_bag [of t k] Cons.prems Ready by auto
    then show ?thesis using Cons Ready by simp
  next
    case (Query k)
    have "look t k = Some (k \<in># bag t)" using find_bag [of t k] Cons.prems Query by simp
    moreover have "spec_bag cap ops (bag t) = map_option (map_prod bag id) (run_bag add del look ops t)"
      by (rule Cons.IH [OF Cons.prems(1), symmetric]) (use Cons.prems(2) in simp)
    ultimately show ?thesis
      using Query by (simp add: option.map_comp comp_def prod.map_comp del: map_option_eq_Some)
  qed
qed simp

end

interpretation apf: frame_bag "kvm_add_async_pf_gfn e" "kvm_del_async_pf_gfn e" "kvm_find_async_pf_gfn e"
  "apf_ok e" frames "slots e" "\<lambda>x. x \<noteq> - 1" for e
proof unfold_locales
  fix t and k :: u64 assume "apf_ok e t" "k \<noteq> - 1" "slots e \<le> size (frames t)"
  then show "kvm_add_async_pf_gfn e k t = None"
    by (intro add_full) (simp add: apf_ok_def table_ok_def)
qed (simp_all add: add_correct del_correct find_correct)

text \<open>
  C3 (refinement).  For every sequence of faults, completions and queries on an empty table, the
  open-addressing table with its backward-shift deletion behaves as a bag of frames with \<open>2\<^sup>n\<close>
  places: all queries have the answers of the bag and the frames left are the same.  In particular deletion always
  ends, and the insertion loop runs forever exactly when the bag is full.
\<close>

theorem async_pf_refines:
  assumes "apf_env_ok e" "\<forall>x \<in> set ops. op_key x \<noteq> - 1"
  shows "map_option (map_prod frames id)
      (run_bag (kvm_add_async_pf_gfn e) (kvm_del_async_pf_gfn e) (kvm_find_async_pf_gfn e) ops
        (gfns (apf (kvm_async_pf_hash_reset e c)))) =
    spec_bag (unat (ASYNC_PF_PER_VCPU e)) ops {#}"
  using apf.run_refines_bag [OF reset_correct(1) [OF assms(1)] assms(2)] reset_correct(2) [OF assms(1)] unat_slots [OF assms(1)]
  by simp

section \<open>The life of a fault\<close>

lemma enabled_gfns [simp]: "kvm_pv_async_pf_enabled e (c\<lparr>apf := (apf c)\<lparr>gfns := g\<rparr>\<rparr>) = kvm_pv_async_pf_enabled e c"
  by (simp add: kvm_pv_async_pf_enabled_def)

lemma deliver_gfns [simp]: "kvm_can_deliver_async_pf e (c\<lparr>apf := (apf c)\<lparr>gfns := g\<rparr>\<rparr>) = kvm_can_deliver_async_pf e c"
  by (simp add: kvm_can_deliver_async_pf_def)

lemma not_present_result:
  assumes "apf_ok e (gfns (apf c))" "w_gfn w \<noteq> - 1" "size (frames (gfns (apf c))) < slots e"
  shows "\<exists>g b x. kvm_arch_async_page_not_present e w c =
        Some (b, if b then c\<lparr>apf := (apf c)\<lparr>gfns := g\<rparr>, area_flags := REASON_NOT_PRESENT e, xv := x\<rparr>
                 else c\<lparr>apf := (apf c)\<lparr>gfns := g\<rparr>, areqs := insert REQ_APF_HALT (areqs c)\<rparr>) \<and>
      (b \<longleftrightarrow> kvm_can_deliver_async_pf e c \<and> \<not> area_fails e) \<and> apf_ok e g \<and>
      frames g = add_mset (w_gfn w) (frames (gfns (apf c))) \<and>
      x = kvm_inject_page_fault (xe e) \<lparr>f_error_code = 0, f_address = ucast (w_token w), async_page_fault = True,
            nested_page_fault = False\<rparr> (xv c)"
proof -
  obtain g where g: "kvm_add_async_pf_gfn e (w_gfn w) (gfns (apf c)) = Some g" "apf_ok e g"
      "frames g = add_mset (w_gfn w) (frames (gfns (apf c)))"
    using apf.add_room [OF assms(1,2)] assms(3) by auto
  show ?thesis
    by (intro exI [of _ g] exI [of _ "kvm_can_deliver_async_pf e c \<and> \<not> area_fails e"] exI conjI)
       (auto simp: kvm_arch_async_page_not_present_def g apf_put_user_notpresent_def Let_def)
qed

lemma present_result:
  assumes "apf_ok e (gfns (apf c))" "w_gfn w \<noteq> - 1" "\<not> wakeup_all w"
  shows "\<exists>c'. kvm_arch_async_page_present e w c = Some c' \<and> mp c' = MP_RUNNABLE \<and> \<not> apf_halted (apf c') \<and>
      apf_ok e (gfns (apf c')) \<and> frames (gfns (apf c')) = frames (gfns (apf c)) - {# w_gfn w #} \<and>
      (notpresent_injected w \<longrightarrow> kvm_pv_async_pf_enabled e c \<longrightarrow> \<not> area_fails e \<longrightarrow>
        area_token c' = w_token w \<and> pageready_pending (apf c') \<and> aevents c' = aevents c @ [SetIrq (apf_vec (apf c))])"
proof -
  obtain g where "kvm_del_async_pf_gfn e (w_gfn w) (gfns (apf c)) = Some g" "apf_ok e g"
      "frames g = frames (gfns (apf c)) - {# w_gfn w #}"
    using apf.del_bag [OF assms(1,2)] by auto
  then show ?thesis
    using assms(3) by (auto simp: kvm_arch_async_page_present_def apf_put_user_ready_def log_ev_def Let_def)
qed

text \<open>
  C32 (liveness).  A missing page is recorded, and either the guest gets a page fault and the reason in its
  shared area, or the next attempt to enter it puts the virtual processor into an artificial halt.
  When the page arrives, in whatever state of the table, the processor runs again, the frame is
  forgotten, and a guest that was told of the fault receives the token and an interrupt.
\<close>

theorem page_fault_cycle:
  assumes "apf_ok e (gfns (apf c))" "w_gfn w \<noteq> - 1" "size (frames (gfns (apf c))) < slots e"
    and "exc_ok (xe e) (xv c)" "\<not> guest_mode (xe e)" "\<not> wakeup_all w"
  shows "\<exists>b c1. kvm_arch_async_page_not_present e w c = Some (b, c1) \<and>
      kvm_find_async_pf_gfn e (gfns (apf c1)) (w_gfn w) = Some True \<and>
      (b \<longleftrightarrow> kvm_can_deliver_async_pf e c \<and> \<not> area_fails e) \<and>
      (b \<longrightarrow> area_flags c1 = REASON_NOT_PRESENT e \<and>
             abs_waiting (xv c1) = raise_exc (xe e) (PF_VECTOR (xe e)) (abs_waiting (xv c))) \<and>
      (\<not> b \<longrightarrow> fst (serve_apf_halt c1) \<and> \<not> fst (kvm_vcpu_running e (snd (serve_apf_halt c1)))) \<and>
      (\<forall>c2. apf_ok e (gfns (apf c2)) \<longrightarrow>
        (\<exists>c3. kvm_arch_async_page_present e w c2 = Some c3 \<and> fst (kvm_vcpu_running e c3) \<and>
              frames (gfns (apf c3)) = frames (gfns (apf c2)) - {# w_gfn w #} \<and>
              (notpresent_injected w \<and> kvm_pv_async_pf_enabled e c2 \<and> \<not> area_fails e \<longrightarrow>
                area_token c3 = w_token w \<and> aevents c3 = aevents c2 @ [SetIrq (apf_vec (apf c2))])))"
proof -
  obtain g b x where r: "kvm_arch_async_page_not_present e w c =
        Some (b, if b then c\<lparr>apf := (apf c)\<lparr>gfns := g\<rparr>, area_flags := REASON_NOT_PRESENT e, xv := x\<rparr>
                 else c\<lparr>apf := (apf c)\<lparr>gfns := g\<rparr>, areqs := insert REQ_APF_HALT (areqs c)\<rparr>)"
      "b \<longleftrightarrow> kvm_can_deliver_async_pf e c \<and> \<not> area_fails e" "apf_ok e g"
      "frames g = add_mset (w_gfn w) (frames (gfns (apf c)))"
      and x: "x = kvm_inject_page_fault (xe e) \<lparr>f_error_code = 0, f_address = ucast (w_token w), async_page_fault = True,
            nested_page_fault = False\<rparr> (xv c)"
    using not_present_result [OF assms(1-3)] by blast
  have "kvm_find_async_pf_gfn e g (w_gfn w) = Some True"
    using apf.find_bag [OF r(3) assms(2)] r(4) by simp
  moreover have "abs_waiting x = raise_exc (xe e) (PF_VECTOR (xe e)) (abs_waiting (xv c))"
    unfolding x by (rule page_fault_refines [OF assms(4)])
  moreover have "\<exists>c3. kvm_arch_async_page_present e w c2 = Some c3 \<and> fst (kvm_vcpu_running e c3) \<and>
              frames (gfns (apf c3)) = frames (gfns (apf c2)) - {# w_gfn w #} \<and>
              (notpresent_injected w \<and> kvm_pv_async_pf_enabled e c2 \<and> \<not> area_fails e \<longrightarrow>
                area_token c3 = w_token w \<and> aevents c3 = aevents c2 @ [SetIrq (apf_vec (apf c2))])"
    if "apf_ok e (gfns (apf c2))" for c2
    using present_result [OF that assms(2,6)] assms(5) by (auto simp: kvm_vcpu_running_def)
  ultimately show ?thesis
    using r(1,2) assms(5) by (cases b) (auto simp: serve_apf_halt_def kvm_vcpu_running_def)
qed

definition smallA :: aenv where
  "smallA = \<lparr>xe = intelX, hash_32 = (\<lambda>v b. take_bit b v), apf_order = 2, APF_ENABLED = 1, APF_SEND_ALWAYS = 2,
     APF_AS_PF_VMEXIT = 4, APF_AS_INT = 8, APF_VEC_MASK = 0xff, REASON_NOT_PRESENT = 1, pv_has = (\<lambda>_. True),
     lapic_in_kernel = True, lapic_enabled = True, needs_reinjection = False, hlt_in_guest = False,
     interrupt_allowed = True, work_done = False, apic_has_events = False, nmi_ready = False, smi_ready = False,
     has_interrupt = False, timer_pending = False, cache_init_fails = (\<lambda>a. a = 0), area_fails = False,
     mmu_direct_map = True, mmu_reload_fails = False, guest_pgd = 0, pre_block_skips = False,
     unhalt_requested = True, nested_events = (\<lambda>c. c), accept_events = (\<lambda>c. (0, c))\<rparr>"

definition freshA :: avcpu where
  "freshA = \<lparr>apf = \<lparr>gfns = [- 1, - 1, - 1, - 1], msr_en_val = 0, msr_int_val = 0, apf_vec = 0, apf_gpa = 0,
     send_user_only = False, delivery_as_pf_vmexit = False, pageready_pending = False, apf_halted = False\<rparr>,
     xv = freshX, areqs = {}, mp = MP_RUNNABLE, pv_unhalted = False, halt_exits = 0, exit_reason = None,
     area_flags = 0, area_token = 0, aevents = []\<rparr>"

lemma smallA_ok: "apf_env_ok smallA"
proof -
  have "unat (take_bit b v) < 2 ^ b" if "b < 32" for b and v :: u32
    unfolding unsigned_take_bit_eq by (simp add: take_bit_eq_mod)
  then show ?thesis by (simp add: apf_env_ok_def smallA_def)
qed

theorem async_pf_refines_witness:
  "map_option (map_prod frames id)
      (run_bag (kvm_add_async_pf_gfn smallA) (kvm_del_async_pf_gfn smallA) (kvm_find_async_pf_gfn smallA)
        [Fault 3, Fault 7, Fault 11, Fault 0, Ready 3, Query 11, Query 3, Fault 7]
        (gfns (apf (kvm_async_pf_hash_reset smallA freshA)))) =
    Some ({# 0, 7, 7, 11 #}, [True, False])"
  using async_pf_refines [OF smallA_ok, of "[Fault 3, Fault 7, Fault 11, Fault 0, Ready 3, Query 11, Query 3, Fault 7]" freshA]
  unfolding unat_slots [OF smallA_ok] by (simp add: smallA_def add_mset_commute)

definition workA :: async_work where
  "workA = \<lparr>w_gfn = 5, w_token = 0x1000, w_cr2_or_gpa = 0x5000, w_cr3 = 0, w_direct_map = True, wakeup_all = False,
     notpresent_injected = False\<rparr>"

theorem page_fault_cycle_witness:
  "\<exists>c1 c3. kvm_arch_async_page_not_present smallA workA freshA = Some (False, c1) \<and>
     \<not> fst (kvm_vcpu_running smallA (snd (serve_apf_halt c1))) \<and>
     kvm_arch_async_page_present smallA workA freshA = Some c3 \<and> fst (kvm_vcpu_running smallA c3)"
proof -
  have t: "gfns (apf freshA) = gfns (apf (kvm_async_pf_hash_reset smallA freshA))"
    by (simp add: kvm_async_pf_hash_reset_def unat_slots [OF smallA_ok]) (simp add: smallA_def freshA_def numeral_eq_Suc)
  have ok: "apf_ok smallA (gfns (apf freshA))" "frames (gfns (apf freshA)) = {#}"
    unfolding t by (rule reset_correct [OF smallA_ok])+
  have w: "w_gfn workA \<noteq> - 1" "\<not> wakeup_all workA" "\<not> guest_mode (xe smallA)" "exc_ok (xe smallA) (xv freshA)"
    by (simp_all add: workA_def smallA_def intelX_def freshA_def freshX_def exc_ok_def)
  have "\<not> kvm_can_deliver_async_pf smallA freshA"
    by (simp add: kvm_can_deliver_async_pf_def kvm_pv_async_pf_enabled_def smallA_def freshA_def intelX_def)
  then show ?thesis
    using page_fault_cycle [OF ok(1) w(1) _ w(4,3,2)] ok by (auto simp: smallA_def)
qed

text \<open>
  Remark (error).  A write of the enable register that is refused because the shared area cannot be mapped
  still switches the feature on, with the area of the previous write.
\<close>

lemma refused_enable_sticks:
  assumes "data AND 0x30 = 0" "pv_has e = (\<lambda>_. True)" "lapic_in_kernel e" "cache_init_fails e (data AND NOT 0x3f)"
    and "data AND (APF_ENABLED e OR APF_AS_INT e) = APF_ENABLED e OR APF_AS_INT e"
  shows "fst (set_msr_apf e MSR_ASYNC_PF_EN data c) = 1 \<and>
    kvm_pv_async_pf_enabled e (snd (set_msr_apf e MSR_ASYNC_PF_EN data c)) \<and>
    apf_gpa (apf (snd (set_msr_apf e MSR_ASYNC_PF_EN data c))) = apf_gpa (apf c)"
  using assms by (simp add: kvm_pv_enable_async_pf_def kvm_pv_async_pf_enabled_def Let_def)

end
