(* ===== verification/KvmMsr.thy ===== *)
theory KvmMsr
  imports KvmException
begin

unbundle bit_operations_syntax

text \<open>
  Model specific registers (\<^verbatim>\<open>kvm/x86.c\<close>): the registers of the host that hold guest values until the
  return to user space, the filter that user space can install, the instructions \<open>rdmsr\<close> and \<open>wrmsr\<close>
  with their exits to user space, the machine check registers, and the transfer of lists of registers.
  Numbers of registers, flags of headers and the vendor module are the parameter \<open>msr_env\<close>.
\<close>

section \<open>Registers kept until the return to user space\<close>

text \<open>
  \<open>hw\<close> are the registers of the physical processor, \<open>uret_list\<close> the numbers of the managed ones,
  \<open>uret_values\<close> for each of them the value of the host and the current one.  \<open>uret_registered\<close> tells
  whether the notifier runs at the next return to user space.
\<close>

record uret_value =
  uv_host :: u64
  uv_curr :: u64

record uret_cpu =
  hw :: "u32 \<Rightarrow> u64"
  uret_list :: "u32 list"
  uret_values :: "uret_value list"
  uret_registered :: bool

text \<open>\<open>rd_ok\<close>, \<open>wr_ok\<close>: whether reading and writing a register of the processor does not fault.\<close>

record uret_env =
  rd_ok :: "u32 \<Rightarrow> bool"
  wr_ok :: "u32 \<Rightarrow> u64 \<Rightarrow> bool"
  MAX_NR_USER_RETURN_MSRS :: nat

definition wrmsrl :: "u32 \<Rightarrow> u64 \<Rightarrow> uret_cpu \<Rightarrow> uret_cpu" where
  "wrmsrl msr val c = c\<lparr>hw := (hw c)(msr := val)\<rparr>"

definition kvm_probe_user_return_msr :: "uret_env \<Rightarrow> u32 \<Rightarrow> uret_cpu \<Rightarrow> bool" where
  "kvm_probe_user_return_msr e msr c \<longleftrightarrow> rd_ok e msr \<and> wr_ok e msr (hw c msr)"

text \<open>\<open>None\<close> is \<open>BUG_ON\<close>.\<close>

definition kvm_add_user_return_msr :: "uret_env \<Rightarrow> u32 \<Rightarrow> uret_cpu \<Rightarrow> (int \<times> uret_cpu) option" where
  "kvm_add_user_return_msr e msr c =
     (if length (uret_list c) \<ge> MAX_NR_USER_RETURN_MSRS e then None
      else if \<not> kvm_probe_user_return_msr e msr c then Some (-1, c)
      else Some (int (length (uret_list c)), c\<lparr>uret_list := uret_list c @ [msr]\<rparr>))"

fun find_msr :: "u32 \<Rightarrow> nat \<Rightarrow> u32 list \<Rightarrow> int" where
  "find_msr msr i [] = -1"
| "find_msr msr i (x # xs) = (if x = msr then int i else find_msr msr (i + 1) xs)"

definition kvm_find_user_return_msr :: "u32 \<Rightarrow> uret_cpu \<Rightarrow> int" where
  "kvm_find_user_return_msr msr c = find_msr msr 0 (uret_list c)"

text \<open>
  Bringing a processor online.  When the read of a register faults, the variable keeps the value of
  the register read before it.
\<close>

fun online_values :: "uret_env \<Rightarrow> (u32 \<Rightarrow> u64) \<Rightarrow> u64 \<Rightarrow> u32 list \<Rightarrow> uret_value list" where
  "online_values e regs v [] = []"
| "online_values e regs v (msr # ms) =
     (let v' = (if rd_ok e msr then regs msr else v)
      in \<lparr>uv_host = v', uv_curr = v'\<rparr> # online_values e regs v' ms)"

definition kvm_user_return_msr_cpu_online :: "uret_env \<Rightarrow> u64 \<Rightarrow> uret_cpu \<Rightarrow> uret_cpu" where
  "kvm_user_return_msr_cpu_online e v c = c\<lparr>uret_values := online_values e (hw c) v (uret_list c)\<rparr>"

definition kvm_set_user_return_msr :: "uret_env \<Rightarrow> nat \<Rightarrow> u64 \<Rightarrow> u64 \<Rightarrow> uret_cpu \<Rightarrow> (int \<times> uret_cpu) option" where
  "kvm_set_user_return_msr e slot val msk c =
     (if slot \<ge> length (uret_values c) \<or> slot \<ge> length (uret_list c) then None
      else let vs = uret_values c ! slot; v = (val AND msk) OR (uv_host vs AND NOT msk)
        in if v = uv_curr vs then Some (0, c)
           else if \<not> wr_ok e (uret_list c ! slot) v then Some (1, c)
           else Some (0, (wrmsrl (uret_list c ! slot) v c)
             \<lparr>uret_values := (uret_values c)[slot := vs\<lparr>uv_curr := v\<rparr>], uret_registered := True\<rparr>))"

text \<open>The loop of the notifier from a slot on.\<close>

fun restore_from :: "nat \<Rightarrow> nat \<Rightarrow> uret_cpu \<Rightarrow> uret_cpu" where
  "restore_from 0 slot c = c"
| "restore_from (Suc n) slot c =
     (let vs = uret_values c ! slot
      in restore_from n (slot + 1)
           (if uv_host vs \<noteq> uv_curr vs
            then (wrmsrl (uret_list c ! slot) (uv_host vs) c)
              \<lparr>uret_values := (uret_values c)[slot := vs\<lparr>uv_curr := uv_host vs\<rparr>]\<rparr>
            else c))"

definition kvm_on_user_return :: "uret_cpu \<Rightarrow> uret_cpu" where
  "kvm_on_user_return c = restore_from (length (uret_list c)) 0 (c\<lparr>uret_registered := False\<rparr>)"

definition drop_user_return_notifiers :: "uret_cpu \<Rightarrow> uret_cpu" where
  "drop_user_return_notifiers c = (if uret_registered c then kvm_on_user_return c else c)"

text \<open>
  What happens on a processor: a guest value is loaded, or the kernel returns to user space, where
  the notifier runs when it is registered.
\<close>

datatype uret_event = Load nat u64 u64 | User_return

fun uret_step :: "uret_env \<Rightarrow> uret_event \<Rightarrow> uret_cpu \<Rightarrow> uret_cpu option" where
  "uret_step e (Load slot val msk) c = map_option snd (kvm_set_user_return_msr e slot val msk c)"
| "uret_step e User_return c = Some (if uret_registered c then kvm_on_user_return c else c)"

definition uret_wf :: "uret_cpu \<Rightarrow> bool" where
  "uret_wf c \<longleftrightarrow> length (uret_values c) = length (uret_list c) \<and> distinct (uret_list c)
   \<and> (\<forall>i < length (uret_list c). hw c (uret_list c ! i) = uv_curr (uret_values c ! i))
   \<and> (\<not> uret_registered c \<longrightarrow> (\<forall>i < length (uret_list c). uv_curr (uret_values c ! i) = uv_host (uret_values c ! i)))"

text \<open>The host's view: the registers with their host values.\<close>

definition host_view :: "uret_cpu \<Rightarrow> u32 \<Rightarrow> u64" where
  "host_view c msr =
     (if \<exists>i < length (uret_list c). uret_list c ! i = msr
      then uv_host (uret_values c ! (LEAST i. uret_list c ! i = msr)) else hw c msr)"

lemma distinct_Least:
  "distinct xs \<Longrightarrow> i < length xs \<Longrightarrow> (LEAST j. xs ! j = xs ! i) = i"
  by (rule Least_equality) (auto simp: nth_eq_iff_index_eq le_less_linear intro: leI dest: less_trans)

lemma host_view_at: "uret_wf c \<Longrightarrow> i < length (uret_list c) \<Longrightarrow> host_view c (uret_list c ! i) = uv_host (uret_values c ! i)"
  by (auto simp: host_view_def uret_wf_def distinct_Least)

lemma host_view_other: "msr \<notin> set (uret_list c) \<Longrightarrow> host_view c msr = hw c msr"
  by (auto simp: host_view_def)

lemma host_view_eqI:
  assumes "uret_wf c" "uret_wf c'" "uret_list c' = uret_list c"
    and "\<And>i. i < length (uret_list c) \<Longrightarrow> uv_host (uret_values c' ! i) = uv_host (uret_values c ! i)"
    and "\<And>msr. msr \<notin> set (uret_list c) \<Longrightarrow> hw c' msr = hw c msr"
  shows "host_view c' = host_view c"
proof
  fix msr
  show "host_view c' msr = host_view c msr"
  proof (cases "msr \<in> set (uret_list c)")
    case True
    then obtain i where "i < length (uret_list c)" "msr = uret_list c ! i" by (auto simp: in_set_conv_nth)
    then show ?thesis using host_view_at [OF assms(1)] host_view_at [OF assms(2)] assms(3,4) by simp
  qed (use assms(3,5) host_view_other in auto)
qed

lemma set_uret_wf:
  assumes "uret_wf c" "kvm_set_user_return_msr e slot val msk c = Some (r, c')"
  shows "uret_wf c'" "host_view c' = host_view c"
proof -
  have d: "distinct (uret_list c)" using assms(1) by (simp add: uret_wf_def)
  show w: "uret_wf c'"
    using assms d by (auto simp: kvm_set_user_return_msr_def uret_wf_def wrmsrl_def Let_def nth_list_update
        nth_eq_iff_index_eq split: if_splits)
  show "host_view c' = host_view c"
    by (rule host_view_eqI [OF assms(1) w])
      (use assms(2) in \<open>auto simp: kvm_set_user_return_msr_def wrmsrl_def Let_def nth_list_update split: if_splits\<close>)
qed

text \<open>The notifier, from a slot on.\<close>

lemma restore_from:
  assumes "slot + n = length (uret_list c)" "length (uret_values c) = length (uret_list c)" "distinct (uret_list c)"
    and "\<And>i. i < length (uret_list c) \<Longrightarrow> hw c (uret_list c ! i) = uv_curr (uret_values c ! i)"
    and "\<And>i. i < slot \<Longrightarrow> uv_curr (uret_values c ! i) = uv_host (uret_values c ! i)"
  defines "c' \<equiv> restore_from n slot c"
  shows "uret_list c' = uret_list c \<and> uret_registered c' = uret_registered c
    \<and> length (uret_values c') = length (uret_list c)
    \<and> (\<forall>i < length (uret_list c). hw c' (uret_list c ! i) = uv_curr (uret_values c' ! i)
        \<and> uv_curr (uret_values c' ! i) = uv_host (uret_values c' ! i)
        \<and> uv_host (uret_values c' ! i) = uv_host (uret_values c ! i))
    \<and> (\<forall>msr. msr \<notin> set (uret_list c) \<longrightarrow> hw c' msr = hw c msr)"
  using assms(1-5) unfolding c'_def
proof (induction n arbitrary: slot c)
  case (Suc n)
  define vs where "vs = uret_values c ! slot"
  define c1 where "c1 = (if uv_host vs \<noteq> uv_curr vs
    then (wrmsrl (uret_list c ! slot) (uv_host vs) c)
      \<lparr>uret_values := (uret_values c)[slot := vs\<lparr>uv_curr := uv_host vs\<rparr>]\<rparr> else c)"
  have s: "slot < length (uret_list c)" using Suc.prems(1) by simp
  have c1: "uret_list c1 = uret_list c" "uret_registered c1 = uret_registered c"
    "length (uret_values c1) = length (uret_list c)"
    "\<And>i. i < length (uret_list c) \<Longrightarrow> hw c1 (uret_list c ! i) = uv_curr (uret_values c1 ! i)"
    "\<And>i. i < Suc slot \<Longrightarrow> uv_curr (uret_values c1 ! i) = uv_host (uret_values c1 ! i)"
    "\<And>i. i < length (uret_list c) \<Longrightarrow> uv_host (uret_values c1 ! i) = uv_host (uret_values c ! i)"
    "\<And>msr. msr \<notin> set (uret_list c) \<Longrightarrow> hw c1 msr = hw c msr"
    using Suc.prems(2-5) s
    by (auto simp: c1_def vs_def wrmsrl_def nth_list_update nth_eq_iff_index_eq less_Suc_eq)
  have "restore_from (Suc n) slot c = restore_from n (Suc slot) c1"
    by (simp add: c1_def vs_def Let_def)
  then show ?case
    using Suc.IH [of "Suc slot" c1] Suc.prems(1,3) c1 by simp
qed simp

lemma on_user_return:
  assumes "uret_wf c"
  shows "uret_wf (kvm_on_user_return c)" "hw (kvm_on_user_return c) = host_view c"
    "host_view (kvm_on_user_return c) = host_view c"
proof -
  let ?c = "kvm_on_user_return c"
  have "uret_list ?c = uret_list c" and "length (uret_values ?c) = length (uret_list c)"
    and s: "\<And>i. i < length (uret_list c) \<Longrightarrow> hw ?c (uret_list c ! i) = uv_curr (uret_values ?c ! i)
        \<and> uv_curr (uret_values ?c ! i) = uv_host (uret_values ?c ! i) \<and> uv_host (uret_values ?c ! i) = uv_host (uret_values c ! i)"
    and o: "\<And>msr. msr \<notin> set (uret_list c) \<Longrightarrow> hw ?c msr = hw c msr"
    using restore_from [of 0 "length (uret_list c)" "c\<lparr>uret_registered := False\<rparr>"] assms
    by (auto simp: uret_wf_def kvm_on_user_return_def)
  then show w: "uret_wf ?c" using assms by (simp add: uret_wf_def)
  show "host_view ?c = host_view c"
    by (rule host_view_eqI [OF assms w]) (use \<open>uret_list ?c = uret_list c\<close> s o in auto)
  show "hw ?c = host_view c"
  proof
    fix msr
    show "hw ?c msr = host_view c msr"
    proof (cases "msr \<in> set (uret_list c)")
      case True
      then obtain i where "i < length (uret_list c)" "msr = uret_list c ! i" by (auto simp: in_set_conv_nth)
      then show ?thesis using host_view_at [OF assms] s by simp
    qed (use o host_view_other in auto)
  qed
qed

lemma idle_view: "uret_wf c \<Longrightarrow> \<not> uret_registered c \<Longrightarrow> hw c = host_view c"
proof
  fix msr assume c: "uret_wf c" "\<not> uret_registered c"
  show "hw c msr = host_view c msr"
  proof (cases "msr \<in> set (uret_list c)")
    case True
    then obtain i where "i < length (uret_list c)" "msr = uret_list c ! i" by (auto simp: in_set_conv_nth)
    then show ?thesis using host_view_at [OF c(1)] c by (simp add: uret_wf_def)
  qed (use host_view_other in auto)
qed

definition slot_ok :: "uret_cpu \<Rightarrow> uret_event \<Rightarrow> bool" where
  "slot_ok c ev = (case ev of Load slot val msk \<Rightarrow> slot < length (uret_list c) | User_return \<Rightarrow> True)"

definition uret_inv :: "uret_cpu \<Rightarrow> uret_cpu \<Rightarrow> bool" where
  "uret_inv c0 c \<longleftrightarrow> uret_wf c \<and> uret_list c = uret_list c0 \<and> host_view c = host_view c0"

lemma restore_list: "uret_list (restore_from n slot c) = uret_list c"
  by (induction n slot c rule: restore_from.induct) (auto simp: Let_def wrmsrl_def)

interpretation uret: total_machine "uret_step e" "uret_inv c0" "slot_ok c0"
proof
  fix s r s'
  assume i: "uret_inv c0 s" and "slot_ok c0 r" and st: "uret_step e r s = Some s'"
  show "uret_inv c0 s'"
  proof (cases r)
    case (Load slot val msk)
    then obtain x where x: "kvm_set_user_return_msr e slot val msk s = Some (x, s')" using st by auto
    then have "uret_list s' = uret_list s"
      by (auto simp: kvm_set_user_return_msr_def Let_def wrmsrl_def split: if_splits)
    then show ?thesis using set_uret_wf [OF _ x] i by (simp add: uret_inv_def)
  next
    case User_return
    then show ?thesis using st i on_user_return [of s]
      by (auto simp: uret_inv_def kvm_on_user_return_def restore_list split: if_splits)
  qed
next
  fix s r
  assume "uret_inv c0 s" "slot_ok c0 r"
  then show "uret_step e r s \<noteq> None"
    by (cases r) (auto simp: slot_ok_def uret_inv_def uret_wf_def kvm_set_user_return_msr_def Let_def)
qed

lemma online_wf:
  assumes "\<forall>msr \<in> set (uret_list c). rd_ok e msr" "distinct (uret_list c)" "\<not> uret_registered c"
  shows "uret_wf (kvm_user_return_msr_cpu_online e v c)" "host_view (kvm_user_return_msr_cpu_online e v c) = hw c"
proof -
  have vals: "online_values e regs v ms = map (\<lambda>m. \<lparr>uv_host = regs m, uv_curr = regs m\<rparr>) ms"
    if "\<forall>m \<in> set ms. rd_ok e m" for regs v ms
    using that by (induction ms arbitrary: v) (auto simp: Let_def)
  show w: "uret_wf (kvm_user_return_msr_cpu_online e v c)"
    using assms vals [OF assms(1)] by (simp add: uret_wf_def kvm_user_return_msr_cpu_online_def)
  show "host_view (kvm_user_return_msr_cpu_online e v c) = hw c"
    using idle_view [OF w] assms(3) by (simp add: kvm_user_return_msr_cpu_online_def)
qed

text \<open>
  C25: after a processor has come online, whatever values of the guest are loaded into the
  managed registers and however often the kernel returns to user space in between, a return to user
  space finds every register of the processor with the value it had at the start; the same holds when
  the notifiers are dropped.
\<close>

theorem uret_restored:
  assumes "\<forall>msr \<in> set (uret_list c). rd_ok e msr" "distinct (uret_list c)" "\<not> uret_registered c"
    and "\<forall>ev \<in> set evs. slot_ok c ev"
  shows "\<exists>c'. run_steps (uret_step e) evs (kvm_user_return_msr_cpu_online e v c) = Some c'
    \<and> (\<exists>c''. uret_step e User_return c' = Some c'' \<and> hw c'' = hw c \<and> \<not> uret_registered c'')
    \<and> hw (drop_user_return_notifiers c') = hw c"
proof -
  let ?c = "kvm_user_return_msr_cpu_online e v c"
  note w = online_wf [OF assms(1-3), of v]
  have ok: "\<forall>ev \<in> set evs. slot_ok ?c ev"
    using assms(4) by (auto simp: slot_ok_def kvm_user_return_msr_cpu_online_def split: uret_event.splits)
  obtain c' where c': "run_steps (uret_step e) evs ?c = Some c'" "uret_inv ?c c'"
    using uret.run_total [of ?c ?c evs e] w(1) ok by (auto simp: uret_inv_def)
  then have wf: "uret_wf c'" and v: "host_view c' = hw c" using w(2) by (simp_all add: uret_inv_def)
  have r: "\<not> uret_registered (kvm_on_user_return c')"
    using restore_from [of 0 "length (uret_list c')" "c'\<lparr>uret_registered := False\<rparr>"] wf
    by (simp add: kvm_on_user_return_def uret_wf_def)
  show ?thesis using c'(1) on_user_return(2) [OF wf] idle_view [OF wf] v r
    by (auto simp: drop_user_return_notifiers_def)
qed

definition host_cpu :: uret_cpu where
  "host_cpu = \<lparr>hw = (\<lambda>m. ucast m + 7), uret_list = [0xc0000081, 0xc0000082], uret_values = [], uret_registered = False\<rparr>"

theorem uret_restored_witness:
  "\<exists>c'. run_steps (uret_step \<lparr>rd_ok = (\<lambda>_. True), wr_ok = (\<lambda>_ _. True), MAX_NR_USER_RETURN_MSRS = 16\<rparr>)
      [Load 0 5 0xff, User_return, Load 1 9 1, Load 0 4 0xff]
      (kvm_user_return_msr_cpu_online \<lparr>rd_ok = (\<lambda>_. True), wr_ok = (\<lambda>_ _. True), MAX_NR_USER_RETURN_MSRS = 16\<rparr> 0 host_cpu) = Some c'
    \<and> (\<exists>c''. uret_step \<lparr>rd_ok = (\<lambda>_. True), wr_ok = (\<lambda>_ _. True), MAX_NR_USER_RETURN_MSRS = 16\<rparr> User_return c' = Some c''
        \<and> hw c'' = hw host_cpu \<and> \<not> uret_registered c'')
    \<and> hw (drop_user_return_notifiers c') = hw host_cpu"
  by (rule uret_restored) (simp_all add: host_cpu_def slot_ok_def)

section \<open>Filter\<close>

text \<open>A bitmap is a list of 64-bit words.\<close>

record msr_bitmap_range =
  mr_flags :: u32
  mr_base :: u32
  mr_nmsrs :: u32
  mr_bitmap :: "u64 list"

record msr_filter =
  default_allow :: bool
  mf_ranges :: "msr_bitmap_range list"

text \<open>The range user space passes; its bitmap may be unreadable.\<close>

record user_range =
  ur_flags :: u32
  ur_base :: u32
  ur_nmsrs :: u32
  ur_bitmap :: "u64 list option"

record filter_env =
  FILTER_READ :: u32
  FILTER_WRITE :: u32
  FILTER_DEFAULT_DENY :: u32
  MAX_BITMAP_SIZE :: nat

definition test_bit_at :: "nat \<Rightarrow> u64 list \<Rightarrow> bool" where
  "test_bit_at n bm \<longleftrightarrow> bit (bm ! (n div 64)) (n mod 64)"

fun range_lookup :: "u32 \<Rightarrow> u32 \<Rightarrow> bool \<Rightarrow> msr_bitmap_range list \<Rightarrow> bool" where
  "range_lookup index ty allowed [] = allowed"
| "range_lookup index ty allowed (r # rs) =
     (if mr_base r \<le> index \<and> index < mr_base r + mr_nmsrs r \<and> mr_flags r AND ty \<noteq> 0
      then test_bit_at (unat (index - mr_base r)) (mr_bitmap r)
      else range_lookup index ty allowed rs)"

definition kvm_msr_allowed :: "msr_filter option \<Rightarrow> u32 \<Rightarrow> u32 \<Rightarrow> bool" where
  "kvm_msr_allowed f index ty =
     (if 0x800 \<le> index \<and> index \<le> 0x8ff then True
      else case f of None \<Rightarrow> True | Some f \<Rightarrow> range_lookup index ty (default_allow f) (mf_ranges f))"

definition kvm_alloc_msr_filter :: "bool \<Rightarrow> msr_filter" where
  "kvm_alloc_msr_filter allow = \<lparr>default_allow = allow, mf_ranges = []\<rparr>"

text \<open>The number of words of a bitmap for \<open>n\<close> bits.\<close>

definition BITS_TO_LONGS :: "nat \<Rightarrow> nat" where
  "BITS_TO_LONGS n = (n + 63) div 64"

definition kvm_add_msr_filter :: "filter_env \<Rightarrow> user_range \<Rightarrow> msr_filter \<Rightarrow> int \<times> msr_filter" where
  "kvm_add_msr_filter e u f =
     (if ur_nmsrs u = 0 then (0, f)
      else if ur_flags u AND NOT (FILTER_READ e OR FILTER_WRITE e) \<noteq> 0 then (-22, f)
      else if ur_flags u = 0 then (-22, f)
      else let longs = BITS_TO_LONGS (unat (ur_nmsrs u))
        in if longs * 8 = 0 \<or> longs * 8 > MAX_BITMAP_SIZE e then (-22, f)
           else case ur_bitmap u of
                  None \<Rightarrow> (-14, f)
                | Some bm \<Rightarrow>
                    if length bm < longs then (-14, f)
                    else (0, f\<lparr>mf_ranges := mf_ranges f
                           @ [\<lparr>mr_flags = ur_flags u, mr_base = ur_base u, mr_nmsrs = ur_nmsrs u,
                               mr_bitmap = take longs bm\<rparr>]\<rparr>))"

fun add_filters :: "filter_env \<Rightarrow> user_range list \<Rightarrow> msr_filter \<Rightarrow> int \<times> msr_filter" where
  "add_filters e [] f = (0, f)"
| "add_filters e (u # us) f =
     (let (r, f') = kvm_add_msr_filter e u f in if r \<noteq> 0 then (r, f') else add_filters e us f')"

text \<open>
  Installing a filter.  \<open>arg\<close> is the structure copied from user space, \<open>alloc\<close> whether memory is
  available; the result is the new filter of the machine, and whether the processors are told.
\<close>

definition kvm_vm_ioctl_set_msr_filter ::
  "filter_env \<Rightarrow> (u32 \<times> user_range list) option \<Rightarrow> bool \<Rightarrow> msr_filter option \<Rightarrow> int \<times> msr_filter option \<times> bool" where
  "kvm_vm_ioctl_set_msr_filter e arg alloc old =
     (case arg of
        None \<Rightarrow> (-14, old, False)
      | Some (flags, ranges) \<Rightarrow>
          let empty = list_all (\<lambda>u. ur_nmsrs u = 0) ranges;
              allow = (flags AND FILTER_DEFAULT_DENY e = 0)
          in if empty \<and> \<not> allow then (-22, old, False)
             else if \<not> alloc then (-12, old, False)
             else let (r, f) = add_filters e ranges (kvm_alloc_msr_filter allow)
               in if r \<noteq> 0 then (r, old, False) else (0, Some f, True))"

text \<open>What user space asks for: the first of its ranges that covers the register decides.\<close>

definition covers :: "u32 \<Rightarrow> u32 \<Rightarrow> user_range \<Rightarrow> bool" where
  "covers index ty u \<longleftrightarrow>
     unat (ur_base u) \<le> unat index \<and> unat index < unat (ur_base u) + unat (ur_nmsrs u) \<and> ur_flags u AND ty \<noteq> 0"

fun wanted :: "u32 \<Rightarrow> u32 \<Rightarrow> bool \<Rightarrow> user_range list \<Rightarrow> bool" where
  "wanted index ty allow [] = allow"
| "wanted index ty allow (u # us) =
     (if covers index ty u then test_bit_at (unat index - unat (ur_base u)) (the (ur_bitmap u)) else wanted index ty allow us)"

lemma range_lookup_append:
  "range_lookup index ty allow (rs @ [r]) =
     range_lookup index ty (range_lookup index ty allow [r]) rs"
  by (induction rs) simp_all

lemma unat_plus_fits: "unat a + unat b < 2 ^ 32 \<Longrightarrow> unat (a + b :: u32) = unat a + unat b"
  by (simp add: unat_word_ariths)

lemma range_covers:
  assumes "unat (ur_base u) + unat (ur_nmsrs u) < 2 ^ 32"
  shows "ur_base u \<le> index \<and> index < ur_base u + ur_nmsrs u \<and> ur_flags u AND ty \<noteq> 0 \<longleftrightarrow> covers index ty u"
  by (simp add: covers_def word_le_nat_alt word_less_nat_alt unat_plus_fits [OF assms])

lemma test_bit_take:
  assumes "n < unat k" "length bm \<ge> BITS_TO_LONGS (unat k)"
  shows "test_bit_at n (take (BITS_TO_LONGS (unat k)) bm) = test_bit_at n bm"
proof -
  have "n div 64 < BITS_TO_LONGS (unat k)" using assms(1) by (simp add: BITS_TO_LONGS_def)
  then show ?thesis by (simp add: test_bit_at_def)
qed

lemma add_filters_lookup:
  assumes "add_filters e us f = (0, f')" "\<forall>u \<in> set us. unat (ur_base u) + unat (ur_nmsrs u) < 2 ^ 32"
  shows "default_allow f' = default_allow f
    \<and> range_lookup index ty allow (mf_ranges f') = range_lookup index ty (wanted index ty allow us) (mf_ranges f)"
  using assms
proof (induction us arbitrary: f)
  case (Cons u us)
  obtain r f1 where a: "kvm_add_msr_filter e u f = (r, f1)" by force
  then have r: "r = 0" "add_filters e us f1 = (0, f')" using Cons.prems(1) by (auto split: if_splits)
  have fit: "unat (ur_base u) + unat (ur_nmsrs u) < 2 ^ 32" using Cons.prems(2) by simp
  have ih: "default_allow f' = default_allow f1"
    "range_lookup index ty allow (mf_ranges f') = range_lookup index ty (wanted index ty allow us) (mf_ranges f1)"
    using Cons.IH [OF r(2)] Cons.prems(2) by simp_all
  show ?case
  proof (cases "ur_nmsrs u = 0")
    case True
    then have "f1 = f" "\<not> covers index ty u" using a by (auto simp: kvm_add_msr_filter_def covers_def)
    then show ?thesis using ih by simp
  next
    case False
    let ?n = "BITS_TO_LONGS (unat (ur_nmsrs u))"
    obtain bm where bm: "ur_bitmap u = Some bm" "?n \<le> length bm"
      and f1: "f1 = f\<lparr>mf_ranges := mf_ranges f @ [\<lparr>mr_flags = ur_flags u, mr_base = ur_base u,
        mr_nmsrs = ur_nmsrs u, mr_bitmap = take ?n bm\<rparr>]\<rparr>"
      using a False r(1) by (auto simp: kvm_add_msr_filter_def Let_def split: if_splits option.splits)
    have "range_lookup index ty w [\<lparr>mr_flags = ur_flags u, mr_base = ur_base u, mr_nmsrs = ur_nmsrs u, mr_bitmap = take ?n bm\<rparr>]
        = (if covers index ty u then test_bit_at (unat index - unat (ur_base u)) bm else w)" for w
    proof (cases "covers index ty u")
      case True
      then have "unat (index - ur_base u) = unat index - unat (ur_base u)"
        by (simp add: covers_def unat_sub word_le_nat_alt)
      moreover have "unat index - unat (ur_base u) < unat (ur_nmsrs u)" using True unfolding covers_def by linarith
      ultimately show ?thesis
        using True range_covers [OF fit, of index ty] test_bit_take [OF _ bm(2)] by simp
    qed (use range_covers [OF fit, of index ty] in auto)
    then show ?thesis using ih f1 bm(1) by (simp add: range_lookup_append)
  qed
qed simp

text \<open>
  C26: after user space has installed a filter whose ranges do not reach the end of the
  register numbers, a register outside the x2APIC block is allowed exactly when the bit of the first
  range that covers it for this kind of access is set, or, when no range covers it, when the default
  allows it; the x2APIC block is always allowed, and a request that fails leaves the old filter in force.
\<close>

theorem filter_first_match:
  assumes "kvm_vm_ioctl_set_msr_filter e (Some (flags, ranges)) alloc old = (r, f, told)"
    and "\<forall>u \<in> set ranges. unat (ur_base u) + unat (ur_nmsrs u) < 2 ^ 32"
  shows "(r = 0 \<longrightarrow> told \<and> (\<forall>index ty. kvm_msr_allowed f index ty =
      (0x800 \<le> index \<and> index \<le> 0x8ff \<or> wanted index ty (flags AND FILTER_DEFAULT_DENY e = 0) ranges)))
    \<and> (r \<noteq> 0 \<longrightarrow> f = old \<and> \<not> told)"
proof (cases "r = 0")
  case True
  let ?allow = "flags AND FILTER_DEFAULT_DENY e = 0"
  obtain g where g: "add_filters e ranges (kvm_alloc_msr_filter ?allow) = (0, g)" "f = Some g" "told"
    using assms(1) True by (auto simp: kvm_vm_ioctl_set_msr_filter_def Let_def split: if_splits prod.splits)
  have "range_lookup index ty (default_allow g) (mf_ranges g) = wanted index ty ?allow ranges" for index ty
    using add_filters_lookup [OF g(1) assms(2), of index ty ?allow] by (simp add: kvm_alloc_msr_filter_def)
  then show ?thesis using True g(2,3) by (auto simp: kvm_msr_allowed_def)
next
  case False
  then show ?thesis using assms(1)
    by (auto simp: kvm_vm_ioctl_set_msr_filter_def Let_def split: if_splits prod.splits)
qed

text \<open>A range that reaches the end of the numbers wraps around and never matches.\<close>

lemma range_wraps:
  assumes "unat (mr_base r) + unat (mr_nmsrs r) = 2 ^ 32"
  shows "range_lookup index ty allow (r # rs) = range_lookup index ty allow rs"
proof -
  have "mr_base r + mr_nmsrs r = 0"
    using assms by (simp add: word_unat_eq_iff unat_word_ariths)
  then show ?thesis by simp
qed

definition linux_filter :: filter_env where
  "linux_filter = \<lparr>FILTER_READ = 1, FILTER_WRITE = 2, FILTER_DEFAULT_DENY = 1, MAX_BITMAP_SIZE = 0x600\<rparr>"

theorem filter_first_match_witness:
  "\<exists>r f told. kvm_vm_ioctl_set_msr_filter linux_filter
      (Some (1, [\<lparr>ur_flags = 3, ur_base = 0x10, ur_nmsrs = 4, ur_bitmap = Some [5]\<rparr>])) True None = (r, f, told)
    \<and> r = 0 \<and> kvm_msr_allowed f 0x10 1 \<and> \<not> kvm_msr_allowed f 0x11 1 \<and> kvm_msr_allowed f 0x12 2 \<and> \<not> kvm_msr_allowed f 0x20 1"
proof -
  obtain r f told where s: "kvm_vm_ioctl_set_msr_filter linux_filter
      (Some (1, [\<lparr>ur_flags = 3, ur_base = 0x10, ur_nmsrs = 4, ur_bitmap = Some [5]\<rparr>])) True None = (r, f, told)"
    by (metis prod_cases3)
  have r: "r = 0" using s
    by (simp add: kvm_vm_ioctl_set_msr_filter_def linux_filter_def kvm_add_msr_filter_def BITS_TO_LONGS_def Let_def)
  note a = filter_first_match [OF s, simplified r, simplified]
  show ?thesis using s r a
    by (auto simp: linux_filter_def covers_def test_bit_at_def)
qed

section \<open>Reading and writing\<close>

datatype msr_name =
  FS_BASE | GS_BASE | KERNEL_GS_BASE | CSTAR | LSTAR | SYSENTER_EIP | SYSENTER_ESP | TSC_AUX
| MCG_STATUS | MCG_CTL | MCG_CAP | P5_MC_ADDR | P5_MC_TYPE | MC0_CTL

datatype msr_exit = EXIT_X86_RDMSR | EXIT_X86_WRMSR

datatype msr_completion = Complete_emulated_rdmsr | Complete_emulated_wrmsr

text \<open>
  The processor: the registers of the instructions, the fields of an exit, the machine check state.
  \<open>m_regs\<close> are the guest registers the vendor module keeps.
\<close>

record msr_vcpu =
  m_rax :: u64
  m_rcx :: u64
  m_rdx :: u64
  m_regs :: "u32 \<Rightarrow> u64"
  m_filter :: "msr_filter option"
  user_space_msr_mask :: u64
  run_exit_msr :: "msr_exit option"
  run_msr_error :: u8
  run_msr_reason :: u64
  run_msr_index :: u32
  run_msr_data :: u64
  msr_complete_cb :: "msr_completion option"
  mcg_cap :: u64
  mcg_status :: u64
  mcg_ctl :: u64
  mce_banks :: "u64 list"
  m_requests :: "nat list"

text \<open>
  \<open>vendor_get\<close>, \<open>vendor_set\<close> and \<open>vendor_complete\<close> are the callbacks \<open>get_msr\<close>, \<open>set_msr\<close> and
  \<open>complete_emulated_msr\<close>; \<open>MSR_RET_INVALID\<close> and \<open>MSR_RET_FILTERED\<close> are two positive results.
\<close>

record msr_env =
  msr_no :: "msr_name \<Rightarrow> u32"
  fenv :: filter_env
  MSR_RET_INVALID :: int
  MSR_RET_FILTERED :: int
  REASON_UNKNOWN :: u64
  REASON_FILTER :: u64
  REASON_INVAL :: u64
  ignore_msrs :: bool
  noncanonical :: "u64 \<Rightarrow> bool"
  get_canonical :: "u64 \<Rightarrow> u64"
  tsc_aux_supported :: bool
  has_rdtscp :: bool
  has_rdpid :: bool
  cpu_is_intel :: bool
  vendor_get :: "u32 \<Rightarrow> bool \<Rightarrow> msr_vcpu \<Rightarrow> int \<times> u64"
  vendor_set :: "u32 \<Rightarrow> u64 \<Rightarrow> bool \<Rightarrow> msr_vcpu \<Rightarrow> int \<times> msr_vcpu"
  vendor_complete :: "int \<Rightarrow> msr_vcpu \<Rightarrow> int \<times> msr_vcpu"

definition kvm_msr_ignored_check :: "msr_env \<Rightarrow> bool" where
  "kvm_msr_ignored_check e = ignore_msrs e"

text \<open>The checks that depend on the register: a failure, or the value to pass on.\<close>

definition check_set :: "msr_env \<Rightarrow> u32 \<Rightarrow> u64 \<Rightarrow> bool \<Rightarrow> u64 option" where
  "check_set e index data host =
     (if index \<in> {msr_no e FS_BASE, msr_no e GS_BASE, msr_no e KERNEL_GS_BASE, msr_no e CSTAR, msr_no e LSTAR}
      then if noncanonical e data then None else Some data
      else if index \<in> {msr_no e SYSENTER_EIP, msr_no e SYSENTER_ESP} then Some (get_canonical e data)
      else if index = msr_no e TSC_AUX
      then if \<not> tsc_aux_supported e then None
           else if \<not> host \<and> \<not> has_rdtscp e \<and> \<not> has_rdpid e then None
           else if cpu_is_intel e \<and> drop_bit 32 data \<noteq> 0 then None
           else Some (ucast (ucast data :: u32))
      else Some data)"

definition kvm_set_msr' :: "msr_env \<Rightarrow> u32 \<Rightarrow> u64 \<Rightarrow> bool \<Rightarrow> msr_vcpu \<Rightarrow> int \<times> msr_vcpu" where
  "kvm_set_msr' e index data host v =
     (if \<not> host \<and> \<not> kvm_msr_allowed (m_filter v) index (FILTER_WRITE (fenv e)) then (MSR_RET_FILTERED e, v)
      else case check_set e index data host of
             None \<Rightarrow> (1, v)
           | Some d \<Rightarrow> vendor_set e index d host v)"

definition kvm_set_msr_ignored_check :: "msr_env \<Rightarrow> u32 \<Rightarrow> u64 \<Rightarrow> bool \<Rightarrow> msr_vcpu \<Rightarrow> int \<times> msr_vcpu" where
  "kvm_set_msr_ignored_check e index data host v =
     (let (ret, v') = kvm_set_msr' e index data host v
      in (if ret = MSR_RET_INVALID e \<and> kvm_msr_ignored_check e then 0 else ret, v'))"

text \<open>A result different from zero with no data leaves the caller's variable as it was.\<close>

definition kvm_get_msr' :: "msr_env \<Rightarrow> u32 \<Rightarrow> bool \<Rightarrow> msr_vcpu \<Rightarrow> int \<times> u64 option" where
  "kvm_get_msr' e index host v =
     (if \<not> host \<and> \<not> kvm_msr_allowed (m_filter v) index (FILTER_READ (fenv e)) then (MSR_RET_FILTERED e, None)
      else if index = msr_no e TSC_AUX \<and> \<not> tsc_aux_supported e then (1, None)
      else if index = msr_no e TSC_AUX \<and> \<not> host \<and> \<not> has_rdtscp e \<and> \<not> has_rdpid e then (1, None)
      else let (ret, d) = vendor_get e index host v in (ret, if ret = 0 then Some d else None))"

definition kvm_get_msr_ignored_check :: "msr_env \<Rightarrow> u32 \<Rightarrow> bool \<Rightarrow> msr_vcpu \<Rightarrow> int \<times> u64 option" where
  "kvm_get_msr_ignored_check e index host v =
     (let (ret, d) = kvm_get_msr' e index host v
      in if ret = MSR_RET_INVALID e then (if kvm_msr_ignored_check e then 0 else ret, Some 0) else (ret, d))"

definition kvm_get_msr :: "msr_env \<Rightarrow> u32 \<Rightarrow> msr_vcpu \<Rightarrow> int \<times> u64 option" where
  "kvm_get_msr e index v = kvm_get_msr_ignored_check e index False v"

definition kvm_set_msr :: "msr_env \<Rightarrow> u32 \<Rightarrow> u64 \<Rightarrow> msr_vcpu \<Rightarrow> int \<times> msr_vcpu" where
  "kvm_set_msr e index data v = kvm_set_msr_ignored_check e index data False v"

section \<open>Instructions and exits\<close>

definition write_edx_eax :: "u64 \<Rightarrow> msr_vcpu \<Rightarrow> msr_vcpu" where
  "write_edx_eax data v = v\<lparr>m_rax := data AND 0xffffffff, m_rdx := drop_bit 32 data\<rparr>"

definition read_edx_eax :: "msr_vcpu \<Rightarrow> u64" where
  "read_edx_eax v = (m_rax v AND 0xffffffff) OR push_bit 32 (m_rdx v AND 0xffffffff)"

definition complete_emulated_rdmsr :: "msr_env \<Rightarrow> msr_vcpu \<Rightarrow> int \<times> msr_vcpu" where
  "complete_emulated_rdmsr e v =
     vendor_complete e (uint (run_msr_error v))
       (if run_msr_error v = 0 then write_edx_eax (run_msr_data v) v else v)"

definition complete_emulated_wrmsr :: "msr_env \<Rightarrow> msr_vcpu \<Rightarrow> int \<times> msr_vcpu" where
  "complete_emulated_wrmsr e v = vendor_complete e (uint (run_msr_error v)) v"

definition kvm_msr_reason :: "msr_env \<Rightarrow> int \<Rightarrow> u64" where
  "kvm_msr_reason e r =
     (if r = MSR_RET_INVALID e then REASON_UNKNOWN e
      else if r = MSR_RET_FILTERED e then REASON_FILTER e else REASON_INVAL e)"

definition kvm_msr_user_space ::
  "msr_env \<Rightarrow> u32 \<Rightarrow> msr_exit \<Rightarrow> u64 \<Rightarrow> msr_completion \<Rightarrow> int \<Rightarrow> msr_vcpu \<Rightarrow> bool \<times> msr_vcpu" where
  "kvm_msr_user_space e index reason data cb r v =
     (if user_space_msr_mask v AND kvm_msr_reason e r = 0 then (False, v)
      else (True, v\<lparr>run_exit_msr := Some reason, run_msr_error := 0, run_msr_reason := kvm_msr_reason e r,
             run_msr_index := index, run_msr_data := data, msr_complete_cb := Some cb\<rparr>))"

definition kvm_get_msr_user_space :: "msr_env \<Rightarrow> u32 \<Rightarrow> int \<Rightarrow> msr_vcpu \<Rightarrow> bool \<times> msr_vcpu" where
  "kvm_get_msr_user_space e index r v = kvm_msr_user_space e index EXIT_X86_RDMSR 0 Complete_emulated_rdmsr r v"

definition kvm_set_msr_user_space :: "msr_env \<Rightarrow> u32 \<Rightarrow> u64 \<Rightarrow> int \<Rightarrow> msr_vcpu \<Rightarrow> bool \<times> msr_vcpu" where
  "kvm_set_msr_user_space e index data r v = kvm_msr_user_space e index EXIT_X86_WRMSR data Complete_emulated_wrmsr r v"

definition kvm_emulate_rdmsr :: "msr_env \<Rightarrow> msr_vcpu \<Rightarrow> int \<times> msr_vcpu" where
  "kvm_emulate_rdmsr e v =
     (let ecx = ucast (m_rcx v); (r, data) = kvm_get_msr e ecx v;
          (bounce, v1) = (if r \<noteq> 0 then kvm_get_msr_user_space e ecx r v else (False, v))
      in if bounce then (0, v1)
         else vendor_complete e r (if r = 0 then write_edx_eax (the data) v1 else v1))"

definition kvm_emulate_wrmsr :: "msr_env \<Rightarrow> msr_vcpu \<Rightarrow> int \<times> msr_vcpu" where
  "kvm_emulate_wrmsr e v =
     (let ecx = ucast (m_rcx v); data = read_edx_eax v; (r, v1) = kvm_set_msr e ecx data v;
          (bounce, v2) = (if r \<noteq> 0 then kvm_set_msr_user_space e ecx data r v1 else (False, v1))
      in if bounce then (0, v2)
         else if r < 0 then (r, v2)
         else vendor_complete e r v2)"

section \<open>Machine check registers\<close>

text \<open>
  \<open>None\<close> is an access outside \<open>mce_banks\<close>.  \<open>mcx_ctl\<close> is the number of the first register of a bank,
  \<open>MCG_CTL_P\<close> to \<open>MCG_STATUS_MCIP\<close> are flags of headers.
\<close>

record mce_env =
  menv :: msr_env
  mcx_ctl :: "u32 \<Rightarrow> u32"
  MCG_CTL_P :: u64
  MCI_STATUS_VAL :: u64
  MCI_STATUS_UC :: u64
  MCI_STATUS_OVER :: u64
  MCG_STATUS_MCIP :: u64
  mce_cap_supported :: u64
  MAX_MCE_BANKS :: u32
  amd_or_hygon :: bool
  msr_hwcr :: u64
  cr4_mce :: bool
  REQ_TRIPLE_FAULT_NO :: nat
  REQ_QUEUE_MC :: nat

definition bank_num :: "msr_vcpu \<Rightarrow> u32" where
  "bank_num v = ucast (mcg_cap v AND 0xff)"

definition can_set_mci_status :: "mce_env \<Rightarrow> bool" where
  "can_set_mci_status e \<longleftrightarrow> amd_or_hygon e \<and> bit (msr_hwcr e) 18"

definition bank_msr :: "mce_env \<Rightarrow> u32 \<Rightarrow> msr_vcpu \<Rightarrow> bool" where
  "bank_msr e msr v \<longleftrightarrow> msr_no (menv e) MC0_CTL \<le> msr \<and> msr < mcx_ctl e (bank_num v)"

definition bank_offset :: "mce_env \<Rightarrow> u32 \<Rightarrow> nat" where
  "bank_offset e msr = unat (msr - msr_no (menv e) MC0_CTL)"

definition set_msr_mce :: "mce_env \<Rightarrow> u32 \<Rightarrow> u64 \<Rightarrow> bool \<Rightarrow> msr_vcpu \<Rightarrow> (int \<times> msr_vcpu) option" where
  "set_msr_mce e msr data host v =
     (if msr = msr_no (menv e) MCG_STATUS then Some (0, v\<lparr>mcg_status := data\<rparr>)
      else if msr = msr_no (menv e) MCG_CTL
      then if mcg_cap v AND MCG_CTL_P e = 0 \<and> (data \<noteq> 0 \<or> \<not> host) then Some (1, v)
           else if data \<noteq> 0 \<and> data \<noteq> NOT 0 then Some (1, v)
           else Some (0, v\<lparr>mcg_ctl := data\<rparr>)
      else if bank_msr e msr v
      then let offset = bank_offset e msr
           in if offset mod 4 = 0 \<and> data \<noteq> 0 \<and> data OR 0x400 \<noteq> NOT 0 then Some (-1, v)
              else if \<not> host \<and> offset mod 4 = 1 \<and> data \<noteq> 0 \<and> \<not> can_set_mci_status e then Some (-1, v)
              else if offset < length (mce_banks v) then Some (0, v\<lparr>mce_banks := (mce_banks v)[offset := data]\<rparr>)
              else None
      else Some (1, v))"

definition get_msr_mce :: "mce_env \<Rightarrow> u32 \<Rightarrow> bool \<Rightarrow> msr_vcpu \<Rightarrow> (int \<times> u64) option" where
  "get_msr_mce e msr host v =
     (if msr = msr_no (menv e) P5_MC_ADDR \<or> msr = msr_no (menv e) P5_MC_TYPE then Some (0, 0)
      else if msr = msr_no (menv e) MCG_CAP then Some (0, mcg_cap v)
      else if msr = msr_no (menv e) MCG_CTL
      then if mcg_cap v AND MCG_CTL_P e = 0 \<and> \<not> host then Some (1, 0) else Some (0, mcg_ctl v)
      else if msr = msr_no (menv e) MCG_STATUS then Some (0, mcg_status v)
      else if bank_msr e msr v
      then let offset = bank_offset e msr
           in if offset < length (mce_banks v) then Some (0, mce_banks v ! offset) else None
      else Some (1, 0))"

fun init_banks :: "nat \<Rightarrow> nat \<Rightarrow> u64 list \<Rightarrow> u64 list" where
  "init_banks 0 bank bs = bs"
| "init_banks (Suc n) bank bs = init_banks n (bank + 1) (bs[bank * 4 := NOT 0])"

definition kvm_vcpu_ioctl_x86_setup_mce :: "mce_env \<Rightarrow> u64 \<Rightarrow> msr_vcpu \<Rightarrow> int \<times> msr_vcpu" where
  "kvm_vcpu_ioctl_x86_setup_mce e cap v =
     (let banks = ucast (cap AND 0xff) :: u32
      in if banks = 0 \<or> MAX_MCE_BANKS e < banks then (-22, v)
         else if cap AND NOT (mce_cap_supported e OR 0xff OR 0xff0000) \<noteq> 0 then (-22, v)
         else (0, v\<lparr>mcg_cap := cap, mcg_ctl := (if cap AND MCG_CTL_P e \<noteq> 0 then NOT 0 else mcg_ctl v),
                    mce_banks := init_banks (unat banks) 0 (mce_banks v)\<rparr>))"

record kvm_x86_mce =
  e_bank :: nat
  e_status :: u64
  e_addr :: u64
  e_misc :: u64
  e_mcg_status :: u64

definition store_mce :: "nat \<Rightarrow> kvm_x86_mce \<Rightarrow> u64 \<Rightarrow> msr_vcpu \<Rightarrow> msr_vcpu" where
  "store_mce b m st v =
     v\<lparr>mce_banks := (mce_banks v)[4 * b + 2 := e_addr m, 4 * b + 3 := e_misc m, 4 * b + 1 := st]\<rparr>"

definition kvm_vcpu_ioctl_x86_set_mce :: "mce_env \<Rightarrow> kvm_x86_mce \<Rightarrow> msr_vcpu \<Rightarrow> (int \<times> msr_vcpu) option" where
  "kvm_vcpu_ioctl_x86_set_mce e m v =
     (let b = e_bank m; uc = (e_status m AND MCI_STATUS_UC e \<noteq> 0); old = mce_banks v ! (4 * b + 1);
          over = (if old AND MCI_STATUS_VAL e \<noteq> 0 then e_status m OR MCI_STATUS_OVER e else e_status m)
      in if b \<ge> unat (bank_num v) \<or> e_status m AND MCI_STATUS_VAL e = 0 then Some (-22, v)
         else if length (mce_banks v) < 4 * b + 4 then None
         else if uc \<and> mcg_cap v AND MCG_CTL_P e \<noteq> 0 \<and> mcg_ctl v \<noteq> NOT 0 then Some (0, v)
         else if uc \<and> mce_banks v ! (4 * b) \<noteq> NOT 0 then Some (0, v)
         else if uc
         then if mcg_status v AND MCG_STATUS_MCIP e \<noteq> 0 \<or> \<not> cr4_mce e
              then Some (0, v\<lparr>m_requests := m_requests v @ [REQ_TRIPLE_FAULT_NO e]\<rparr>)
              else Some (0, (store_mce b m over v)
                \<lparr>mcg_status := e_mcg_status m, m_requests := m_requests v @ [REQ_QUEUE_MC e]\<rparr>)
         else if old AND MCI_STATUS_VAL e = 0 \<or> old AND MCI_STATUS_UC e = 0 then Some (0, store_mce b m over v)
         else Some (0, v\<lparr>mce_banks := (mce_banks v)[4 * b + 1 := old OR MCI_STATUS_OVER e]\<rparr>))"

section \<open>Lists of registers\<close>

definition do_get_msr :: "msr_env \<Rightarrow> u32 \<Rightarrow> u64 \<Rightarrow> msr_vcpu \<Rightarrow> int \<times> u64 \<times> msr_vcpu" where
  "do_get_msr e index data v =
     (let (r, d) = kvm_get_msr_ignored_check e index True v in (r, case d of None \<Rightarrow> data | Some x \<Rightarrow> x, v))"

definition do_set_msr :: "msr_env \<Rightarrow> u32 \<Rightarrow> u64 \<Rightarrow> msr_vcpu \<Rightarrow> int \<times> u64 \<times> msr_vcpu" where
  "do_set_msr e index data v =
     (let (r, v') = kvm_set_msr_ignored_check e index data True v in (r, data, v'))"

text \<open>The number of registers done, the entries and the state.\<close>

fun msr_io' ::
  "(u32 \<Rightarrow> u64 \<Rightarrow> msr_vcpu \<Rightarrow> int \<times> u64 \<times> msr_vcpu) \<Rightarrow> (u32 \<times> u64) list \<Rightarrow> msr_vcpu
     \<Rightarrow> nat \<times> (u32 \<times> u64) list \<times> msr_vcpu" where
  "msr_io' do_msr [] v = (0, [], v)"
| "msr_io' do_msr ((i, d) # es) v =
     (let (r, d', v1) = do_msr i d v
      in if r \<noteq> 0 then (0, (i, d') # es, v1)
         else let (n, es', v2) = msr_io' do_msr es v1 in (Suc n, (i, d') # es', v2))"

text \<open>
  \<open>user\<close> is the request of user space, \<open>None\<close> when the head cannot be read; the entries too may be
  unreadable, and not writable on the way back.
\<close>

definition msr_io ::
  "nat \<Rightarrow> (u32 \<Rightarrow> u64 \<Rightarrow> msr_vcpu \<Rightarrow> int \<times> u64 \<times> msr_vcpu) \<Rightarrow> bool \<Rightarrow> (nat \<times> (u32 \<times> u64) list option \<times> bool) option
     \<Rightarrow> msr_vcpu \<Rightarrow> int \<times> (u32 \<times> u64) list option \<times> msr_vcpu" where
  "msr_io MAX_IO_MSRS do_msr writeback user v =
     (case user of
        None \<Rightarrow> (-14, None, v)
      | Some (nmsrs, ents, writable) \<Rightarrow>
          if nmsrs \<ge> MAX_IO_MSRS then (-7, None, v)
          else case ents of
                 None \<Rightarrow> (-14, None, v)
               | Some es \<Rightarrow>
                   let (n, es', v') = msr_io' do_msr (take nmsrs es) v
                   in if writeback \<and> \<not> writable then (-14, None, v')
                      else (int n, if writeback then Some es' else None, v'))"

section \<open>Properties of the instructions\<close>

lemma edx_eax_roundtrip [simp]: "read_edx_eax (write_edx_eax d v) = d"
proof -
  have m: "(0xffffffff :: u64) = mask 32" by (simp add: mask_eq_exp_minus_1)
  show ?thesis unfolding read_edx_eax_def write_edx_eax_def m
    by (rule bit_word_eqI) (auto simp: bit_simps)
qed

text \<open>
  C38: a guest read of a register that the filter denies, with exits for filtered
  registers enabled, leaves the registers alone and asks user space for it by number; when user space
  answers without error, \<open>edx\<close> and \<open>eax\<close> hold its 64-bit answer and the instruction succeeds; when it
  answers with an error, the registers are unchanged and the error reaches the vendor module; without
  exits the read fails at once.
\<close>

theorem rdmsr_user_space:
  assumes "\<not> kvm_msr_allowed (m_filter v) (ucast (m_rcx v)) (FILTER_READ (fenv e))"
    and "MSR_RET_FILTERED e \<noteq> 0" "MSR_RET_FILTERED e \<noteq> MSR_RET_INVALID e"
  shows "if user_space_msr_mask v AND REASON_FILTER e \<noteq> 0
    then \<exists>v1. kvm_emulate_rdmsr e v = (0, v1) \<and> run_exit_msr v1 = Some EXIT_X86_RDMSR
      \<and> run_msr_index v1 = ucast (m_rcx v) \<and> run_msr_reason v1 = REASON_FILTER e
      \<and> msr_complete_cb v1 = Some Complete_emulated_rdmsr
      \<and> m_rax v1 = m_rax v \<and> m_rdx v1 = m_rdx v
      \<and> (\<forall>d. \<exists>v2. complete_emulated_rdmsr e (v1\<lparr>run_msr_data := d\<rparr>) = vendor_complete e 0 v2
           \<and> read_edx_eax v2 = d)
      \<and> (\<forall>err d. err \<noteq> 0 \<longrightarrow>
           complete_emulated_rdmsr e (v1\<lparr>run_msr_error := err, run_msr_data := d\<rparr>)
             = vendor_complete e (uint err) (v1\<lparr>run_msr_error := err, run_msr_data := d\<rparr>))
    else kvm_emulate_rdmsr e v = vendor_complete e (MSR_RET_FILTERED e) v"
proof -
  have g: "kvm_get_msr e (ucast (m_rcx v)) v = (MSR_RET_FILTERED e, None)"
    using assms by (simp add: kvm_get_msr_def kvm_get_msr_ignored_check_def kvm_get_msr'_def)
  have r: "kvm_msr_reason e (MSR_RET_FILTERED e) = REASON_FILTER e"
    using assms(3) by (simp add: kvm_msr_reason_def)
  show ?thesis
  proof (cases "user_space_msr_mask v AND REASON_FILTER e = 0")
    case True
    then show ?thesis using g r assms(2)
      by (simp add: kvm_emulate_rdmsr_def kvm_get_msr_user_space_def kvm_msr_user_space_def)
  next
    case False
    define v1 where "v1 = v\<lparr>run_exit_msr := Some EXIT_X86_RDMSR, run_msr_error := 0, run_msr_reason := REASON_FILTER e,
      run_msr_index := ucast (m_rcx v), run_msr_data := 0, msr_complete_cb := Some Complete_emulated_rdmsr\<rparr>"
    have "kvm_emulate_rdmsr e v = (0, v1)" using False g r assms(2)
      by (simp add: kvm_emulate_rdmsr_def kvm_get_msr_user_space_def kvm_msr_user_space_def v1_def)
    moreover have "\<exists>v2. complete_emulated_rdmsr e (v1\<lparr>run_msr_data := d\<rparr>) = vendor_complete e 0 v2 \<and> read_edx_eax v2 = d" for d
      by (rule exI [of _ "write_edx_eax d (v1\<lparr>run_msr_data := d\<rparr>)"]) (simp add: complete_emulated_rdmsr_def v1_def)
    moreover have "complete_emulated_rdmsr e (v1\<lparr>run_msr_error := err, run_msr_data := d\<rparr>)
        = vendor_complete e (uint err) (v1\<lparr>run_msr_error := err, run_msr_data := d\<rparr>)" if "err \<noteq> 0" for err d
      using that by (simp add: complete_emulated_rdmsr_def)
    ultimately show ?thesis using False by (simp add: v1_def)
  qed
qed

section \<open>Properties of the machine check registers\<close>

text \<open>The numbers of the registers: the global ones are distinct and below the banks of four.\<close>

definition mce_numbers :: "mce_env \<Rightarrow> bool" where
  "mce_numbers e \<longleftrightarrow>
     (let n = msr_no (menv e)
      in distinct [n MCG_STATUS, n MCG_CTL, n MCG_CAP, n P5_MC_ADDR, n P5_MC_TYPE]
       \<and> (\<forall>x \<in> {n MCG_STATUS, n MCG_CTL, n MCG_CAP, n P5_MC_ADDR, n P5_MC_TYPE}. x < n MC0_CTL)
       \<and> (\<forall>b. b < 256 \<longrightarrow> unat (mcx_ctl e b) = unat (n MC0_CTL) + 4 * unat b))"

definition mce_ok :: "mce_env \<Rightarrow> msr_vcpu \<Rightarrow> bool" where
  "mce_ok e v \<longleftrightarrow> length (mce_banks v) = 4 * unat (MAX_MCE_BANKS e) \<and> bank_num v \<le> MAX_MCE_BANKS e"

lemma mce_below:
  "mce_numbers e \<Longrightarrow> msr_no (menv e) MCG_STATUS < msr_no (menv e) MC0_CTL \<and> msr_no (menv e) MCG_CTL < msr_no (menv e) MC0_CTL"
  by (simp add: mce_numbers_def Let_def)

lemma mce_bank_end:
  "mce_numbers e \<Longrightarrow> b < 256 \<Longrightarrow> unat (mcx_ctl e b) = unat (msr_no (menv e) MC0_CTL) + 4 * unat b"
  by (simp add: mce_numbers_def Let_def)

lemma bank_num_less: "bank_num v < 256"
proof -
  have "mcg_cap v AND 0xff \<le> 0xff" by (rule word_and_le1)
  then have "unat (mcg_cap v AND 0xff) \<le> 255" by (simp add: word_le_nat_alt)
  then have "unat (bank_num v) \<le> 255"
    by (simp add: bank_num_def unsigned_ucast_eq take_bit_nat_eq_self)
  then show ?thesis by (simp add: word_less_nat_alt)
qed

lemma bank_in_range:
  assumes "mce_numbers e" "mce_ok e v" "bank_msr e msr v"
  shows "bank_offset e msr < length (mce_banks v)" "msr_no (menv e) MC0_CTL \<le> msr"
proof -
  let ?m = "msr_no (menv e) MC0_CTL"
  have m: "unat ?m \<le> unat msr" and l: "unat msr < unat (mcx_ctl e (bank_num v))"
    using assms(3) by (simp_all add: bank_msr_def word_le_nat_alt word_less_nat_alt)
  show "?m \<le> msr" using m by (simp add: word_le_nat_alt)
  have "unat (mcx_ctl e (bank_num v)) = unat ?m + 4 * unat (bank_num v)"
    using mce_bank_end [OF assms(1) bank_num_less [of v]] by simp
  moreover have "unat (bank_num v) \<le> unat (MAX_MCE_BANKS e)"
    using assms(2) by (simp add: mce_ok_def word_le_nat_alt)
  moreover have "bank_offset e msr = unat msr - unat ?m"
    using m by (simp add: bank_offset_def unat_sub word_le_nat_alt)
  ultimately show "bank_offset e msr < length (mce_banks v)"
    using l m assms(2) unfolding mce_ok_def by linarith
qed

lemma init_banks_length [simp]: "length (init_banks n b bs) = length bs"
  by (induction n b bs rule: init_banks.induct) simp_all

text \<open>
  C39: once the machine check banks have been set up, no read or write of a machine check
  register, by the guest or by user space, leaves the array of banks; the set up state is kept, and a
  register written with success reads back the value written.
\<close>

theorem mce_registers:
  assumes "mce_numbers e" "length (mce_banks v) = 4 * unat (MAX_MCE_BANKS e)"
    and "kvm_vcpu_ioctl_x86_setup_mce e cap v = (0, v0)"
    and "mce_banks v1 = bs" "length bs = length (mce_banks v0)" "mcg_cap v1 = mcg_cap v0"
  shows "get_msr_mce e msr host v1 \<noteq> None
    \<and> (\<exists>r v2. set_msr_mce e msr data host v1 = Some (r, v2) \<and> length (mce_banks v2) = length bs \<and> mcg_cap v2 = cap
        \<and> (r = 0 \<longrightarrow> get_msr_mce e msr True v2 = Some (0, data)) \<and> (r \<noteq> 0 \<longrightarrow> v2 = v1))"
proof -
  have cap: "mcg_cap v1 = cap" "ucast (cap AND 0xff) \<le> MAX_MCE_BANKS e" "length bs = 4 * unat (MAX_MCE_BANKS e)"
    using assms by (auto simp: kvm_vcpu_ioctl_x86_setup_mce_def Let_def not_less split: if_splits)
  then have ok: "mce_ok e v1" using assms(4) by (simp add: mce_ok_def bank_num_def)
  note br = bank_in_range [OF assms(1) ok]
  let ?n = "msr_no (menv e)"
  have d: "distinct [?n MCG_STATUS, ?n MCG_CTL, ?n MCG_CAP, ?n P5_MC_ADDR, ?n P5_MC_TYPE]"
    "\<And>x. x \<in> {?n MCG_STATUS, ?n MCG_CTL, ?n MCG_CAP, ?n P5_MC_ADDR, ?n P5_MC_TYPE} \<Longrightarrow> x < ?n MC0_CTL"
    using assms(1) unfolding mce_numbers_def Let_def by blast+
  have g: "get_msr_mce e msr host v1 \<noteq> None"
    using br by (auto simp: get_msr_mce_def Let_def)
  consider (status) "msr = ?n MCG_STATUS" | (ctl) "msr = ?n MCG_CTL"
    | (bank) "bank_msr e msr v1" "msr \<noteq> ?n MCG_STATUS" "msr \<noteq> ?n MCG_CTL"
    | (other) "\<not> bank_msr e msr v1" "msr \<noteq> ?n MCG_STATUS" "msr \<noteq> ?n MCG_CTL" by blast
  then have "\<exists>r v2. set_msr_mce e msr data host v1 = Some (r, v2) \<and> length (mce_banks v2) = length bs \<and> mcg_cap v2 = cap
        \<and> (r = 0 \<longrightarrow> get_msr_mce e msr True v2 = Some (0, data)) \<and> (r \<noteq> 0 \<longrightarrow> v2 = v1)"
  proof cases
    case bank
    have b: "bank_msr e msr (v1\<lparr>mce_banks := xs\<rparr>)" for xs using bank(1) by (simp add: bank_msr_def bank_num_def)
    have "msr \<notin> {?n MCG_CAP, ?n P5_MC_ADDR, ?n P5_MC_TYPE}" using br(2) [OF bank(1)] d(2) by (auto simp: not_less [symmetric])
    then show ?thesis using bank br(1) [OF bank(1)] b cap assms(4)
      by (auto simp: set_msr_mce_def get_msr_mce_def Let_def)
  qed (use d(1) cap assms(4) in \<open>auto simp: set_msr_mce_def get_msr_mce_def\<close>)
  then show ?thesis using g by simp
qed

text \<open>
  A guest that writes another value than zero or all ones to the control register of a bank does not
  get the exception the architecture asks for: the result \<open>-1\<close> is taken for an error of the host and
  ends the run of the processor.
\<close>

lemma mce_write_ends_run:
  assumes "mce_numbers (d\<lparr>menv := e\<rparr>)" "m_filter v = None" "user_space_msr_mask v = 0" "MSR_RET_INVALID e > 0"
    and "vendor_set e = (\<lambda>i x h w. the (set_msr_mce (d\<lparr>menv := e\<rparr>) i x h w))"
    and "ucast (m_rcx v) = msr_no e MC0_CTL" "bank_num v \<noteq> 0"
    and "\<forall>x \<in> {FS_BASE, GS_BASE, KERNEL_GS_BASE, CSTAR, LSTAR, SYSENTER_EIP, SYSENTER_ESP, TSC_AUX}. msr_no e MC0_CTL \<noteq> msr_no e x"
    and "read_edx_eax v \<noteq> 0" "read_edx_eax v OR 0x400 \<noteq> NOT 0"
  shows "kvm_emulate_wrmsr e v = (-1, v)"
proof -
  let ?m = "msr_no e MC0_CTL" and ?d = "d\<lparr>menv := e\<rparr>"
  have lt: "?m < mcx_ctl d (bank_num v)"
  proof -
    have "unat (mcx_ctl d (bank_num v)) = unat ?m + 4 * unat (bank_num v)"
      using mce_bank_end [OF assms(1) bank_num_less [of v]] by simp
    moreover have "0 < unat (bank_num v)" using assms(7) by (simp add: unat_gt_0)
    ultimately show ?thesis by (simp add: word_less_nat_alt)
  qed
  have ne: "?m \<noteq> msr_no e MCG_STATUS" "?m \<noteq> msr_no e MCG_CTL"
    using less_irrefl [of ?m] mce_below [OF assms(1)] by auto
  have "set_msr_mce ?d ?m (read_edx_eax v) False v = Some (-1, v)"
    using ne lt assms(9,10) by (simp add: set_msr_mce_def bank_msr_def bank_offset_def)
  moreover have "check_set e ?m (read_edx_eax v) False = Some (read_edx_eax v)"
    using assms(8) by (simp add: check_set_def)
  ultimately have "kvm_set_msr e ?m (read_edx_eax v) v = (-1, v)"
    using assms(2,4,5) by (simp add: kvm_set_msr_def kvm_set_msr_ignored_check_def kvm_set_msr'_def kvm_msr_allowed_def)
  then show ?thesis using assms(3,6)
    by (simp add: kvm_emulate_wrmsr_def kvm_set_msr_user_space_def kvm_msr_user_space_def)
qed

text \<open>Parameters and a processor for the witnesses: the numbers are those of the architecture.\<close>

definition arch_no :: "msr_name \<Rightarrow> u32" where
  "arch_no n = (case n of FS_BASE \<Rightarrow> 0xc0000100 | GS_BASE \<Rightarrow> 0xc0000101 | KERNEL_GS_BASE \<Rightarrow> 0xc0000102
     | CSTAR \<Rightarrow> 0xc0000083 | LSTAR \<Rightarrow> 0xc0000082 | SYSENTER_EIP \<Rightarrow> 0x176 | SYSENTER_ESP \<Rightarrow> 0x175
     | TSC_AUX \<Rightarrow> 0xc0000103 | MCG_STATUS \<Rightarrow> 0x17a | MCG_CTL \<Rightarrow> 0x17b | MCG_CAP \<Rightarrow> 0x179
     | P5_MC_ADDR \<Rightarrow> 0 | P5_MC_TYPE \<Rightarrow> 1 | MC0_CTL \<Rightarrow> 0x400)"

definition plain_msr :: msr_env where
  "plain_msr = \<lparr>msr_no = arch_no, fenv = linux_filter, MSR_RET_INVALID = 2, MSR_RET_FILTERED = 3,
     REASON_UNKNOWN = 2, REASON_FILTER = 4, REASON_INVAL = 1, ignore_msrs = False, noncanonical = (\<lambda>_. False),
     get_canonical = (\<lambda>x. x), tsc_aux_supported = True, has_rdtscp = True, has_rdpid = False, cpu_is_intel = True,
     vendor_get = (\<lambda>i h v. (0, m_regs v i)), vendor_set = (\<lambda>i d h v. (0, v\<lparr>m_regs := (m_regs v)(i := d)\<rparr>)),
     vendor_complete = (\<lambda>r v. (1, v))\<rparr>"

definition plain_mce :: mce_env where
  "plain_mce = \<lparr>menv = plain_msr, mcx_ctl = (\<lambda>b. 0x400 + 4 * b), MCG_CTL_P = 0x100, MCI_STATUS_VAL = 2 ^ 63,
     MCI_STATUS_UC = 2 ^ 61, MCI_STATUS_OVER = 2 ^ 62, MCG_STATUS_MCIP = 4, mce_cap_supported = 0x1000100,
     MAX_MCE_BANKS = 32, amd_or_hygon = False, msr_hwcr = 0, cr4_mce = True, REQ_TRIPLE_FAULT_NO = 2, REQ_QUEUE_MC = 18\<rparr>"

definition msr_cpu :: msr_vcpu where
  "msr_cpu = \<lparr>m_rax = 1, m_rcx = 0x11, m_rdx = 2, m_regs = (\<lambda>_. 0),
     m_filter = Some \<lparr>default_allow = False, mf_ranges = []\<rparr>, user_space_msr_mask = 4, run_exit_msr = None,
     run_msr_error = 0, run_msr_reason = 0, run_msr_index = 0, run_msr_data = 0, msr_complete_cb = None,
     mcg_cap = 0, mcg_status = 0, mcg_ctl = 0, mce_banks = replicate 128 0, m_requests = []\<rparr>"

theorem rdmsr_user_space_witness:
  "\<exists>v1. kvm_emulate_rdmsr plain_msr msr_cpu = (0, v1) \<and> run_msr_index v1 = 0x11 \<and> m_rax v1 = 1
     \<and> (\<forall>d. \<exists>v2. complete_emulated_rdmsr plain_msr (v1\<lparr>run_msr_data := d\<rparr>) = vendor_complete plain_msr 0 v2
           \<and> read_edx_eax v2 = d)"
  using rdmsr_user_space [of msr_cpu plain_msr]
  by (auto simp: plain_msr_def msr_cpu_def kvm_msr_allowed_def)

lemma plain_mce_numbers: "mce_numbers plain_mce"
proof -
  have "unat (0x400 + 4 * b :: u32) = 0x400 + 4 * unat b" if "b < 256" for b
  proof -
    have b: "unat b < 256" using that by (simp add: word_less_nat_alt)
    then have "unat (4 * b) = 4 * unat b" by (simp add: unat_word_ariths)
    then show ?thesis using b by (simp add: unat_word_ariths)
  qed
  then show ?thesis by (simp add: mce_numbers_def plain_mce_def plain_msr_def arch_no_def)
qed

theorem mce_registers_witness:
  "\<exists>v0. kvm_vcpu_ioctl_x86_setup_mce plain_mce 0x10a msr_cpu = (0, v0)
     \<and> get_msr_mce plain_mce 0x404 False v0 \<noteq> None
     \<and> (\<exists>r v2. set_msr_mce plain_mce 0x405 0 False v0 = Some (r, v2) \<and> length (mce_banks v2) = length (mce_banks v0) \<and> mcg_cap v2 = 0x10a
        \<and> (r = 0 \<and> get_msr_mce plain_mce 0x405 True v2 = Some (0, 0) \<or> r \<noteq> 0 \<and> v2 = v0))"
proof -
  obtain v0 where s: "kvm_vcpu_ioctl_x86_setup_mce plain_mce 0x10a msr_cpu = (0, v0)"
    by (simp add: kvm_vcpu_ioctl_x86_setup_mce_def plain_mce_def)
  have l: "length (mce_banks msr_cpu) = 4 * unat (MAX_MCE_BANKS plain_mce)" by (simp add: msr_cpu_def plain_mce_def)
  note p = mce_registers [OF plain_mce_numbers l s refl refl refl, where host = False]
  show ?thesis using s p [where msr = "0x404"] p [where msr = "0x405" and data = 0] by blast
qed

end
