(* ===== verification/KvmTsc.thy ===== *)
theory KvmTsc
  imports Prelude
begin

unbundle bit_operations_syntax

text \<open>
  The time stamp counter of a guest (\<^verbatim>\<open>kvm/x86.c\<close>): the fixed-point factor between two frequencies,
  the choice of a frequency, offset and multiplier for a guest and a nested guest, and the matching of
  the counters of all processors of a machine.  Wide multiplications and divisions of headers, the
  vendor module and the clocks of the host are parameters.
\<close>

section \<open>State\<close>

text \<open>One processor; the two last fields are what has been handed to the vendor module.\<close>

record tsc_vcpu =
  virtual_tsc_khz :: u32
  virtual_tsc_mult :: u32
  virtual_tsc_shift :: int
  tsc_catchup :: bool
  tsc_always_catchup :: bool
  l1_tsc_offset :: u64
  tsc_offset :: u64
  l1_tsc_scaling_ratio :: u64
  tsc_scaling_ratio :: u64
  last_guest_tsc :: u64
  this_tsc_generation :: u64
  this_tsc_nsec :: u64
  this_tsc_write :: u64
  guest_mode :: bool
  l2_tsc_offset :: u64
  l2_tsc_multiplier :: u64
  hw_tsc_offset :: u64
  hw_tsc_multiplier :: u64

record tsc_vm =
  t_vcpus :: "tsc_vcpu list"
  cur_tsc_generation :: u64
  cur_tsc_nsec :: u64
  cur_tsc_write :: u64
  cur_tsc_offset :: u64
  last_tsc_nsec :: u64
  last_tsc_write :: u64
  last_tsc_khz :: u32
  nr_vcpus_matched_tsc :: nat
  use_master_clock :: bool
  masterclock_requests :: nat

text \<open>
  \<open>shl32_div32\<close> is \<open>do_shl32_div32\<close>, \<open>mul_u64_u64_shr\<close>, \<open>mul_s64_u64_shr\<close> and \<open>mul_u64_u32_div\<close> the
  multiplications of the same names, \<open>scale_delta\<close> is \<open>pvclock_scale_delta\<close>, and \<open>nsec_to_cycles\<close> a function
  of a header.
\<close>

record tsc_env =
  shl32_div32 :: "u32 \<Rightarrow> u32 \<Rightarrow> u32"
  mul_u64_u64_shr :: "u64 \<Rightarrow> u64 \<Rightarrow> nat \<Rightarrow> u64"
  mul_s64_u64_shr :: "u64 \<Rightarrow> u64 \<Rightarrow> nat \<Rightarrow> u64"
  mul_u64_u32_div :: "u64 \<Rightarrow> u32 \<Rightarrow> u32 \<Rightarrow> u64"
  scale_delta :: "u64 \<Rightarrow> u32 \<Rightarrow> int \<Rightarrow> u64"
  nsec_to_cycles :: "tsc_vcpu \<Rightarrow> u64 \<Rightarrow> u64"
  default_ratio :: u64
  max_ratio :: u64
  ratio_frac_bits :: nat
  has_tsc_control :: bool
  host_tsc_khz :: u32
  tolerance_ppm :: int
  vclock_mode :: nat
  VDSO_CLOCKMODE_TSC :: nat
  VDSO_CLOCKMODE_HVCLOCK :: nat
  tsc_unstable :: bool

section \<open>The factor between two frequencies\<close>

definition div_frac :: "tsc_env \<Rightarrow> u32 \<Rightarrow> u32 \<Rightarrow> u32" where
  "div_frac e dividend divisor = shl32_div32 e dividend divisor"

definition high_bits :: "u64 \<Rightarrow> bool" where
  "high_bits x \<longleftrightarrow> x AND 0xffffffff00000000 \<noteq> 0"

lemma unat_half: "unat (drop_bit (Suc 0) x :: 'a::len word) = unat x div 2"
  unfolding unsigned_drop_bit_eq by (simp add: drop_bit_eq_div take_bit_nat_eq_self)

lemma half_less: "x \<noteq> 0 \<Longrightarrow> unat (drop_bit (Suc 0) x :: u64) < unat x"
  unfolding unat_half by (simp add: unat_gt_0)

function base_loop :: "u64 \<Rightarrow> u64 \<Rightarrow> int \<Rightarrow> u64 \<times> int" where
  "base_loop scaled tps sh =
     (if tps > scaled * 2 \<or> high_bits tps then base_loop scaled (drop_bit 1 tps) (sh - 1) else (tps, sh))"
  by pat_completeness auto
termination
  by (relation "measure (\<lambda>(s, t, sh). unat t)") (auto simp: high_bits_def intro!: half_less)

text \<open>The second loop may run forever: then the result is \<open>None\<close>.\<close>

partial_function (option) scale_loop :: "u64 \<Rightarrow> u32 \<Rightarrow> int \<Rightarrow> (u64 \<times> u32 \<times> int) option" where
  "scale_loop scaled tps sh =
     (if ucast tps \<le> scaled \<or> high_bits scaled
      then if high_bits scaled \<or> tps AND 0x80000000 \<noteq> 0
           then scale_loop (drop_bit 1 scaled) tps (sh + 1)
           else scale_loop scaled (push_bit 1 tps) (sh + 1)
      else Some (scaled, tps, sh))"

text \<open>Shift and multiplier; the shift is stored in a signed byte.\<close>

definition as_s8 :: "int \<Rightarrow> int" where
  "as_s8 x = sint (word_of_int x :: 8 word)"

definition kvm_get_time_scale :: "tsc_env \<Rightarrow> u64 \<Rightarrow> u64 \<Rightarrow> (int \<times> u32) option" where
  "kvm_get_time_scale e scaled_hz base_hz =
     (let (tps64, sh) = base_loop scaled_hz base_hz 0
      in case scale_loop scaled_hz (ucast tps64) sh of
           None \<Rightarrow> None
         | Some (scaled, tps32, sh') \<Rightarrow> Some (as_s8 sh', div_frac e (ucast scaled) tps32))"

section \<open>Multiplier and offset\<close>

definition adjust_tsc_khz :: "u32 \<Rightarrow> int \<Rightarrow> u32" where
  "adjust_tsc_khz khz ppm = ucast ((ucast khz * word_of_int (1000000 + ppm)) div 1000000 :: u64)"

definition scale_tsc' :: "tsc_env \<Rightarrow> u64 \<Rightarrow> u64 \<Rightarrow> u64" where
  "scale_tsc' e ratio tsc = mul_u64_u64_shr e tsc ratio (ratio_frac_bits e)"

definition kvm_scale_tsc :: "tsc_env \<Rightarrow> u64 \<Rightarrow> u64 \<Rightarrow> u64" where
  "kvm_scale_tsc e tsc ratio = (if ratio \<noteq> default_ratio e then scale_tsc' e ratio tsc else tsc)"

definition kvm_compute_l1_tsc_offset :: "tsc_env \<Rightarrow> u64 \<Rightarrow> u64 \<Rightarrow> tsc_vcpu \<Rightarrow> u64" where
  "kvm_compute_l1_tsc_offset e rdtsc target v = target - kvm_scale_tsc e rdtsc (l1_tsc_scaling_ratio v)"

definition kvm_read_l1_tsc :: "tsc_env \<Rightarrow> u64 \<Rightarrow> tsc_vcpu \<Rightarrow> u64" where
  "kvm_read_l1_tsc e host_tsc v = l1_tsc_offset v + kvm_scale_tsc e host_tsc (l1_tsc_scaling_ratio v)"

definition kvm_calc_nested_tsc_offset :: "tsc_env \<Rightarrow> u64 \<Rightarrow> u64 \<Rightarrow> u64 \<Rightarrow> u64" where
  "kvm_calc_nested_tsc_offset e l1_offset l2_offset l2_multiplier =
     (if l2_multiplier = default_ratio e then l1_offset
      else mul_s64_u64_shr e l1_offset l2_multiplier (ratio_frac_bits e)) + l2_offset"

definition kvm_calc_nested_tsc_multiplier :: "tsc_env \<Rightarrow> u64 \<Rightarrow> u64 \<Rightarrow> u64" where
  "kvm_calc_nested_tsc_multiplier e l1_multiplier l2_multiplier =
     (if l2_multiplier \<noteq> default_ratio e then mul_u64_u64_shr e l1_multiplier l2_multiplier (ratio_frac_bits e)
      else l1_multiplier)"

definition kvm_vcpu_write_tsc_offset :: "tsc_env \<Rightarrow> u64 \<Rightarrow> tsc_vcpu \<Rightarrow> tsc_vcpu" where
  "kvm_vcpu_write_tsc_offset e l1_offset v =
     (let off = (if guest_mode v
                 then kvm_calc_nested_tsc_offset e l1_offset (l2_tsc_offset v) (l2_tsc_multiplier v) else l1_offset)
      in v\<lparr>l1_tsc_offset := l1_offset, tsc_offset := off, hw_tsc_offset := off\<rparr>)"

definition kvm_vcpu_write_tsc_multiplier :: "tsc_env \<Rightarrow> u64 \<Rightarrow> tsc_vcpu \<Rightarrow> tsc_vcpu" where
  "kvm_vcpu_write_tsc_multiplier e l1_multiplier v =
     (let mul = (if guest_mode v then kvm_calc_nested_tsc_multiplier e l1_multiplier (l2_tsc_multiplier v) else l1_multiplier)
      in v\<lparr>l1_tsc_scaling_ratio := l1_multiplier, tsc_scaling_ratio := mul,
           hw_tsc_multiplier := (if has_tsc_control e then mul else hw_tsc_multiplier v)\<rparr>)"

definition set_tsc_khz :: "tsc_env \<Rightarrow> u32 \<Rightarrow> bool \<Rightarrow> tsc_vcpu \<Rightarrow> int \<times> tsc_vcpu" where
  "set_tsc_khz e user_tsc_khz scale v =
     (if \<not> scale then (0, kvm_vcpu_write_tsc_multiplier e (default_ratio e) v)
      else if \<not> has_tsc_control e
      then if user_tsc_khz > host_tsc_khz e then (0, v\<lparr>tsc_catchup := True, tsc_always_catchup := True\<rparr>) else (-1, v)
      else let ratio = mul_u64_u32_div e (push_bit (ratio_frac_bits e) 1) user_tsc_khz (host_tsc_khz e)
        in if ratio = 0 \<or> ratio \<ge> max_ratio e then (-1, v)
           else (0, kvm_vcpu_write_tsc_multiplier e ratio v))"

text \<open>\<open>None\<close>: the computation of the factor does not return.\<close>

definition kvm_set_tsc_khz :: "tsc_env \<Rightarrow> u32 \<Rightarrow> tsc_vcpu \<Rightarrow> (int \<times> tsc_vcpu) option" where
  "kvm_set_tsc_khz e user_tsc_khz v =
     (if user_tsc_khz = 0 then Some (-1, kvm_vcpu_write_tsc_multiplier e (default_ratio e) v)
      else case kvm_get_time_scale e (ucast user_tsc_khz * 1000) 1000000000 of
             None \<Rightarrow> None
           | Some (sh, mult) \<Rightarrow>
               let v1 = v\<lparr>virtual_tsc_shift := sh, virtual_tsc_mult := mult, virtual_tsc_khz := user_tsc_khz\<rparr>;
                   lo = adjust_tsc_khz (host_tsc_khz e) (- tolerance_ppm e);
                   hi = adjust_tsc_khz (host_tsc_khz e) (tolerance_ppm e)
               in Some (set_tsc_khz e user_tsc_khz (user_tsc_khz < lo \<or> user_tsc_khz > hi) v1))"

definition compute_guest_tsc :: "tsc_env \<Rightarrow> u64 \<Rightarrow> tsc_vcpu \<Rightarrow> u64" where
  "compute_guest_tsc e kernel_ns v =
     scale_delta e (kernel_ns - this_tsc_nsec v) (virtual_tsc_mult v) (virtual_tsc_shift v) + this_tsc_write v"

definition adjust_tsc_offset_guest :: "tsc_env \<Rightarrow> u64 \<Rightarrow> tsc_vcpu \<Rightarrow> tsc_vcpu" where
  "adjust_tsc_offset_guest e adjustment v = kvm_vcpu_write_tsc_offset e (l1_tsc_offset v + adjustment) v"

definition adjust_tsc_offset_host :: "tsc_env \<Rightarrow> u64 \<Rightarrow> tsc_vcpu \<Rightarrow> tsc_vcpu" where
  "adjust_tsc_offset_host e adjustment v =
     adjust_tsc_offset_guest e (kvm_scale_tsc e adjustment (l1_tsc_scaling_ratio v)) v"

section \<open>Matching the counters of a machine\<close>

definition kvm_check_tsc_unstable :: "tsc_env \<Rightarrow> bool" where
  "kvm_check_tsc_unstable e = (if vclock_mode e = VDSO_CLOCKMODE_HVCLOCK e then False else tsc_unstable e)"

definition gtod_is_based_on_tsc :: "tsc_env \<Rightarrow> nat \<Rightarrow> bool" where
  "gtod_is_based_on_tsc e mode \<longleftrightarrow> mode = VDSO_CLOCKMODE_TSC e \<or> mode = VDSO_CLOCKMODE_HVCLOCK e"

definition kvm_track_tsc_matching :: "tsc_env \<Rightarrow> tsc_vm \<Rightarrow> tsc_vm" where
  "kvm_track_tsc_matching e s =
     (let matched = (nr_vcpus_matched_tsc s + 1 = length (t_vcpus s))
      in if use_master_clock s \<or> gtod_is_based_on_tsc e (vclock_mode e) \<and> matched
         then s\<lparr>masterclock_requests := masterclock_requests s + 1\<rparr> else s)"

text \<open>Whether a write is an attempt to synchronize: \<open>elapsed\<close> is the time since the last write.\<close>

definition synchronizing :: "tsc_env \<Rightarrow> tsc_vm \<Rightarrow> tsc_vcpu \<Rightarrow> u64 \<Rightarrow> u64 \<Rightarrow> bool" where
  "synchronizing e s v elapsed data \<longleftrightarrow> virtual_tsc_khz v \<noteq> 0 \<and>
     (data = 0 \<or>
      (let tsc_exp = last_tsc_write s + nsec_to_cycles e v elapsed; tsc_hz = ucast (virtual_tsc_khz v) * 1000
       in data < tsc_exp + tsc_hz \<and> data + tsc_hz > tsc_exp))"

text \<open>
  A write of processor \<open>i\<close>; \<open>tsc\<close> and \<open>tsc'\<close> are the two values the counter of the host may be read with,
  \<open>ns\<close> the time.
\<close>

definition kvm_synchronize_tsc :: "tsc_env \<Rightarrow> u64 \<Rightarrow> u64 \<Rightarrow> u64 \<Rightarrow> nat \<Rightarrow> u64 \<Rightarrow> tsc_vm \<Rightarrow> tsc_vm" where
  "kvm_synchronize_tsc e tsc tsc' ns i data s =
     (let v = t_vcpus s ! i;
          offset0 = kvm_compute_l1_tsc_offset e tsc data v;
          elapsed = ns - last_tsc_nsec s;
          matched = (synchronizing e s v elapsed data \<and> virtual_tsc_khz v = last_tsc_khz s);
          already = (this_tsc_generation v = cur_tsc_generation s);
          data' = (if matched \<and> kvm_check_tsc_unstable e then data + nsec_to_cycles e v elapsed else data);
          offset = (if matched
                    then if \<not> kvm_check_tsc_unstable e then cur_tsc_offset s
                         else kvm_compute_l1_tsc_offset e tsc' data' v
                    else offset0);
          s1 = (if matched then s
                else s\<lparr>cur_tsc_generation := cur_tsc_generation s + 1, cur_tsc_nsec := ns,
                       cur_tsc_write := data', cur_tsc_offset := offset\<rparr>);
          s2 = s1\<lparr>last_tsc_nsec := ns, last_tsc_write := data', last_tsc_khz := virtual_tsc_khz v\<rparr>;
          v1 = v\<lparr>last_guest_tsc := data', this_tsc_generation := cur_tsc_generation s2,
                 this_tsc_nsec := cur_tsc_nsec s2, this_tsc_write := cur_tsc_write s2\<rparr>;
          s3 = s2\<lparr>t_vcpus := (t_vcpus s)[i := kvm_vcpu_write_tsc_offset e offset v1],
                 nr_vcpus_matched_tsc := (if \<not> matched then 0
                   else if \<not> already then nr_vcpus_matched_tsc s + 1 else nr_vcpus_matched_tsc s)\<rparr>
      in kvm_track_tsc_matching e s3)"

section \<open>The two loops\<close>

lemma high_bits_iff: "high_bits x \<longleftrightarrow> 2 ^ 32 \<le> unat x"
proof -
  have "x AND push_bit 32 (mask 32) = push_bit 32 (drop_bit 32 x)"
    by (rule bit_word_eqI) (auto simp: bit_simps)
  then have "x AND 0xffffffff00000000 = push_bit 32 (drop_bit 32 x)" by (simp add: mask_eq_exp_minus_1)
  moreover have "drop_bit 32 (push_bit 32 (drop_bit 32 x)) = drop_bit 32 x"
    by (rule bit_word_eqI) (auto simp: bit_simps dest: bit_imp_le_length)
  ultimately have "high_bits x \<longleftrightarrow> drop_bit 32 x \<noteq> 0" unfolding high_bits_def by (metis push_bit_of_0 drop_bit_of_0)
  moreover have "unat (drop_bit 32 x) = unat x div 2 ^ 32"
    unfolding unsigned_drop_bit_eq using take_bit_nat_eq_self [OF unsigned_less, of x, simplified] by (simp add: drop_bit_eq_div)
  ultimately show ?thesis by (metis div_greater_zero_iff gr0I unat_eq_zero zero_less_numeral zero_less_power less_numeral_extra(3))
qed

lemma unat_ucast_u32: "unat (ucast (t :: u32) :: u64) = unat t"
  by (simp add: unsigned_ucast_eq take_bit_nat_eq_self less_trans [OF unsigned_less])

lemma top_bit_iff: "(t :: u32) AND 0x80000000 \<noteq> 0 \<longleftrightarrow> 2 ^ 31 \<le> unat t"
proof -
  have "t AND 0x80000000 \<noteq> 0 \<longleftrightarrow> bit t 31" using and_exp_eq_0_iff_not_bit [of t 31] by simp
  moreover have "bit t 31 \<longleftrightarrow> odd (unat t div 2 ^ 31)" using bit_unsigned_iff [where 'a=nat, of t 31] unfolding bit_iff_odd [of "unat t"] by simp
  moreover have "unat t < 2 ^ 32" using unsigned_less [of t] by simp
  then have "unat t div 2 ^ 31 < 2" by (simp add: less_mult_imp_div_less)
  moreover have "unat t div 2 ^ 31 = 0 \<longleftrightarrow> unat t < 2 ^ 31" by (simp add: div_eq_0_iff)
  ultimately show ?thesis by (metis even_zero less_2_cases not_less odd_one One_nat_def)
qed

lemma unat_double: "unat (t :: u32) < 2 ^ 31 \<Longrightarrow> unat (push_bit (Suc 0) t) = 2 * unat t"
  by (simp add: push_bit_eq_mult unat_word_ariths)

lemma unat_twice: "unat (s :: u64) < 2 ^ 63 \<Longrightarrow> unat (s * 2) = 2 * unat s"
  by (simp add: unat_word_ariths)

lemma base_loop_result:
  assumes "0 < unat s" "unat s < 2 ^ 63" "0 < unat t"
  shows "0 < unat (fst (base_loop s t sh)) \<and> unat (fst (base_loop s t sh)) < 2 ^ 32
    \<and> unat (fst (base_loop s t sh)) \<le> 2 * unat s
    \<and> (unat t \<le> 2 * unat s \<and> unat t < 2 ^ 32 \<longrightarrow> base_loop s t sh = (t, sh))"
  using assms
proof (induction s t sh rule: base_loop.induct)
  case (1 s t sh)
  have w: "s * 2 < t \<longleftrightarrow> 2 * unat s < unat t" using unat_twice [OF 1(3)] by (simp add: word_less_nat_alt)
  show ?case
  proof (cases "t > s * 2 \<or> high_bits t")
    case True
    then have "0 < unat (drop_bit (Suc 0) t)" using 1(2) w by (auto simp: unat_half high_bits_iff)
    then show ?thesis using 1(1) [OF True] 1(2,3) True w
      by (subst (1 2 3 4) base_loop.simps) (auto simp: high_bits_iff)
  next
    case False
    then show ?thesis using 1(4) w by (subst (1 2 3 4) base_loop.simps) (auto simp: high_bits_iff)
  qed
qed

text \<open>The second loop returns, with a divisor above the dividend.\<close>

lemma scale_loop_returns:
  assumes "0 < unat t"
  shows "\<exists>s' t' sh'. scale_loop s t sh = Some (s', t', sh') \<and> unat s' < unat t' \<and> \<not> high_bits s'"
  using assms
proof (induction "unat s + (2 ^ 32 - unat t)" arbitrary: s t sh rule: less_induct)
  case less
  have t32: "unat t < 2 ^ 32" using unsigned_less [of t] by simp
  have le: "ucast t \<le> s \<longleftrightarrow> unat t \<le> unat s" by (simp add: word_le_nat_alt unat_ucast_u32)
  show ?case
  proof (cases "ucast t \<le> s \<or> high_bits s")
    case True
    show ?thesis
    proof (cases "high_bits s \<or> t AND 0x80000000 \<noteq> 0")
      case halve: True
      then have "0 < unat s" using True le less.prems by (auto simp: high_bits_iff)
      then have "unat (drop_bit (Suc 0) s) < unat s" by (simp add: unat_half)
      then show ?thesis using less.hyps [of "drop_bit (Suc 0) s" t "sh + 1"] less.prems True halve
        by (subst scale_loop.simps) simp
    next
      case double: False
      then have d: "unat (push_bit (Suc 0) t) = 2 * unat t" by (intro unat_double) (simp add: top_bit_iff)
      then have "2 ^ 32 - unat (push_bit (Suc 0) t) < 2 ^ 32 - unat t" using less.prems t32 by simp
      then show ?thesis using less.hyps [of s "push_bit (Suc 0) t" "sh + 1"] less.prems True double d
        by (subst scale_loop.simps) simp
    qed
  next
    case False
    then show ?thesis using le by (subst scale_loop.simps) auto
  qed
qed

text \<open>While the dividend is below \<open>2^31\<close> only the divisor moves, and no bit is lost.\<close>

lemma scale_loop_exact:
  assumes "0 < unat t" "unat s < 2 ^ 31"
  shows "\<exists>c t'. scale_loop s t sh = Some (s, t', sh + int c) \<and> unat t' = unat t * 2 ^ c \<and> unat s < unat t'"
  using assms(1)
proof (induction "2 ^ 32 - unat t" arbitrary: t sh rule: less_induct)
  case less
  have t32: "unat t < 2 ^ 32" using unsigned_less [of t] by simp
  have le: "ucast t \<le> s \<longleftrightarrow> unat t \<le> unat s" by (simp add: word_le_nat_alt unat_ucast_u32)
  have lo: "\<not> high_bits s" using assms(2) by (simp add: high_bits_iff)
  show ?case
  proof (cases "ucast t \<le> s")
    case True
    then have t31: "unat t < 2 ^ 31" using le assms(2) by simp
    then have top: "\<not> t AND 0x80000000 \<noteq> 0" by (simp add: top_bit_iff)
    have d: "unat (push_bit (Suc 0) t) = 2 * unat t" by (rule unat_double [OF t31])
    then have "2 ^ 32 - unat (push_bit (Suc 0) t) < 2 ^ 32 - unat t" using less.prems t32 by simp
    then obtain c t' where "scale_loop s (push_bit (Suc 0) t) (sh + 1) = Some (s, t', sh + 1 + int c)"
      "unat t' = 2 * unat t * 2 ^ c" "unat s < unat t'"
      using less.hyps [of "push_bit (Suc 0) t" "sh + 1"] less.prems d by auto
    then have "scale_loop s t sh = Some (s, t', sh + int (Suc c)) \<and> unat t' = unat t * 2 ^ Suc c \<and> unat s < unat t'"
      using True lo top by (subst scale_loop.simps) (simp add: ac_simps)
    then show ?thesis by blast
  next
    case False
    then have "scale_loop s t sh = Some (s, t, sh + int 0) \<and> unat t = unat t * 2 ^ 0 \<and> unat s < unat t"
      using lo le by (subst scale_loop.simps) auto
    then show ?thesis by blast
  qed
qed

lemma as_s8_small: "0 \<le> x \<Longrightarrow> x < 128 \<Longrightarrow> as_s8 x = x"
  unfolding as_s8_def by (simp add: sint_sbintrunc' signed_take_bit_int_eq_self)

text \<open>The division of the header, where its quotient fits.\<close>

definition div_law :: "tsc_env \<Rightarrow> bool" where
  "div_law e \<longleftrightarrow> (\<forall>a b. a < b \<longrightarrow> unat (shl32_div32 e a b) = unat a * 2 ^ 32 div unat b)"

lemma unat_low32: "unat x < 2 ^ 32 \<Longrightarrow> unat (ucast (x :: u64) :: u32) = unat x"
  by (simp add: unsigned_ucast_eq take_bit_nat_eq_self)

lemma time_scale_returns:
  assumes "0 < unat scaled" "unat scaled < 2 ^ 63" "0 < unat base"
  shows "kvm_get_time_scale e scaled base \<noteq> None"
proof -
  obtain t sh where b: "base_loop scaled base 0 = (t, sh)" by fastforce
  then have "0 < unat t" "unat t < 2 ^ 32" using base_loop_result [OF assms, of 0] by auto
  then show ?thesis using scale_loop_returns [of "ucast t :: u32" scaled sh]
    unfolding kvm_get_time_scale_def b by (auto simp: unat_low32)
qed

lemma time_scale_exact:
  assumes "div_law e" "0 < unat base" "unat base \<le> 2 * unat scaled" "unat base < 2 ^ 32" "unat scaled < 2 ^ 31"
  shows "\<exists>c mult. kvm_get_time_scale e scaled base = Some (int c, mult)
    \<and> unat mult = unat scaled * 2 ^ 32 div (unat base * 2 ^ c)"
proof -
  have b: "base_loop scaled base 0 = (base, 0)" using base_loop_result [of scaled base 0] assms by simp
  obtain c t where c: "scale_loop scaled (ucast base) 0 = Some (scaled, t, int c)"
    "unat t = unat base * 2 ^ c" "unat scaled < unat t"
    using scale_loop_exact [of "ucast base :: u32" scaled 0] assms by (auto simp: unat_low32)
  have "1 * 2 ^ c \<le> unat t" unfolding c(2) using assms(2) by (intro mult_le_mono1) simp
  also have "unat t < 2 ^ 32" using unsigned_less [of t] by simp
  finally have "(2 :: nat) ^ c < 2 ^ 32" by simp
  then have "int c < 128" by (simp only: power_strict_increasing_iff)
  moreover have "unat (ucast scaled :: u32) = unat scaled" using assms(5) by (simp add: unat_low32)
  moreover have "(ucast scaled :: u32) < t" using c(3) assms(5) by (simp add: word_less_nat_alt unat_low32)
  ultimately show ?thesis using assms(1) c(2)
    unfolding kvm_get_time_scale_def b div_law_def by (auto simp: c(1) as_s8_small div_frac_def)
qed

text \<open>
  C40 (termination).  The computation of the factor between two frequencies ends whenever the
  first is below \<open>2^63\<close> Hertz and neither is zero; and from a base below \<open>2^32\<close> that is at most twice a
  scaled frequency below \<open>2^31\<close>, the multiplier and the shift are the exact factor, rounded down in the
  32nd bit behind the point.
\<close>

theorem time_scale:
  assumes "div_law e" "0 < unat scaled" "unat scaled < 2 ^ 63" "0 < unat base"
  shows "\<exists>sh mult. kvm_get_time_scale e scaled base = Some (sh, mult)
    \<and> (unat base \<le> 2 * unat scaled \<and> unat base < 2 ^ 32 \<and> unat scaled < 2 ^ 31 \<longrightarrow>
         0 \<le> sh \<and> unat mult * (unat base * 2 ^ nat sh) \<le> unat scaled * 2 ^ 32
         \<and> unat scaled * 2 ^ 32 < (unat mult + 1) * (unat base * 2 ^ nat sh))"
proof (cases "unat base \<le> 2 * unat scaled \<and> unat base < 2 ^ 32 \<and> unat scaled < 2 ^ 31")
  case True
  then obtain c mult where r: "kvm_get_time_scale e scaled base = Some (int c, mult)"
    "unat mult = unat scaled * 2 ^ 32 div (unat base * 2 ^ c)"
    using time_scale_exact [OF assms(1,4)] by blast
  have "0 < unat base * 2 ^ c" using assms(4) by simp
  then have "unat mult * (unat base * 2 ^ c) \<le> unat scaled * 2 ^ 32
    \<and> unat scaled * 2 ^ 32 < (unat mult + 1) * (unat base * 2 ^ c)"
    unfolding r(2) by (metis Suc_eq_plus1 dividend_less_div_times div_times_less_eq_dividend mult.commute mult_Suc add.commute)
  then show ?thesis using r(1) by (intro exI [of _ "int c"] exI [of _ mult]) simp
next
  case False
  then show ?thesis using time_scale_returns [OF assms(2-4), of e] by auto
qed

lemma set_tsc_khz_returns: "kvm_set_tsc_khz e khz v \<noteq> None"
proof (cases "khz = 0")
  case False
  have "unat khz < 2 ^ 32" using unsigned_less [of khz] by simp
  then have "unat (ucast khz * 1000 :: u64) = unat khz * 1000" by (simp add: unat_word_ariths unat_ucast_u32)
  moreover have "0 < unat khz" using False by (simp add: unat_gt_0)
  ultimately have "kvm_get_time_scale e (ucast khz * 1000) 1000000000 \<noteq> None"
    using \<open>unat khz < 2 ^ 32\<close> by (intro time_scale_returns) simp_all
  then show ?thesis by (auto simp: kvm_set_tsc_khz_def Let_def)
qed (simp add: kvm_set_tsc_khz_def)

section \<open>Matched counters\<close>

lemma written_tsc: "kvm_read_l1_tsc e tsc (kvm_vcpu_write_tsc_offset e (kvm_compute_l1_tsc_offset e tsc target v) v) = target"
  by (simp add: kvm_read_l1_tsc_def kvm_vcpu_write_tsc_offset_def kvm_compute_l1_tsc_offset_def Let_def)

text \<open>
  The states of a machine after \<open>n\<close> writes: processors are added with cleared fields, change their
  frequency and write their counters, and the master clock is switched.
\<close>

inductive tsc_reach :: "tsc_env \<Rightarrow> nat \<Rightarrow> tsc_vm \<Rightarrow> bool" for e where
  created: "t_vcpus s = [] \<Longrightarrow> cur_tsc_generation s = 0 \<Longrightarrow> last_tsc_khz s = 0 \<Longrightarrow> tsc_reach e 0 s"
| added: "tsc_reach e n s \<Longrightarrow> this_tsc_generation v = 0 \<Longrightarrow> tsc_reach e n (s\<lparr>t_vcpus := t_vcpus s @ [v]\<rparr>)"
| frequency: "tsc_reach e n s \<Longrightarrow> i < length (t_vcpus s) \<Longrightarrow> kvm_set_tsc_khz e khz (t_vcpus s ! i) = Some (r, v) \<Longrightarrow>
    tsc_reach e n (s\<lparr>t_vcpus := (t_vcpus s)[i := v]\<rparr>)"
| clock: "tsc_reach e n s \<Longrightarrow> tsc_reach e n (s\<lparr>use_master_clock := b\<rparr>)"
| written: "tsc_reach e n s \<Longrightarrow> i < length (t_vcpus s) \<Longrightarrow>
    tsc_reach e (Suc n) (kvm_synchronize_tsc e tsc tsc' ns i data s)"

definition in_generation :: "u64 \<Rightarrow> tsc_vcpu list \<Rightarrow> nat" where
  "in_generation g vs = length (filter (\<lambda>v. this_tsc_generation v = g) vs)"

text \<open>
  The processors of the current generation share its offset and are counted; no processor is ahead of
  the machine.
\<close>

definition tsc_inv :: "nat \<Rightarrow> tsc_vm \<Rightarrow> bool" where
  "tsc_inv n s \<longleftrightarrow> unat (cur_tsc_generation s) \<le> n
     \<and> (\<forall>v \<in> set (t_vcpus s). unat (this_tsc_generation v) \<le> unat (cur_tsc_generation s))
     \<and> (if cur_tsc_generation s = 0 then last_tsc_khz s = 0
        else nr_vcpus_matched_tsc s + 1 = in_generation (cur_tsc_generation s) (t_vcpus s)
          \<and> (\<forall>v \<in> set (t_vcpus s). this_tsc_generation v = cur_tsc_generation s \<longrightarrow> l1_tsc_offset v = cur_tsc_offset s))"

lemma in_generation_append: "in_generation g (vs @ [v]) = in_generation g vs + (if this_tsc_generation v = g then 1 else 0)"
  by (simp add: in_generation_def)

lemma in_generation_update:
  assumes "i < length vs"
  shows "in_generation g (vs[i := v]) + (if this_tsc_generation (vs ! i) = g then 1 else 0)
    = in_generation g vs + (if this_tsc_generation v = g then 1 else 0)"
  using assms unfolding in_generation_def
proof (induction vs arbitrary: i)
  case (Cons a vs)
  then show ?case by (cases i) auto
qed simp

lemma in_generation_0: "(\<And>v. v \<in> set vs \<Longrightarrow> this_tsc_generation v \<noteq> g) \<Longrightarrow> in_generation g vs = 0"
  by (simp add: in_generation_def)

lemma in_generation_all: "in_generation g vs = length vs \<Longrightarrow> v \<in> set vs \<Longrightarrow> this_tsc_generation v = g"
  using length_filter_less [of v vs "\<lambda>v. this_tsc_generation v = g"] unfolding in_generation_def by auto

lemma set_khz_keeps:
  assumes "kvm_set_tsc_khz e khz v = Some (r, v')"
  shows "this_tsc_generation v' = this_tsc_generation v \<and> l1_tsc_offset v' = l1_tsc_offset v"
  using assms by (auto simp: kvm_set_tsc_khz_def set_tsc_khz_def kvm_vcpu_write_tsc_multiplier_def Let_def
      split: if_splits option.splits)

definition sync_matched :: "tsc_env \<Rightarrow> u64 \<Rightarrow> nat \<Rightarrow> u64 \<Rightarrow> tsc_vm \<Rightarrow> bool" where
  "sync_matched e ns i data s \<longleftrightarrow> synchronizing e s (t_vcpus s ! i) (ns - last_tsc_nsec s) data
     \<and> virtual_tsc_khz (t_vcpus s ! i) = last_tsc_khz s"

text \<open>What a write does, in the terms of the invariant.\<close>

lemma sync_result:
  assumes "s' = kvm_synchronize_tsc e tsc tsc' ns i data s" "\<not> kvm_check_tsc_unstable e" "i < length (t_vcpus s)"
  shows "\<exists>v'. t_vcpus s' = (t_vcpus s)[i := v'] \<and> this_tsc_generation v' = cur_tsc_generation s'
    \<and> l1_tsc_offset v' = cur_tsc_offset s'
    \<and> (if sync_matched e ns i data s
       then cur_tsc_generation s' = cur_tsc_generation s \<and> cur_tsc_offset s' = cur_tsc_offset s
         \<and> last_tsc_khz s' = last_tsc_khz s \<and> last_tsc_khz s \<noteq> 0
         \<and> nr_vcpus_matched_tsc s' = nr_vcpus_matched_tsc s
             + (if this_tsc_generation (t_vcpus s ! i) = cur_tsc_generation s then 0 else 1)
       else cur_tsc_generation s' = cur_tsc_generation s + 1 \<and> nr_vcpus_matched_tsc s' = 0)"
proof (cases "sync_matched e ns i data s")
  case True
  then have m: "synchronizing e s (t_vcpus s ! i) (ns - last_tsc_nsec s) data"
    "virtual_tsc_khz (t_vcpus s ! i) = last_tsc_khz s" "last_tsc_khz s \<noteq> 0"
    unfolding sync_matched_def synchronizing_def by auto
  show ?thesis unfolding assms(1) kvm_synchronize_tsc_def kvm_track_tsc_matching_def
    by (rule exI [of _ "t_vcpus (kvm_synchronize_tsc e tsc tsc' ns i data s) ! i"])
      (simp add: kvm_synchronize_tsc_def kvm_track_tsc_matching_def True m assms(2,3) Let_def kvm_vcpu_write_tsc_offset_def)
next
  case False
  then have m: "\<not> (synchronizing e s (t_vcpus s ! i) (ns - last_tsc_nsec s) data
    \<and> virtual_tsc_khz (t_vcpus s ! i) = last_tsc_khz s)" by (simp add: sync_matched_def)
  show ?thesis unfolding assms(1) kvm_synchronize_tsc_def kvm_track_tsc_matching_def
    by (rule exI [of _ "t_vcpus (kvm_synchronize_tsc e tsc tsc' ns i data s) ! i"])
      (simp add: kvm_synchronize_tsc_def kvm_track_tsc_matching_def False m assms(2,3) Let_def kvm_vcpu_write_tsc_offset_def)
qed

lemma next_generation: "unat g < 2 ^ 64 - 1 \<Longrightarrow> unat (g + 1 :: u64) = unat g + 1"
  by (simp add: unat_word_ariths)

lemma sync_inv:
  assumes inv: "tsc_inv n s" and n: "n < 2 ^ 64 - 1" and stable: "\<not> kvm_check_tsc_unstable e"
    and i: "i < length (t_vcpus s)"
  shows "tsc_inv (Suc n) (kvm_synchronize_tsc e tsc tsc' ns i data s)
    \<and> cur_tsc_generation (kvm_synchronize_tsc e tsc tsc' ns i data s) \<noteq> 0"
proof -
  define s' where "s' = kvm_synchronize_tsc e tsc tsc' ns i data s"
  from sync_result [OF s'_def stable i] obtain v' where
    vs: "t_vcpus s' = (t_vcpus s)[i := v']" "this_tsc_generation v' = cur_tsc_generation s'"
      "l1_tsc_offset v' = cur_tsc_offset s'" and
    m: "if sync_matched e ns i data s
       then cur_tsc_generation s' = cur_tsc_generation s \<and> cur_tsc_offset s' = cur_tsc_offset s
         \<and> last_tsc_khz s' = last_tsc_khz s \<and> last_tsc_khz s \<noteq> 0
         \<and> nr_vcpus_matched_tsc s' = nr_vcpus_matched_tsc s
             + (if this_tsc_generation (t_vcpus s ! i) = cur_tsc_generation s then 0 else 1)
       else cur_tsc_generation s' = cur_tsc_generation s + 1 \<and> nr_vcpus_matched_tsc s' = 0"
    by (elim exE conjE) (rule that; assumption)
  have sub: "set (t_vcpus s') \<subseteq> insert v' (set (t_vcpus s))" unfolding vs(1) by (rule set_update_subset_insert)
  note num = in_generation_update [OF i, of "cur_tsc_generation s'" v', folded vs(1)]
  show ?thesis unfolding s'_def [symmetric]
  proof (cases "sync_matched e ns i data s")
    case True
    then have k: "cur_tsc_generation s \<noteq> 0" using m inv by (auto simp: tsc_inv_def)
    have "nr_vcpus_matched_tsc s' + 1 = in_generation (cur_tsc_generation s') (t_vcpus s')"
      using num m True inv k vs(2) by (auto simp: tsc_inv_def split: if_splits)
    then show "tsc_inv (Suc n) s' \<and> cur_tsc_generation s' \<noteq> 0"
      using inv m True k sub vs(2,3) unfolding tsc_inv_def by auto
  next
    case False
    then have g: "cur_tsc_generation s' = cur_tsc_generation s + 1" "nr_vcpus_matched_tsc s' = 0" using m by auto
    have u: "unat (cur_tsc_generation s') = unat (cur_tsc_generation s) + 1"
      unfolding g(1) using inv n by (intro next_generation) (simp add: tsc_inv_def)
    have old: "unat (this_tsc_generation v) < unat (cur_tsc_generation s')" if "v \<in> set (t_vcpus s)" for v
      using inv that u by (auto simp: tsc_inv_def)
    then have "in_generation (cur_tsc_generation s') (t_vcpus s) = 0" by (intro in_generation_0) fastforce
    moreover have "this_tsc_generation (t_vcpus s ! i) \<noteq> cur_tsc_generation s'" using old [OF nth_mem [OF i]] by auto
    ultimately have "in_generation (cur_tsc_generation s') (t_vcpus s') = 1" using num vs(2) by simp
    moreover have "cur_tsc_generation s' \<noteq> 0" using u by auto
    moreover have "unat (this_tsc_generation v) \<le> unat (cur_tsc_generation s')
      \<and> (this_tsc_generation v = cur_tsc_generation s' \<longrightarrow> l1_tsc_offset v = cur_tsc_offset s')"
      if "v \<in> set (t_vcpus s')" for v
      using that sub old [of v] vs(2,3) by (cases "v = v'") auto
    ultimately show "tsc_inv (Suc n) s' \<and> cur_tsc_generation s' \<noteq> 0"
      using inv u g(2) unfolding tsc_inv_def by auto
  qed
qed

lemma tsc_inv_add:
  assumes "tsc_inv n s" "this_tsc_generation v = 0"
  shows "tsc_inv n (s\<lparr>t_vcpus := t_vcpus s @ [v]\<rparr>)"
  using assms unfolding tsc_inv_def by (auto simp: in_generation_append)

lemma tsc_inv_khz:
  assumes "tsc_inv n s" "i < length (t_vcpus s)" "kvm_set_tsc_khz e khz (t_vcpus s ! i) = Some (r, v)"
  shows "tsc_inv n (s\<lparr>t_vcpus := (t_vcpus s)[i := v]\<rparr>)"
proof -
  note k = set_khz_keeps [OF assms(3)]
  have "in_generation g ((t_vcpus s)[i := v]) = in_generation g (t_vcpus s)" for g
    using in_generation_update [OF assms(2), of g v] k by simp
  moreover have "unat (this_tsc_generation w) \<le> unat (cur_tsc_generation s)
      \<and> (cur_tsc_generation s \<noteq> 0 \<and> this_tsc_generation w = cur_tsc_generation s \<longrightarrow> l1_tsc_offset w = cur_tsc_offset s)"
    if "w \<in> set ((t_vcpus s)[i := v])" for w
    using set_update_subset_insert [of "t_vcpus s" i v] that assms(1) nth_mem [OF assms(2)] k
    unfolding tsc_inv_def by (cases "w = v") auto
  ultimately show ?thesis using assms(1) unfolding tsc_inv_def by auto
qed

lemma tsc_reach_inv:
  assumes "tsc_reach e n s" "n < 2 ^ 64" "\<not> kvm_check_tsc_unstable e"
  shows "tsc_inv n s"
  using assms
proof (induction rule: tsc_reach.induct)
  case (created s)
  then show ?case by (simp add: tsc_inv_def)
next
  case (clock n s b)
  then show ?case by (auto simp: tsc_inv_def split: if_splits)
next
  case (written n s i tsc tsc' ns data)
  then show ?case using sync_inv [of n s e i] by simp
qed (simp_all add: tsc_inv_add tsc_inv_khz)


section \<open>Witnesses\<close>

text \<open>A host at 1 GHz with a counter that does not scale.\<close>

definition plain_tsc :: tsc_env where
  "plain_tsc = \<lparr>shl32_div32 = (\<lambda>a b. of_nat (unat a * 2 ^ 32 div unat b)),
     mul_u64_u64_shr = (\<lambda>a b n. a), mul_s64_u64_shr = (\<lambda>a b n. a), mul_u64_u32_div = (\<lambda>a b c. a),
     scale_delta = (\<lambda>d m k. d), nsec_to_cycles = (\<lambda>v d. d), default_ratio = 1, max_ratio = 4, ratio_frac_bits = 0, has_tsc_control = False,
     host_tsc_khz = 1000000, tolerance_ppm = 250, vclock_mode = 1, VDSO_CLOCKMODE_TSC = 1,
     VDSO_CLOCKMODE_HVCLOCK = 2,
     tsc_unstable = False\<rparr>"

lemma plain_div_law: "div_law plain_tsc"
  unfolding div_law_def
proof (intro allI impI)
  fix a b :: u32
  assume "a < b"
  then have "unat a < unat b" by (simp add: word_less_nat_alt)
  then have "unat a * 2 ^ 32 div unat b < 2 ^ 32" by (simp add: less_mult_imp_div_less)
  then show "unat (shl32_div32 plain_tsc a b) = unat a * 2 ^ 32 div unat b"
    unfolding plain_tsc_def by (simp add: unat_of_nat)
qed

theorem time_scale_witness:
  "\<exists>sh mult. kvm_get_time_scale plain_tsc 2000000000 1000000000 = Some (sh, mult) \<and> 0 \<le> sh
     \<and> unat mult * (1000000000 * 2 ^ nat sh) \<le> 2000000000 * 2 ^ 32
     \<and> 2000000000 * 2 ^ 32 < (unat mult + 1) * (1000000000 * 2 ^ nat sh)"
  using time_scale [OF plain_div_law, of 2000000000 1000000000] by simp

definition tsc_vcpu0 :: tsc_vcpu where
  "tsc_vcpu0 = \<lparr>virtual_tsc_khz = 1000000, virtual_tsc_mult = 0, virtual_tsc_shift = 0, tsc_catchup = False,
     tsc_always_catchup = False, l1_tsc_offset = 0, tsc_offset = 0, l1_tsc_scaling_ratio = 1, tsc_scaling_ratio = 1,
     last_guest_tsc = 0, this_tsc_generation = 0, this_tsc_nsec = 0, this_tsc_write = 0, guest_mode = False,
     l2_tsc_offset = 0, l2_tsc_multiplier = 1, hw_tsc_offset = 0, hw_tsc_multiplier = 1\<rparr>"

definition tsc_vm0 :: tsc_vm where
  "tsc_vm0 = \<lparr>t_vcpus = [], cur_tsc_generation = 0, cur_tsc_nsec = 0, cur_tsc_write = 0, cur_tsc_offset = 0,
     last_tsc_nsec = 0, last_tsc_write = 0, last_tsc_khz = 0, nr_vcpus_matched_tsc = 0, use_master_clock = False,
     masterclock_requests = 0\<rparr>"

text \<open>Two processors; the first has written its counter.\<close>

definition tsc_vm1 :: tsc_vm where
  "tsc_vm1 = (let s = kvm_synchronize_tsc plain_tsc 500 500 10 0 0 (tsc_vm0\<lparr>t_vcpus := t_vcpus tsc_vm0 @ [tsc_vcpu0]\<rparr>)
              in s\<lparr>t_vcpus := t_vcpus s @ [tsc_vcpu0]\<rparr>)"

lemma tsc_vm1_reach: "tsc_reach plain_tsc 1 tsc_vm1"
proof -
  have "tsc_reach plain_tsc 0 tsc_vm0" by (rule tsc_reach.created) (simp_all add: tsc_vm0_def)
  from tsc_reach.added [OF this, of tsc_vcpu0]
  have "tsc_reach plain_tsc 0 (tsc_vm0\<lparr>t_vcpus := t_vcpus tsc_vm0 @ [tsc_vcpu0]\<rparr>)" by (simp add: tsc_vcpu0_def)
  from tsc_reach.written [OF this, of 0 500 500 10 0]
  have "tsc_reach plain_tsc 1 (kvm_synchronize_tsc plain_tsc 500 500 10 0 0 (tsc_vm0\<lparr>t_vcpus := t_vcpus tsc_vm0 @ [tsc_vcpu0]\<rparr>))"
    by simp
  from tsc_reach.added [OF this, of tsc_vcpu0] show ?thesis unfolding tsc_vm1_def Let_def by (simp add: tsc_vcpu0_def)
qed

lemmas tsc_run_defs = tsc_vm1_def tsc_vm0_def tsc_vcpu0_def plain_tsc_def kvm_synchronize_tsc_def kvm_track_tsc_matching_def
  kvm_check_tsc_unstable_def kvm_vcpu_write_tsc_offset_def kvm_compute_l1_tsc_offset_def kvm_scale_tsc_def
  synchronizing_def gtod_is_based_on_tsc_def Let_def

end
