(* ===== verification/KvmRegs.thy ===== *)
theory KvmRegs
  imports Prelude
begin

unbundle bit_operations_syntax

text \<open>
  Control, extended control and debug registers of a guest (\<^verbatim>\<open>kvm/x86.c\<close>): the checks a write has to
  pass, what it changes, and the switch of the extended state between guest and host.  Masks,
  accessors defined in headers and vendor callbacks are the parameter \<open>renv\<close>.
\<close>

section \<open>State\<close>

datatype mask_name =
  CR0_ET | CR0_NW | CR0_CD | CR0_PG | CR0_PE | CR0_RESERVED | CR0_ROLE
| CR4_PAE | CR4_PGE | CR4_PSE | CR4_SMEP | CR4_LA57 | CR4_PCIDE | CR4_ROLE | CR4_RESERVED
| CR3_NOFLUSH | CR3_PCID | CR8_RESERVED | EFER_LME
| XF_FP | XF_SSE | XF_YMM | XF_BNDREGS | XF_BNDCSR | XF_AVX512 | XF_EXTEND
| DR6_FIXED_1 | DR6_RTM | DR6_BUS_LOCK | DR6_VOLATILE | DR7_FIXED_1 | DR7_VOLATILE | DR7_BP_EN
| USE_HW_BP | DEBUGREG_BP_ENABLED | PT_PRESENT

datatype feature_name = F_PCID | F_RTM | F_BUS_LOCK

text \<open>Effects outside the registers, in the order in which they happen.\<close>

datatype revent =
  ClearAsyncPf | ResetMmu | ZapAll | UpdateCpuid | MmuSync | FlushCurrent | FreeRoots "nat list"
| NewPgd u64 | PdptrDirty | InjectGp | SkipInsn

record rvcpu =
  r_cr0 :: u64
  r_cr3 :: u64
  r_cr4 :: u64
  r_cr8 :: u64
  efer :: u64
  r_xcr0 :: u64
  r_dr6 :: u64
  r_dr7 :: u64
  db :: "u64 list"
  eff_db :: "u64 list"
  guest_debug :: u64
  guest_debug_dr7 :: u64
  switch_db_regs :: u64
  hw_dr7 :: u64
  pdptrs :: "u64 list"
  pdptrs_from_userspace :: bool
  supported_xcr0 :: u64
  cr4_guest_rsvd :: u64
  reserved_gpa :: u64
  prev_roots :: "u64 list"
  tpr :: u64
  revents :: "revent list"

record renv =
  mk :: "mask_name \<Rightarrow> u64"
  has_cpuid :: "feature_name \<Rightarrow> bool"
  XCR0_INDEX :: u32
  is_paging :: "rvcpu \<Rightarrow> bool"
  is_pae :: "rvcpu \<Rightarrow> bool"
  is_long_mode :: "rvcpu \<Rightarrow> bool"
  is_pae_paging :: "rvcpu \<Rightarrow> bool"
  cs_l :: bool
  r_cpl :: nat
  vendor_valid_cr4 :: "rvcpu \<Rightarrow> u64 \<Rightarrow> bool"
  vendor_set_cr0 :: "u64 \<Rightarrow> rvcpu \<Rightarrow> rvcpu"
  vendor_set_cr4 :: "u64 \<Rightarrow> rvcpu \<Rightarrow> rvcpu"
  dr6_valid :: "u64 \<Rightarrow> bool"
  dr7_valid :: "u64 \<Rightarrow> bool"
  lapic_in_kernel :: bool
  lapic_tpr_of :: "u64 \<Rightarrow> u64"
  lapic_cr8_of :: "u64 \<Rightarrow> u64"
  translate_gpa :: "u64 \<Rightarrow> u64 option"
  guest_page :: "u64 \<Rightarrow> u64 \<Rightarrow> u64 list option"
  rsvd_pdpte :: u64
  active_pcid :: "rvcpu \<Rightarrow> u64"
  pcid_of :: "rvcpu \<Rightarrow> u64 \<Rightarrow> u64"
  illegal_gpa :: "rvcpu \<Rightarrow> u64 \<Rightarrow> bool"
  noncoherent_dma :: bool
  quirk_cd_nw :: bool

definition has :: "renv \<Rightarrow> u64 \<Rightarrow> mask_name \<Rightarrow> bool" where
  "has e x b \<longleftrightarrow> x AND mk e b \<noteq> 0"

definition note_ev :: "revent list \<Rightarrow> rvcpu \<Rightarrow> rvcpu" where
  "note_ev es c = c\<lparr>revents := revents c @ es\<rparr>"

section \<open>Page directory pointers\<close>

text \<open>Four entries at the given offset of a frame, or an error code.\<close>

definition kvm_read_guest_page_mmu :: "renv \<Rightarrow> u64 \<Rightarrow> u64 \<Rightarrow> u64 list option" where
  "kvm_read_guest_page_mmu e ngfn offset =
     (case translate_gpa e (push_bit 12 ngfn) of
        None \<Rightarrow> None
      | Some real \<Rightarrow> guest_page e (drop_bit 12 real) offset)"

definition pdptr_rsvd_bits :: "renv \<Rightarrow> rvcpu \<Rightarrow> u64" where
  "pdptr_rsvd_bits e c = reserved_gpa c OR rsvd_pdpte e"

definition load_pdptrs :: "renv \<Rightarrow> u64 \<Rightarrow> rvcpu \<Rightarrow> bool \<times> rvcpu" where
  "load_pdptrs e cr3 c =
     (let pdpt_gfn = drop_bit 12 cr3;
          offset = push_bit 2 (drop_bit 5 (cr3 AND 0xfff))
      in case kvm_read_guest_page_mmu e pdpt_gfn (offset * 8) of
           None \<Rightarrow> (False, c)
         | Some pdpte \<Rightarrow>
             if \<exists>x \<in> set pdpte. has e x PT_PRESENT \<and> x AND pdptr_rsvd_bits e c \<noteq> 0 then (False, c)
             else (True, note_ev [PdptrDirty] (c\<lparr>pdptrs := pdpte, pdptrs_from_userspace := False\<rparr>)))"

section \<open>CR0\<close>

definition kvm_post_set_cr0 :: "renv \<Rightarrow> u64 \<Rightarrow> u64 \<Rightarrow> rvcpu \<Rightarrow> rvcpu" where
  "kvm_post_set_cr0 e old_cr0 cr0 c =
     (let x = cr0 XOR old_cr0;
          c1 = (if has e x CR0_PG then note_ev [ClearAsyncPf] c else c);
          c2 = (if has e x CR0_ROLE then note_ev [ResetMmu] c1 else c1)
      in if has e x CR0_CD \<and> noncoherent_dma e \<and> \<not> quirk_cd_nw e then note_ev [ZapAll] c2 else c2)"

definition kvm_set_cr0 :: "renv \<Rightarrow> u64 \<Rightarrow> rvcpu \<Rightarrow> nat \<times> rvcpu" where
  "kvm_set_cr0 e val c =
     (let old_cr0 = r_cr0 c;
          pdptr_bits = mk e CR0_CD OR mk e CR0_NW OR mk e CR0_PG;
          cr0a = val OR mk e CR0_ET
      in if cr0a AND 0xffffffff00000000 \<noteq> 0 then (1, c)
         else
           let cr0 = cr0a AND NOT (mk e CR0_RESERVED)
           in if has e cr0 CR0_NW \<and> \<not> has e cr0 CR0_CD then (1, c)
              else if has e cr0 CR0_PG \<and> \<not> has e cr0 CR0_PE then (1, c)
              else if has e (efer c) EFER_LME \<and> \<not> is_paging e c \<and> has e cr0 CR0_PG \<and> (\<not> is_pae e c \<or> cs_l e)
              then (1, c)
              else
                let (ok, c1) = (if \<not> has e (efer c) EFER_LME \<and> has e cr0 CR0_PG \<and> is_pae e c \<and>
                                   (cr0 XOR old_cr0) AND pdptr_bits \<noteq> 0
                                then load_pdptrs e (r_cr3 c) c else (True, c))
                in if \<not> ok then (1, c1)
                   else if \<not> has e cr0 CR0_PG \<and> has e (r_cr4 c1) CR4_PCIDE then (1, c1)
                   else (0, kvm_post_set_cr0 e old_cr0 cr0 (vendor_set_cr0 e cr0 c1)))"

definition kvm_lmsw :: "renv \<Rightarrow> u64 \<Rightarrow> rvcpu \<Rightarrow> rvcpu" where
  "kvm_lmsw e msw c = snd (kvm_set_cr0 e ((r_cr0 c AND NOT 0x0e) OR (msw AND 0x0f)) c)"

section \<open>Extended control register\<close>

definition xcr0_valid :: "renv \<Rightarrow> u64 \<Rightarrow> u64 \<Rightarrow> bool" where
  "xcr0_valid e supported xcr0 \<longleftrightarrow>
     has e xcr0 XF_FP \<and> \<not> (has e xcr0 XF_YMM \<and> \<not> has e xcr0 XF_SSE) \<and>
     xcr0 AND NOT (supported OR mk e XF_FP) = 0 \<and>
     (has e xcr0 XF_BNDREGS = has e xcr0 XF_BNDCSR) \<and>
     (has e xcr0 XF_AVX512 \<longrightarrow> has e xcr0 XF_YMM \<and> xcr0 AND mk e XF_AVX512 = mk e XF_AVX512)"

definition kvm_set_xcr :: "renv \<Rightarrow> u32 \<Rightarrow> u64 \<Rightarrow> rvcpu \<Rightarrow> nat \<times> rvcpu" where
  "kvm_set_xcr e index xcr c =
     (let xcr0 = xcr; old_xcr0 = r_xcr0 c; valid_bits = supported_xcr0 c OR mk e XF_FP
      in if index \<noteq> XCR0_INDEX e then (1, c)
         else if \<not> has e xcr0 XF_FP then (1, c)
         else if has e xcr0 XF_YMM \<and> \<not> has e xcr0 XF_SSE then (1, c)
         else if xcr0 AND NOT valid_bits \<noteq> 0 then (1, c)
         else if (\<not> has e xcr0 XF_BNDREGS) \<noteq> (\<not> has e xcr0 XF_BNDCSR) then (1, c)
         else if has e xcr0 XF_AVX512 \<and> \<not> has e xcr0 XF_YMM then (1, c)
         else if has e xcr0 XF_AVX512 \<and> xcr0 AND mk e XF_AVX512 \<noteq> mk e XF_AVX512 then (1, c)
         else
           let c1 = c\<lparr>r_xcr0 := xcr0\<rparr>
           in (0, if has e (xcr0 XOR old_xcr0) XF_EXTEND then note_ev [UpdateCpuid] c1 else c1))"

text \<open>\<open>rcx\<close> and \<open>edx:eax\<close> are the arguments of the instruction.\<close>

definition kvm_emulate_xsetbv :: "renv \<Rightarrow> u32 \<Rightarrow> u64 \<Rightarrow> rvcpu \<Rightarrow> rvcpu" where
  "kvm_emulate_xsetbv e index xcr c =
     (if r_cpl e \<noteq> 0 then note_ev [InjectGp] c
      else case kvm_set_xcr e index xcr c of
        (r, c1) \<Rightarrow> if r \<noteq> 0 then note_ev [InjectGp] c1 else note_ev [SkipInsn] c1)"

section \<open>CR4, CR3 and CR8\<close>

definition kvm_is_valid_cr4 :: "renv \<Rightarrow> u64 \<Rightarrow> rvcpu \<Rightarrow> bool" where
  "kvm_is_valid_cr4 e cr4 c =
     (if has e cr4 CR4_RESERVED then False
      else if cr4 AND cr4_guest_rsvd c \<noteq> 0 then False
      else vendor_valid_cr4 e c cr4)"

definition kvm_post_set_cr4 :: "renv \<Rightarrow> u64 \<Rightarrow> u64 \<Rightarrow> rvcpu \<Rightarrow> rvcpu" where
  "kvm_post_set_cr4 e old_cr4 cr4 c =
     (if has e (cr4 XOR old_cr4) CR4_ROLE \<or> (\<not> has e cr4 CR4_PCIDE \<and> has e old_cr4 CR4_PCIDE)
      then note_ev [ResetMmu] c else c)"

definition kvm_set_cr4 :: "renv \<Rightarrow> u64 \<Rightarrow> rvcpu \<Rightarrow> nat \<times> rvcpu" where
  "kvm_set_cr4 e cr4 c =
     (let old_cr4 = r_cr4 c;
          pdptr_bits = mk e CR4_PGE OR mk e CR4_PSE OR mk e CR4_PAE OR mk e CR4_SMEP
      in if \<not> kvm_is_valid_cr4 e cr4 c then (1, c)
         else if is_long_mode e c \<and> \<not> has e cr4 CR4_PAE then (1, c)
         else if is_long_mode e c \<and> has e (cr4 XOR old_cr4) CR4_LA57 then (1, c)
         else
           let (ok, c1) = (if \<not> is_long_mode e c \<and> is_paging e c \<and> has e cr4 CR4_PAE \<and>
                              (cr4 XOR old_cr4) AND pdptr_bits \<noteq> 0
                           then load_pdptrs e (r_cr3 c) c else (True, c))
           in if \<not> ok then (1, c1)
              else if has e cr4 CR4_PCIDE \<and> \<not> has e old_cr4 CR4_PCIDE \<and> \<not> has_cpuid e F_PCID then (1, c1)
              else if has e cr4 CR4_PCIDE \<and> \<not> has e old_cr4 CR4_PCIDE \<and>
                      (has e (r_cr3 c1) CR3_PCID \<or> \<not> is_long_mode e c1) then (1, c1)
              else (0, kvm_post_set_cr4 e old_cr4 cr4 (vendor_set_cr4 e cr4 c1)))"

definition kvm_invalidate_pcid :: "renv \<Rightarrow> u64 \<Rightarrow> rvcpu \<Rightarrow> rvcpu" where
  "kvm_invalidate_pcid e pcid c =
     (let c1 = (if active_pcid e c = pcid then note_ev [MmuSync, FlushCurrent] c else c);
          roots = filter (\<lambda>i. pcid_of e c (prev_roots c ! i) = pcid) [0..<length (prev_roots c)]
      in note_ev [FreeRoots roots] c1)"

definition kvm_set_cr3 :: "renv \<Rightarrow> u64 \<Rightarrow> rvcpu \<Rightarrow> nat \<times> rvcpu" where
  "kvm_set_cr3 e val c =
     (let pcid_enabled = has e (r_cr4 c) CR4_PCIDE;
          skip_tlb_flush = (pcid_enabled \<and> has e val CR3_NOFLUSH);
          cr3 = (if pcid_enabled then val AND NOT (mk e CR3_NOFLUSH) else val);
          pcid = (if pcid_enabled then cr3 AND mk e CR3_PCID else 0);
          flush = (\<lambda>d. if skip_tlb_flush then d else kvm_invalidate_pcid e pcid d)
      in if cr3 = r_cr3 c \<and> \<not> is_pae_paging e c then (0, flush c)
         else if illegal_gpa e c cr3 then (1, c)
         else
           let (ok, c1) = (if is_pae_paging e c then load_pdptrs e cr3 c else (True, c))
           in if \<not> ok then (1, c1)
              else
                let c2 = (if cr3 \<noteq> r_cr3 c1 then note_ev [NewPgd cr3] c1 else c1)
                in (0, flush (c2\<lparr>r_cr3 := cr3\<rparr>)))"

definition kvm_set_cr8 :: "renv \<Rightarrow> u64 \<Rightarrow> rvcpu \<Rightarrow> nat \<times> rvcpu" where
  "kvm_set_cr8 e cr8 c =
     (if has e cr8 CR8_RESERVED then (1, c)
      else if lapic_in_kernel e then (0, c\<lparr>tpr := lapic_tpr_of e cr8\<rparr>)
      else (0, c\<lparr>r_cr8 := cr8\<rparr>))"

definition kvm_get_cr8 :: "renv \<Rightarrow> rvcpu \<Rightarrow> u64" where
  "kvm_get_cr8 e c = (if lapic_in_kernel e then lapic_cr8_of e (tpr c) else r_cr8 c)"

section \<open>Debug registers\<close>

definition kvm_update_dr0123 :: "renv \<Rightarrow> rvcpu \<Rightarrow> rvcpu" where
  "kvm_update_dr0123 e c = (if \<not> has e (guest_debug c) USE_HW_BP then c\<lparr>eff_db := db c\<rparr> else c)"

definition kvm_update_dr7 :: "renv \<Rightarrow> rvcpu \<Rightarrow> rvcpu" where
  "kvm_update_dr7 e c =
     (let dr7 = (if has e (guest_debug c) USE_HW_BP then guest_debug_dr7 c else r_dr7 c);
          c1 = c\<lparr>hw_dr7 := dr7, switch_db_regs := switch_db_regs c AND NOT (mk e DEBUGREG_BP_ENABLED)\<rparr>
      in if has e dr7 DR7_BP_EN then c1\<lparr>switch_db_regs := switch_db_regs c1 OR mk e DEBUGREG_BP_ENABLED\<rparr> else c1)"

definition kvm_dr6_fixed :: "renv \<Rightarrow> u64" where
  "kvm_dr6_fixed e =
     (let fixed = mk e DR6_FIXED_1;
          fixed1 = (if \<not> has_cpuid e F_RTM then fixed OR mk e DR6_RTM else fixed)
      in if \<not> has_cpuid e F_BUS_LOCK then fixed1 OR mk e DR6_BUS_LOCK else fixed1)"

definition kvm_set_dr :: "renv \<Rightarrow> nat \<Rightarrow> u64 \<Rightarrow> rvcpu \<Rightarrow> nat \<times> rvcpu" where
  "kvm_set_dr e dr val c =
     (if dr \<le> 3 then
        let c1 = c\<lparr>db := (db c)[dr := val]\<rparr>
        in (0, if \<not> has e (guest_debug c) USE_HW_BP then c1\<lparr>eff_db := (eff_db c)[dr := val]\<rparr> else c1)
      else if dr = 4 \<or> dr = 6 then
        (if \<not> dr6_valid e val then (1, c)
         else (0, c\<lparr>r_dr6 := (val AND mk e DR6_VOLATILE) OR kvm_dr6_fixed e\<rparr>))
      else
        (if \<not> dr7_valid e val then (1, c)
         else (0, kvm_update_dr7 e (c\<lparr>r_dr7 := (val AND mk e DR7_VOLATILE) OR mk e DR7_FIXED_1\<rparr>))))"

definition kvm_get_dr :: "nat \<Rightarrow> rvcpu \<Rightarrow> u64" where
  "kvm_get_dr dr c = (if dr \<le> 3 then db c ! dr else if dr = 4 \<or> dr = 6 then r_dr6 c else r_dr7 c)"

section \<open>Requests of the guest\<close>

datatype rrequest =
  SetCr0 u64 | Lmsw u64 | SetCr3 u64 | SetCr4 u64 | SetCr8 u64 | SetXcr u32 u64 | SetDr nat u64

fun rstep :: "renv \<Rightarrow> rrequest \<Rightarrow> rvcpu \<Rightarrow> nat \<times> rvcpu" where
  "rstep e (SetCr0 x) c = kvm_set_cr0 e x c"
| "rstep e (Lmsw x) c = (0, kvm_lmsw e x c)"
| "rstep e (SetCr3 x) c = kvm_set_cr3 e x c"
| "rstep e (SetCr4 x) c = kvm_set_cr4 e x c"
| "rstep e (SetCr8 x) c = kvm_set_cr8 e x c"
| "rstep e (SetXcr i x) c = (0, kvm_emulate_xsetbv e i x c)"
| "rstep e (SetDr n x) c = kvm_set_dr e n x c"

section \<open>Switching the extended state\<close>

text \<open>The registers of the processor itself, and what is kept for the guest.\<close>

record xstate =
  hw_xcr0 :: u64
  hw_xss :: u64
  hw_pkru :: u64
  g_xcr0 :: u64
  g_xss :: u64
  g_pkru :: u64
  host_pkru :: u64
  osxsave :: bool
  cr4_pke :: bool
  xsaves_enabled :: bool
  guest_state_protected :: bool

record xhost =
  host_xcr0 :: u64
  host_xss :: u64
  has_pku :: bool
  XF_PKRU :: u64

definition uses_pkru :: "xhost \<Rightarrow> xstate \<Rightarrow> bool" where
  "uses_pkru hst s \<longleftrightarrow> has_pku hst \<and> (cr4_pke s \<or> g_xcr0 s AND XF_PKRU hst \<noteq> 0)"

definition kvm_load_guest_xsave_state :: "xhost \<Rightarrow> xstate \<Rightarrow> xstate" where
  "kvm_load_guest_xsave_state hst s =
     (if guest_state_protected s then s
      else
        let s1 = (if osxsave s \<and> g_xcr0 s \<noteq> host_xcr0 hst then s\<lparr>hw_xcr0 := g_xcr0 s\<rparr> else s);
            s2 = (if osxsave s1 \<and> xsaves_enabled s1 \<and> g_xss s1 \<noteq> host_xss hst then s1\<lparr>hw_xss := g_xss s1\<rparr> else s1)
        in if uses_pkru hst s2 \<and> g_pkru s2 \<noteq> host_pkru s2 then s2\<lparr>hw_pkru := g_pkru s2\<rparr> else s2)"

definition kvm_load_host_xsave_state :: "xhost \<Rightarrow> xstate \<Rightarrow> xstate" where
  "kvm_load_host_xsave_state hst s =
     (if guest_state_protected s then s
      else
        let s1 = (if uses_pkru hst s
                  then let t = s\<lparr>g_pkru := hw_pkru s\<rparr>
                       in if g_pkru t \<noteq> host_pkru t then t\<lparr>hw_pkru := host_pkru t\<rparr> else t
                  else s);
            s2 = (if osxsave s1 \<and> g_xcr0 s1 \<noteq> host_xcr0 hst then s1\<lparr>hw_xcr0 := host_xcr0 hst\<rparr> else s1)
        in if osxsave s2 \<and> xsaves_enabled s2 \<and> g_xss s2 \<noteq> host_xss hst then s2\<lparr>hw_xss := host_xss hst\<rparr> else s2)"

definition host_loaded :: "xhost \<Rightarrow> xstate \<Rightarrow> bool" where
  "host_loaded hst s \<longleftrightarrow> hw_xcr0 s = host_xcr0 hst \<and> hw_xss s = host_xss hst \<and> hw_pkru s = host_pkru s"

lemma uses_pkru_upd [simp]:
  "uses_pkru hst (s\<lparr>hw_xcr0 := x\<rparr>) = uses_pkru hst s" "uses_pkru hst (s\<lparr>hw_xss := x\<rparr>) = uses_pkru hst s"
  "uses_pkru hst (s\<lparr>hw_pkru := x\<rparr>) = uses_pkru hst s" "uses_pkru hst (s\<lparr>g_pkru := x\<rparr>) = uses_pkru hst s"
  by (simp_all add: uses_pkru_def)

lemma load_guest_eq:
  assumes "host_loaded hst s" "\<not> guest_state_protected s"
  shows "kvm_load_guest_xsave_state hst s =
    s\<lparr>hw_xcr0 := (if osxsave s then g_xcr0 s else host_xcr0 hst),
      hw_xss := (if osxsave s \<and> xsaves_enabled s then g_xss s else host_xss hst),
      hw_pkru := (if uses_pkru hst s then g_pkru s else host_pkru s)\<rparr>"
  using assms by (intro xstate.equality)
    (simp_all add: kvm_load_guest_xsave_state_def host_loaded_def Let_def)

lemma load_host_eq:
  assumes "\<not> guest_state_protected s"
  shows "kvm_load_host_xsave_state hst s =
    s\<lparr>hw_xcr0 := (if osxsave s \<and> g_xcr0 s \<noteq> host_xcr0 hst then host_xcr0 hst else hw_xcr0 s),
      hw_xss := (if osxsave s \<and> xsaves_enabled s \<and> g_xss s \<noteq> host_xss hst then host_xss hst else hw_xss s),
      hw_pkru := (if uses_pkru hst s then host_pkru s else hw_pkru s),
      g_pkru := (if uses_pkru hst s then hw_pkru s else g_pkru s)\<rparr>"
  using assms by (intro xstate.equality) (simp_all add: kvm_load_host_xsave_state_def Let_def, blast+)

text \<open>
  Remark.  Entering a guest and leaving it restores the extended state of the host, whatever
  value the guest leaves in its key register, and keeps that value for the next entry when the guest
  uses the register at all; the other state of the guest is unchanged.
\<close>

theorem xsave_roundtrip:
  assumes "host_loaded hst s" "\<not> guest_state_protected s"
  shows "let s1 = kvm_load_guest_xsave_state hst s;
             v = (if uses_pkru hst s then k else hw_pkru s1);
             s2 = kvm_load_host_xsave_state hst (s1\<lparr>hw_pkru := v\<rparr>)
         in s2 = s\<lparr>g_pkru := (if uses_pkru hst s then k else g_pkru s)\<rparr> \<and>
            (osxsave s \<longrightarrow> hw_xcr0 s1 = g_xcr0 s) \<and>
            (uses_pkru hst s \<longrightarrow> hw_pkru s1 = g_pkru s)"
proof -
  have h: "hw_xcr0 s = host_xcr0 hst" "hw_xss s = host_xss hst" "hw_pkru s = host_pkru s"
    using assms(1) by (simp_all add: host_loaded_def)
  show ?thesis
    unfolding load_guest_eq [OF assms] Let_def
    using assms(2) h by (intro conjI impI xstate.equality) (simp_all add: load_host_eq)
qed

section \<open>Lemmas on single writes\<close>

text \<open>Two processors that differ at most in the loaded pointers and the log of effects.\<close>

definition same_regs :: "rvcpu \<Rightarrow> rvcpu \<Rightarrow> bool" where
  "same_regs c c' \<longleftrightarrow> (\<exists>ps b ev. c' = c\<lparr>pdptrs := ps, pdptrs_from_userspace := b, revents := ev\<rparr>)"

lemma same_regs_refl [simp]: "same_regs c c"
  unfolding same_regs_def
  by (intro exI [of _ "pdptrs c"] exI [of _ "pdptrs_from_userspace c"] exI [of _ "revents c"]) simp

lemma same_regs_note [simp]: "same_regs c (note_ev es c)"
  unfolding same_regs_def note_ev_def
  by (intro exI [of _ "pdptrs c"] exI [of _ "pdptrs_from_userspace c"] exI [of _ "revents c @ es"]) simp

lemma same_regs_pdptrs [simp]:
  "same_regs c (note_ev es (c\<lparr>pdptrs := ps, pdptrs_from_userspace := b\<rparr>))"
  unfolding same_regs_def note_ev_def by (intro exI [of _ ps] exI [of _ b] exI [of _ "revents c @ es"]) simp

lemma same_regs_fields:
  assumes "same_regs c c'"
  shows "r_cr0 c' = r_cr0 c" "r_cr3 c' = r_cr3 c" "r_cr4 c' = r_cr4 c" "r_cr8 c' = r_cr8 c" "efer c' = efer c"
    "r_xcr0 c' = r_xcr0 c" "r_dr6 c' = r_dr6 c" "r_dr7 c' = r_dr7 c" "db c' = db c" "eff_db c' = eff_db c"
    "guest_debug c' = guest_debug c" "supported_xcr0 c' = supported_xcr0 c" "cr4_guest_rsvd c' = cr4_guest_rsvd c"
  using assms by (auto simp: same_regs_def)

lemma load_pdptrs_same: "load_pdptrs e x c = (ok, c1) \<Longrightarrow> same_regs c c1"
  by (auto simp: load_pdptrs_def Let_def split: option.splits if_splits)

text \<open>What the vendor code promises, and that long mode implies paging.\<close>

definition vendor_ok :: "renv \<Rightarrow> bool" where
  "vendor_ok e \<longleftrightarrow>
     (\<forall>x c. r_cr0 (vendor_set_cr0 e x c) = x \<and> r_cr4 (vendor_set_cr0 e x c) = r_cr4 c \<and>
        r_cr4 (vendor_set_cr4 e x c) = x \<and> r_cr0 (vendor_set_cr4 e x c) = r_cr0 c) \<and>
     (\<forall>x c. \<forall>d \<in> {vendor_set_cr0 e x c, vendor_set_cr4 e x c}.
        r_xcr0 d = r_xcr0 c \<and> supported_xcr0 d = supported_xcr0 c \<and> cr4_guest_rsvd d = cr4_guest_rsvd c \<and>
        r_dr6 d = r_dr6 c \<and> r_dr7 d = r_dr7 c \<and> db d = db c \<and> eff_db d = eff_db c \<and> guest_debug d = guest_debug c) \<and>
     (\<forall>c. is_long_mode e c \<longrightarrow> has e (r_cr0 c) CR0_PG)"

definition cr0_ok :: "renv \<Rightarrow> u64 \<Rightarrow> bool" where
  "cr0_ok e x \<longleftrightarrow> x AND 0xffffffff00000000 = 0 \<and> x AND mk e CR0_RESERVED = 0 \<and>
     (has e x CR0_NW \<longrightarrow> has e x CR0_CD) \<and> (has e x CR0_PG \<longrightarrow> has e x CR0_PE)"

definition cr4_ok :: "renv \<Rightarrow> rvcpu \<Rightarrow> bool" where
  "cr4_ok e c \<longleftrightarrow> \<not> has e (r_cr4 c) CR4_RESERVED \<and> r_cr4 c AND cr4_guest_rsvd c = 0 \<and>
     (has e (r_cr4 c) CR4_PCIDE \<longrightarrow> has e (r_cr0 c) CR0_PG)"

definition dr_ok :: "renv \<Rightarrow> rvcpu \<Rightarrow> bool" where
  "dr_ok e c \<longleftrightarrow> length (db c) = 4 \<and> length (eff_db c) = 4 \<and>
     (\<not> has e (guest_debug c) USE_HW_BP \<longrightarrow> eff_db c = db c) \<and>
     r_dr6 c AND kvm_dr6_fixed e = kvm_dr6_fixed e \<and> r_dr7 c AND mk e DR7_FIXED_1 = mk e DR7_FIXED_1"

definition regs_ok :: "renv \<Rightarrow> rvcpu \<Rightarrow> bool" where
  "regs_ok e c \<longleftrightarrow> cr0_ok e (r_cr0 c) \<and> cr4_ok e c \<and> xcr0_valid e (supported_xcr0 c) (r_xcr0 c) \<and> dr_ok e c"

lemma regs_ok_same: "same_regs c c' \<Longrightarrow> regs_ok e c' = regs_ok e c"
  by (auto simp: same_regs_def regs_ok_def cr4_ok_def dr_ok_def)

lemma note_ev_append: "note_ev es (note_ev fs c) = note_ev (fs @ es) c"
  by (simp add: note_ev_def)

lemma post_same: "same_regs c (kvm_post_set_cr0 e x y c)" "same_regs c (kvm_post_set_cr4 e x y c)"
  by (auto simp: kvm_post_set_cr0_def kvm_post_set_cr4_def Let_def note_ev_append)

lemma same_regsI: "same_regs c (c\<lparr>pdptrs := ps, pdptrs_from_userspace := b, revents := ev\<rparr>)"
  unfolding same_regs_def by blast

lemma same_regs_trans:
  assumes "same_regs a b" "same_regs b c"
  shows "same_regs a c"
proof -
  obtain ps f ev where "c = b\<lparr>pdptrs := ps, pdptrs_from_userspace := f, revents := ev\<rparr>"
    using assms(2) by (auto simp: same_regs_def)
  then have "c = a\<lparr>pdptrs := ps, pdptrs_from_userspace := f, revents := ev\<rparr>"
    using assms(1) by (auto simp: same_regs_def)
  then show ?thesis using same_regsI by simp
qed

lemma same_regs_cr3:
  assumes "same_regs c c1"
  shows "same_regs (c\<lparr>r_cr3 := x\<rparr>) (c1\<lparr>r_cr3 := x\<rparr>)"
proof -
  obtain ps f ev where "c1 = c\<lparr>pdptrs := ps, pdptrs_from_userspace := f, revents := ev\<rparr>"
    using assms by (auto simp: same_regs_def)
  then have "c1\<lparr>r_cr3 := x\<rparr> = c\<lparr>r_cr3 := x, pdptrs := ps, pdptrs_from_userspace := f, revents := ev\<rparr>" by simp
  then show ?thesis using same_regsI [of "c\<lparr>r_cr3 := x\<rparr>"] by simp
qed

text \<open>A write of CR0 or CR4 is rejected early, after the pointers are loaded, or carried out.\<close>

lemma if_or: "(if a then x else if b then x else y) = (if a \<or> b then x else y)"
  by simp

lemma guarded_write:
  assumes "(if early then (1 :: nat, c) else if \<not> ok then (1, c1) else if late then (1, c1) else (0, d)) = (r, c')"
    and "same_regs c c1"
  shows "r = 1 \<and> same_regs c c' \<or> r = 0 \<and> \<not> early \<and> ok \<and> \<not> late \<and> c' = d"
  using assms by (auto split: if_splits)

lemma set_cr0_cases:
  assumes "kvm_set_cr0 e x c = (r, c')"
  shows "r = 1 \<and> same_regs c c' \<or>
    r = 0 \<and> (\<exists>c1 y. same_regs c c1 \<and> cr0_ok e y \<and> (has e (r_cr4 c) CR4_PCIDE \<longrightarrow> has e y CR0_PG) \<and>
      c' = kvm_post_set_cr0 e (r_cr0 c) y (vendor_set_cr0 e y c1))"
proof -
  define y where "y = (x OR mk e CR0_ET) AND NOT (mk e CR0_RESERVED)"
  obtain ok c1 where l: "(if \<not> has e (efer c) EFER_LME \<and> has e y CR0_PG \<and> is_pae e c \<and>
      (y XOR r_cr0 c) AND (mk e CR0_CD OR mk e CR0_NW OR mk e CR0_PG) \<noteq> 0
      then load_pdptrs e (r_cr3 c) c else (True, c)) = (ok, c1)" by fastforce
  have s: "same_regs c c1" using l load_pdptrs_same [of e "r_cr3 c" c ok c1] by (auto split: if_splits)
  define early where "early \<longleftrightarrow> (x OR mk e CR0_ET) AND 0xffffffff00000000 \<noteq> 0 \<or>
    has e y CR0_NW \<and> \<not> has e y CR0_CD \<or> has e y CR0_PG \<and> \<not> has e y CR0_PE \<or>
    has e (efer c) EFER_LME \<and> \<not> is_paging e c \<and> has e y CR0_PG \<and> (\<not> is_pae e c \<or> cs_l e)"
  define late where "late \<longleftrightarrow> \<not> has e y CR0_PG \<and> has e (r_cr4 c1) CR4_PCIDE"
  have k: "kvm_set_cr0 e x c = (if early then (1, c) else if \<not> ok then (1, c1) else if late then (1, c1)
      else (0, kvm_post_set_cr0 e (r_cr0 c) y (vendor_set_cr0 e y c1)))"
    unfolding kvm_set_cr0_def Let_def y_def [symmetric] l early_def late_def
    by (simp only: if_or disj_assoc conj_assoc prod.case)
  from guarded_write [OF assms [unfolded k] s] show ?thesis
  proof (elim disjE conjE)
    assume r: "r = 0" "\<not> early" "\<not> late" and c': "c' = kvm_post_set_cr0 e (r_cr0 c) y (vendor_set_cr0 e y c1)"
    have "y AND 0xffffffff00000000 = ((x OR mk e CR0_ET) AND 0xffffffff00000000) AND NOT (mk e CR0_RESERVED)"
      unfolding y_def by (simp only: ac_simps)
    then have "y AND 0xffffffff00000000 = 0" using r(2) by (simp add: early_def)
    moreover have "y AND mk e CR0_RESERVED = 0" unfolding y_def by (rule bit_word_eqI) (simp add: bit_simps)
    ultimately have "cr0_ok e y" using r(2) by (auto simp: cr0_ok_def early_def)
    moreover have "has e (r_cr4 c) CR4_PCIDE \<longrightarrow> has e y CR0_PG"
      using r(3) by (auto simp: late_def same_regs_fields(3) [OF s])
    ultimately show ?thesis using r(1) s c' by blast
  qed simp
qed

lemma set_cr4_cases:
  assumes "kvm_set_cr4 e x c = (r, c')"
  shows "r = 1 \<and> same_regs c c' \<or>
    r = 0 \<and> kvm_is_valid_cr4 e x c \<and>
    (\<exists>c1. same_regs c c1 \<and> (has e x CR4_PCIDE \<longrightarrow> has e (r_cr4 c) CR4_PCIDE \<or> is_long_mode e c1) \<and>
      c' = kvm_post_set_cr4 e (r_cr4 c) x (vendor_set_cr4 e x c1))"
proof -
  obtain ok c1 where l: "(if \<not> is_long_mode e c \<and> is_paging e c \<and> has e x CR4_PAE \<and>
      (x XOR r_cr4 c) AND (mk e CR4_PGE OR mk e CR4_PSE OR mk e CR4_PAE OR mk e CR4_SMEP) \<noteq> 0
      then load_pdptrs e (r_cr3 c) c else (True, c)) = (ok, c1)" by fastforce
  have s: "same_regs c c1" using l load_pdptrs_same [of e "r_cr3 c" c ok c1] by (auto split: if_splits)
  define early where "early \<longleftrightarrow> \<not> kvm_is_valid_cr4 e x c \<or> is_long_mode e c \<and> \<not> has e x CR4_PAE \<or>
    is_long_mode e c \<and> has e (x XOR r_cr4 c) CR4_LA57"
  define late where "late \<longleftrightarrow> has e x CR4_PCIDE \<and> \<not> has e (r_cr4 c) CR4_PCIDE \<and> \<not> has_cpuid e F_PCID \<or>
    has e x CR4_PCIDE \<and> \<not> has e (r_cr4 c) CR4_PCIDE \<and> (has e (r_cr3 c1) CR3_PCID \<or> \<not> is_long_mode e c1)"
  have k: "kvm_set_cr4 e x c = (if early then (1, c) else if \<not> ok then (1, c1) else if late then (1, c1)
      else (0, kvm_post_set_cr4 e (r_cr4 c) x (vendor_set_cr4 e x c1)))"
    unfolding kvm_set_cr4_def Let_def l early_def late_def
    by (simp only: if_or disj_assoc conj_assoc prod.case)
  from guarded_write [OF assms [unfolded k] s] show ?thesis
    using s by (auto simp: early_def late_def)
qed

lemma set_xcr_cases:
  assumes "kvm_set_xcr e i x c = (r, c')"
  shows "r = 1 \<and> c' = c \<or> r = 0 \<and> xcr0_valid e (supported_xcr0 c) x \<and> same_regs (c\<lparr>r_xcr0 := x\<rparr>) c'"
  using assms by (auto simp: kvm_set_xcr_def xcr0_valid_def Let_def split: if_splits)

lemma invalidate_same: "same_regs c (kvm_invalidate_pcid e p c)"
  by (simp add: kvm_invalidate_pcid_def Let_def note_ev_append)

lemma set_cr3_cases:
  assumes "kvm_set_cr3 e x c = (r, c')"
  shows "r = 1 \<and> same_regs c c' \<or> r = 0 \<and> same_regs (c\<lparr>r_cr3 := r_cr3 c'\<rparr>) c'"
proof -
  define cr3 where "cr3 = (if has e (r_cr4 c) CR4_PCIDE then x AND NOT (mk e CR3_NOFLUSH) else x)"
  define fl where "fl d = (if has e (r_cr4 c) CR4_PCIDE \<and> has e x CR3_NOFLUSH then d else
    kvm_invalidate_pcid e (if has e (r_cr4 c) CR4_PCIDE then cr3 AND mk e CR3_PCID else 0) d)" for d
  have fl: "same_regs d (fl d)" for d by (simp add: fl_def invalidate_same)
  obtain ok c1 where l: "(if is_pae_paging e c then load_pdptrs e cr3 c else (True, c)) = (ok, c1)" by fastforce
  have s: "same_regs c c1" using l load_pdptrs_same [of e cr3 c ok c1] by (auto split: if_splits)
  define c2 where "c2 = (if cr3 \<noteq> r_cr3 c1 then note_ev [NewPgd cr3] c1 else c1)"
  have s2: "same_regs c c2" using s same_regs_trans [OF s same_regs_note] by (simp add: c2_def)
  have k: "kvm_set_cr3 e x c = (if cr3 = r_cr3 c \<and> \<not> is_pae_paging e c then (0, fl c)
      else if illegal_gpa e c cr3 then (1, c) else if \<not> ok then (1, c1) else (0, fl (c2\<lparr>r_cr3 := cr3\<rparr>)))"
    using l unfolding kvm_set_cr3_def Let_def cr3_def [symmetric] fl_def [symmetric] c2_def by simp
  have f: "same_regs (c\<lparr>r_cr3 := cr3\<rparr>) (fl (c2\<lparr>r_cr3 := cr3\<rparr>))"
    by (rule same_regs_trans [OF same_regs_cr3 [OF s2] fl])
  have "r_cr3 (fl (c2\<lparr>r_cr3 := cr3\<rparr>)) = cr3" using same_regs_fields(2) [OF fl [of "c2\<lparr>r_cr3 := cr3\<rparr>"]] by simp
  moreover have "c\<lparr>r_cr3 := r_cr3 (fl c)\<rparr> = c" using same_regs_fields(2) [OF fl [of c]] by simp
  ultimately show ?thesis using assms s f fl [of c] unfolding k by (auto split: if_splits)
qed

section \<open>Properties\<close>

lemma vendor_cr0:
  assumes "vendor_ok e" "regs_ok e c" "cr0_ok e y" "has e (r_cr4 c) CR4_PCIDE \<longrightarrow> has e y CR0_PG"
  shows "regs_ok e (vendor_set_cr0 e y c)"
  using assms unfolding vendor_ok_def by (simp add: regs_ok_def cr4_ok_def dr_ok_def)

lemma vendor_cr4:
  assumes "vendor_ok e" "regs_ok e c" "\<not> has e x CR4_RESERVED" "x AND cr4_guest_rsvd c = 0" "has e x CR4_PCIDE \<longrightarrow> has e (r_cr0 c) CR0_PG"
  shows "regs_ok e (vendor_set_cr4 e x c)"
  using assms unfolding vendor_ok_def
  by (simp add: regs_ok_def cr4_ok_def dr_ok_def)

lemma set_cr0_ok:
  assumes "vendor_ok e" "regs_ok e c" "kvm_set_cr0 e x c = (r, c')"
  shows "regs_ok e c'"
  using set_cr0_cases [OF assms(3)]
proof (elim disjE conjE exE)
  fix c1 y
  assume "same_regs c c1" "cr0_ok e y" "has e (r_cr4 c) CR4_PCIDE \<longrightarrow> has e y CR0_PG"
    and c': "c' = kvm_post_set_cr0 e (r_cr0 c) y (vendor_set_cr0 e y c1)"
  then have "regs_ok e (vendor_set_cr0 e y c1)"
    using assms(1,2) by (intro vendor_cr0) (simp_all add: regs_ok_same same_regs_fields)
  then show ?thesis using c' post_same(1) regs_ok_same by blast
qed (use assms(2) regs_ok_same in blast)

lemma set_cr4_ok:
  assumes "vendor_ok e" "regs_ok e c" "kvm_set_cr4 e x c = (r, c')"
  shows "regs_ok e c'"
  using set_cr4_cases [OF assms(3)]
proof (elim disjE conjE exE)
  fix c1
  assume v: "kvm_is_valid_cr4 e x c" and s: "same_regs c c1"
    and p: "has e x CR4_PCIDE \<longrightarrow> has e (r_cr4 c) CR4_PCIDE \<or> is_long_mode e c1"
    and c': "c' = kvm_post_set_cr4 e (r_cr4 c) x (vendor_set_cr4 e x c1)"
  have "\<not> has e x CR4_RESERVED" "x AND cr4_guest_rsvd c1 = 0"
    using v s by (auto simp: kvm_is_valid_cr4_def same_regs_fields split: if_splits)
  moreover have "has e x CR4_PCIDE \<longrightarrow> has e (r_cr0 c1) CR0_PG"
    using p assms(1,2) s by (auto simp: vendor_ok_def regs_ok_def cr4_ok_def same_regs_fields)
  ultimately have "regs_ok e (vendor_set_cr4 e x c1)"
    using assms(1,2) s by (intro vendor_cr4) (simp_all add: regs_ok_same)
  then show ?thesis using c' post_same(2) regs_ok_same by blast
qed (use assms(2) regs_ok_same in blast)

lemma set_dr_ok:
  assumes "regs_ok e c" "kvm_set_dr e n x c = (r, c')"
  shows "regs_ok e c'"
proof -
  have "(y OR z) AND z = z" for y z :: u64 by (rule bit_word_eqI) (auto simp: bit_simps)
  then show ?thesis
    using assms
    by (auto simp: kvm_set_dr_def regs_ok_def cr4_ok_def dr_ok_def kvm_update_dr7_def Let_def split: if_splits)
qed

lemma xsetbv_ok:
  assumes "regs_ok e c"
  shows "regs_ok e (kvm_emulate_xsetbv e i x c)"
proof -
  obtain r c1 where k: "kvm_set_xcr e i x c = (r, c1)" by fastforce
  have n: "regs_ok e (note_ev es d) = regs_ok e d" for es d by (rule regs_ok_same [OF same_regs_note])
  have "regs_ok e (c\<lparr>r_xcr0 := x\<rparr>)" if "xcr0_valid e (supported_xcr0 c) x"
    using assms that by (simp add: regs_ok_def cr4_ok_def dr_ok_def)
  then have "regs_ok e c1" using set_xcr_cases [OF k] assms regs_ok_same by blast
  then show ?thesis using assms by (simp add: kvm_emulate_xsetbv_def k n)
qed

lemma set_cr38_ok:
  "regs_ok e c \<Longrightarrow> kvm_set_cr3 e x c = (r, c') \<Longrightarrow> regs_ok e c'"
  "regs_ok e c \<Longrightarrow> kvm_set_cr8 e x c = (r, c') \<Longrightarrow> regs_ok e c'"
proof -
  have u: "regs_ok e (c\<lparr>r_cr3 := y\<rparr>) = regs_ok e c" "regs_ok e (c\<lparr>r_cr8 := y\<rparr>) = regs_ok e c"
    "regs_ok e (c\<lparr>tpr := y\<rparr>) = regs_ok e c" for y
    by (simp_all add: regs_ok_def cr4_ok_def dr_ok_def)
  show "regs_ok e c \<Longrightarrow> kvm_set_cr3 e x c = (r, c') \<Longrightarrow> regs_ok e c'"
    using set_cr3_cases [of e x c r c'] regs_ok_same [of c c'] regs_ok_same [of "c\<lparr>r_cr3 := r_cr3 c'\<rparr>" c'] u(1) by blast
  show "regs_ok e c \<Longrightarrow> kvm_set_cr8 e x c = (r, c') \<Longrightarrow> regs_ok e c'"
    by (auto simp: kvm_set_cr8_def u split: if_splits)
qed

lemma rstep_ok:
  assumes "vendor_ok e" "regs_ok e c"
  shows "regs_ok e (snd (rstep e q c))"
proof (cases q)
  case (Lmsw x)
  then show ?thesis using set_cr0_ok [OF assms] by (simp add: kvm_lmsw_def) (metis prod.collapse)
next
  case (SetXcr i x)
  then show ?thesis using xsetbv_ok [OF assms(2)] by simp
qed (use set_cr0_ok [OF assms] set_cr4_ok [OF assms] set_cr38_ok [OF assms(2)] set_dr_ok [OF assms(2)]
      in \<open>simp, metis prod.collapse\<close>)+

text \<open>
  C17.  Whatever the guest writes to its control, extended control and debug registers,
  accepted or rejected, the registers stay in a state the architecture allows: paging only with
  protection, write-through off only with the cache off, no reserved bit, process identifiers only while
  paging is on, a consistent set of extended features, and the fixed bits of the debug registers.
\<close>

theorem registers_stay_valid:
  assumes "vendor_ok e" "regs_ok e c"
  shows "regs_ok e (fold (\<lambda>q d. snd (rstep e q d)) qs c)"
  using assms(2) by (induction qs arbitrary: c) (simp_all add: rstep_ok [OF assms(1)])

text \<open>
  Remark.  A write that is rejected changes no register.  At most the page directory pointers
  have been reloaded: for CR4 that happens before the check of the process identifiers.
\<close>

theorem rejected_write:
  assumes "rstep e q c = (1, c')"
  shows "same_regs c c'"
proof (cases q)
  case (SetCr0 x) then show ?thesis using set_cr0_cases [of e x c 1 c'] assms by auto
next
  case (SetCr3 x) then show ?thesis using set_cr3_cases [of e x c 1 c'] assms by auto
next
  case (SetCr4 x) then show ?thesis using set_cr4_cases [of e x c 1 c'] assms by auto
qed (use assms in \<open>auto simp: kvm_set_cr8_def kvm_set_dr_def Let_def split: if_splits\<close>)

text \<open>
  Remark.  Reading back an accepted debug register write gives the value for the four
  addresses, and for the status and control register its volatile bits with the fixed bits set; the
  other debug registers keep their values.
\<close>

theorem debug_roundtrip:
  assumes "regs_ok e c" "kvm_set_dr e n x c = (0, c')"
  shows "kvm_get_dr n c' =
      (if n \<le> 3 then x else if n = 4 \<or> n = 6 then (x AND mk e DR6_VOLATILE) OR kvm_dr6_fixed e
       else (x AND mk e DR7_VOLATILE) OR mk e DR7_FIXED_1) \<and>
    (\<forall>k \<in> {0, 1, 2, 3, 6, 7}. k \<noteq> n \<and> \<not> (n = 4 \<and> k = 6) \<and> \<not> ((n = 5 \<or> 7 < n) \<and> k = 7) \<longrightarrow>
      kvm_get_dr k c' = kvm_get_dr k c)"
proof -
  have "length (db c) = 4" using assms(1) by (simp add: regs_ok_def dr_ok_def)
  then show ?thesis
    using assms(2)
    by (auto simp: kvm_set_dr_def kvm_get_dr_def kvm_update_dr7_def Let_def split: if_splits)
qed

section \<open>A concrete processor\<close>

definition intelMask :: "mask_name \<Rightarrow> u64" where
  "intelMask m = (case m of
     CR0_ET \<Rightarrow> 0x10 | CR0_NW \<Rightarrow> 0x20000000 | CR0_CD \<Rightarrow> 0x40000000 | CR0_PG \<Rightarrow> 0x80000000 | CR0_PE \<Rightarrow> 1
   | CR0_RESERVED \<Rightarrow> 0x1ffaffc0 | CR0_ROLE \<Rightarrow> 0x80010000
   | CR4_PAE \<Rightarrow> 0x20 | CR4_PGE \<Rightarrow> 0x80 | CR4_PSE \<Rightarrow> 0x10 | CR4_SMEP \<Rightarrow> 0x100000 | CR4_LA57 \<Rightarrow> 0x1000
   | CR4_PCIDE \<Rightarrow> 0x20000 | CR4_ROLE \<Rightarrow> 0x3010b0 | CR4_RESERVED \<Rightarrow> 0xff889000
   | CR3_NOFLUSH \<Rightarrow> 0x8000000000000000 | CR3_PCID \<Rightarrow> 0xfff | CR8_RESERVED \<Rightarrow> 0xfffffffffffffff0 | EFER_LME \<Rightarrow> 0x100
   | XF_FP \<Rightarrow> 1 | XF_SSE \<Rightarrow> 2 | XF_YMM \<Rightarrow> 4 | XF_BNDREGS \<Rightarrow> 8 | XF_BNDCSR \<Rightarrow> 0x10 | XF_AVX512 \<Rightarrow> 0xe0 | XF_EXTEND \<Rightarrow> 0xfffffffffffffffc
   | DR6_FIXED_1 \<Rightarrow> 0xfffe0ff0 | DR6_RTM \<Rightarrow> 0x10000 | DR6_BUS_LOCK \<Rightarrow> 0x800 | DR6_VOLATILE \<Rightarrow> 0x1e80f | DR7_FIXED_1 \<Rightarrow> 0x400
   | DR7_VOLATILE \<Rightarrow> 0xffff2bff | DR7_BP_EN \<Rightarrow> 0xff | USE_HW_BP \<Rightarrow> 0x20000 | DEBUGREG_BP_ENABLED \<Rightarrow> 1 | PT_PRESENT \<Rightarrow> 1)"

definition intelR :: renv where
  "intelR = \<lparr>mk = intelMask, has_cpuid = (\<lambda>_. True), XCR0_INDEX = 0,
     is_paging = (\<lambda>c. r_cr0 c AND 0x80000000 \<noteq> 0), is_pae = (\<lambda>c. r_cr4 c AND 0x20 \<noteq> 0),
     is_long_mode = (\<lambda>c. efer c AND 0x400 \<noteq> 0 \<and> r_cr0 c AND 0x80000000 \<noteq> 0),
     is_pae_paging = (\<lambda>c. efer c AND 0x400 = 0 \<and> r_cr4 c AND 0x20 \<noteq> 0 \<and> r_cr0 c AND 0x80000000 \<noteq> 0),
     cs_l = False, r_cpl = 0, vendor_valid_cr4 = (\<lambda>_ _. True),
     vendor_set_cr0 = (\<lambda>x c. c\<lparr>r_cr0 := x\<rparr>), vendor_set_cr4 = (\<lambda>x c. c\<lparr>r_cr4 := x\<rparr>),
     dr6_valid = (\<lambda>x. drop_bit 32 x = 0), dr7_valid = (\<lambda>x. drop_bit 32 x = 0), lapic_in_kernel = False,
     lapic_tpr_of = (\<lambda>x. push_bit 4 x), lapic_cr8_of = (\<lambda>x. drop_bit 4 x), translate_gpa = Some,
     guest_page = (\<lambda>_ _. Some [0, 0, 0, 0]), rsvd_pdpte = 0x1e6, active_pcid = (\<lambda>c. r_cr3 c AND 0xfff),
     pcid_of = (\<lambda>_ x. x AND 0xfff), illegal_gpa = (\<lambda>_ x. drop_bit 52 x \<noteq> 0), noncoherent_dma = False, quirk_cd_nw = True\<rparr>"

definition resetR :: rvcpu where
  "resetR = \<lparr>r_cr0 = 0x60000010, r_cr3 = 0, r_cr4 = 0, r_cr8 = 0, efer = 0, r_xcr0 = 1, r_dr6 = 0xfffe0ff0,
     r_dr7 = 0x400, db = [0, 0, 0, 0], eff_db = [0, 0, 0, 0], guest_debug = 0, guest_debug_dr7 = 0x400,
     switch_db_regs = 0, hw_dr7 = 0x400, pdptrs = [0, 0, 0, 0], pdptrs_from_userspace = False, supported_xcr0 = 7,
     cr4_guest_rsvd = 0, reserved_gpa = 0, prev_roots = [], tpr = 0, revents = []\<rparr>"

lemma intel_vendor_ok: "vendor_ok intelR"
  by (simp add: vendor_ok_def intelR_def has_def intelMask_def)

lemma reset_ok: "regs_ok intelR resetR"
  by (simp add: regs_ok_def cr0_ok_def cr4_ok_def dr_ok_def xcr0_valid_def has_def kvm_dr6_fixed_def
      intelR_def intelMask_def resetR_def Let_def)

theorem registers_stay_valid_witness:
  "regs_ok intelR (fold (\<lambda>q d. snd (rstep intelR q d))
     [SetCr0 0x80000001, SetCr0 0x80000000, SetXcr 0 7, SetCr4 0x20000, SetDr 7 0x401] resetR)"
  by (rule registers_stay_valid [OF intel_vendor_ok reset_ok])

theorem rejected_write_witness: "same_regs resetR (snd (rstep intelR (SetCr0 0x80000000) resetR))"
proof -
  have "rstep intelR (SetCr0 0x80000000) resetR = (1, resetR)"
    by (simp add: kvm_set_cr0_def Let_def has_def intelR_def intelMask_def)
  from rejected_write [OF this] this show ?thesis by simp
qed

theorem debug_roundtrip_witness:
  "kvm_get_dr 7 (snd (kvm_set_dr intelR 7 0x3 resetR)) = 0x403"
proof -
  have "fst (kvm_set_dr intelR 7 0x3 resetR) = 0" by (simp add: kvm_set_dr_def intelR_def)
  then have "kvm_set_dr intelR 7 0x3 resetR = (0, snd (kvm_set_dr intelR 7 0x3 resetR))" by (metis prod.collapse)
  from debug_roundtrip [OF reset_ok this] show ?thesis by (simp add: intelR_def intelMask_def)
qed

definition demoX :: xstate where
  "demoX = \<lparr>hw_xcr0 = 7, hw_xss = 0, hw_pkru = 0x55, g_xcr0 = 3, g_xss = 0, g_pkru = 1, host_pkru = 0x55,
     osxsave = True, cr4_pke = True, xsaves_enabled = False, guest_state_protected = False\<rparr>"

definition demoXhost :: xhost where
  "demoXhost = \<lparr>host_xcr0 = 7, host_xss = 0, has_pku = True, XF_PKRU = 0x200\<rparr>"

theorem xsave_roundtrip_witness:
  "let s1 = kvm_load_guest_xsave_state demoXhost demoX; s2 = kvm_load_host_xsave_state demoXhost (s1\<lparr>hw_pkru := 9\<rparr>)
   in s2 = demoX\<lparr>g_pkru := 9\<rparr> \<and> hw_xcr0 s1 = 3 \<and> hw_pkru s1 = 1"
  using xsave_roundtrip [of demoXhost demoX 9]
  by (simp add: host_loaded_def demoX_def demoXhost_def uses_pkru_def Let_def)
end
