(* ===== verification/KvmGuestMem.thy ===== *)
theory KvmGuestMem
  imports KvmException
begin

unbundle bit_operations_syntax

text \<open>
  Access to guest memory through guest virtual addresses (\<^verbatim>\<open>kvm/x86.c\<close>): the translation helpers, the
  two loops that read and write page by page, and their callers in the instruction emulator.  The
  walk of the guest's page tables and the access to guest physical pages are not part of the
  sources: they are the parameter \<open>gm_env\<close>.
\<close>

section \<open>Parameters and results\<close>

datatype emul_rc = EMUL_CONTINUE | EMUL_PROPAGATE_FAULT | EMUL_IO_NEEDED | EMUL_CMPXCHG_FAILED

text \<open>
  \<open>walk\<close> is \<open>walk_mmu->gva_to_gpa\<close>: either the fault it stores (and the result is \<open>UNMAPPED_GVA\<close>) or
  a guest physical address.  \<open>rd_page\<close>, \<open>rd_guest\<close> and \<open>wr_guest\<close> are \<open>kvm_vcpu_read_guest_page\<close>,
  \<open>kvm_vcpu_read_guest\<close> and \<open>kvm_vcpu_write_guest\<close>.
\<close>

record 'm gm_env =
  PFERR_WRITE :: u32
  PFERR_USER :: u32
  PFERR_FETCH :: u32
  walk :: "'m \<Rightarrow> u64 \<Rightarrow> u32 \<Rightarrow> x86_fault + u64"
  rd_page :: "'m \<Rightarrow> u64 \<Rightarrow> nat \<Rightarrow> nat \<Rightarrow> int \<times> u8 list"
  rd_guest :: "'m \<Rightarrow> u64 \<Rightarrow> nat \<Rightarrow> int \<times> u8 list"
  wr_guest :: "'m \<Rightarrow> u64 \<Rightarrow> u8 list \<Rightarrow> int \<times> 'm"

definition page_of :: "u64 \<Rightarrow> u64" where
  "page_of a = drop_bit 12 a"

definition offset_of :: "u64 \<Rightarrow> nat" where
  "offset_of a = unat (a AND 0xfff)"

lemma offset_of_mod: "offset_of a = unat a mod 4096"
proof -
  have "a AND 0xfff = take_bit 12 a" by (simp add: take_bit_eq_mask mask_eq_exp_minus_1)
  then have "offset_of a = take_bit 12 (unat a)"
    unfolding offset_of_def by (simp only: unsigned_take_bit_eq)
  then show ?thesis by (simp add: take_bit_eq_mod)
qed

lemma offset_of_less [simp]: "offset_of a < 4096"
  by (simp add: offset_of_mod)

section \<open>Translation\<close>

definition user_access :: "('m, 'z) gm_env_scheme \<Rightarrow> nat \<Rightarrow> u32" where
  "user_access e cpl = (if cpl = 3 then PFERR_USER e else 0)"

definition kvm_mmu_gva_to_gpa_read :: "('m, 'z) gm_env_scheme \<Rightarrow> nat \<Rightarrow> 'm \<Rightarrow> u64 \<Rightarrow> x86_fault + u64" where
  "kvm_mmu_gva_to_gpa_read e cpl m gva = walk e m gva (user_access e cpl)"

definition kvm_mmu_gva_to_gpa_fetch :: "('m, 'z) gm_env_scheme \<Rightarrow> nat \<Rightarrow> 'm \<Rightarrow> u64 \<Rightarrow> x86_fault + u64" where
  "kvm_mmu_gva_to_gpa_fetch e cpl m gva = walk e m gva (user_access e cpl OR PFERR_FETCH e)"

definition kvm_mmu_gva_to_gpa_write :: "('m, 'z) gm_env_scheme \<Rightarrow> nat \<Rightarrow> 'm \<Rightarrow> u64 \<Rightarrow> x86_fault + u64" where
  "kvm_mmu_gva_to_gpa_write e cpl m gva = walk e m gva (user_access e cpl OR PFERR_WRITE e)"

definition kvm_mmu_gva_to_gpa_system :: "('m, 'z) gm_env_scheme \<Rightarrow> 'm \<Rightarrow> u64 \<Rightarrow> x86_fault + u64" where
  "kvm_mmu_gva_to_gpa_system e m gva = walk e m gva 0"

section \<open>Loops over pages\<close>

text \<open>
  The result of a read is the return code, the bytes stored from the start of the buffer, and the
  exception as the walks left it.
\<close>

function kvm_read_guest_virt_helper ::
  "('m, 'z) gm_env_scheme \<Rightarrow> 'm \<Rightarrow> u32 \<Rightarrow> u64 \<Rightarrow> nat \<Rightarrow> x86_fault \<Rightarrow> emul_rc \<times> u8 list \<times> x86_fault" where
  "kvm_read_guest_virt_helper e m access addr bytes flt =
     (if bytes = 0 then (EMUL_CONTINUE, [], flt)
      else let offset = offset_of addr; toread = min bytes (4096 - offset)
       in case walk e m addr access of
            Inl f \<Rightarrow> (EMUL_PROPAGATE_FAULT, [], f)
          | Inr gpa \<Rightarrow>
              let (ret, d) = rd_page e m (page_of gpa) offset toread
              in if ret < 0 then (EMUL_IO_NEEDED, d, flt)
                 else let (r, ds, flt') = kvm_read_guest_virt_helper e m access
                                            (addr + of_nat toread) (bytes - toread) flt
                      in (r, d @ ds, flt'))"
  by pat_completeness auto
termination
  by (relation "measure (\<lambda>(e, m, access, addr, bytes, flt). bytes)") (auto simp: min_def)

declare kvm_read_guest_virt_helper.simps [simp del]

function kvm_write_guest_virt_helper ::
  "('m, 'z) gm_env_scheme \<Rightarrow> u32 \<Rightarrow> u64 \<Rightarrow> u8 list \<Rightarrow> 'm \<Rightarrow> x86_fault \<Rightarrow> emul_rc \<times> 'm \<times> x86_fault" where
  "kvm_write_guest_virt_helper e access addr val m flt =
     (if val = [] then (EMUL_CONTINUE, m, flt)
      else let towrite = min (length val) (4096 - offset_of addr)
       in case walk e m addr access of
            Inl f \<Rightarrow> (EMUL_PROPAGATE_FAULT, m, f)
          | Inr gpa \<Rightarrow>
              let (ret, m') = wr_guest e m gpa (take towrite val)
              in if ret < 0 then (EMUL_IO_NEEDED, m', flt)
                 else kvm_write_guest_virt_helper e access
                        (addr + of_nat towrite) (drop towrite val) m' flt)"
  by pat_completeness auto
termination
  by (relation "measure (\<lambda>(e, access, addr, val, m, flt). length val)") (auto simp: min_def)

declare kvm_write_guest_virt_helper.simps [simp del]

section \<open>Callers\<close>

definition no_fault :: x86_fault where
  "no_fault = \<lparr>f_error_code = 0, f_address = 0, async_page_fault = False, nested_page_fault = False\<rparr>"

text \<open>Instruction fetch never crosses a page: a longer request is cut at the end of the page.\<close>

definition kvm_fetch_guest_virt ::
  "('m, 'z) gm_env_scheme \<Rightarrow> nat \<Rightarrow> 'm \<Rightarrow> u64 \<Rightarrow> nat \<Rightarrow> x86_fault \<Rightarrow> emul_rc \<times> u8 list \<times> x86_fault" where
  "kvm_fetch_guest_virt e cpl m addr bytes flt =
     (case walk e m addr (user_access e cpl OR PFERR_FETCH e) of
        Inl f \<Rightarrow> (EMUL_PROPAGATE_FAULT, [], f)
      | Inr gpa \<Rightarrow>
          let offset = offset_of addr;
              bytes = (if offset + bytes > 4096 then 4096 - offset else bytes);
              (ret, d) = rd_page e m (page_of gpa) offset bytes
          in if ret < 0 then (EMUL_IO_NEEDED, d, flt) else (EMUL_CONTINUE, d, flt))"

definition kvm_read_guest_virt ::
  "('m, 'z) gm_env_scheme \<Rightarrow> nat \<Rightarrow> 'm \<Rightarrow> u64 \<Rightarrow> nat \<Rightarrow> emul_rc \<times> u8 list \<times> x86_fault" where
  "kvm_read_guest_virt e cpl m addr bytes =
     kvm_read_guest_virt_helper e m (user_access e cpl) addr bytes no_fault"

definition emulator_read_std ::
  "('m, 'z) gm_env_scheme \<Rightarrow> nat \<Rightarrow> 'm \<Rightarrow> u64 \<Rightarrow> nat \<Rightarrow> x86_fault \<Rightarrow> bool \<Rightarrow> emul_rc \<times> u8 list \<times> x86_fault" where
  "emulator_read_std e cpl m addr bytes flt system =
     kvm_read_guest_virt_helper e m
       (if \<not> system \<and> cpl = 3 then PFERR_USER e else 0) addr bytes flt"

definition kvm_read_guest_phys_system :: "('m, 'z) gm_env_scheme \<Rightarrow> 'm \<Rightarrow> u64 \<Rightarrow> nat \<Rightarrow> emul_rc \<times> u8 list" where
  "kvm_read_guest_phys_system e m addr bytes =
     (let (r, d) = rd_guest e m addr bytes in (if r < 0 then EMUL_IO_NEEDED else EMUL_CONTINUE, d))"

definition emulator_write_std ::
  "('m, 'z) gm_env_scheme \<Rightarrow> nat \<Rightarrow> u64 \<Rightarrow> u8 list \<Rightarrow> x86_fault \<Rightarrow> bool \<Rightarrow> 'm \<Rightarrow> emul_rc \<times> 'm \<times> x86_fault" where
  "emulator_write_std e cpl addr val flt system m =
     kvm_write_guest_virt_helper e
       (PFERR_WRITE e OR (if \<not> system \<and> cpl = 3 then PFERR_USER e else 0)) addr val m flt"

text \<open>The flag \<open>l1tf_flush_l1d\<close> is returned with the new memory.\<close>

definition kvm_write_guest_virt_system ::
  "('m, 'z) gm_env_scheme \<Rightarrow> u64 \<Rightarrow> u8 list \<Rightarrow> x86_fault \<Rightarrow> 'm \<Rightarrow> bool \<times> emul_rc \<times> 'm \<times> x86_fault" where
  "kvm_write_guest_virt_system e addr val flt m =
     (True, kvm_write_guest_virt_helper e (PFERR_WRITE e) addr val m flt)"

text \<open>
  A \<open>#UD\<close> exit: the instruction after the forced-emulation prefix is emulated.  The result is the
  kind of emulation asked for with the new instruction pointer, or nothing when the vendor refuses.
\<close>

datatype emul_type = EMULTYPE_TRAP_UD | EMULTYPE_TRAP_UD_FORCED

definition handle_ud ::
  "('m, 'z) gm_env_scheme \<Rightarrow> bool \<Rightarrow> bool \<Rightarrow> u8 list \<Rightarrow> nat \<Rightarrow> 'm \<Rightarrow> u64 \<Rightarrow> u64 \<Rightarrow> (emul_type \<times> u64) option" where
  "handle_ud e can_emulate force_emulation_prefix kvm_emulate_prefix cpl m linear_rip rip =
     (if \<not> can_emulate then None
      else if force_emulation_prefix
        \<and> fst (kvm_read_guest_virt e cpl m linear_rip 5) = EMUL_CONTINUE
        \<and> fst (snd (kvm_read_guest_virt e cpl m linear_rip 5)) = take 5 kvm_emulate_prefix
      then Some (EMULTYPE_TRAP_UD_FORCED, rip + 5)
      else Some (EMULTYPE_TRAP_UD, rip))"

section \<open>What guest memory and the walk promise\<close>

text \<open>
  \<open>guest_ram\<close>: physical memory is an array of bytes \<open>byt\<close> in backed pages; an access inside one backed
  page succeeds and an access to another page fails and changes nothing.  \<open>paged\<close>: a walk translates
  page by page and keeps the offset in the page.
\<close>

definition guest_ram :: "('m, 'z) gm_env_scheme \<Rightarrow> (u64 \<Rightarrow> bool) \<Rightarrow> ('m \<Rightarrow> u64 \<Rightarrow> u8) \<Rightarrow> bool" where
  "guest_ram e backed byt \<longleftrightarrow>
     (\<forall>m gfn off n. off + n \<le> 4096 \<longrightarrow>
        rd_page e m gfn off n =
          (if backed gfn then (0, map (\<lambda>i. byt m (push_bit 12 gfn + of_nat (off + i))) [0..<n]) else (-14, [])))
   \<and> (\<forall>m gpa val. offset_of gpa + length val \<le> 4096 \<longrightarrow>
        (if backed (page_of gpa)
         then fst (wr_guest e m gpa val) = 0
           \<and> (\<forall>i < length val. byt (snd (wr_guest e m gpa val)) (gpa + of_nat i) = val ! i)
           \<and> (\<forall>g. (\<forall>i < length val. g \<noteq> gpa + of_nat i) \<longrightarrow> byt (snd (wr_guest e m gpa val)) g = byt m g)
         else fst (wr_guest e m gpa val) < 0 \<and> snd (wr_guest e m gpa val) = m))"

definition paged :: "('m, 'z) gm_env_scheme \<Rightarrow> bool" where
  "paged e \<longleftrightarrow>
     (\<forall>m access a b g. page_of a = page_of b \<longrightarrow> walk e m a access = Inr g \<longrightarrow>
        (\<exists>h. walk e m b access = Inr h \<and> page_of h = page_of g \<and> offset_of h = offset_of b))"

text \<open>The reference: one walk and one byte at a time.\<close>

fun virt_read ::
  "('m, 'z) gm_env_scheme \<Rightarrow> (u64 \<Rightarrow> bool) \<Rightarrow> ('m \<Rightarrow> u64 \<Rightarrow> u8) \<Rightarrow> 'm \<Rightarrow> u32 \<Rightarrow> u64 \<Rightarrow> nat \<Rightarrow> x86_fault
     \<Rightarrow> emul_rc \<times> u8 list \<times> x86_fault" where
  "virt_read e backed byt m access addr 0 flt = (EMUL_CONTINUE, [], flt)"
| "virt_read e backed byt m access addr (Suc n) flt =
     (case walk e m addr access of
        Inl f \<Rightarrow> (EMUL_PROPAGATE_FAULT, [], f)
      | Inr g \<Rightarrow>
          if \<not> backed (page_of g) then (EMUL_IO_NEEDED, [], flt)
          else let (r, ds, x) = virt_read e backed byt m access (addr + 1) n flt in (r, byt m g # ds, x))"

section \<open>Addresses inside a page\<close>

lemma in_page:
  assumes "i < 4096 - x mod (4096 :: nat)"
  shows "(x + i) mod 4096 = x mod 4096 + i" "(x + i) div 4096 = x div 4096"
proof -
  have x: "x + i = (x mod 4096 + i) + 4096 * (x div 4096)" by simp
  have l: "x mod 4096 + i < 4096" using assms by simp
  show "(x + i) mod 4096 = x mod 4096 + i" by (subst x) (simp only: mod_mult_self2 mod_less [OF l])
  show "(x + i) div 4096 = x div 4096"
    by (subst x, subst div_mult_self2) (simp_all add: l)
qed

lemma unat_add_in_page:
  assumes "i < 4096 - offset_of a"
  shows "unat (a + of_nat i) = unat a + i"
proof -
  have "unat a < 2 ^ 64" using unsigned_less [of a] by simp
  then have "unat a div 4096 < 2 ^ 52" by (simp add: less_mult_imp_div_less)
  moreover have "unat a = 4096 * (unat a div 4096) + offset_of a" by (simp add: offset_of_mod)
  ultimately have "unat a + i < 2 ^ 64" using assms by simp
  then show ?thesis by (simp add: unat_word_ariths unat_of_nat)
qed

lemma unat_page_of: "unat (page_of a) = unat a div 4096"
  unfolding page_of_def unsigned_drop_bit_eq
  by (simp add: drop_bit_eq_div take_bit_nat_eq_self [OF unsigned_less, of a, simplified])

lemma page_of_add: "i < 4096 - offset_of a \<Longrightarrow> page_of (a + of_nat i) = page_of a"
proof -
  assume i: "i < 4096 - offset_of a"
  have "(unat a + i) div 4096 = unat a div 4096"
    using in_page(2) [of i "unat a"] i by (simp add: offset_of_mod)
  then have "unat (page_of (a + of_nat i)) = unat (page_of a)"
    by (simp only: unat_page_of unat_add_in_page [OF i])
  then show ?thesis by (simp only: word_unat_eq_iff)
qed

lemma offset_of_add: "i < 4096 - offset_of a \<Longrightarrow> offset_of (a + of_nat i) = offset_of a + i"
proof -
  assume i: "i < 4096 - offset_of a"
  have "(unat a + i) mod 4096 = unat a mod 4096 + i"
    using in_page(1) [of i "unat a"] i by (simp add: offset_of_mod)
  then show ?thesis using unat_add_in_page [OF i] by (simp add: offset_of_mod)
qed

lemma page_offset_eq: "push_bit 12 (page_of g) + of_nat (offset_of g) = g"
proof -
  have "g AND 0xfff = take_bit 12 g" by (simp add: take_bit_eq_mask mask_eq_exp_minus_1)
  then have "of_nat (offset_of g) = take_bit 12 g" by (simp add: offset_of_def)
  moreover have "push_bit 12 (drop_bit 12 g) + take_bit 12 g = g"
    by (simp add: bits_ident)
  ultimately show ?thesis by (simp add: page_of_def)
qed

lemma paged_in_page:
  assumes "paged e" "walk e m a access = Inr g" "i < 4096 - offset_of a"
  shows "walk e m (a + of_nat i) access = Inr (g + of_nat i)"
    and "offset_of g = offset_of a"
proof -
  obtain h where h: "walk e m a access = Inr h" "offset_of h = offset_of a"
    using assms(1,2) unfolding paged_def by blast
  then show o: "offset_of g = offset_of a" using assms(2) by simp
  obtain k where k: "walk e m (a + of_nat i) access = Inr k" "page_of k = page_of g"
      "offset_of k = offset_of (a + of_nat i)"
    using assms(1,2) page_of_add [OF assms(3)] unfolding paged_def by metis
  have i: "i < 4096 - offset_of g" using assms(3) o by simp
  have "k = g + of_nat i"
    using page_offset_eq [of k] page_offset_eq [of "g + of_nat i"]
    by (simp only: k page_of_add [OF i] offset_of_add [OF i] offset_of_add [OF assms(3)] o)
  then show "walk e m (a + of_nat i) access = Inr (g + of_nat i)" using k by simp
qed

section \<open>Reading\<close>

lemma guest_ram_read:
  "guest_ram e backed byt \<Longrightarrow> off + n \<le> 4096 \<Longrightarrow>
     rd_page e m gfn off n =
       (if backed gfn then (0, map (\<lambda>i. byt m (push_bit 12 gfn + of_nat (off + i))) [0..<n]) else (-14, []))"
  by (simp add: guest_ram_def)

lemma guest_ram_write:
  assumes "guest_ram e backed byt" "offset_of gpa + length val \<le> 4096" "backed (page_of gpa)"
  shows "fst (wr_guest e m gpa val) = 0"
    and "i < length val \<Longrightarrow> byt (snd (wr_guest e m gpa val)) (gpa + of_nat i) = val ! i"
    and "(\<And>i. i < length val \<Longrightarrow> g \<noteq> gpa + of_nat i) \<Longrightarrow> byt (snd (wr_guest e m gpa val)) g = byt m g"
  using assms by (simp_all add: guest_ram_def)

text \<open>A read of one page by the helper, against the bytes of that page.\<close>

lemma rd_page_bytes:
  assumes "guest_ram e backed byt" "backed (page_of g)" "offset_of g + n \<le> 4096"
  shows "rd_page e m (page_of g) (offset_of g) n = (0, map (\<lambda>i. byt m (g + of_nat i)) [0..<n])"
  by (simp only: guest_ram_read [OF assms(1,3)] assms(2) if_True of_nat_add
      add.assoc [symmetric] page_offset_eq)

lemma virt_read_chunk:
  assumes "k \<le> n" "\<And>i. i < k \<Longrightarrow> walk e m (a + of_nat i) access = Inr (g + of_nat i)"
    and "\<And>i. i < k \<Longrightarrow> backed (page_of (g + of_nat i))"
  shows "virt_read e backed byt m access a n flt =
    (let (r, ds, x) = virt_read e backed byt m access (a + of_nat k) (n - k) flt
     in (r, map (\<lambda>i. byt m (g + of_nat i)) [0..<k] @ ds, x))"
  using assms
proof (induction k arbitrary: n a g)
  case (Suc k)
  obtain n' where n: "n = Suc n'" "k \<le> n'" using Suc.prems(1) by (cases n) auto
  have s: "walk e m a access = Inr g" "backed (page_of g)" using Suc.prems(2,3) [of 0] by simp_all
  have "walk e m (a + 1 + of_nat i) access = Inr (g + 1 + of_nat i)"
    "backed (page_of (g + 1 + of_nat i))" if "i < k" for i
    using Suc.prems(2,3) [of "Suc i"] that by (simp_all add: ac_simps)
  from Suc.IH [OF n(2) this] have
    "virt_read e backed byt m access (a + 1) n' flt =
      (let (r, ds, x) = virt_read e backed byt m access (a + 1 + of_nat k) (n' - k) flt
       in (r, map (\<lambda>i. byt m (g + 1 + of_nat i)) [0..<k] @ ds, x))" by simp
  moreover have "map (\<lambda>i. byt m (g + of_nat i)) [0..<Suc k]
      = byt m g # map (\<lambda>i. byt m (g + 1 + of_nat i)) [0..<k]"
    by (simp add: upt_conv_Cons map_Suc_upt [symmetric] ac_simps del: upt_Suc)
  ultimately show ?case using s n
    by (simp add: ac_simps split: prod.splits del: upt_Suc)
qed simp

lemma read_helper_bytewise:
  assumes "guest_ram e backed byt" "paged e"
  shows "kvm_read_guest_virt_helper e m access a n flt = virt_read e backed byt m access a n flt"
proof (induction n arbitrary: a rule: less_induct)
  case (less n)
  show ?case
  proof (cases "n = 0")
    case nz: False
    define k where "k = min n (4096 - offset_of a)"
    have k: "0 < k" "k \<le> n" "k \<le> 4096 - offset_of a" using nz by (auto simp: k_def)
    then obtain n' where n: "n = Suc n'" by (cases n) auto
    show ?thesis
    proof (cases "walk e m a access")
      case (Inl f)
      then show ?thesis using n by (simp add: kvm_read_guest_virt_helper.simps)
    next
      case (Inr g)
      note pg = paged_in_page [OF assms(2) Inr]
      have o: "offset_of g = offset_of a" using pg(2) [of 0] by simp
      show ?thesis
      proof (cases "backed (page_of g)")
        case True
        have "virt_read e backed byt m access a n flt =
          (let (r, ds, x) = virt_read e backed byt m access (a + of_nat k) (n - k) flt
           in (r, map (\<lambda>i. byt m (g + of_nat i)) [0..<k] @ ds, x))"
          using k pg(1) True o by (intro virt_read_chunk) (auto simp: page_of_add)
        moreover have "rd_page e m (page_of g) (offset_of a) k = (0, map (\<lambda>i. byt m (g + of_nat i)) [0..<k])"
          using rd_page_bytes [OF assms(1) True, of k m] k(3) less_imp_le [OF offset_of_less [of a]]
          by (simp add: o le_diff_conv2 add.commute)
        ultimately show ?thesis
          using Inr k less.IH [of "n - k" "a + of_nat k"] nz
          by (simp add: kvm_read_guest_virt_helper.simps [of e m access a n] k_def [symmetric])
      next
        case False
        have "offset_of a + k \<le> 4096" using k(3) offset_of_less [of a] by linarith
        then have "kvm_read_guest_virt_helper e m access a n flt = (EMUL_IO_NEEDED, [], flt)"
          using guest_ram_read [OF assms(1), of "offset_of a" k m "page_of g"] Inr False nz
          by (simp add: kvm_read_guest_virt_helper.simps [of e m access a n] k_def [symmetric])
        then show ?thesis using Inr False n by simp
      qed
    qed
  qed (simp add: kvm_read_guest_virt_helper.simps)
qed

section \<open>Writing\<close>

text \<open>
  The loop of the write, in a memory \<open>m\<close> that already differs from the first one \<open>m0\<close> inside \<open>T\<close>: as
  long as changes inside \<open>T\<close> do not change a translation, every byte lands at its address.
\<close>

lemma write_loop:
  assumes ram: "guest_ram e backed byt" and pg: "paged e"
    and stable: "\<And>m'. (\<And>g. g \<notin> T \<Longrightarrow> byt m' g = byt m0 g) \<Longrightarrow> walk e m' = walk e m0"
    and "\<And>g. g \<notin> T \<Longrightarrow> byt m g = byt m0 g"
    and "\<And>i. i < length val \<Longrightarrow> walk e m0 (a + of_nat i) access = Inr (tr i) \<and> backed (page_of (tr i))"
    and "inj_on tr {..<length val}" and "tr ` {..<length val} \<subseteq> T"
  shows "\<exists>m'. kvm_write_guest_virt_helper e access a val m flt = (EMUL_CONTINUE, m', flt)
    \<and> (\<forall>i < length val. byt m' (tr i) = val ! i)
    \<and> (\<forall>g. g \<notin> tr ` {..<length val} \<longrightarrow> byt m' g = byt m g)"
  using assms(4-7)
proof (induction "length val" arbitrary: m a val tr rule: less_induct)
  case less
  show ?case
  proof (cases "val = []")
    case False
    define k where "k = min (length val) (4096 - offset_of a)"
    have k: "0 < k" "k \<le> length val" "k \<le> 4096 - offset_of a" using False by (auto simp: k_def)
    have w: "walk e m = walk e m0" by (rule stable) (rule less.prems(1))
    have g: "walk e m a access = Inr (tr 0)" "backed (page_of (tr 0))"
      using less.prems(2) [of 0] False by (simp_all add: w)
    have o: "offset_of (tr 0) = offset_of a" using paged_in_page(2) [OF pg g(1), of 0] by simp
    have tr: "tr i = tr 0 + of_nat i" if "i < k" for i
    proof -
      have "walk e m0 (a + of_nat i) access = Inr (tr 0 + of_nat i)"
        using paged_in_page(1) [OF pg g(1), of i] that k by (simp add: w)
      moreover have "walk e m0 (a + of_nat i) access = Inr (tr i)" using less.prems(2) that k by simp
      ultimately show ?thesis by simp
    qed
    define m1 where "m1 = snd (wr_guest e m (tr 0) (take k val))"
    have fit: "offset_of (tr 0) + length (take k val) \<le> 4096"
      using k less_imp_le [OF offset_of_less [of a]] by (simp add: o le_diff_conv2 add.commute min_absorb2)
    note wr = guest_ram_write [OF ram fit g(2), where m = m]
    have m1_in: "byt m1 (tr i) = val ! i" if "i < k" for i
      using wr(2) [of i] that k tr [OF that] by (simp add: m1_def)
    have m1_out: "byt m1 h = byt m h" if "h \<notin> tr ` {..<k}" for h
      unfolding m1_def
    proof (rule wr(3))
      fix i assume "i < length (take k val)"
      then show "h \<noteq> tr 0 + of_nat i" using tr [of i, symmetric] that by auto
    qed
    have sub: "tr ` {..<k} \<subseteq> T" using less.prems(4) k by auto
    have "\<exists>m'. kvm_write_guest_virt_helper e access (a + of_nat k) (drop k val) m1 flt = (EMUL_CONTINUE, m', flt)
      \<and> (\<forall>i < length (drop k val). byt m' (tr (k + i)) = drop k val ! i)
      \<and> (\<forall>h. h \<notin> (\<lambda>i. tr (k + i)) ` {..<length (drop k val)} \<longrightarrow> byt m' h = byt m1 h)"
    proof (rule less.hyps [of "drop k val" m1 "a + of_nat k" "\<lambda>i. tr (k + i)"])
      show "length (drop k val) < length val" using k by simp
      show "byt m1 h = byt m0 h" if "h \<notin> T" for h
      proof -
        have "h \<notin> tr ` {..<k}" using that sub by blast
        then show ?thesis using m1_out less.prems(1) that by simp
      qed
      show "walk e m0 (a + of_nat k + of_nat i) access = Inr (tr (k + i)) \<and> backed (page_of (tr (k + i)))"
        if "i < length (drop k val)" for i
        using less.prems(2) [of "k + i"] that by (simp add: ac_simps)
      show "inj_on (\<lambda>i. tr (k + i)) {..<length (drop k val)}"
        by (rule inj_onI) (use inj_onD [OF less.prems(3)] in force)
      show "(\<lambda>i. tr (k + i)) ` {..<length (drop k val)} \<subseteq> T" using less.prems(4) by auto
    qed
    then obtain m' where m': "kvm_write_guest_virt_helper e access (a + of_nat k) (drop k val) m1 flt = (EMUL_CONTINUE, m', flt)"
      and new: "\<And>i. i < length val - k \<Longrightarrow> byt m' (tr (k + i)) = val ! (k + i)"
      and old: "\<And>h. h \<notin> (\<lambda>i. tr (k + i)) ` {..<length val - k} \<Longrightarrow> byt m' h = byt m1 h"
      using k by auto
    have "kvm_write_guest_virt_helper e access a val m flt = (EMUL_CONTINUE, m', flt)"
      using False g(1) wr(1) m' by (simp add: kvm_write_guest_virt_helper.simps [of e access a val] k_def [symmetric]
          m1_def Let_def case_prod_unfold)
    moreover have "byt m' (tr i) = val ! i" if i: "i < length val" for i
    proof (cases "i < k")
      case True
      have "tr i \<notin> (\<lambda>i. tr (k + i)) ` {..<length val - k}"
        using less.prems(3) i True by (auto dest: inj_onD)
      then show ?thesis using old m1_in True by simp
    next
      case False
      then show ?thesis using new [of "i - k"] i by simp
    qed
    moreover have "byt m' h = byt m h" if "h \<notin> tr ` {..<length val}" for h
    proof -
      have "h \<notin> tr ` {..<k}" "h \<notin> (\<lambda>i. tr (k + i)) ` {..<length val - k}" using that k by auto
      then show ?thesis using old m1_out by simp
    qed
    ultimately show ?thesis by blast
  qed (simp add: kvm_write_guest_virt_helper.simps)
qed

lemma virt_read_all:
  assumes "\<And>i. i < n \<Longrightarrow> walk e m (a + of_nat i) access = Inr (tr i) \<and> backed (page_of (tr i))"
  shows "virt_read e backed byt m access a n flt = (EMUL_CONTINUE, map (\<lambda>i. byt m (tr i)) [0..<n], flt)"
  using assms
proof (induction n arbitrary: a tr)
  case (Suc n)
  have "walk e m (a + 1 + of_nat i) access = Inr (tr (Suc i)) \<and> backed (page_of (tr (Suc i)))" if "i < n" for i
    using Suc.prems [of "Suc i"] that by (simp add: ac_simps)
  from Suc.IH [OF this] Suc.prems [of 0] show ?case
    by (simp add: upt_conv_Cons map_Suc_upt [symmetric] del: upt_Suc)
qed simp

section \<open>Properties\<close>

text \<open>
  Remark: reading guest memory through virtual addresses, which the code does in pieces
  that end at page boundaries, returns what reading one translated byte after the other returns: the
  same bytes, the same result code, and the same fault, wherever the first unmapped or unbacked page
  lies in the range.
\<close>

theorem virt_read_refines:
  assumes "guest_ram e backed byt" "paged e"
  shows "kvm_read_guest_virt e cpl m addr n = virt_read e backed byt m (user_access e cpl) addr n no_fault"
  by (simp add: kvm_read_guest_virt_def read_helper_bytewise [OF assms])

text \<open>
  C23: when the pages of a range are mapped to distinct backed bytes and do not hold the
  page tables in use, a write by the emulator succeeds whatever page boundaries it crosses, changes
  the bytes of the range only, and a read of the range returns what was written.
\<close>

theorem virt_write_read:
  assumes "guest_ram e backed byt" "paged e"
    and "w = PFERR_WRITE e OR (if \<not> system \<and> cpl = 3 then PFERR_USER e else 0)"
    and "r = (if \<not> system \<and> cpl = 3 then PFERR_USER e else 0)"
    and "\<And>i. i < length val \<Longrightarrow> walk e m (a + of_nat i) w = Inr (tr i)
               \<and> walk e m (a + of_nat i) r = Inr (tr i) \<and> backed (page_of (tr i))"
    and "inj_on tr {..<length val}"
    and "\<And>m'. (\<And>g. g \<notin> tr ` {..<length val} \<Longrightarrow> byt m' g = byt m g) \<Longrightarrow> walk e m' = walk e m"
  shows "\<exists>m'. emulator_write_std e cpl a val flt system m = (EMUL_CONTINUE, m', flt)
    \<and> emulator_read_std e cpl m' a (length val) flt system = (EMUL_CONTINUE, val, flt)
    \<and> (\<forall>g. g \<notin> tr ` {..<length val} \<longrightarrow> byt m' g = byt m g)"
proof -
  have "\<exists>m'. kvm_write_guest_virt_helper e w a val m flt = (EMUL_CONTINUE, m', flt)
    \<and> (\<forall>i < length val. byt m' (tr i) = val ! i)
    \<and> (\<forall>g. g \<notin> tr ` {..<length val} \<longrightarrow> byt m' g = byt m g)"
    by (rule write_loop [OF assms(1,2,7)]) (use assms(5,6) in auto)
  then obtain m' where m': "kvm_write_guest_virt_helper e w a val m flt = (EMUL_CONTINUE, m', flt)"
    "\<And>i. i < length val \<Longrightarrow> byt m' (tr i) = val ! i"
    "\<And>g. g \<notin> tr ` {..<length val} \<Longrightarrow> byt m' g = byt m g" by auto
  have "walk e m' = walk e m" by (rule assms(7)) (rule m'(3))
  then have "virt_read e backed byt m' r a (length val) flt
      = (EMUL_CONTINUE, map (\<lambda>i. byt m' (tr i)) [0..<length val], flt)"
    by (intro virt_read_all) (use assms(5) in auto)
  moreover have "map (\<lambda>i. byt m' (tr i)) [0..<length val] = val"
    by (rule nth_equalityI) (simp_all add: m'(2))
  ultimately have "kvm_read_guest_virt_helper e m' r a (length val) flt = (EMUL_CONTINUE, val, flt)"
    by (simp add: read_helper_bytewise [OF assms(1,2)])
  moreover have "emulator_write_std e cpl a val flt system m = kvm_write_guest_virt_helper e w a val m flt"
    by (simp add: emulator_write_std_def assms(3))
  moreover have "emulator_read_std e cpl m' a (length val) flt system = kvm_read_guest_virt_helper e m' r a (length val) flt"
    by (simp add: emulator_read_std_def assms(4))
  ultimately show ?thesis using m' by auto
qed

text \<open>
  A guest whose virtual pages 0 to 3 are the physical pages 16 to 19 of a memory of 32 pages.
\<close>

definition flat_env :: "(u64 \<Rightarrow> u8) gm_env" where
  "flat_env = \<lparr>PFERR_WRITE = 2, PFERR_USER = 4, PFERR_FETCH = 16,
     walk = (\<lambda>m a access. if page_of a < 4 then Inr (a XOR 0x10000) else Inl (no_fault\<lparr>f_address := a\<rparr>)),
     rd_page = (\<lambda>m gfn off n. if gfn < 32 then (0, map (\<lambda>i. m (push_bit 12 gfn + of_nat (off + i))) [0..<n]) else (-14, [])),
     rd_guest = (\<lambda>m gpa n. if page_of gpa < 32 then (0, map (\<lambda>i. m (gpa + of_nat i)) [0..<n]) else (-14, [])),
     wr_guest = (\<lambda>m gpa val. if page_of gpa < 32
       then (0, \<lambda>g. if unat (g - gpa) < length val then val ! unat (g - gpa) else m g) else (-14, m))\<rparr>"

lemma xor_page: "page_of (a XOR 0x10000) = page_of a XOR 16" "offset_of (a XOR 0x10000) = offset_of a"
proof -
  show "page_of (a XOR 0x10000) = page_of a XOR 16" by (simp add: page_of_def drop_bit_xor)
  have "(a XOR 0x10000) AND 0xfff = a AND 0xfff"
    by (simp add: bit.conj_xor_distrib2)
  then show "offset_of (a XOR 0x10000) = offset_of a" by (simp add: offset_of_def)
qed

lemma flat_paged: "paged flat_env"
  unfolding paged_def by (auto simp: flat_env_def xor_page split: if_splits)

lemma unat_of_small: "i < 4096 \<Longrightarrow> unat (of_nat i :: u64) = i"
  by (simp add: unat_of_nat take_bit_nat_eq_self)

lemma flat_ram: "guest_ram flat_env (\<lambda>p. p < 32) (\<lambda>m. m)"
proof -
  have "unat (g - gpa) < length val \<Longrightarrow> \<exists>i < length val. g = gpa + of_nat i" for g gpa :: u64 and val :: "u8 list"
    by (rule exI [of _ "unat (g - gpa)"]) simp
  then show ?thesis unfolding guest_ram_def
    by (auto simp: flat_env_def unat_of_small)
qed

theorem virt_read_refines_witness:
  "kvm_read_guest_virt flat_env 0 (\<lambda>_. 7) 0x3fff 2
     = virt_read flat_env (\<lambda>p. p < 32) (\<lambda>m. m) (\<lambda>_. 7) (user_access flat_env 0) 0x3fff 2 no_fault"
  by (rule virt_read_refines [OF flat_ram flat_paged])

theorem virt_write_read_witness:
  "\<exists>m'. emulator_write_std flat_env 3 0x1ffe [1, 2, 3, 4] no_fault False (\<lambda>_. 0) = (EMUL_CONTINUE, m', no_fault)
    \<and> emulator_read_std flat_env 3 m' 0x1ffe (length [1 :: u8, 2, 3, 4]) no_fault False
        = (EMUL_CONTINUE, [1, 2, 3, 4], no_fault)
    \<and> (\<forall>g. g \<notin> (\<lambda>i. (0x1ffe + of_nat i) XOR 0x10000) ` {..<length [1 :: u8, 2, 3, 4]} \<longrightarrow> m' g = 0)"
  by (rule virt_write_read [OF flat_ram flat_paged refl refl, where m = "\<lambda>_. 0"])
    (auto simp: flat_env_def page_of_def inj_on_def less_Suc_eq)

end
