(* ===== verification/KvmMmio.thy ===== *)
theory KvmMmio
  imports KvmGuestMem
begin

unbundle bit_operations_syntax

text \<open>
  Emulated accesses to memory-mapped devices (\<^verbatim>\<open>kvm/x86.c\<close>): an access of the instruction emulator is
  split at a page boundary, each part goes to guest memory, to a device in the kernel in pieces of at
  most eight bytes, or becomes a fragment that user space has to serve; the fragments are then handed
  out piece by piece, one exit to user space each.  Devices in the kernel, the walk of the page tables
  and the instruction emulator itself are the parameter \<open>mm_env\<close>.
\<close>

section \<open>State\<close>

text \<open>\<open>frag_data\<close> is a pointer into the operand buffer, here an offset.\<close>

record mmio_frag =
  frag_gpa :: u64
  frag_data :: nat
  frag_len :: nat

datatype completion = Complete_emulated_mmio | Complete_sev_es_emulated_mmio

text \<open>
  \<open>mm_buf\<close> is the buffer of the operand that is read or written, \<open>mm_mem\<close> guest memory, \<open>mm_dev\<close> the
  devices in the kernel, \<open>tracked\<close> the calls of \<open>kvm_page_track_write\<close>.  The \<open>run_\<close> fields are those of
  the page shared with user space.
\<close>

record ('m, 'd) mmio_vcpu =
  mm_mem :: 'm
  mm_dev :: 'd
  mm_buf :: "u8 list"
  mm_exception :: x86_fault
  gpa_available :: bool
  gpa_val :: u64
  mmio_needed :: bool
  mmio_is_write :: bool
  mmio_read_completed :: bool
  mmio_cur_fragment :: nat
  mmio_nr_fragments :: nat
  mmio_fragments :: "mmio_frag list"
  run_exit_mmio :: bool
  run_phys_addr :: u64
  run_len :: nat
  run_is_write :: bool
  run_data :: "u8 list"
  complete_userspace_io :: "completion option"
  tracked :: "(u64 \<times> u8 list) list"

text \<open>
  The parameters of an access.  \<open>apic_write\<close>, \<open>bus_write\<close> return whether the device accepted the write
  (the C functions return zero), the read functions the bytes.  \<open>match_mmio_gva\<close> to
  \<open>mmio_permission_fault\<close> are the cache of the last device page and its check.
\<close>

record ('m, 'd) mm_env = "'m gm_env" +
  mm_cpl :: nat
  APIC_DEFAULT_PHYS_BASE :: u64
  lapic_in_kernel :: bool
  apic_write :: "'d \<Rightarrow> u64 \<Rightarrow> u8 list \<Rightarrow> bool \<times> 'd"
  bus_write :: "'d \<Rightarrow> u64 \<Rightarrow> u8 list \<Rightarrow> bool \<times> 'd"
  apic_read :: "'d \<Rightarrow> u64 \<Rightarrow> nat \<Rightarrow> u8 list option \<times> 'd"
  bus_read :: "'d \<Rightarrow> u64 \<Rightarrow> nat \<Rightarrow> u8 list option \<times> 'd"
  match_mmio_gpa :: "u64 \<Rightarrow> bool"
  match_mmio_gva :: "u64 \<Rightarrow> bool"
  mmio_gfn :: u64
  mm_paging :: bool
  mmio_permission_fault :: "u32 \<Rightarrow> bool"
  emulator_can_use_gpa :: bool
  mode_prot64 :: bool
  split_lock_detect :: bool
  cache_line_size :: u64
  vcpu_map :: "'m \<Rightarrow> u64 \<Rightarrow> bool"
  map_read :: "'m \<Rightarrow> u64 \<Rightarrow> nat \<Rightarrow> u8 list"
  map_write :: "'m \<Rightarrow> u64 \<Rightarrow> u8 list \<Rightarrow> 'm"

definition sub_buf :: "nat \<Rightarrow> nat \<Rightarrow> 'a list \<Rightarrow> 'a list" where
  "sub_buf off n b = take n (drop off b)"

text \<open>\<open>memcpy\<close> to the offset \<open>off\<close> of a buffer.\<close>

definition memcpy_at :: "nat \<Rightarrow> 'a list \<Rightarrow> 'a list \<Rightarrow> 'a list" where
  "memcpy_at off bs b = take off b @ bs @ drop (off + length bs) b"

section \<open>Devices in the kernel\<close>

definition mmio_piece_write :: "('m, 'd) mm_env \<Rightarrow> u64 \<Rightarrow> u8 list \<Rightarrow> 'd \<Rightarrow> bool \<times> 'd" where
  "mmio_piece_write e addr v d =
     (if lapic_in_kernel e
      then let (ok, d') = apic_write e d addr v in if ok then (True, d') else bus_write e d' addr v
      else bus_write e d addr v)"

definition mmio_piece_read :: "('m, 'd) mm_env \<Rightarrow> u64 \<Rightarrow> nat \<Rightarrow> 'd \<Rightarrow> u8 list option \<times> 'd" where
  "mmio_piece_read e addr n d =
     (if lapic_in_kernel e
      then let (r, d') = apic_read e d addr n in if r \<noteq> None then (r, d') else bus_read e d' addr n
      else bus_read e d addr n)"

text \<open>The loops return the number of bytes handled; the read also the bytes.\<close>

function vcpu_mmio_write :: "('m, 'd) mm_env \<Rightarrow> u64 \<Rightarrow> u8 list \<Rightarrow> 'd \<Rightarrow> nat \<times> 'd" where
  "vcpu_mmio_write e addr v d =
     (let n = min (length v) 8; (ok, d') = mmio_piece_write e addr (take n v) d
      in if \<not> ok then (0, d')
         else if length v - n = 0 then (n, d')
         else let (handled, d'') = vcpu_mmio_write e (addr + of_nat n) (drop n v) d' in (n + handled, d''))"
  by pat_completeness auto
termination
  by (relation "measure (\<lambda>(e, addr, v, d). length v)") (auto simp: min_def)

function vcpu_mmio_read :: "('m, 'd) mm_env \<Rightarrow> u64 \<Rightarrow> nat \<Rightarrow> 'd \<Rightarrow> nat \<times> u8 list \<times> 'd" where
  "vcpu_mmio_read e addr len d =
     (let n = min len 8; (r, d') = mmio_piece_read e addr n d
      in case r of
           None \<Rightarrow> (0, [], d')
         | Some bs \<Rightarrow>
             if len - n = 0 then (n, bs, d')
             else let (handled, bs', d'') = vcpu_mmio_read e (addr + of_nat n) (len - n) d'
                  in (n + handled, bs @ bs', d''))"
  by pat_completeness auto
termination
  by (relation "measure (\<lambda>(e, addr, len, d). len)") (auto simp: min_def)

declare vcpu_mmio_write.simps [simp del] vcpu_mmio_read.simps [simp del]

section \<open>Where an access goes\<close>

definition vcpu_is_mmio_gpa :: "('m, 'd) mm_env \<Rightarrow> u64 \<Rightarrow> bool" where
  "vcpu_is_mmio_gpa e gpa \<longleftrightarrow>
     gpa AND NOT 0xfff = APIC_DEFAULT_PHYS_BASE e \<or> match_mmio_gpa e gpa"

text \<open>The fault of the walk (result \<open>-1\<close>), or the physical address and whether it is a device's.\<close>

definition vcpu_mmio_gva_to_gpa :: "('m, 'd) mm_env \<Rightarrow> 'm \<Rightarrow> u64 \<Rightarrow> bool \<Rightarrow> x86_fault + (u64 \<times> bool)" where
  "vcpu_mmio_gva_to_gpa e m gva wr =
     (let access = user_access e (mm_cpl e) OR (if wr then PFERR_WRITE e else 0)
      in if match_mmio_gva e gva \<and> (\<not> mm_paging e \<or> \<not> mmio_permission_fault e access)
         then Inr (push_bit 12 (mmio_gfn e) OR (gva AND 0xfff), True)
         else case walk e m gva access of
                Inl f \<Rightarrow> Inl f
              | Inr gpa \<Rightarrow> Inr (gpa, vcpu_is_mmio_gpa e gpa))"

section \<open>Operations of a read and of a write\<close>

type_synonym ('m, 'd) mv = "('m, 'd) mmio_vcpu"

record ('m, 'd) read_write_emulator_ops =
  read_write_prepare :: "(('m, 'd) mv \<Rightarrow> bool \<times> ('m, 'd) mv) option"
  read_write_emulate :: "u64 \<Rightarrow> nat \<Rightarrow> nat \<Rightarrow> ('m, 'd) mv \<Rightarrow> bool \<times> ('m, 'd) mv"
  read_write_mmio :: "u64 \<Rightarrow> nat \<Rightarrow> nat \<Rightarrow> ('m, 'd) mv \<Rightarrow> nat \<times> ('m, 'd) mv"
  read_write_exit_mmio :: "('m, 'd) mv \<Rightarrow> emul_rc \<times> ('m, 'd) mv"
  ops_write :: bool

definition emulator_write_phys :: "('m, 'd) mm_env \<Rightarrow> u64 \<Rightarrow> u8 list \<Rightarrow> ('m, 'd) mv \<Rightarrow> bool \<times> ('m, 'd) mv" where
  "emulator_write_phys e gpa val v =
     (let (ret, m') = wr_guest e (mm_mem v) gpa val
      in if ret < 0 then (False, v\<lparr>mm_mem := m'\<rparr>)
         else (True, v\<lparr>mm_mem := m', tracked := tracked v @ [(gpa, val)]\<rparr>))"

definition read_prepare :: "('m, 'd) mv \<Rightarrow> bool \<times> ('m, 'd) mv" where
  "read_prepare v =
     (if mmio_read_completed v then (True, v\<lparr>mmio_read_completed := False\<rparr>) else (False, v))"

definition read_emulate :: "('m, 'd) mm_env \<Rightarrow> u64 \<Rightarrow> nat \<Rightarrow> nat \<Rightarrow> ('m, 'd) mv \<Rightarrow> bool \<times> ('m, 'd) mv" where
  "read_emulate e gpa val bytes v =
     (let (ret, d) = rd_guest e (mm_mem v) gpa bytes
      in if ret = 0 then (True, v\<lparr>mm_buf := memcpy_at val d (mm_buf v)\<rparr>) else (False, v))"

definition write_emulate :: "('m, 'd) mm_env \<Rightarrow> u64 \<Rightarrow> nat \<Rightarrow> nat \<Rightarrow> ('m, 'd) mv \<Rightarrow> bool \<times> ('m, 'd) mv" where
  "write_emulate e gpa val bytes v = emulator_write_phys e gpa (sub_buf val bytes (mm_buf v)) v"

definition read_mmio :: "('m, 'd) mm_env \<Rightarrow> u64 \<Rightarrow> nat \<Rightarrow> nat \<Rightarrow> ('m, 'd) mv \<Rightarrow> nat \<times> ('m, 'd) mv" where
  "read_mmio e gpa bytes val v =
     (let (handled, bs, d) = vcpu_mmio_read e gpa bytes (mm_dev v)
      in (handled, v\<lparr>mm_dev := d, mm_buf := memcpy_at val bs (mm_buf v)\<rparr>))"

definition write_mmio :: "('m, 'd) mm_env \<Rightarrow> u64 \<Rightarrow> nat \<Rightarrow> nat \<Rightarrow> ('m, 'd) mv \<Rightarrow> nat \<times> ('m, 'd) mv" where
  "write_mmio e gpa bytes val v =
     (let (handled, d) = vcpu_mmio_write e gpa (sub_buf val bytes (mm_buf v)) (mm_dev v)
      in (handled, v\<lparr>mm_dev := d\<rparr>))"

definition read_exit_mmio :: "('m, 'd) mv \<Rightarrow> emul_rc \<times> ('m, 'd) mv" where
  "read_exit_mmio v = (EMUL_IO_NEEDED, v)"

text \<open>The first bytes of a fragment are copied to the shared page.\<close>

definition frag_to_run :: "mmio_frag \<Rightarrow> ('m, 'd) mv \<Rightarrow> ('m, 'd) mv" where
  "frag_to_run f v =
     v\<lparr>run_data := memcpy_at 0 (sub_buf (frag_data f) (min 8 (frag_len f)) (mm_buf v)) (run_data v)\<rparr>"

definition write_exit_mmio :: "('m, 'd) mv \<Rightarrow> emul_rc \<times> ('m, 'd) mv" where
  "write_exit_mmio v = (EMUL_CONTINUE, frag_to_run (mmio_fragments v ! 0) v)"

definition read_emultor :: "('m, 'd) mm_env \<Rightarrow> ('m, 'd) read_write_emulator_ops" where
  "read_emultor e = \<lparr>read_write_prepare = Some read_prepare, read_write_emulate = read_emulate e,
     read_write_mmio = read_mmio e, read_write_exit_mmio = read_exit_mmio, ops_write = False\<rparr>"

definition write_emultor :: "('m, 'd) mm_env \<Rightarrow> ('m, 'd) read_write_emulator_ops" where
  "write_emultor e = \<lparr>read_write_prepare = None, read_write_emulate = write_emulate e,
     read_write_mmio = write_mmio e, read_write_exit_mmio = write_exit_mmio, ops_write = True\<rparr>"

section \<open>An access of the emulator\<close>

text \<open>The address of the part of an access in one page: from the exit when it is known, else translated.\<close>

definition onepage_gpa :: "('m, 'd) mm_env \<Rightarrow> bool \<Rightarrow> u64 \<Rightarrow> ('m, 'd) mv \<Rightarrow> x86_fault + (u64 \<times> bool)" where
  "onepage_gpa e wr addr v =
     (if gpa_available v \<and> emulator_can_use_gpa e \<and> addr AND 0xfff = gpa_val v AND 0xfff
      then Inr (gpa_val v, vcpu_is_mmio_gpa e (gpa_val v))
      else vcpu_mmio_gva_to_gpa e (mm_mem v) addr wr)"

definition add_fragment :: "mmio_frag \<Rightarrow> ('m, 'd) mv \<Rightarrow> ('m, 'd) mv" where
  "add_fragment f v =
     v\<lparr>mmio_fragments := (mmio_fragments v)[mmio_nr_fragments v := f],
       mmio_nr_fragments := mmio_nr_fragments v + 1\<rparr>"

definition emulator_read_write_onepage ::
  "('m, 'd) mm_env \<Rightarrow> ('m, 'd) read_write_emulator_ops \<Rightarrow> u64 \<Rightarrow> nat \<Rightarrow> nat \<Rightarrow> ('m, 'd) mv \<Rightarrow> emul_rc \<times> ('m, 'd) mv" where
  "emulator_read_write_onepage e ops addr val bytes v =
     (case onepage_gpa e (ops_write ops) addr v of
        Inl f \<Rightarrow> (EMUL_PROPAGATE_FAULT, v\<lparr>mm_exception := f\<rparr>)
      | Inr (gpa, is_mmio) \<Rightarrow>
          let (done, v1) = (if \<not> is_mmio then read_write_emulate ops gpa val bytes v else (False, v))
          in if done then (EMUL_CONTINUE, v1)
             else let (handled, v2) = read_write_mmio ops gpa bytes val v1
               in if handled = bytes then (EMUL_CONTINUE, v2)
                  else (EMUL_CONTINUE,
                    add_fragment \<lparr>frag_gpa = gpa + of_nat handled, frag_data = val + handled,
                      frag_len = bytes - handled\<rparr> v2))"

definition crosses_page :: "u64 \<Rightarrow> nat \<Rightarrow> bool" where
  "crosses_page addr bytes \<longleftrightarrow> ((addr + of_nat bytes - 1) XOR addr) AND NOT 0xfff \<noteq> 0"

text \<open>The exit for the first fragment, when there is one.\<close>

definition start_mmio_exit :: "('m, 'd) read_write_emulator_ops \<Rightarrow> ('m, 'd) mv \<Rightarrow> emul_rc \<times> ('m, 'd) mv" where
  "start_mmio_exit ops v =
     (if mmio_nr_fragments v = 0 then (EMUL_CONTINUE, v)
      else read_write_exit_mmio ops
        (v\<lparr>mmio_needed := True, mmio_cur_fragment := 0,
           run_len := min 8 (frag_len (mmio_fragments v ! 0)),
           run_is_write := ops_write ops, mmio_is_write := ops_write ops,
           run_exit_mmio := True, run_phys_addr := frag_gpa (mmio_fragments v ! 0)\<rparr>))"

definition last_part ::
  "('m, 'd) mm_env \<Rightarrow> ('m, 'd) read_write_emulator_ops \<Rightarrow> u64 \<Rightarrow> nat \<Rightarrow> nat \<Rightarrow> ('m, 'd) mv \<Rightarrow> emul_rc \<times> ('m, 'd) mv" where
  "last_part e ops addr val bytes v =
     (let (rc, v1) = emulator_read_write_onepage e ops addr val bytes v
      in if rc \<noteq> EMUL_CONTINUE then (rc, v1) else start_mmio_exit ops v1)"

definition prepared :: "('m, 'd) read_write_emulator_ops \<Rightarrow> ('m, 'd) mv \<Rightarrow> bool \<times> ('m, 'd) mv" where
  "prepared ops v = (case read_write_prepare ops of None \<Rightarrow> (False, v) | Some p \<Rightarrow> p v)"

definition emulator_read_write ::
  "('m, 'd) mm_env \<Rightarrow> ('m, 'd) read_write_emulator_ops \<Rightarrow> u64 \<Rightarrow> nat \<Rightarrow> nat \<Rightarrow> ('m, 'd) mv \<Rightarrow> emul_rc \<times> ('m, 'd) mv" where
  "emulator_read_write e ops addr val bytes v =
     (let (done, v0) = prepared ops v
      in if done then (EMUL_CONTINUE, v0)
         else let v1 = v0\<lparr>mmio_nr_fragments := 0\<rparr>
           in if crosses_page addr bytes
              then let now = unat (- addr AND 0xfff);
                       (rc, v2) = emulator_read_write_onepage e ops addr val now v1;
                       addr' = (if mode_prot64 e then addr + of_nat now else ucast (ucast (addr + of_nat now) :: u32))
                   in if rc \<noteq> EMUL_CONTINUE then (rc, v2)
                      else last_part e ops addr' (val + now) (bytes - now) v2
              else last_part e ops addr val bytes v1)"

definition emulator_read_emulated :: "('m, 'd) mm_env \<Rightarrow> u64 \<Rightarrow> nat \<Rightarrow> nat \<Rightarrow> ('m, 'd) mv \<Rightarrow> emul_rc \<times> ('m, 'd) mv" where
  "emulator_read_emulated e addr val bytes = emulator_read_write e (read_emultor e) addr val bytes"

definition emulator_write_emulated :: "('m, 'd) mm_env \<Rightarrow> u64 \<Rightarrow> nat \<Rightarrow> nat \<Rightarrow> ('m, 'd) mv \<Rightarrow> emul_rc \<times> ('m, 'd) mv" where
  "emulator_write_emulated e addr val bytes = emulator_read_write e (write_emultor e) addr val bytes"

section \<open>Compare and exchange\<close>

text \<open>
  The operands \<open>old\<close> and \<open>new\<close> are offsets in the operand buffer.  \<open>vcpu_map\<close> tells whether the page
  can be mapped; \<open>map_read\<close> and \<open>map_write\<close> access the mapping.  The exchange is one atomic step.  A
  length of zero would pass the test of the power of two and reach \<open>BUG\<close>.
\<close>

definition page_line_mask :: "('m, 'd) mm_env \<Rightarrow> u64" where
  "page_line_mask e = (if split_lock_detect e then NOT (cache_line_size e - 1) else NOT 0xfff)"

definition cmpxchg_direct :: "('m, 'd) mm_env \<Rightarrow> u64 \<Rightarrow> nat \<Rightarrow> 'm \<Rightarrow> u64 option" where
  "cmpxchg_direct e addr bytes m =
     (if bytes > 8 \<or> of_nat bytes AND (of_nat bytes - 1 :: u32) \<noteq> 0 then None
      else case kvm_mmu_gva_to_gpa_write e (mm_cpl e) m addr of
             Inl f \<Rightarrow> None
           | Inr gpa \<Rightarrow>
               if gpa AND NOT 0xfff = APIC_DEFAULT_PHYS_BASE e
                 \<or> (gpa + of_nat bytes - 1) AND page_line_mask e \<noteq> gpa AND page_line_mask e
                 \<or> \<not> vcpu_map e m (page_of gpa)
               then None else Some gpa)"

definition emulator_cmpxchg_emulated ::
  "('m, 'd) mm_env \<Rightarrow> u64 \<Rightarrow> nat \<Rightarrow> nat \<Rightarrow> nat \<Rightarrow> ('m, 'd) mv \<Rightarrow> (emul_rc \<times> ('m, 'd) mv) option" where
  "emulator_cmpxchg_emulated e addr old new bytes v =
     (case cmpxchg_direct e addr bytes (mm_mem v) of
        None \<Rightarrow> Some (emulator_write_emulated e addr new bytes v)
      | Some gpa \<Rightarrow>
          if bytes = 0 then None
          else if map_read e (mm_mem v) gpa bytes = sub_buf old bytes (mm_buf v)
          then Some (EMUL_CONTINUE,
            v\<lparr>mm_mem := map_write e (mm_mem v) gpa (sub_buf new bytes (mm_buf v)),
              tracked := tracked v @ [(gpa, sub_buf new bytes (mm_buf v))]\<rparr>)
          else Some (EMUL_CMPXCHG_FAILED, v))"

section \<open>After an exit\<close>

text \<open>
  Finishing the piece user space has served: the data of a read goes to the buffer, and the machine
  moves on inside the fragment or to the next one.
\<close>

definition finish_piece :: "('m, 'd) mv \<Rightarrow> ('m, 'd) mv" where
  "finish_piece v =
     (let c = mmio_cur_fragment v; frag = mmio_fragments v ! c; len = min 8 (frag_len frag);
          v1 = (if \<not> mmio_is_write v
                then v\<lparr>mm_buf := memcpy_at (frag_data frag) (take len (run_data v)) (mm_buf v)\<rparr> else v)
      in if frag_len frag \<le> 8 then v1\<lparr>mmio_cur_fragment := c + 1\<rparr>
         else v1\<lparr>mmio_fragments := (mmio_fragments v)[c :=
                \<lparr>frag_gpa = frag_gpa frag + of_nat len, frag_data = frag_data frag + len,
                 frag_len = frag_len frag - len\<rparr>]\<rparr>)"

text \<open>The next exit, for the fragment the machine stands at.\<close>

definition next_mmio_exit :: "completion \<Rightarrow> ('m, 'd) mv \<Rightarrow> ('m, 'd) mv" where
  "next_mmio_exit cb v =
     (let frag = mmio_fragments v ! mmio_cur_fragment v;
          v1 = (if mmio_is_write v then frag_to_run frag v else v)
      in v1\<lparr>run_exit_mmio := True, run_phys_addr := frag_gpa frag, run_len := min 8 (frag_len frag),
            run_is_write := mmio_is_write v, complete_userspace_io := Some cb\<rparr>)"

text \<open>\<open>emulate\<close> is the second run of the instruction; \<open>None\<close> is \<open>BUG_ON\<close>.\<close>

definition complete_emulated_mmio ::
  "(('m, 'd) mv \<Rightarrow> int \<times> ('m, 'd) mv) \<Rightarrow> ('m, 'd) mv \<Rightarrow> (int \<times> ('m, 'd) mv) option" where
  "complete_emulated_mmio emulate v =
     (if \<not> mmio_needed v then None
      else let v1 = finish_piece v
        in if mmio_cur_fragment v1 \<ge> mmio_nr_fragments v1
           then let v2 = v1\<lparr>mmio_needed := False\<rparr>
             in if mmio_is_write v2 then Some (1, v2)
                else Some (emulate (v2\<lparr>mmio_read_completed := True\<rparr>))
           else Some (0, next_mmio_exit Complete_emulated_mmio v1))"

definition complete_sev_es_emulated_mmio :: "('m, 'd) mv \<Rightarrow> (int \<times> ('m, 'd) mv) option" where
  "complete_sev_es_emulated_mmio v =
     (if \<not> mmio_needed v then None
      else let v1 = finish_piece v
        in if mmio_cur_fragment v1 \<ge> mmio_nr_fragments v1
           then Some (1, v1\<lparr>mmio_needed := False\<rparr>)
           else Some (0, next_mmio_exit Complete_sev_es_emulated_mmio v1))"

text \<open>The accesses an encrypted guest asks for itself: one fragment, no translation.\<close>

definition sev_es_exit :: "bool \<Rightarrow> mmio_frag \<Rightarrow> ('m, 'd) mv \<Rightarrow> ('m, 'd) mv" where
  "sev_es_exit wr f v =
     (let v1 = v\<lparr>mmio_fragments := (mmio_fragments v)[0 := f], mmio_nr_fragments := 1,
                mmio_needed := True, mmio_cur_fragment := 0,
                run_phys_addr := frag_gpa f, run_len := min 8 (frag_len f), run_is_write := wr\<rparr>;
          v2 = (if wr then frag_to_run f v1 else v1)
      in v2\<lparr>run_exit_mmio := True, complete_userspace_io := Some Complete_sev_es_emulated_mmio\<rparr>)"

definition kvm_sev_es_mmio ::
  "('m, 'd) read_write_emulator_ops \<Rightarrow> u64 \<Rightarrow> nat \<Rightarrow> nat option \<Rightarrow> ('m, 'd) mv \<Rightarrow> int \<times> ('m, 'd) mv" where
  "kvm_sev_es_mmio ops gpa bytes data v =
     (case data of
        None \<Rightarrow> (-22, v)
      | Some val \<Rightarrow>
          let (handled, v1) = read_write_mmio ops gpa bytes val v
          in if handled = bytes then (1, v1)
             else (0, sev_es_exit (ops_write ops)
               \<lparr>frag_gpa = gpa + of_nat handled, frag_data = val + handled, frag_len = bytes - handled\<rparr> v1))"

definition kvm_sev_es_mmio_write :: "('m, 'd) mm_env \<Rightarrow> u64 \<Rightarrow> nat \<Rightarrow> nat option \<Rightarrow> ('m, 'd) mv \<Rightarrow> int \<times> ('m, 'd) mv" where
  "kvm_sev_es_mmio_write e = kvm_sev_es_mmio (write_emultor e)"

definition kvm_sev_es_mmio_read :: "('m, 'd) mm_env \<Rightarrow> u64 \<Rightarrow> nat \<Rightarrow> nat option \<Rightarrow> ('m, 'd) mv \<Rightarrow> int \<times> ('m, 'd) mv" where
  "kvm_sev_es_mmio_read e = kvm_sev_es_mmio (read_emultor e)"

section \<open>User space\<close>

text \<open>
  User space serves an exit: a write is a list of bytes for an address, a read is answered with the
  bytes \<open>f\<close> of the device.  \<open>mmio_rounds\<close> serves exits one after the other and collects the writes; it
  has no result when the kernel returns for another reason before the last round.
\<close>

definition user_serve :: "(u64 \<Rightarrow> u8) \<Rightarrow> ('m, 'd) mv \<Rightarrow> ('m, 'd) mv" where
  "user_serve f v =
     (if run_is_write v then v
      else v\<lparr>run_data := memcpy_at 0 (map (\<lambda>i. f (run_phys_addr v + of_nat i)) [0..<run_len v]) (run_data v)\<rparr>)"

definition user_log :: "('m, 'd) mv \<Rightarrow> (u64 \<times> u8 list) list" where
  "user_log v = (if run_is_write v then [(run_phys_addr v, take (run_len v) (run_data v))] else [])"

fun mmio_rounds ::
  "(u64 \<Rightarrow> u8) \<Rightarrow> (('m, 'd) mv \<Rightarrow> (int \<times> ('m, 'd) mv) option) \<Rightarrow> nat \<Rightarrow> ('m, 'd) mv
     \<Rightarrow> (int \<times> ('m, 'd) mv \<times> (u64 \<times> u8 list) list) option" where
  "mmio_rounds f complete 0 v = Some (0, v, [])"
| "mmio_rounds f complete (Suc n) v =
     (case complete (user_serve f v) of
        None \<Rightarrow> None
      | Some (r, v1) \<Rightarrow>
          if n = 0 then Some (r, v1, user_log v)
          else if r \<noteq> 0 then None
          else map_option (\<lambda>(r', v2, l). (r', v2, user_log v @ l)) (mmio_rounds f complete n v1))"

text \<open>The single bytes of a list of writes.\<close>

definition bytes_of :: "(u64 \<times> u8 list) list \<Rightarrow> (u64 \<times> u8) list" where
  "bytes_of l = concat (map (\<lambda>(g, bs). map (\<lambda>i. (g + of_nat i, bs ! i)) [0..<length bs]) l)"

section \<open>Specification over fragments\<close>

definition frags_left :: "('m, 'd) mv \<Rightarrow> mmio_frag list" where
  "frags_left v = drop (mmio_cur_fragment v) (take (mmio_nr_fragments v) (mmio_fragments v))"

definition deliver :: "mmio_frag list \<Rightarrow> u8 list \<Rightarrow> (u64 \<times> u8) list" where
  "deliver frs buf =
     concat (map (\<lambda>fr. map (\<lambda>i. (frag_gpa fr + of_nat i, buf ! (frag_data fr + i))) [0..<frag_len fr]) frs)"

fun fill :: "(u64 \<Rightarrow> u8) \<Rightarrow> mmio_frag list \<Rightarrow> u8 list \<Rightarrow> u8 list" where
  "fill f [] buf = buf"
| "fill f (fr # frs) buf =
     fill f frs (memcpy_at (frag_data fr) (map (\<lambda>i. f (frag_gpa fr + of_nat i)) [0..<frag_len fr]) buf)"

definition pieces :: "mmio_frag list \<Rightarrow> nat" where
  "pieces frs = sum_list (map (\<lambda>fr. (frag_len fr + 7) div 8) frs)"

text \<open>Progress by one piece.\<close>

fun advance :: "mmio_frag list \<Rightarrow> mmio_frag list" where
  "advance [] = []"
| "advance (fr # frs) =
     (if frag_len fr \<le> 8 then frs
      else \<lparr>frag_gpa = frag_gpa fr + 8, frag_data = frag_data fr + 8, frag_len = frag_len fr - 8\<rparr> # frs)"

definition fits :: "u8 list \<Rightarrow> mmio_frag \<Rightarrow> bool" where
  "fits buf fr \<longleftrightarrow> 0 < frag_len fr \<and> frag_data fr + frag_len fr \<le> length buf"

lemma length_memcpy_at [simp]: "off + length bs \<le> length b \<Longrightarrow> length (memcpy_at off bs b) = length b"
  by (simp add: memcpy_at_def)

lemma memcpy_at_append:
  "off + length xs + length ys \<le> length b \<Longrightarrow>
     memcpy_at off (xs @ ys) b = memcpy_at (off + length xs) ys (memcpy_at off xs b)"
  by (simp add: memcpy_at_def take_drop ac_simps min_def)

lemma upt_split: "k \<le> n \<Longrightarrow> [0..<n] = [0..<k] @ map (\<lambda>i. k + i) [0..<n - k]"
  using upt_add_eq_append [of 0 k "n - k"] map_add_upt [of k "n - k"] by (simp add: add.commute)

lemma deliver_advance:
  "deliver (fr # frs) buf =
     map (\<lambda>i. (frag_gpa fr + of_nat i, buf ! (frag_data fr + i))) [0..<min 8 (frag_len fr)]
       @ deliver (advance (fr # frs)) buf"
  by (auto simp: deliver_def min_def upt_split [of 8 "frag_len fr"] ac_simps)

lemma fill_advance:
  assumes "fits buf fr"
  shows "fill f (fr # frs) buf =
    fill f (advance (fr # frs))
      (memcpy_at (frag_data fr) (map (\<lambda>i. f (frag_gpa fr + of_nat i)) [0..<min 8 (frag_len fr)]) buf)"
proof (cases "frag_len fr \<le> 8")
  case False
  then have "map (\<lambda>i. f (frag_gpa fr + of_nat i)) [0..<frag_len fr]
    = map (\<lambda>i. f (frag_gpa fr + of_nat i)) [0..<8]
        @ map (\<lambda>i. f (frag_gpa fr + 8 + of_nat i)) [0..<frag_len fr - 8]"
    by (simp add: upt_split [of 8 "frag_len fr"] ac_simps)
  then show ?thesis using assms False
    by (simp add: memcpy_at_append fits_def min_def)
qed (simp add: min_def)

lemma pieces_advance: "0 < frag_len fr \<Longrightarrow> pieces (fr # frs) = Suc (pieces (advance (fr # frs)))"
  by (auto simp: pieces_def div_if)

lemma fits_advance: "\<forall>fr \<in> set frs. fits buf fr \<Longrightarrow> \<forall>fr \<in> set (advance frs). fits buf fr"
  by (cases frs) (auto simp: fits_def)

lemma pieces_0: "\<forall>fr \<in> set frs. fits buf fr \<Longrightarrow> pieces frs = 0 \<longleftrightarrow> frs = []"
  by (cases frs) (auto simp: pieces_def fits_def div_eq_0_iff)

section \<open>The machine between two exits\<close>

definition mmio_ok :: "('m, 'd) mv \<Rightarrow> bool" where
  "mmio_ok v \<longleftrightarrow>
     mmio_needed v \<and> mmio_cur_fragment v < mmio_nr_fragments v
   \<and> mmio_nr_fragments v \<le> length (mmio_fragments v)
   \<and> (\<forall>fr \<in> set (frags_left v). fits (mm_buf v) fr) \<and> length (run_data v) = 8
   \<and> (let fr = mmio_fragments v ! mmio_cur_fragment v
      in run_phys_addr v = frag_gpa fr \<and> run_len v = min 8 (frag_len fr)
       \<and> run_is_write v = mmio_is_write v
       \<and> (mmio_is_write v \<longrightarrow> take (run_len v) (run_data v) = sub_buf (frag_data fr) (run_len v) (mm_buf v)))"

lemma mmio_ok_fits: "mmio_ok v \<Longrightarrow> \<forall>fr \<in> set (frags_left v). fits (mm_buf v) fr"
  by (simp add: mmio_ok_def)

lemma frags_left_Cons:
  assumes "mmio_cur_fragment v < mmio_nr_fragments v" "mmio_nr_fragments v \<le> length (mmio_fragments v)"
  shows "frags_left v = mmio_fragments v ! mmio_cur_fragment v
    # drop (Suc (mmio_cur_fragment v)) (take (mmio_nr_fragments v) (mmio_fragments v))"
  using assms by (simp add: frags_left_def Cons_nth_drop_Suc [symmetric])

lemma user_serve_same [simp]:
  "mmio_needed (user_serve f v) = mmio_needed v" "mmio_is_write (user_serve f v) = mmio_is_write v"
  "mmio_cur_fragment (user_serve f v) = mmio_cur_fragment v"
  "mmio_nr_fragments (user_serve f v) = mmio_nr_fragments v"
  "mmio_fragments (user_serve f v) = mmio_fragments v" "mm_buf (user_serve f v) = mm_buf v"
  "mm_mem (user_serve f v) = mm_mem v" "mm_dev (user_serve f v) = mm_dev v"
  by (simp_all add: user_serve_def)

lemma finish_piece_same [simp]:
  "mmio_needed (finish_piece v) = mmio_needed v" "mmio_is_write (finish_piece v) = mmio_is_write v"
  "mmio_nr_fragments (finish_piece v) = mmio_nr_fragments v"
  "length (mmio_fragments (finish_piece v)) = length (mmio_fragments v)"
  "run_data (finish_piece v) = run_data v"
  "mm_mem (finish_piece v) = mm_mem v" "mm_dev (finish_piece v) = mm_dev v"
  by (simp_all add: finish_piece_def Let_def)

lemma next_mmio_exit_same [simp]:
  "mmio_needed (next_mmio_exit cb v) = mmio_needed v"
  "mmio_is_write (next_mmio_exit cb v) = mmio_is_write v"
  "mmio_cur_fragment (next_mmio_exit cb v) = mmio_cur_fragment v"
  "mmio_nr_fragments (next_mmio_exit cb v) = mmio_nr_fragments v"
  "mmio_fragments (next_mmio_exit cb v) = mmio_fragments v" "mm_buf (next_mmio_exit cb v) = mm_buf v"
  "mm_mem (next_mmio_exit cb v) = mm_mem v" "mm_dev (next_mmio_exit cb v) = mm_dev v"
  by (simp_all add: next_mmio_exit_def frag_to_run_def Let_def)

lemma next_mmio_exit_left [simp]: "frags_left (next_mmio_exit cb v) = frags_left v"
  by (simp add: frags_left_def)

lemma finish_piece_left:
  assumes "mmio_ok v"
  shows "frags_left (finish_piece (user_serve f v)) = advance (frags_left v)"
proof -
  have c: "mmio_cur_fragment v < mmio_nr_fragments v" "mmio_nr_fragments v \<le> length (mmio_fragments v)"
    using assms by (simp_all add: mmio_ok_def)
  then have s: "mmio_nr_fragments v - mmio_cur_fragment v = Suc (mmio_nr_fragments v - Suc (mmio_cur_fragment v))"
    by simp
  show ?thesis
    by (subst frags_left_Cons [OF c])
      (use c in \<open>simp add: s finish_piece_def Let_def frags_left_def min_def take_update_swap
        drop_update_swap Cons_nth_drop_Suc [symmetric] drop_take\<close>)
qed

lemma finish_piece_buf:
  assumes "mmio_ok v"
  shows "mm_buf (finish_piece (user_serve f v)) =
    (if mmio_is_write v then mm_buf v
     else memcpy_at (frag_data (mmio_fragments v ! mmio_cur_fragment v))
       (map (\<lambda>i. f (frag_gpa (mmio_fragments v ! mmio_cur_fragment v) + of_nat i))
         [0..<min 8 (frag_len (mmio_fragments v ! mmio_cur_fragment v))]) (mm_buf v))"
  using assms by (auto simp: mmio_ok_def finish_piece_def Let_def user_serve_def memcpy_at_def)

lemma length_finish_buf:
  assumes "mmio_ok v"
  shows "length (mm_buf (finish_piece (user_serve f v))) = length (mm_buf v)"
proof -
  have "fits (mm_buf v) (mmio_fragments v ! mmio_cur_fragment v)"
    using assms frags_left_Cons [of v] by (auto simp: mmio_ok_def)
  then show ?thesis using finish_piece_buf [OF assms, of f] by (auto simp: fits_def memcpy_at_def min_def)
qed

text \<open>When something is left, the next exit is again in order.\<close>

lemma next_exit_ok:
  assumes ok: "mmio_ok v" and "frags_left (finish_piece (user_serve f v)) \<noteq> []"
  defines "v1 \<equiv> finish_piece (user_serve f v)"
  shows "mmio_cur_fragment v1 < mmio_nr_fragments v1" "mmio_ok (next_mmio_exit cb v1)"
proof -
  show c: "mmio_cur_fragment v1 < mmio_nr_fragments v1"
    using assms(2) by (auto simp: frags_left_def v1_def intro: ccontr)
  have n: "mmio_nr_fragments v1 \<le> length (mmio_fragments v1)" using ok by (simp add: v1_def mmio_ok_def)
  have "\<forall>fr \<in> set (frags_left v1). fits (mm_buf v) fr"
    using fits_advance [OF mmio_ok_fits [OF ok]] finish_piece_left [OF ok] by (simp only: v1_def)
  then have fit: "\<forall>fr \<in> set (frags_left v1). fits (mm_buf v1) fr"
    using length_finish_buf [OF ok] by (simp add: v1_def fits_def)
  moreover have "mmio_fragments v1 ! mmio_cur_fragment v1 \<in> set (frags_left v1)"
    using frags_left_Cons [OF c n] by simp
  ultimately have "fits (mm_buf v1) (mmio_fragments v1 ! mmio_cur_fragment v1)" by blast
  moreover have "mmio_needed v1" "length (run_data v1) = 8"
    using ok by (auto simp: v1_def mmio_ok_def user_serve_def memcpy_at_def Let_def)
  ultimately show "mmio_ok (next_mmio_exit cb v1)"
    using c n fit unfolding mmio_ok_def
    by (auto simp: next_mmio_exit_def frag_to_run_def Let_def memcpy_at_def sub_buf_def fits_def frags_left_def)
qed

lemma user_log_bytes:
  assumes "mmio_ok v" "mmio_is_write v"
  defines "fr \<equiv> mmio_fragments v ! mmio_cur_fragment v"
  shows "bytes_of (user_log v) =
    map (\<lambda>i. (frag_gpa fr + of_nat i, mm_buf v ! (frag_data fr + i))) [0..<min 8 (frag_len fr)]"
proof -
  have "fits (mm_buf v) fr" using assms(1) frags_left_Cons [of v] by (auto simp: mmio_ok_def fr_def)
  moreover have "user_log v = [(frag_gpa fr, sub_buf (frag_data fr) (min 8 (frag_len fr)) (mm_buf v))]"
    using assms(1,2) by (auto simp: mmio_ok_def user_log_def Let_def fr_def)
  moreover have "length (sub_buf (frag_data fr) (min 8 (frag_len fr)) (mm_buf v)) = min 8 (frag_len fr)"
    using calculation(1) by (auto simp: sub_buf_def fits_def)
  ultimately show ?thesis by (simp add: bytes_of_def) (simp add: sub_buf_def fits_def)
qed

lemma bytes_of_append [simp]: "bytes_of (a @ b) = bytes_of a @ bytes_of b"
  by (simp add: bytes_of_def)

lemma user_log_read: "mmio_ok v \<Longrightarrow> \<not> mmio_is_write v \<Longrightarrow> user_log v = []"
  by (simp add: mmio_ok_def user_log_def Let_def)

section \<open>Serving all fragments\<close>

text \<open>
  Both completions work the same way up to the last piece: \<open>finish\<close> is what happens after it.
\<close>

locale fragment_server =
  fixes complete :: "('m, 'd) mv \<Rightarrow> (int \<times> ('m, 'd) mv) option"
    and finish :: "('m, 'd) mv \<Rightarrow> int \<times> ('m, 'd) mv"
    and cb :: completion
  assumes complete_eq: "mmio_needed v \<Longrightarrow>
    complete v = Some (if mmio_cur_fragment (finish_piece v) \<ge> mmio_nr_fragments (finish_piece v)
      then finish ((finish_piece v)\<lparr>mmio_needed := False\<rparr>)
      else (0, next_mmio_exit cb (finish_piece v)))"
begin

text \<open>What the last state has in common with the first one.\<close>

lemma rounds_serve_all:
  assumes "mmio_ok v"
  shows "\<exists>v' l. mmio_rounds f complete (pieces (frags_left v)) v = Some (fst (finish v'), snd (finish v'), l)
    \<and> \<not> mmio_needed v' \<and> mmio_is_write v' = mmio_is_write v \<and> mm_mem v' = mm_mem v \<and> mm_dev v' = mm_dev v
    \<and> mm_buf v' = (if mmio_is_write v then mm_buf v else fill f (frags_left v) (mm_buf v))
    \<and> bytes_of l = (if mmio_is_write v then deliver (frags_left v) (mm_buf v) else [])"
  using assms
proof (induction "pieces (frags_left v)" arbitrary: v)
  case 0
  then show ?case using pieces_0 [of "frags_left v" "mm_buf v"] frags_left_Cons [of v] by (simp add: mmio_ok_def)
next
  case (Suc n)
  let ?fr = "mmio_fragments v ! mmio_cur_fragment v"
  define v1 where "v1 = finish_piece (user_serve f v)"
  obtain rest where l: "frags_left v = ?fr # rest"
    using frags_left_Cons [of v] Suc.prems by (simp add: mmio_ok_def)
  have fit: "fits (mm_buf v) ?fr" using Suc.prems l by (simp add: mmio_ok_def)
  have adv: "frags_left v1 = advance (?fr # rest)" using finish_piece_left [OF Suc.prems] l by (simp add: v1_def)
  have n: "n = pieces (frags_left v1)"
    using Suc.hyps(2) pieces_advance [of ?fr rest] fit by (simp add: l adv fits_def)
  have fits1: "\<forall>fr \<in> set (frags_left v1). fits (mm_buf v) fr"
    using fits_advance [OF mmio_ok_fits [OF Suc.prems]] by (simp only: adv l)
  have need: "mmio_needed (user_serve f v)" using Suc.prems by (simp add: mmio_ok_def)
  have w1: "bytes_of (user_log v) @ deliver (frags_left v1) (mm_buf v) = deliver (frags_left v) (mm_buf v)" if "mmio_is_write v"
    using user_log_bytes [OF Suc.prems that] deliver_advance [of ?fr rest "mm_buf v"] by (simp only: l adv)
  have r1: "fill f (frags_left v1) (mm_buf v1) = fill f (frags_left v) (mm_buf v)" if "\<not> mmio_is_write v"
    using fill_advance [OF fit, of f rest] finish_piece_buf [OF Suc.prems, of f, folded v1_def] that
    by (simp only: l adv if_False simp_thms)
  have b1: "mm_buf v1 = mm_buf v" if "mmio_is_write v"
    using finish_piece_buf [OF Suc.prems, of f] that by (simp add: v1_def)
  have same: "mmio_is_write v1 = mmio_is_write v" "mm_mem v1 = mm_mem v" "mm_dev v1 = mm_dev v"
    by (simp_all add: v1_def)
  have log: "user_log v = []" if "\<not> mmio_is_write v" using user_log_read [OF Suc.prems that] .
  show ?case
  proof (cases "frags_left v1 = []")
    case True
    have "\<not> mmio_cur_fragment v1 < mmio_nr_fragments v1"
      using True frags_left_Cons [of v1] Suc.prems by (auto simp: v1_def mmio_ok_def)
    then have "complete (user_serve f v) = Some (finish (v1\<lparr>mmio_needed := False\<rparr>))"
      using complete_eq [OF need] by (simp add: v1_def)
    moreover have "n = 0" using n True by (simp add: pieces_def)
    ultimately have run: "mmio_rounds f complete (pieces (frags_left v)) v
        = Some (fst (finish (v1\<lparr>mmio_needed := False\<rparr>)), snd (finish (v1\<lparr>mmio_needed := False\<rparr>)), user_log v)"
      using Suc.hyps(2) [symmetric] by (simp split: prod.splits)
    show ?thesis
      by (rule exI [of _ "v1\<lparr>mmio_needed := False\<rparr>"], rule exI [of _ "user_log v"])
        (use run w1 r1 b1 log same True in \<open>simp add: deliver_def bytes_of_def\<close>)
  next
    case False
    note nx = next_exit_ok [OF Suc.prems False [unfolded v1_def], folded v1_def]
    have c: "complete (user_serve f v) = Some (0, next_mmio_exit cb v1)"
      using complete_eq [OF need] nx(1) by (simp add: v1_def)
    have nz: "n \<noteq> 0" using n pieces_0 [OF fits1] False by simp
    obtain v' l' where ih: "mmio_rounds f complete n (next_mmio_exit cb v1) = Some (fst (finish v'), snd (finish v'), l')"
      "\<not> mmio_needed v'" "mmio_is_write v' = mmio_is_write v1" "mm_mem v' = mm_mem v1" "mm_dev v' = mm_dev v1"
      "mm_buf v' = (if mmio_is_write v1 then mm_buf v1 else fill f (frags_left v1) (mm_buf v1))"
      "bytes_of l' = (if mmio_is_write v1 then deliver (frags_left v1) (mm_buf v1) else [])"
      using Suc.hyps(1) [of "next_mmio_exit cb v1"] n nx(2) [of cb] by auto
    have run: "mmio_rounds f complete (pieces (frags_left v)) v = Some (fst (finish v'), snd (finish v'), user_log v @ l')"
      using Suc.hyps(2) [symmetric] c nz ih(1) by simp
    show ?thesis
      by (rule exI [of _ v'], rule exI [of _ "user_log v @ l'"])
        (use run w1 r1 b1 log same ih(2-) in \<open>simp add: bytes_of_def\<close>)
  qed
qed

end

text \<open>What happens after the last piece of an emulated access.\<close>

definition mmio_finish :: "(('m, 'd) mv \<Rightarrow> int \<times> ('m, 'd) mv) \<Rightarrow> ('m, 'd) mv \<Rightarrow> int \<times> ('m, 'd) mv" where
  "mmio_finish emulate v =
     (if mmio_is_write v then (1, v) else emulate (v\<lparr>mmio_read_completed := True\<rparr>))"

interpretation emul: fragment_server "complete_emulated_mmio emulate" "mmio_finish emulate" Complete_emulated_mmio
  by unfold_locales (simp add: complete_emulated_mmio_def mmio_finish_def Let_def)

interpretation sev: fragment_server complete_sev_es_emulated_mmio "\<lambda>v. (1, v)" Complete_sev_es_emulated_mmio
  by unfold_locales (simp add: complete_sev_es_emulated_mmio_def Let_def)

section \<open>From the access to the exits\<close>

text \<open>The parts of an access: address, place in the buffer, length.\<close>

definition access_parts :: "('m, 'd) mm_env \<Rightarrow> u64 \<Rightarrow> nat \<Rightarrow> nat \<Rightarrow> (u64 \<times> nat \<times> nat) list" where
  "access_parts e addr val bytes =
     (if crosses_page addr bytes
      then let now = unat (- addr AND 0xfff);
               addr' = (if mode_prot64 e then addr + of_nat now else ucast (ucast (addr + of_nat now) :: u32))
           in [(addr, val, now), (addr', val + now, bytes - now)]
      else [(addr, val, bytes)])"

definition part_frag :: "(u64 \<Rightarrow> u64) \<Rightarrow> u64 \<times> nat \<times> nat \<Rightarrow> mmio_frag" where
  "part_frag gp p = (case p of (a, off, n) \<Rightarrow> \<lparr>frag_gpa = gp a, frag_data = off, frag_len = n\<rparr>)"

text \<open>No device in the kernel takes the access.\<close>

definition no_kernel_device :: "('m, 'd) mm_env \<Rightarrow> bool" where
  "no_kernel_device e \<longleftrightarrow>
     (\<forall>a bs d. mmio_piece_write e a bs d = (False, d)) \<and> (\<forall>a n d. mmio_piece_read e a n d = (None, d))"

lemma page_bits_0: "z AND NOT 0xfff = 0 \<longleftrightarrow> page_of z = 0"
proof -
  have "z AND NOT (mask 12) = push_bit 12 (page_of z)"
    by (intro bit_word_eqI) (auto simp: page_of_def bit_simps)
  then have p: "z AND NOT 0xfff = push_bit 12 (page_of z)" by (simp add: mask_eq_exp_minus_1)
  have "drop_bit 12 (push_bit 12 (page_of z)) = page_of z"
    by (rule bit_word_eqI) (auto simp: page_of_def bit_simps dest: bit_imp_le_length)
  then show ?thesis using p by auto
qed

lemma crosses_page_iff: "crosses_page a n \<longleftrightarrow> page_of (a + of_nat n - 1) \<noteq> page_of a"
proof -
  have "page_of (x XOR y) = 0 \<longleftrightarrow> page_of x = page_of y" for x y
    unfolding page_of_def drop_bit_xor by (metis xor.left_neutral xor.right_neutral xor_cancel_right)
  then show ?thesis by (simp only: crosses_page_def page_bits_0 not_not)
qed

lemma mod_sum_0:
  fixes r s k :: nat
  assumes "(r + s) mod k = 0" "r < k" "s < k" "r \<noteq> 0"
  shows "s = k - r"
proof (cases "r + s < k")
  case False
  then have "(r + s - k) mod k = 0" using assms(1) le_mod_geq [of k "r + s"] by simp
  moreover have "r + s - k < k" using assms by simp
  ultimately have "r + s - k = 0" using mod_less by metis
  then show ?thesis using False by simp
qed (use assms in simp)

lemma offset_neg: "offset_of a \<noteq> 0 \<Longrightarrow> unat (- a AND 0xfff) = 4096 - offset_of a"
proof -
  assume o: "offset_of a \<noteq> 0"
  have "(unat a + unat (- a)) mod 2 ^ 64 = 0"
    using unat_word_ariths(1) [of a "- a"] by simp
  then have "(unat a + unat (- a)) mod 4096 = 0"
    using mod_mod_cancel [of 4096 "2 ^ 64 :: nat" "unat a + unat (- a)"] by simp
  then have "(offset_of a + offset_of (- a)) mod 4096 = 0" 
    using mod_add_eq [of "unat a" 4096 "unat (- a)"] by (simp only: offset_of_mod)
  moreover have "offset_of a < 4096" "offset_of (- a) < 4096" by simp_all
  ultimately have "offset_of (- a) = 4096 - offset_of a" using o by (intro mod_sum_0) auto
  then show ?thesis by (simp add: offset_of_def)
qed

lemma crosses_now:
  assumes "crosses_page a n" "0 < n" "n \<le> 4096"
  shows "0 < unat (- a AND 0xfff)" "unat (- a AND 0xfff) < n"
proof -
  have eq: "a + of_nat n - 1 = a + of_nat (n - 1)" using assms(2) by (simp add: of_nat_diff)
  have "\<not> n - 1 < 4096 - offset_of a"
    using assms(1) page_of_add [of "n - 1" a] unfolding crosses_page_iff eq by blast
  moreover from this have "offset_of a \<noteq> 0" using assms(2,3) by auto
  ultimately show "0 < unat (- a AND 0xfff)" "unat (- a AND 0xfff) < n"
    using offset_neg [of a] offset_of_less [of a] assms(2) by auto
qed

lemma parts_lengths:
  assumes "0 < n" "n \<le> 4096" "val + n \<le> length buf"
  shows "\<forall>p \<in> set (access_parts e a val n). fits buf (part_frag gp p)"
    and "length (access_parts e a val n) \<le> 2" "access_parts e a val n \<noteq> []"
  using crosses_now [of a n] assms
  by (auto simp: access_parts_def part_frag_def fits_def Let_def)

lemma no_device_mmio:
  assumes "no_kernel_device e"
  shows "write_mmio e g n val v = (0, v)" "read_mmio e g n val v = (0, v)"
  using assms by (simp_all add: no_kernel_device_def write_mmio_def read_mmio_def
      vcpu_mmio_write.simps [of e g] vcpu_mmio_read.simps [of e g] memcpy_at_def)

text \<open>A part in a device page becomes a fragment.\<close>

lemma onepage_fragment:
  assumes "no_kernel_device e" "ops = read_emultor e \<or> ops = write_emultor e"
    and "onepage_gpa e (ops_write ops) a v = Inr (g, True)" "0 < n"
  shows "emulator_read_write_onepage e ops a val n v
    = (EMUL_CONTINUE, add_fragment \<lparr>frag_gpa = g, frag_data = val, frag_len = n\<rparr> v)"
  using assms no_device_mmio [OF assms(1)]
  by (auto simp: emulator_read_write_onepage_def read_emultor_def write_emultor_def)

definition parts_state :: "mmio_frag list \<Rightarrow> ('m, 'd) mv \<Rightarrow> ('m, 'd) mv" where
  "parts_state frs v = fold add_fragment frs (v\<lparr>mmio_nr_fragments := 0\<rparr>)"

lemma access_to_fragments:
  assumes dev: "no_kernel_device e" and ops: "ops = read_emultor e \<or> ops = write_emultor e"
    and prep: "prepared ops v = (False, v)" and n: "0 < n" "n \<le> 4096"
    and gp: "\<forall>(a, off, k) \<in> set (access_parts e addr val n). onepage_gpa e (ops_write ops) a v = Inr (gp a, True)"
  shows "emulator_read_write e ops addr val n v
    = start_mmio_exit ops (parts_state (map (part_frag gp) (access_parts e addr val n)) v)"
proof -
  note one = onepage_fragment [OF dev ops]
  have gp': "onepage_gpa e (ops_write ops) a (v\<lparr>mmio_nr_fragments := 0\<rparr>) = Inr (gp a, True)"
    "onepage_gpa e (ops_write ops) a (add_fragment fr (v\<lparr>mmio_nr_fragments := 0\<rparr>)) = Inr (gp a, True)"
    if "(a, off, k) \<in> set (access_parts e addr val n)" for a off k fr
    using bspec [OF gp that] by (auto simp: onepage_gpa_def add_fragment_def split: if_splits)
  show ?thesis
  proof (cases "crosses_page addr n")
    case True
    define now where "now = unat (- addr AND 0xfff)"
    define addr' where "addr' = (if mode_prot64 e then addr + of_nat now else ucast (ucast (addr + of_nat now) :: u32))"
    have now: "0 < now" "now < n" using crosses_now [OF True n] by (simp_all add: now_def)
    have parts: "access_parts e addr val n = [(addr, val, now), (addr', val + now, n - now)]"
      using True by (simp add: access_parts_def Let_def now_def addr'_def)
    have "emulator_read_write e ops addr val n v =
        (let (rc, v2) = emulator_read_write_onepage e ops addr val now (v\<lparr>mmio_nr_fragments := 0\<rparr>)
         in if rc \<noteq> EMUL_CONTINUE then (rc, v2) else last_part e ops addr' (val + now) (n - now) v2)"
      using True prep by (simp add: emulator_read_write_def Let_def case_prod_unfold now_def [symmetric] addr'_def)
    moreover have "emulator_read_write_onepage e ops addr val now (v\<lparr>mmio_nr_fragments := 0\<rparr>)
        = (EMUL_CONTINUE, add_fragment (part_frag gp (addr, val, now)) (v\<lparr>mmio_nr_fragments := 0\<rparr>))"
      using one [OF gp'(1) [of addr val now] now(1), of val] by (simp add: parts part_frag_def)
    moreover have "emulator_read_write_onepage e ops addr' (val + now) (n - now)
          (add_fragment (part_frag gp (addr, val, now)) (v\<lparr>mmio_nr_fragments := 0\<rparr>))
        = (EMUL_CONTINUE, parts_state (map (part_frag gp) (access_parts e addr val n)) v)"
      using one [OF gp'(2) [of addr' "val + now" "n - now" "part_frag gp (addr, val, now)"], of "n - now" "val + now"] now
      by (simp add: parts part_frag_def parts_state_def)
    ultimately show ?thesis by (simp add: last_part_def)
  next
    case False
    then have "access_parts e addr val n = [(addr, val, n)]" by (simp add: access_parts_def)
    moreover from this have "emulator_read_write_onepage e ops addr val n (v\<lparr>mmio_nr_fragments := 0\<rparr>)
        = (EMUL_CONTINUE, add_fragment (part_frag gp (addr, val, n)) (v\<lparr>mmio_nr_fragments := 0\<rparr>))"
      using one [OF gp'(1) [of addr val n] n(1), of val] by (simp add: part_frag_def)
    ultimately show ?thesis using False prep
      by (simp add: emulator_read_write_def last_part_def parts_state_def)
  qed
qed

lemma add_fragments:
  "mmio_nr_fragments v + length frs \<le> length (mmio_fragments v) \<Longrightarrow>
     take (mmio_nr_fragments v + length frs) (mmio_fragments (fold add_fragment frs v))
       = take (mmio_nr_fragments v) (mmio_fragments v) @ frs
     \<and> mmio_nr_fragments (fold add_fragment frs v) = mmio_nr_fragments v + length frs
     \<and> length (mmio_fragments (fold add_fragment frs v)) = length (mmio_fragments v)"
proof (induction frs arbitrary: v)
  case (Cons fr frs)
  define v1 where "v1 = add_fragment fr v"
  have "mmio_nr_fragments v1 = Suc (mmio_nr_fragments v)"
    "length (mmio_fragments v1) = length (mmio_fragments v)"
    "take (Suc (mmio_nr_fragments v)) (mmio_fragments v1) = take (mmio_nr_fragments v) (mmio_fragments v) @ [fr]"
    using Cons.prems by (simp_all add: v1_def add_fragment_def take_Suc_conv_app_nth)
  then show ?case using Cons.IH [of v1] Cons.prems by (simp flip: v1_def)
qed simp

lemma fold_add_fragment_same [simp]:
  "mm_buf (fold add_fragment frs v) = mm_buf v" "run_data (fold add_fragment frs v) = run_data v"
  "mm_mem (fold add_fragment frs v) = mm_mem v" "mm_dev (fold add_fragment frs v) = mm_dev v"
  by (induction frs arbitrary: v) (simp_all add: add_fragment_def)

lemma start_exit_ok:
  assumes "ops = read_emultor e \<or> ops = write_emultor e" "length (run_data v) = 8"
    and "frs \<noteq> []" "length frs \<le> length (mmio_fragments v)" "\<forall>fr \<in> set frs. fits (mm_buf v) fr"
  defines "r \<equiv> start_mmio_exit ops (parts_state frs v)"
  shows "fst r = (if ops_write ops then EMUL_CONTINUE else EMUL_IO_NEEDED)"
    and "mmio_ok (snd r)" "frags_left (snd r) = frs" "mmio_is_write (snd r) = ops_write ops"
    and "mm_buf (snd r) = mm_buf v" "mm_mem (snd r) = mm_mem v" "mm_dev (snd r) = mm_dev v"
proof -
  let ?w = "parts_state frs v"
  have w: "take (mmio_nr_fragments ?w) (mmio_fragments ?w) = frs" "mmio_nr_fragments ?w = length frs"
    "length (mmio_fragments ?w) = length (mmio_fragments v)"
    using add_fragments [of "v\<lparr>mmio_nr_fragments := 0\<rparr>" frs] assms(4) by (simp_all add: parts_state_def)
  have same: "mm_buf ?w = mm_buf v" "run_data ?w = run_data v" "mm_mem ?w = mm_mem v" "mm_dev ?w = mm_dev v"
    by (simp_all add: parts_state_def)
  obtain fr rest where frs: "frs = fr # rest" using assms(3) by (cases frs) auto
  have hd: "mmio_fragments ?w ! 0 = fr"
    using w(1,2) frs by (metis length_greater_0_conv list.distinct(1) nth_Cons_0 nth_take)
  have f: "fits (mm_buf v) fr" using assms(5) frs by simp
  show "fst r = (if ops_write ops then EMUL_CONTINUE else EMUL_IO_NEEDED)"
    "mmio_is_write (snd r) = ops_write ops" "mm_buf (snd r) = mm_buf v"
    "mm_mem (snd r) = mm_mem v" "mm_dev (snd r) = mm_dev v"
    and left: "frags_left (snd r) = frs"
    using assms(1) w same frs hd unfolding r_def
    by (auto simp: start_mmio_exit_def read_emultor_def write_emultor_def read_exit_mmio_def
        write_exit_mmio_def frag_to_run_def frags_left_def)
  show "mmio_ok (snd r)"
    using assms(1,2,4,5) w same frs hd f left unfolding r_def mmio_ok_def
    by (auto simp: start_mmio_exit_def read_emultor_def write_emultor_def read_exit_mmio_def
        write_exit_mmio_def frag_to_run_def memcpy_at_def sub_buf_def fits_def Let_def)
qed

text \<open>Consecutive fragments fill one stretch of the buffer.\<close>

fun consecutive :: "nat \<Rightarrow> mmio_frag list \<Rightarrow> bool" where
  "consecutive off [] = True"
| "consecutive off (fr # frs) \<longleftrightarrow> frag_data fr = off \<and> consecutive (off + frag_len fr) frs"

definition frag_bytes :: "(u64 \<Rightarrow> u8) \<Rightarrow> mmio_frag \<Rightarrow> u8 list" where
  "frag_bytes f fr = map (\<lambda>i. f (frag_gpa fr + of_nat i)) [0..<frag_len fr]"

lemma fill_consecutive:
  "consecutive off frs \<Longrightarrow> off + sum_list (map frag_len frs) \<le> length buf \<Longrightarrow>
     fill f frs buf = memcpy_at off (concat (map (frag_bytes f) frs)) buf"
proof (induction frs arbitrary: off buf)
  case Nil
  then show ?case by (simp add: memcpy_at_def)
next
  case (Cons fr frs)
  have l: "length (concat (map (frag_bytes f) frs)) = sum_list (map frag_len frs)"
    by (simp add: length_concat frag_bytes_def comp_def)
  have "fill f (fr # frs) buf = fill f frs (memcpy_at off (frag_bytes f fr) buf)"
    using Cons.prems by (simp add: frag_bytes_def)
  also have "\<dots> = memcpy_at (off + frag_len fr) (concat (map (frag_bytes f) frs)) (memcpy_at off (frag_bytes f fr) buf)"
    using Cons.prems by (intro Cons.IH) (simp_all add: frag_bytes_def)
  also have "\<dots> = memcpy_at off (concat (map (frag_bytes f) (fr # frs))) buf"
    using Cons.prems l memcpy_at_append [of off "frag_bytes f fr" "concat (map (frag_bytes f) frs)" buf]
    by (simp add: frag_bytes_def)
  finally show ?case .
qed

lemma parts_consecutive:
  assumes "0 < n" "n \<le> 4096"
  shows "consecutive val (map (part_frag gp) (access_parts e a val n))"
    and "sum_list (map frag_len (map (part_frag gp) (access_parts e a val n))) = n"
  using crosses_now [of a n] assms by (auto simp: access_parts_def part_frag_def Let_def)

lemma sub_buf_memcpy: "off + length bs \<le> length b \<Longrightarrow> sub_buf off (length bs) (memcpy_at off bs b) = bs"
  by (simp add: sub_buf_def memcpy_at_def)

lemma deliver_parts:
  "deliver (map (part_frag gp) ps) buf =
     concat (map (\<lambda>(a, off, k). map (\<lambda>i. (gp a + of_nat i, buf ! (off + i))) [0..<k]) ps)"
  by (induction ps) (auto simp: deliver_def part_frag_def)

lemma frag_bytes_parts:
  "concat (map (frag_bytes f) (map (part_frag gp) ps)) =
     concat (map (\<lambda>(a, off, k). map (\<lambda>i. f (gp a + of_nat i)) [0..<k]) ps)"
  by (induction ps) (auto simp: frag_bytes_def part_frag_def)

section \<open>Properties\<close>

text \<open>
  C12: a write of the emulator to device pages that no device in the kernel takes
  reaches user space completely: the access is accepted, one exit per piece of at most eight bytes
  follows, and the bytes of the exits, in order, are the bytes of the operand, each at the physical
  address its page translates to, across a page boundary too; after the last exit the processor goes
  on, and neither guest memory nor a device in the kernel has changed.
\<close>

theorem mmio_write_delivered:
  assumes "no_kernel_device e" "0 < n" "n \<le> 4096" "val + n \<le> length (mm_buf v)"
    and "length (run_data v) = 8" "2 \<le> length (mmio_fragments v)"
    and "\<forall>(a, off, k) \<in> set (access_parts e addr val n). onepage_gpa e True a v = Inr (gp a, True)"
  shows "\<exists>v1 v2 l. emulator_write_emulated e addr val n v = (EMUL_CONTINUE, v1)
    \<and> mmio_rounds f (complete_emulated_mmio emulate)
        (pieces (map (part_frag gp) (access_parts e addr val n))) v1 = Some (1, v2, l)
    \<and> bytes_of l = concat (map (\<lambda>(a, off, k). map (\<lambda>i. (gp a + of_nat i, mm_buf v ! (off + i))) [0..<k])
        (access_parts e addr val n))
    \<and> \<not> mmio_needed v2 \<and> mm_mem v2 = mm_mem v \<and> mm_dev v2 = mm_dev v"
proof -
  let ?ops = "write_emultor e" and ?frs = "map (part_frag gp) (access_parts e addr val n)"
  define r where "r = start_mmio_exit ?ops (parts_state ?frs v)"
  note parts = parts_lengths [OF assms(2-4)]
  have run: "emulator_write_emulated e addr val n v = r"
    unfolding emulator_write_emulated_def r_def
    by (rule access_to_fragments) (use assms in \<open>auto simp: prepared_def write_emultor_def\<close>)
  have "?frs \<noteq> []" "length ?frs \<le> length (mmio_fragments v)" "\<forall>fr \<in> set ?frs. fits (mm_buf v) fr"
    using parts [where e = e and a = addr] assms(6) by auto
  note ok = start_exit_ok [where e = e, OF disjI2 [OF refl] assms(5) this, folded r_def]
  obtain v2 l where w: "mmio_rounds f (complete_emulated_mmio emulate) (pieces (frags_left (snd r))) (snd r)
      = Some (fst (mmio_finish emulate v2), snd (mmio_finish emulate v2), l)"
    "\<not> mmio_needed v2" "mmio_is_write v2 = mmio_is_write (snd r)" "mm_mem v2 = mm_mem (snd r)"
    "mm_dev v2 = mm_dev (snd r)" "bytes_of l = (if mmio_is_write (snd r) then deliver (frags_left (snd r)) (mm_buf (snd r)) else [])"
    using emul.rounds_serve_all [OF ok(2), where f = f and emulate = emulate]
    by (elim exE conjE) (rule that; assumption)
  have wr: "ops_write ?ops" by (simp add: write_emultor_def)
  then have r: "r = (EMUL_CONTINUE, snd r)" using ok(1) by (simp add: prod_eq_iff)
  show ?thesis
    by (rule exI [of _ "snd r"], rule exI [of _ v2], rule exI [of _ l])
      (use trans [OF run r] ok(3-7) w wr in \<open>simp add: mmio_finish_def deliver_parts\<close>)
qed

text \<open>
  C22: a read of the emulator from such pages leaves the emulator, user space answers one
  exit per piece, and when the instruction is emulated again the operand holds the byte of every
  address of the access, in order; this second read of the emulator succeeds at once.
\<close>

theorem mmio_read_filled:
  assumes "no_kernel_device e" "0 < n" "n \<le> 4096" "val + n \<le> length (mm_buf v)"
    and "length (run_data v) = 8" "2 \<le> length (mmio_fragments v)" "\<not> mmio_read_completed v"
    and "\<forall>(a, off, k) \<in> set (access_parts e addr val n). onepage_gpa e False a v = Inr (gp a, True)"
  shows "\<exists>v1 v2 l. emulator_read_emulated e addr val n v = (EMUL_IO_NEEDED, v1)
    \<and> mmio_rounds f (complete_emulated_mmio emulate)
        (pieces (map (part_frag gp) (access_parts e addr val n))) v1 = Some (fst (emulate v2), snd (emulate v2), l)
    \<and> sub_buf val n (mm_buf v2)
        = concat (map (\<lambda>(a, off, k). map (\<lambda>i. f (gp a + of_nat i)) [0..<k]) (access_parts e addr val n))
    \<and> bytes_of l = []
    \<and> emulator_read_emulated e addr val n v2 = (EMUL_CONTINUE, v2\<lparr>mmio_read_completed := False\<rparr>)"
proof -
  let ?ops = "read_emultor e" and ?frs = "map (part_frag gp) (access_parts e addr val n)"
  define r where "r = start_mmio_exit ?ops (parts_state ?frs v)"
  note parts = parts_lengths [OF assms(2-4)]
  have run: "emulator_read_emulated e addr val n v = r"
    unfolding emulator_read_emulated_def r_def
    by (rule access_to_fragments) (use assms in \<open>auto simp: prepared_def read_emultor_def read_prepare_def\<close>)
  have "?frs \<noteq> []" "length ?frs \<le> length (mmio_fragments v)" "\<forall>fr \<in> set ?frs. fits (mm_buf v) fr"
    using parts [where e = e and a = addr] assms(6) by auto
  note ok = start_exit_ok [where e = e, OF disjI1 [OF refl] assms(5) this, folded r_def]
  obtain v2 l where w: "mmio_rounds f (complete_emulated_mmio emulate) (pieces (frags_left (snd r))) (snd r)
      = Some (fst (mmio_finish emulate v2), snd (mmio_finish emulate v2), l)"
    "mmio_is_write v2 = mmio_is_write (snd r)"
    "mm_buf v2 = (if mmio_is_write (snd r) then mm_buf (snd r) else fill f (frags_left (snd r)) (mm_buf (snd r)))"
    "bytes_of l = (if mmio_is_write (snd r) then deliver (frags_left (snd r)) (mm_buf (snd r)) else [])"
    using emul.rounds_serve_all [OF ok(2), where f = f and emulate = emulate]
    by (elim exE conjE) (rule that; assumption)
  have rd: "\<not> ops_write ?ops" by (simp add: read_emultor_def)
  define bs where "bs = concat (map (frag_bytes f) ?frs)"
  have "length bs = sum_list (map frag_len ?frs)" by (simp only: bs_def length_concat frag_bytes_def length_map length_upt map_map comp_def minus_nat.diff_0)
  then have lbs: "length bs = n" by (simp only: parts_consecutive(2) [OF assms(2,3)])
  have "mm_buf v2 = memcpy_at val bs (mm_buf v)"
    using w(3) ok(3,4,5) rd fill_consecutive [OF parts_consecutive(1) [OF assms(2,3)], of val gp e addr "mm_buf v" f]
      assms(4) parts_consecutive(2) [OF assms(2,3), of gp e addr val] by (simp add: bs_def del: map_map)
  then have "sub_buf val n (mm_buf v2) = bs" using sub_buf_memcpy [of val bs "mm_buf v"] assms(4) lbs by simp
  then have buf: "sub_buf val n (mm_buf (v2\<lparr>mmio_read_completed := True\<rparr>))
      = concat (map (\<lambda>(a, off, k). map (\<lambda>i. f (gp a + of_nat i)) [0..<k]) (access_parts e addr val n))"
    by (simp add: bs_def frag_bytes_parts del: map_map)
  have again: "emulator_read_emulated e addr val n (v2\<lparr>mmio_read_completed := True\<rparr>)
      = (EMUL_CONTINUE, v2\<lparr>mmio_read_completed := True\<rparr>\<lparr>mmio_read_completed := False\<rparr>)"
    by (simp add: emulator_read_emulated_def emulator_read_write_def prepared_def read_emultor_def read_prepare_def)
  have r: "r = (EMUL_IO_NEEDED, snd r)" using ok(1) rd by (simp add: prod_eq_iff)
  show ?thesis
    by (rule exI [of _ "snd r"], rule exI [of _ "v2\<lparr>mmio_read_completed := True\<rparr>"], rule exI [of _ l])
      (use trans [OF run r] ok(3,4) w rd buf again in \<open>simp add: mmio_finish_def\<close>)
qed

section \<open>Encrypted guests\<close>

text \<open>
  A read an encrypted guest asks for is served by user space piece by piece into its buffer, provided
  the flag \<open>mmio_is_write\<close>, which this path does not set, is clear.
\<close>

lemma sev_es_read_filled:
  assumes "no_kernel_device e" "0 < n" "val + n \<le> length (mm_buf v)" "length (run_data v) = 8"
    and "mmio_fragments v \<noteq> []" "\<not> mmio_is_write v"
  shows "\<exists>v1 v2 l. kvm_sev_es_mmio_read e gpa n (Some val) v = (0, v1)
    \<and> mmio_rounds f complete_sev_es_emulated_mmio ((n + 7) div 8) v1 = Some (1, v2, l)
    \<and> sub_buf val n (mm_buf v2) = map (\<lambda>i. f (gpa + of_nat i)) [0..<n] \<and> \<not> mmio_needed v2"
proof -
  let ?fr = "\<lparr>frag_gpa = gpa, frag_data = val, frag_len = n\<rparr>"
  define v1 where "v1 = sev_es_exit False ?fr v"
  have v1: "kvm_sev_es_mmio_read e gpa n (Some val) v = (0, v1)"
    using assms(2) no_device_mmio(2) [OF assms(1), of gpa n val v]
    by (simp add: kvm_sev_es_mmio_read_def kvm_sev_es_mmio_def read_emultor_def v1_def)
  obtain fr0 rest where "mmio_fragments v = fr0 # rest" using assms(5) by (cases "mmio_fragments v") auto
  then have left: "frags_left v1 = [?fr]" and ok: "mmio_ok v1" and b: "mm_buf v1 = mm_buf v" "\<not> mmio_is_write v1"
    using assms by (simp_all add: v1_def sev_es_exit_def frags_left_def mmio_ok_def fits_def Let_def)
  obtain v2 l where w: "mmio_rounds f complete_sev_es_emulated_mmio (pieces (frags_left v1)) v1
      = Some (fst (1 :: int, v2), snd (1 :: int, v2), l)"
    "\<not> mmio_needed v2" "mm_buf v2 = (if mmio_is_write v1 then mm_buf v1 else fill f (frags_left v1) (mm_buf v1))"
    using sev.rounds_serve_all [OF ok, where f = f] by (elim exE conjE) (rule that; assumption)
  have "sub_buf val n (mm_buf v2) = map (\<lambda>i. f (gpa + of_nat i)) [0..<n]"
    using sub_buf_memcpy [of val "map (\<lambda>i. f (gpa + of_nat i)) [0..<n]" "mm_buf v"] w(3) b assms(3) by (simp add: left)
  then show ?thesis using v1 w(1,2) by (auto simp: left pieces_def)
qed

text \<open>
  A write of more than eight bytes starts as a write, but the exit for its second piece tells user
  space to read: the completion takes the direction from \<open>mmio_is_write\<close>, which is clear.
\<close>

lemma sev_es_write_turns_read:
  assumes "no_kernel_device e" "8 < n" "mmio_fragments v \<noteq> []" "\<not> mmio_is_write v"
  shows "\<exists>v1 v2. kvm_sev_es_mmio_write e gpa n (Some val) v = (0, v1) \<and> run_is_write v1
    \<and> complete_sev_es_emulated_mmio v1 = Some (0, v2) \<and> \<not> run_is_write v2"
proof -
  let ?fr = "\<lparr>frag_gpa = gpa, frag_data = val, frag_len = n\<rparr>"
  define v1 where "v1 = sev_es_exit True ?fr v"
  have v1: "kvm_sev_es_mmio_write e gpa n (Some val) v = (0, v1)"
    using assms(2) no_device_mmio(1) [OF assms(1), of gpa n val v]
    by (simp add: kvm_sev_es_mmio_write_def kvm_sev_es_mmio_def write_emultor_def v1_def)
  obtain fr0 rest where "mmio_fragments v = fr0 # rest" using assms(3) by (cases "mmio_fragments v") auto
  then have "run_is_write v1" "complete_sev_es_emulated_mmio v1
      = Some (0, next_mmio_exit Complete_sev_es_emulated_mmio (finish_piece v1))" "\<not> mmio_is_write v1"
    using assms by (simp_all add: v1_def sev_es_exit_def complete_sev_es_emulated_mmio_def finish_piece_def
        frag_to_run_def Let_def)
  moreover have "\<not> run_is_write (next_mmio_exit cb (finish_piece v1))" for cb
    using calculation(3) by (simp add: next_mmio_exit_def Let_def)
  ultimately show ?thesis using v1 by blast
qed

section \<open>Witnesses\<close>

text \<open>A guest whose pages 0 to 3 are pages of a device in user space.\<close>

definition dev_env :: "(u64 \<Rightarrow> u8, unit) mm_env" where
  "dev_env = gm_env.extend flat_env
     (mm_env.fields 0 0xfee00000 False (\<lambda>d a v. (False, d)) (\<lambda>d a v. (False, d)) (\<lambda>d a n. (None, d))
       (\<lambda>d a n. (None, d)) (\<lambda>g. True) (\<lambda>g. False) 0 True (\<lambda>a. False) False True False 64
       (\<lambda>m p. False) (\<lambda>m a n. map (\<lambda>i. m (a + of_nat i)) [0..<n]) (\<lambda>m a v. m))"

definition dev_vcpu :: "(u64 \<Rightarrow> u8, unit) mv" where
  "dev_vcpu = \<lparr>mm_mem = (\<lambda>_. 0), mm_dev = (), mm_buf = [1, 2, 3, 4, 5, 6, 7, 8, 9, 10, 11, 12, 13, 14, 15, 16],
     mm_exception = no_fault, gpa_available = False, gpa_val = 0, mmio_needed = False, mmio_is_write = False,
     mmio_read_completed = False, mmio_cur_fragment = 0, mmio_nr_fragments = 0,
     mmio_fragments = [\<lparr>frag_gpa = 0, frag_data = 0, frag_len = 0\<rparr>, \<lparr>frag_gpa = 0, frag_data = 0, frag_len = 0\<rparr>],
     run_exit_mmio = False, run_phys_addr = 0, run_len = 0, run_is_write = False, run_data = replicate 8 0,
     complete_userspace_io = None, tracked = []\<rparr>"

lemma dev_env_ok: "no_kernel_device dev_env"
  by (simp add: no_kernel_device_def mmio_piece_write_def mmio_piece_read_def dev_env_def
      gm_env.defs mm_env.defs)

lemma dev_parts:
  "access_parts dev_env 0x1ffc 0 16 = [(0x1ffc, 0, 4), (0x2000, 4, 12)]"
  by (simp add: access_parts_def crosses_page_def dev_env_def gm_env.defs mm_env.defs)

lemma dev_pages:
  "\<forall>(a, off, k) \<in> set (access_parts dev_env 0x1ffc 0 16). onepage_gpa dev_env wr a dev_vcpu = Inr (a XOR 0x10000, True)"
  unfolding dev_parts
  by (simp add: onepage_gpa_def vcpu_mmio_gva_to_gpa_def vcpu_is_mmio_gpa_def dev_env_def
      gm_env.defs mm_env.defs flat_env_def dev_vcpu_def page_of_def)

theorem mmio_write_delivered_witness:
  "\<exists>v1 v2 l. emulator_write_emulated dev_env 0x1ffc 0 16 dev_vcpu = (EMUL_CONTINUE, v1)
    \<and> mmio_rounds (\<lambda>_. 0) (complete_emulated_mmio (\<lambda>v. (1, v)))
        (pieces (map (part_frag (\<lambda>a. a XOR 0x10000)) (access_parts dev_env 0x1ffc 0 16))) v1 = Some (1, v2, l)
    \<and> bytes_of l = concat (map (\<lambda>(a, off, k). map (\<lambda>i. ((a XOR 0x10000) + of_nat i, mm_buf dev_vcpu ! (off + i))) [0..<k])
        (access_parts dev_env 0x1ffc 0 16))
    \<and> \<not> mmio_needed v2 \<and> mm_mem v2 = mm_mem dev_vcpu \<and> mm_dev v2 = mm_dev dev_vcpu"
  by (rule mmio_write_delivered [OF dev_env_ok _ _ _ _ _ dev_pages]) (simp_all add: dev_vcpu_def)

theorem mmio_read_filled_witness:
  "\<exists>v1 v2 l. emulator_read_emulated dev_env 0x1ffc 0 16 dev_vcpu = (EMUL_IO_NEEDED, v1)
    \<and> mmio_rounds ucast (complete_emulated_mmio (\<lambda>v. (1, v)))
        (pieces (map (part_frag (\<lambda>a. a XOR 0x10000)) (access_parts dev_env 0x1ffc 0 16))) v1
        = Some (fst (1 :: int, v2), snd (1 :: int, v2), l)
    \<and> sub_buf 0 16 (mm_buf v2) = concat (map (\<lambda>(a, off, k). map (\<lambda>i. ucast ((a XOR 0x10000) + of_nat i :: u64)) [0..<k])
        (access_parts dev_env 0x1ffc 0 16))
    \<and> bytes_of l = []
    \<and> emulator_read_emulated dev_env 0x1ffc 0 16 v2 = (EMUL_CONTINUE, v2\<lparr>mmio_read_completed := False\<rparr>)"
  by (rule mmio_read_filled [OF dev_env_ok _ _ _ _ _ _ dev_pages]) (simp_all add: dev_vcpu_def)

end
