(* ===== verification/KvmPio.thy ===== *)
theory KvmPio
  imports KvmMmio
begin

unbundle bit_operations_syntax

text \<open>
  Port input and output of a guest (\<^verbatim>\<open>kvm/x86.c\<close>): the loop over devices in the kernel, the exit to
  user space and its completion, the fast path for \<open>IN\<close> and \<open>OUT\<close> with a register operand, and the
  string instructions of an encrypted guest, which are cut into pages.
\<close>

section \<open>State\<close>

type_synonym u16 = "16 word"

datatype pio_completion =
  Complete_fast_pio_out | Complete_fast_pio_out_port_0x7e | Complete_fast_pio_in
| Complete_sev_es_emulated_outs | Complete_sev_es_emulated_ins

text \<open>
  \<open>pio_data\<close> is the page shared with user space, \<open>sev_buf\<close> the buffer of an encrypted guest and
  \<open>sev_pio_data\<close> the offset reached in it.
\<close>

record 'd pio_vcpu =
  pv_dev :: 'd
  pv_rax :: u64
  pv_linear_rip :: u64
  pio_port :: u16
  pio_in :: bool
  pio_count :: nat
  pio_size :: nat
  pio_linear_rip :: u64
  pio_data :: "u8 list"
  run_exit_io :: bool
  io_direction_in :: bool
  io_size :: nat
  io_count :: nat
  io_port :: u16
  io_data_offset :: nat
  pio_complete_cb :: "pio_completion option"
  sev_buf :: "u8 list"
  sev_pio_data :: nat
  sev_pio_count :: nat

text \<open>
  \<open>pio_read\<close>, \<open>pio_write\<close> are \<open>kvm_io_bus_read\<close> and \<open>kvm_io_bus_write\<close> on the port bus: nothing, or
  false, when no device of the kernel has the port.  \<open>skip_emulated\<close> is
  \<open>kvm_skip_emulated_instruction\<close>.
\<close>

record 'd pio_env =
  pio_read :: "'d \<Rightarrow> u16 \<Rightarrow> nat \<Rightarrow> u8 list option \<times> 'd"
  pio_write :: "'d \<Rightarrow> u16 \<Rightarrow> u8 list \<Rightarrow> bool \<times> 'd"
  skip_emulated :: "'d pio_vcpu \<Rightarrow> int \<times> 'd pio_vcpu"
  quirk_out_7e :: bool
  PIO_PAGE_OFFSET :: nat

section \<open>Devices in the kernel and exits\<close>

text \<open>The remaining \<open>n\<close> iterations, at offset \<open>pd\<close> of the shared page; the result is whether all succeeded.\<close>

fun kernel_pio :: "'d pio_env \<Rightarrow> nat \<Rightarrow> nat \<Rightarrow> 'd pio_vcpu \<Rightarrow> bool \<times> 'd pio_vcpu" where
  "kernel_pio e 0 pd v = (True, v)"
| "kernel_pio e (Suc n) pd v =
     (if pio_in v
      then case pio_read e (pv_dev v) (pio_port v) (pio_size v) of
             (None, d) \<Rightarrow> (False, v\<lparr>pv_dev := d\<rparr>)
           | (Some bs, d) \<Rightarrow>
               kernel_pio e n (pd + pio_size v) (v\<lparr>pv_dev := d, pio_data := memcpy_at pd bs (pio_data v)\<rparr>)
      else case pio_write e (pv_dev v) (pio_port v) (sub_buf pd (pio_size v) (pio_data v)) of
             (False, d) \<Rightarrow> (False, v\<lparr>pv_dev := d\<rparr>)
           | (True, d) \<Rightarrow> kernel_pio e n (pd + pio_size v) (v\<lparr>pv_dev := d\<rparr>))"

definition emulator_pio_in_out :: "'d pio_env \<Rightarrow> nat \<Rightarrow> u16 \<Rightarrow> nat \<Rightarrow> bool \<Rightarrow> 'd pio_vcpu \<Rightarrow> int \<times> 'd pio_vcpu" where
  "emulator_pio_in_out e sz port count dir_in v =
     (let (ok, v1) = kernel_pio e count 0
            (v\<lparr>pio_port := port, pio_in := dir_in, pio_count := count, pio_size := sz\<rparr>)
      in if ok then (1, v1)
         else (0, v1\<lparr>run_exit_io := True, io_direction_in := dir_in, io_size := sz,
                    io_data_offset := PIO_PAGE_OFFSET e * 4096, io_count := count, io_port := port\<rparr>))"

definition emulator_pio_in' :: "'d pio_env \<Rightarrow> nat \<Rightarrow> u16 \<Rightarrow> nat \<Rightarrow> 'd pio_vcpu \<Rightarrow> int \<times> 'd pio_vcpu" where
  "emulator_pio_in' e sz port count v =
     emulator_pio_in_out e sz port count True
       (v\<lparr>pio_data := memcpy_at 0 (replicate (sz * count) 0) (pio_data v)\<rparr>)"

text \<open>The bytes copied to the caller, and the state.\<close>

definition complete_emulator_pio_in :: "'d pio_vcpu \<Rightarrow> u8 list \<times> 'd pio_vcpu" where
  "complete_emulator_pio_in v = (take (pio_size v * pio_count v) (pio_data v), v\<lparr>pio_count := 0\<rparr>)"

definition emulator_pio_in ::
  "'d pio_env \<Rightarrow> nat \<Rightarrow> u16 \<Rightarrow> nat \<Rightarrow> 'd pio_vcpu \<Rightarrow> int \<times> u8 list \<times> 'd pio_vcpu" where
  "emulator_pio_in e sz port count v =
     (if pio_count v \<noteq> 0 then (1, complete_emulator_pio_in v)
      else let (r, v1) = emulator_pio_in' e sz port count v
        in if r = 0 then (r, [], v1) else (1, complete_emulator_pio_in v1))"

definition emulator_pio_out :: "'d pio_env \<Rightarrow> nat \<Rightarrow> u16 \<Rightarrow> u8 list \<Rightarrow> nat \<Rightarrow> 'd pio_vcpu \<Rightarrow> int \<times> 'd pio_vcpu" where
  "emulator_pio_out e sz port val count v =
     (let (ret, v1) = emulator_pio_in_out e sz port count False
            (v\<lparr>pio_data := memcpy_at 0 (take (sz * count) val) (pio_data v)\<rparr>)
      in (ret, if ret \<noteq> 0 then v1\<lparr>pio_count := 0\<rparr> else v1))"

text \<open>The operations the instruction emulator calls; after an exit for input the instruction runs again.\<close>

definition emulator_pio_in_emulated ::
  "'d pio_env \<Rightarrow> nat \<Rightarrow> u16 \<Rightarrow> nat \<Rightarrow> 'd pio_vcpu \<Rightarrow> int \<times> u8 list \<times> 'd pio_vcpu" where
  "emulator_pio_in_emulated e sz port count = emulator_pio_in e sz port count"

definition emulator_pio_out_emulated ::
  "'d pio_env \<Rightarrow> nat \<Rightarrow> u16 \<Rightarrow> u8 list \<Rightarrow> nat \<Rightarrow> 'd pio_vcpu \<Rightarrow> int \<times> 'd pio_vcpu" where
  "emulator_pio_out_emulated e sz port val count = emulator_pio_out e sz port val count"

definition complete_emulated_pio :: "('d pio_vcpu \<Rightarrow> int \<times> 'd pio_vcpu) \<Rightarrow> 'd pio_vcpu \<Rightarrow> (int \<times> 'd pio_vcpu) option" where
  "complete_emulated_pio emulate v = (if pio_count v = 0 then None else Some (emulate v))"

section \<open>Register operands\<close>

text \<open>A register in memory, least significant byte first.\<close>

definition reg_bytes :: "u64 \<Rightarrow> u8 list" where
  "reg_bytes w = map (\<lambda>i. ucast (drop_bit (8 * i) w)) [0..<8]"

fun of_reg_bytes :: "u8 list \<Rightarrow> u64" where
  "of_reg_bytes [] = 0"
| "of_reg_bytes (b # bs) = ucast b OR push_bit 8 (of_reg_bytes bs)"

definition complete_fast_pio_out_port_0x7e :: "'d pio_vcpu \<Rightarrow> int \<times> 'd pio_vcpu" where
  "complete_fast_pio_out_port_0x7e v = (1, v\<lparr>pio_count := 0\<rparr>)"

definition complete_fast_pio_out :: "'d pio_env \<Rightarrow> 'd pio_vcpu \<Rightarrow> int \<times> 'd pio_vcpu" where
  "complete_fast_pio_out e v =
     (if pv_linear_rip v \<noteq> pio_linear_rip v then (1, v\<lparr>pio_count := 0\<rparr>)
      else skip_emulated e (v\<lparr>pio_count := 0\<rparr>))"

definition kvm_fast_pio_out :: "'d pio_env \<Rightarrow> nat \<Rightarrow> u16 \<Rightarrow> 'd pio_vcpu \<Rightarrow> int \<times> 'd pio_vcpu" where
  "kvm_fast_pio_out e sz port v =
     (let (ret, v1) = emulator_pio_out e sz port (reg_bytes (pv_rax v)) 1 v
      in if ret \<noteq> 0 then (ret, v1)
         else if port = 0x7e \<and> quirk_out_7e e
         then (0, snd (skip_emulated e (v1\<lparr>pio_complete_cb := Some Complete_fast_pio_out_port_0x7e\<rparr>)))
         else (0, v1\<lparr>pio_linear_rip := pv_linear_rip v1, pio_complete_cb := Some Complete_fast_pio_out\<rparr>))"

text \<open>\<open>None\<close> is \<open>BUG_ON\<close>.\<close>

definition complete_fast_pio_in :: "'d pio_env \<Rightarrow> 'd pio_vcpu \<Rightarrow> (int \<times> 'd pio_vcpu) option" where
  "complete_fast_pio_in e v =
     (if pio_count v \<noteq> 1 then None
      else if pv_linear_rip v \<noteq> pio_linear_rip v then Some (1, v\<lparr>pio_count := 0\<rparr>)
      else let val = (if pio_size v < 4 then pv_rax v else 0);
               (r, bs, v1) = emulator_pio_in e (pio_size v) (pio_port v) 1 v
        in Some (skip_emulated e (v1\<lparr>pv_rax := of_reg_bytes (memcpy_at 0 bs (reg_bytes val))\<rparr>)))"

definition kvm_fast_pio_in :: "'d pio_env \<Rightarrow> nat \<Rightarrow> u16 \<Rightarrow> 'd pio_vcpu \<Rightarrow> int \<times> 'd pio_vcpu" where
  "kvm_fast_pio_in e sz port v =
     (let val = (if sz < 4 then pv_rax v else 0);
          (ret, bs, v1) = emulator_pio_in e sz port 1 v
      in if ret \<noteq> 0 then (ret, v1\<lparr>pv_rax := of_reg_bytes (memcpy_at 0 bs (reg_bytes val))\<rparr>)
         else (0, v1\<lparr>pio_linear_rip := pv_linear_rip v1, pio_complete_cb := Some Complete_fast_pio_in\<rparr>))"

definition kvm_fast_pio :: "'d pio_env \<Rightarrow> nat \<Rightarrow> u16 \<Rightarrow> bool \<Rightarrow> 'd pio_vcpu \<Rightarrow> int \<times> 'd pio_vcpu" where
  "kvm_fast_pio e sz port dir_in v =
     (let (ret, v1) = (if dir_in then kvm_fast_pio_in e sz port v else kvm_fast_pio_out e sz port v)
      in if ret = 0 then (0, v1)
         else let (s, v2) = skip_emulated e v1 in (if s \<noteq> 0 then 1 else 0, v2))"

section \<open>String instructions of an encrypted guest\<close>

text \<open>
  A size of zero divides by zero and a size above a page never makes progress: both are undefined
  here (the callers pass 1, 2 or 4).
\<close>

function kvm_sev_es_outs :: "'d pio_env \<Rightarrow> nat \<Rightarrow> u16 \<Rightarrow> 'd pio_vcpu \<Rightarrow> (int \<times> 'd pio_vcpu) option" where
  "kvm_sev_es_outs e sz port v =
     (if sz = 0 \<or> 4096 < sz then None
      else let count = min (4096 div sz) (sev_pio_count v);
               (ret, v1) = emulator_pio_out e sz port (drop (sev_pio_data v) (sev_buf v)) count v;
               v2 = v1\<lparr>sev_pio_count := sev_pio_count v - count,
                      sev_pio_data := sev_pio_data v + count * pio_size v1\<rparr>
        in if ret = 0 then Some (0, v2\<lparr>pio_complete_cb := Some Complete_sev_es_emulated_outs\<rparr>)
           else if sev_pio_count v2 = 0 then Some (1, v2)
           else kvm_sev_es_outs e sz port v2)"
  by pat_completeness auto
termination
  by (relation "measure (\<lambda>(e, sz, port, v). sev_pio_count v)") (auto simp: min_def div_greater_zero_iff intro!: diff_less split: if_splits)

definition complete_sev_es_emulated_outs :: "'d pio_env \<Rightarrow> 'd pio_vcpu \<Rightarrow> (int \<times> 'd pio_vcpu) option" where
  "complete_sev_es_emulated_outs e v =
     (if sev_pio_count v \<noteq> 0 then kvm_sev_es_outs e (pio_size v) (pio_port v) (v\<lparr>pio_count := 0\<rparr>)
      else Some (1, v\<lparr>pio_count := 0\<rparr>))"

definition advance_sev_es_emulated_ins :: "'d pio_vcpu \<Rightarrow> 'd pio_vcpu" where
  "advance_sev_es_emulated_ins v =
     (let (bs, v1) = complete_emulator_pio_in v
      in v1\<lparr>sev_buf := memcpy_at (sev_pio_data v) bs (sev_buf v),
            sev_pio_count := sev_pio_count v - pio_count v,
            sev_pio_data := sev_pio_data v + pio_count v * pio_size v\<rparr>)"

lemma kernel_pio_same:
  "pio_count (snd (kernel_pio e n pd v)) = pio_count v" "pio_size (snd (kernel_pio e n pd v)) = pio_size v"
  "pio_port (snd (kernel_pio e n pd v)) = pio_port v"
  "sev_pio_count (snd (kernel_pio e n pd v)) = sev_pio_count v"
  "sev_pio_data (snd (kernel_pio e n pd v)) = sev_pio_data v" "sev_buf (snd (kernel_pio e n pd v)) = sev_buf v"
  by (induction e n pd v rule: kernel_pio.induct) (auto split: prod.splits option.splits bool.splits)

lemma emulator_pio_in_same:
  "pio_count (snd (emulator_pio_in' e sz port c v)) = c" "pio_size (snd (emulator_pio_in' e sz port c v)) = sz"
  "pio_port (snd (emulator_pio_in' e sz port c v)) = port"
  "sev_pio_count (snd (emulator_pio_in' e sz port c v)) = sev_pio_count v"
  "sev_pio_data (snd (emulator_pio_in' e sz port c v)) = sev_pio_data v"
  "sev_buf (snd (emulator_pio_in' e sz port c v)) = sev_buf v"
  by (simp_all add: emulator_pio_in'_def emulator_pio_in_out_def Let_def case_prod_unfold kernel_pio_same)

lemma advance_count [simp]:
  "sev_pio_count (advance_sev_es_emulated_ins v) = sev_pio_count v - pio_count v"
  by (simp add: advance_sev_es_emulated_ins_def complete_emulator_pio_in_def)

function kvm_sev_es_ins :: "'d pio_env \<Rightarrow> nat \<Rightarrow> u16 \<Rightarrow> 'd pio_vcpu \<Rightarrow> (int \<times> 'd pio_vcpu) option" where
  "kvm_sev_es_ins e sz port v =
     (if sz = 0 \<or> 4096 < sz then None
      else let r = emulator_pio_in' e sz port (min (4096 div sz) (sev_pio_count v)) v
        in if fst r = 0 then Some (0, (snd r)\<lparr>pio_complete_cb := Some Complete_sev_es_emulated_ins\<rparr>)
           else let v2 = advance_sev_es_emulated_ins (snd r)
             in if sev_pio_count v2 = 0 then Some (1, v2) else kvm_sev_es_ins e sz port v2)"
  by pat_completeness auto
termination
  by (relation "measure (\<lambda>(e, sz, port, v). sev_pio_count v)")
    (auto simp: emulator_pio_in_same min_def div_greater_zero_iff intro!: diff_less split: if_splits)

definition complete_sev_es_emulated_ins :: "'d pio_env \<Rightarrow> 'd pio_vcpu \<Rightarrow> (int \<times> 'd pio_vcpu) option" where
  "complete_sev_es_emulated_ins e v =
     (let v1 = advance_sev_es_emulated_ins v
      in if sev_pio_count v1 \<noteq> 0 then kvm_sev_es_ins e (pio_size v) (pio_port v) v1 else Some (1, v1))"

definition kvm_sev_es_string_io ::
  "'d pio_env \<Rightarrow> nat \<Rightarrow> u16 \<Rightarrow> nat \<Rightarrow> nat \<Rightarrow> bool \<Rightarrow> 'd pio_vcpu \<Rightarrow> (int \<times> 'd pio_vcpu) option" where
  "kvm_sev_es_string_io e sz port data count dir_in v =
     (let v1 = v\<lparr>sev_pio_data := data, sev_pio_count := count\<rparr>
      in if dir_in then kvm_sev_es_ins e sz port v1 else kvm_sev_es_outs e sz port v1)"

declare kvm_sev_es_outs.simps [simp del] kvm_sev_es_ins.simps [simp del]

section \<open>User space\<close>

text \<open>
  User space serves port exits: output is collected, input is taken from a list.  There is no result
  when the kernel stops for another reason before the last round.
\<close>

fun pio_rounds ::
  "('d pio_vcpu \<Rightarrow> (int \<times> 'd pio_vcpu) option) \<Rightarrow> nat \<Rightarrow> u8 list \<Rightarrow> 'd pio_vcpu
     \<Rightarrow> (int \<times> 'd pio_vcpu \<times> u8 list) option" where
  "pio_rounds complete 0 inp v = Some (0, v, [])"
| "pio_rounds complete (Suc n) inp v =
     (let k = io_size v * io_count v;
          v0 = (if io_direction_in v then v\<lparr>pio_data := memcpy_at 0 (take k inp) (pio_data v)\<rparr> else v);
          out = (if io_direction_in v then [] else take k (pio_data v));
          inp' = (if io_direction_in v then drop k inp else inp)
      in case complete v0 of
           None \<Rightarrow> None
         | Some (r, v1) \<Rightarrow>
             if n = 0 then Some (r, v1, out)
             else if r \<noteq> 0 then None
             else map_option (\<lambda>(r', v2, out'). (r', v2, out @ out')) (pio_rounds complete n inp' v1))"

definition no_port_device :: "'d pio_env \<Rightarrow> bool" where
  "no_port_device e \<longleftrightarrow> (\<forall>d p n. pio_read e d p n = (None, d)) \<and> (\<forall>d p bs. pio_write e d p bs = (False, d))"

text \<open>The number of pages a string of \<open>c\<close> items takes.\<close>

function chunks :: "nat \<Rightarrow> nat \<Rightarrow> nat" where
  "chunks p c = (if c = 0 \<or> p = 0 then 0 else Suc (chunks p (c - min p c)))"
  by pat_completeness auto
termination
  by (relation "measure snd") auto

declare chunks.simps [simp del]

lemma kernel_pio_refused:
  "no_port_device e \<Longrightarrow> 0 < n \<Longrightarrow> kernel_pio e n pd v = (False, v)"
  by (cases n) (simp_all add: no_port_device_def)

lemma chunk_fits: "0 < (sz :: nat) \<Longrightarrow> k \<le> 4096 div sz \<Longrightarrow> sz * k \<le> 4096"
  by (rule order_trans [OF mult_le_mono2 times_div_less_eq_dividend])

text \<open>The exit for one page of output or of input.\<close>

definition outs_exit :: "'d pio_env \<Rightarrow> nat \<Rightarrow> u16 \<Rightarrow> nat \<Rightarrow> 'd pio_vcpu \<Rightarrow> 'd pio_vcpu" where
  "outs_exit e sz port k v =
     v\<lparr>pio_data := memcpy_at 0 (sub_buf (sev_pio_data v) (sz * k) (sev_buf v)) (pio_data v),
       pio_port := port, pio_in := False, pio_count := k, pio_size := sz, run_exit_io := True,
       io_direction_in := False, io_size := sz, io_data_offset := PIO_PAGE_OFFSET e * 4096,
       io_count := k, io_port := port, sev_pio_count := sev_pio_count v - k,
       sev_pio_data := sev_pio_data v + k * sz, pio_complete_cb := Some Complete_sev_es_emulated_outs\<rparr>"

definition ins_exit :: "'d pio_env \<Rightarrow> nat \<Rightarrow> u16 \<Rightarrow> nat \<Rightarrow> 'd pio_vcpu \<Rightarrow> 'd pio_vcpu" where
  "ins_exit e sz port k v =
     v\<lparr>pio_data := memcpy_at 0 (replicate (sz * k) 0) (pio_data v),
       pio_port := port, pio_in := True, pio_count := k, pio_size := sz, run_exit_io := True,
       io_direction_in := True, io_size := sz, io_data_offset := PIO_PAGE_OFFSET e * 4096,
       io_count := k, io_port := port, pio_complete_cb := Some Complete_sev_es_emulated_ins\<rparr>"

lemma outs_refused:
  assumes "no_port_device e" "0 < sz" "sz \<le> 4096" "0 < sev_pio_count v"
  shows "kvm_sev_es_outs e sz port v = Some (0, outs_exit e sz port (min (4096 div sz) (sev_pio_count v)) v)"
proof -
  have "0 < min (4096 div sz) (sev_pio_count v)" using assms by (simp add: div_greater_zero_iff)
  from kernel_pio_refused [OF assms(1) this] show ?thesis using assms(2,3)
    by (simp add: kvm_sev_es_outs.simps [of e sz port v] emulator_pio_out_def emulator_pio_in_out_def
        outs_exit_def sub_buf_def Let_def)
qed

lemma ins_refused:
  assumes "no_port_device e" "0 < sz" "sz \<le> 4096" "0 < sev_pio_count v"
  shows "kvm_sev_es_ins e sz port v = Some (0, ins_exit e sz port (min (4096 div sz) (sev_pio_count v)) v)"
proof -
  have "0 < min (4096 div sz) (sev_pio_count v)" using assms by (simp add: div_greater_zero_iff)
  from kernel_pio_refused [OF assms(1) this] show ?thesis using assms(2,3)
    by (simp add: kvm_sev_es_ins.simps [of e sz port v] emulator_pio_in'_def emulator_pio_in_out_def
        ins_exit_def Let_def)
qed

lemma chunks_Suc: "0 < c \<Longrightarrow> 0 < p \<Longrightarrow> chunks p c = Suc (chunks p (c - min p c))"
  by (subst chunks.simps) simp

lemma chunks_0: "0 < p \<Longrightarrow> chunks p c = 0 \<longleftrightarrow> c = 0"
  by (subst chunks.simps) simp

lemma sub_buf_append: "sub_buf off (a + b) xs = sub_buf off a xs @ sub_buf (off + a) b xs"
  by (simp add: sub_buf_def take_add ac_simps)

lemma outs_rounds:
  assumes "no_port_device e" "0 < sz" "sz \<le> 4096" "0 < sev_pio_count v" "length (pio_data v) = 4096"
    and "sev_pio_data v + sev_pio_count v * sz \<le> length (sev_buf v)"
  shows "\<exists>v2. pio_rounds (complete_sev_es_emulated_outs e) (chunks (4096 div sz) (sev_pio_count v)) inp
      (outs_exit e sz port (min (4096 div sz) (sev_pio_count v)) v)
    = Some (1, v2, sub_buf (sev_pio_data v) (sev_pio_count v * sz) (sev_buf v)) \<and> pio_count v2 = 0"
  using assms(4-6)
proof (induction "sev_pio_count v" arbitrary: v rule: less_induct)
  case less
  define p where "p = 4096 div sz"
  define c where "c = sev_pio_count v"
  define k where "k = min p c"
  define v1 where "v1 = outs_exit e sz port k v"
  have p: "0 < p" using assms(2,3) by (simp add: p_def div_greater_zero_iff)
  have k: "0 < k" "k \<le> c" "k \<le> p" using p less.prems(1) by (simp_all add: k_def c_def)
  have kb: "sz * k \<le> 4096" using chunk_fits [of sz k] k(3) assms(2) by (simp add: p_def)
  have ks: "sz * k \<le> sz * c" using k(2) by simp
  have fit: "length (sub_buf (sev_pio_data v) (sz * k) (sev_buf v)) = sz * k"
  proof -
    have "sz * c + sev_pio_data v \<le> length (sev_buf v)" using less.prems(3) by (simp add: c_def ac_simps)
    then have "sz * k \<le> length (sev_buf v) - sev_pio_data v" using ks by linarith
    then show ?thesis by (simp add: sub_buf_def)
  qed
  have out: "take (io_size v1 * io_count v1) (pio_data v1) = sub_buf (sev_pio_data v) (sz * k) (sev_buf v)"
    using fit by (simp add: v1_def outs_exit_def memcpy_at_def)
  have v1: "sev_pio_count v1 = c - k" "sev_pio_data v1 = sev_pio_data v + k * sz" "sev_buf v1 = sev_buf v"
    "length (pio_data v1) = 4096" "\<not> io_direction_in v1" "pio_size v1 = sz" "pio_port v1 = port"
    using fit kb less.prems(2) by (simp_all add: v1_def outs_exit_def c_def)
  have rounds: "chunks p c = Suc (chunks p (c - k))" using chunks_Suc p less.prems(1) by (simp add: k_def c_def)
  show ?case
  proof (cases "c = k")
    case True
    then have "pio_rounds (complete_sev_es_emulated_outs e) (chunks p c) inp v1
        = Some (1, v1\<lparr>pio_count := 0\<rparr>, sub_buf (sev_pio_data v) (sz * k) (sev_buf v))"
      using rounds chunks_0 [OF p, of "c - k"] v1 out by (simp add: complete_sev_es_emulated_outs_def)
    then have "\<exists>v2. pio_rounds (complete_sev_es_emulated_outs e) (chunks p c) inp v1
        = Some (1, v2, sub_buf (sev_pio_data v) (c * sz) (sev_buf v)) \<and> pio_count v2 = 0"
      using True by (simp add: mult.commute)
    then show ?thesis unfolding v1_def k_def c_def p_def .
  next
    case False
    let ?v = "v1\<lparr>pio_count := 0\<rparr>"
    have c: "complete_sev_es_emulated_outs e v1 = Some (0, outs_exit e sz port (min p (sev_pio_count ?v)) ?v)"
      using outs_refused [OF assms(1-3), of ?v port] v1 False k by (simp add: complete_sev_es_emulated_outs_def p_def)
    have "\<exists>v2. pio_rounds (complete_sev_es_emulated_outs e) (chunks p (sev_pio_count ?v)) inp
        (outs_exit e sz port (min p (sev_pio_count ?v)) ?v)
        = Some (1, v2, sub_buf (sev_pio_data ?v) (sev_pio_count ?v * sz) (sev_buf ?v)) \<and> pio_count v2 = 0"
      unfolding p_def
    proof (rule less.hyps)
      show "sev_pio_count ?v < sev_pio_count v" "0 < sev_pio_count ?v" using v1 k False by (simp_all add: c_def)
      show "length (pio_data ?v) = 4096" using v1 by simp
      have "k * sz + (c - k) * sz = c * sz" using k(2) by (simp add: add_mult_distrib [symmetric])
      then show "sev_pio_data ?v + sev_pio_count ?v * sz \<le> length (sev_buf ?v)"
        using v1 less.prems(3) by (simp add: c_def)
    qed
    then obtain v2 where v2: "pio_rounds (complete_sev_es_emulated_outs e) (chunks p (c - k)) inp
        (outs_exit e sz port (min p (c - k)) ?v)
        = Some (1, v2, sub_buf (sev_pio_data v + k * sz) ((c - k) * sz) (sev_buf v))" "pio_count v2 = 0"
      using v1 by auto
    have nz: "chunks p (c - k) \<noteq> 0" using chunks_0 [OF p] False k by simp
    have "k * sz + (c - k) * sz = c * sz" using k(2) by (simp add: add_mult_distrib [symmetric])
    then have "sub_buf (sev_pio_data v) (sz * k) (sev_buf v) @ sub_buf (sev_pio_data v + k * sz) ((c - k) * sz) (sev_buf v)
        = sub_buf (sev_pio_data v) (c * sz) (sev_buf v)"
      using sub_buf_append [of "sev_pio_data v" "k * sz" "(c - k) * sz" "sev_buf v"] by (simp add: mult.commute)
    then have "pio_rounds (complete_sev_es_emulated_outs e) (chunks p c) inp v1
        = Some (1, v2, sub_buf (sev_pio_data v) (c * sz) (sev_buf v))"
      using c v2(1) nz v1 out by (simp add: rounds)
    then have "\<exists>v2. pio_rounds (complete_sev_es_emulated_outs e) (chunks p c) inp v1
        = Some (1, v2, sub_buf (sev_pio_data v) (c * sz) (sev_buf v)) \<and> pio_count v2 = 0"
      using v2(2) by blast
    then show ?thesis unfolding v1_def k_def c_def p_def .
  qed
qed

lemma ins_complete:
  fixes e :: "'d pio_env" and port :: u16
  assumes "length (pio_data v) = 4096" "sz * k \<le> 4096" "sz * k \<le> length inp"
  defines "v1 \<equiv> ins_exit e sz port k v"
  defines "v0 \<equiv> v1\<lparr>pio_data := memcpy_at 0 (take (sz * k) inp) (pio_data v1)\<rparr>"
  defines "v2 \<equiv> advance_sev_es_emulated_ins v0"
  shows "sev_pio_count v2 = sev_pio_count v - k" "sev_pio_data v2 = sev_pio_data v + k * sz"
    "sev_buf v2 = memcpy_at (sev_pio_data v) (take (sz * k) inp) (sev_buf v)"
    "length (pio_data v2) = 4096" "pio_count v2 = 0" "pio_size v0 = sz" "pio_port v0 = port"
proof -
  have "take (sz * k) (memcpy_at 0 (take (sz * k) inp) (pio_data v1)) = take (sz * k) inp"
    using assms(3) by (simp add: memcpy_at_def)
  then show "sev_buf v2 = memcpy_at (sev_pio_data v) (take (sz * k) inp) (sev_buf v)"
    by (simp add: v2_def v0_def v1_def advance_sev_es_emulated_ins_def complete_emulator_pio_in_def ins_exit_def)
  show "sev_pio_count v2 = sev_pio_count v - k" "sev_pio_data v2 = sev_pio_data v + k * sz"
    "length (pio_data v2) = 4096" "pio_count v2 = 0" "pio_size v0 = sz" "pio_port v0 = port"
    using assms(1-3) by (simp_all add: v2_def v0_def v1_def advance_sev_es_emulated_ins_def
        complete_emulator_pio_in_def ins_exit_def)
qed

lemma ins_rounds:
  assumes "no_port_device e" "0 < sz" "sz \<le> 4096" "0 < sev_pio_count v" "length (pio_data v) = 4096"
    and "sev_pio_data v + sev_pio_count v * sz \<le> length (sev_buf v)" "sev_pio_count v * sz \<le> length inp"
  shows "\<exists>v2. pio_rounds (complete_sev_es_emulated_ins e) (chunks (4096 div sz) (sev_pio_count v)) inp
      (ins_exit e sz port (min (4096 div sz) (sev_pio_count v)) v) = Some (1, v2, [])
    \<and> sev_buf v2 = memcpy_at (sev_pio_data v) (take (sev_pio_count v * sz) inp) (sev_buf v) \<and> pio_count v2 = 0"
  using assms(4-7)
proof (induction "sev_pio_count v" arbitrary: v inp rule: less_induct)
  case less
  define p where "p = 4096 div sz"
  define c where "c = sev_pio_count v"
  define k where "k = min p c"
  define v1 where "v1 = ins_exit e sz port k v"
  define v0 where "v0 = v1\<lparr>pio_data := memcpy_at 0 (take (sz * k) inp) (pio_data v1)\<rparr>"
  define w where "w = advance_sev_es_emulated_ins v0"
  have p: "0 < p" using assms(2,3) by (simp add: p_def div_greater_zero_iff)
  have k: "0 < k" "k \<le> c" "k \<le> p" using p less.prems(1) by (simp_all add: k_def c_def)
  have kb: "sz * k \<le> 4096" using chunk_fits [of sz k] k(3) assms(2) by (simp add: p_def)
  have sum: "sz * k + (c - k) * sz = c * sz" using k(2) by (simp add: add_mult_distrib [symmetric] mult.commute [of sz])
  have li: "c * sz \<le> length inp" and lb: "sev_pio_data v + c * sz \<le> length (sev_buf v)"
    using less.prems(3,4) by (simp_all add: c_def)
  have ki: "sz * k \<le> length inp" using li sum by linarith
  note w = ins_complete [where e = e and port = port, OF less.prems(2) kb ki, folded v1_def, folded v0_def, folded w_def]
  have v1: "io_direction_in v1" "io_size v1 * io_count v1 = sz * k" by (simp_all add: v1_def ins_exit_def)
  have rounds: "chunks p c = Suc (chunks p (c - k))" using chunks_Suc p less.prems(1) by (simp add: k_def c_def)
  have goal: "\<exists>v2. pio_rounds (complete_sev_es_emulated_ins e) (chunks p c) inp v1 = Some (1, v2, [])
    \<and> sev_buf v2 = memcpy_at (sev_pio_data v) (take (c * sz) inp) (sev_buf v) \<and> pio_count v2 = 0"
  proof (cases "c = k")
    case True
    then have "complete_sev_es_emulated_ins e v0 = Some (1, w)"
      using w(1) by (simp add: complete_sev_es_emulated_ins_def w_def [symmetric] c_def [symmetric])
    moreover have "take (c * sz) inp = take (sz * k) inp" using True by (simp only: mult.commute)
    moreover have "chunks p c = Suc 0" using rounds chunks_0 [OF p, of "c - k"] True by simp
    ultimately show ?thesis using v1 w(3,5) by (simp add: Let_def v0_def [symmetric])
  next
    case False
    have c: "complete_sev_es_emulated_ins e v0 = Some (0, ins_exit e sz port (min p (sev_pio_count w)) w)"
      using ins_refused [OF assms(1-3), of w port] w False k
      by (simp add: complete_sev_es_emulated_ins_def p_def w_def [symmetric] c_def [symmetric])
    have lw: "length (sev_buf w) = length (sev_buf v)" using w(3) lb sum ki by simp
    have "\<exists>v2. pio_rounds (complete_sev_es_emulated_ins e) (chunks p (sev_pio_count w)) (drop (sz * k) inp)
        (ins_exit e sz port (min p (sev_pio_count w)) w) = Some (1, v2, [])
      \<and> sev_buf v2 = memcpy_at (sev_pio_data w) (take (sev_pio_count w * sz) (drop (sz * k) inp)) (sev_buf w) \<and> pio_count v2 = 0"
      unfolding p_def
    proof (rule less.hyps)
      show "sev_pio_count w < sev_pio_count v" "0 < sev_pio_count w" using w(1) k False by (simp_all add: c_def)
      show "length (pio_data w) = 4096" by (rule w(4))
      show "sev_pio_data w + sev_pio_count w * sz \<le> length (sev_buf w)"
        using w(1,2) lw lb sum by (simp add: c_def [symmetric] mult.commute [of k])
      show "sev_pio_count w * sz \<le> length (drop (sz * k) inp)"
        using w(1) li sum by (simp add: c_def [symmetric])
    qed
    then obtain v2 where v2: "pio_rounds (complete_sev_es_emulated_ins e) (chunks p (c - k)) (drop (sz * k) inp)
        (ins_exit e sz port (min p (sev_pio_count w)) w) = Some (1, v2, [])"
      "sev_buf v2 = memcpy_at (sev_pio_data v + sz * k) (take ((c - k) * sz) (drop (sz * k) inp)) (sev_buf w)" "pio_count v2 = 0"
      using w(1,2) by (auto simp: c_def [symmetric] mult.commute [of k])
    have nz: "chunks p (c - k) \<noteq> 0" using chunks_0 [OF p] False k by simp
    have "take (c * sz) inp = take (sz * k) inp @ take ((c - k) * sz) (drop (sz * k) inp)"
      using take_add [of "sz * k" "(c - k) * sz" inp] by (simp only: sum)
    then have "sev_buf v2 = memcpy_at (sev_pio_data v) (take (c * sz) inp) (sev_buf v)"
      using memcpy_at_append [of "sev_pio_data v" "take (sz * k) inp" "take ((c - k) * sz) (drop (sz * k) inp)" "sev_buf v"]
        v2(2) w(3) lb sum ki li by (simp add: min_absorb2)
    then show ?thesis using rounds v1 c v2(1,3) nz by (simp add: Let_def v0_def [symmetric])
  qed
  show ?case using goal unfolding v1_def k_def c_def p_def .
qed

section \<open>Bytes of a register\<close>

lemma bit_of_reg_bytes:
  "bit (of_reg_bytes xs) j \<longleftrightarrow> j < 64 \<and> j div 8 < length xs \<and> bit (xs ! (j div 8)) (j mod 8)"
proof (induction xs arbitrary: j)
  case (Cons x xs)
  show ?case
  proof (cases "j < 8")
    case False
    then obtain i where j: "j = 8 + i" using le_Suc_ex by (metis not_less)
    moreover have "(8 + i) div 8 = Suc (i div 8)" by simp
    ultimately show ?thesis using Cons.IH [of i] by (auto simp: bit_simps dest: bit_imp_le_length)
  qed (auto simp: bit_simps)
qed simp

lemma reg_bytes_of: "length xs = 8 \<Longrightarrow> reg_bytes (of_reg_bytes xs) = xs"
proof (rule nth_equalityI)
  fix i assume l: "length xs = 8" and i: "i < length (reg_bytes (of_reg_bytes xs))"
  then have i8: "i < 8" by (simp add: reg_bytes_def)
  show "reg_bytes (of_reg_bytes xs) ! i = xs ! i"
  proof (rule bit_word_eqI)
    fix b assume "b < LENGTH(8)"
    then have b: "b < 8" by simp
    have "(8 * i + b) div 8 = i" "(8 * i + b) mod 8 = b" "8 * i + b < 64" using b i8 by auto
    then show "bit (reg_bytes (of_reg_bytes xs) ! i) b = bit (xs ! i) b"
      using i8 b l by (simp add: reg_bytes_def bit_simps bit_of_reg_bytes)
  qed
qed (simp add: reg_bytes_def)

lemma length_reg_bytes [simp]: "length (reg_bytes w) = 8"
  by (simp add: reg_bytes_def)

lemma reg_bytes_0: "reg_bytes 0 = replicate 8 0"
  by (simp add: reg_bytes_def upt_rec numeral_eq_Suc)

section \<open>Properties\<close>

text \<open>
  C24: the string output of an encrypted guest, whatever its length, reaches user space
  completely and in order: one exit per page of data, and the bytes of the exits together are the
  bytes of the guest's buffer; after the last one the instruction is finished and no port access
  is pending.
\<close>

theorem sev_string_out:
  assumes "no_port_device e" "0 < sz" "sz \<le> 4096" "0 < count" "length (pio_data v) = 4096"
    and "data + count * sz \<le> length (sev_buf v)"
  shows "\<exists>v1 v2. kvm_sev_es_string_io e sz port data count False v = Some (0, v1)
    \<and> pio_rounds (complete_sev_es_emulated_outs e) (chunks (4096 div sz) count) inp v1
        = Some (1, v2, sub_buf data (count * sz) (sev_buf v)) \<and> pio_count v2 = 0"
proof -
  let ?v = "v\<lparr>sev_pio_data := data, sev_pio_count := count\<rparr>"
  have "kvm_sev_es_string_io e sz port data count False v = Some (0, outs_exit e sz port (min (4096 div sz) count) ?v)"
    using outs_refused [OF assms(1-3), of ?v port] assms(4) by (simp add: kvm_sev_es_string_io_def)
  then show ?thesis using outs_rounds [OF assms(1-3), of ?v inp port] assms(4-6) by auto
qed

text \<open>
  Remark: the string input of an encrypted guest fills its buffer with the bytes user space
  delivers, in order, across all pages of data, and changes no other byte of the buffer.
\<close>

theorem sev_string_in:
  assumes "no_port_device e" "0 < sz" "sz \<le> 4096" "0 < count" "length (pio_data v) = 4096"
    and "data + count * sz \<le> length (sev_buf v)" "count * sz \<le> length inp"
  shows "\<exists>v1 v2. kvm_sev_es_string_io e sz port data count True v = Some (0, v1)
    \<and> pio_rounds (complete_sev_es_emulated_ins e) (chunks (4096 div sz) count) inp v1 = Some (1, v2, [])
    \<and> sev_buf v2 = take data (sev_buf v) @ take (count * sz) inp @ drop (data + count * sz) (sev_buf v)
    \<and> pio_count v2 = 0"
proof -
  let ?v = "v\<lparr>sev_pio_data := data, sev_pio_count := count\<rparr>"
  have "kvm_sev_es_string_io e sz port data count True v = Some (0, ins_exit e sz port (min (4096 div sz) count) ?v)"
    using ins_refused [OF assms(1-3), of ?v port] assms(4) by (simp add: kvm_sev_es_string_io_def)
  then show ?thesis using ins_rounds [OF assms(1-3), of ?v inp port] assms(4-7)
    by (auto simp: memcpy_at_def min_absorb2)
qed

text \<open>
  Remark: an \<open>IN\<close> to the accumulator that no device in the kernel serves leaves for user
  space; when user space has stored its bytes and the instruction pointer is unchanged, the low bytes
  of \<open>rax\<close> are these bytes, the others keep their value for one and two bytes and are cleared for
  four, and the instruction is skipped once; when user space has moved the instruction pointer, the
  registers are left alone.
\<close>

theorem fast_pio_in_merges:
  assumes "no_port_device e" "0 < sz" "sz \<le> 8" "pio_count v = 0" "length (pio_data v) = 4096" "length bs = sz"
  shows "\<exists>v1 v2. kvm_fast_pio e sz port True v = (0, v1) \<and> pio_complete_cb v1 = Some Complete_fast_pio_in
    \<and> complete_fast_pio_in e (v1\<lparr>pio_data := memcpy_at 0 bs (pio_data v1)\<rparr>) = Some (skip_emulated e v2)
    \<and> reg_bytes (pv_rax v2) = bs @ drop sz (if sz < 4 then reg_bytes (pv_rax v) else replicate 8 0)
    \<and> pio_count v2 = 0
    \<and> (\<forall>rip. rip \<noteq> pv_linear_rip v \<longrightarrow>
         complete_fast_pio_in e (v1\<lparr>pio_data := memcpy_at 0 bs (pio_data v1), pv_linear_rip := rip\<rparr>)
         = Some (1, v1\<lparr>pio_data := memcpy_at 0 bs (pio_data v1), pv_linear_rip := rip, pio_count := 0\<rparr>))"
proof -
  define v1 where "v1 = v\<lparr>pio_data := memcpy_at 0 (replicate sz 0) (pio_data v), pio_port := port, pio_in := True,
    pio_count := 1, pio_size := sz, run_exit_io := True, io_direction_in := True, io_size := sz,
    io_data_offset := PIO_PAGE_OFFSET e * 4096, io_count := 1, io_port := port,
    pio_linear_rip := pv_linear_rip v, pio_complete_cb := Some Complete_fast_pio_in\<rparr>"
  have k: "kernel_pio e (Suc 0) 0 w = (False, w)" for w by (rule kernel_pio_refused [OF assms(1)]) simp
  have v1: "kvm_fast_pio e sz port True v = (0, v1)"
    using assms(4) k by (simp add: kvm_fast_pio_def kvm_fast_pio_in_def emulator_pio_in_def emulator_pio_in'_def
        emulator_pio_in_out_def v1_def del: kernel_pio.simps)
  let ?u = "v1\<lparr>pio_data := memcpy_at 0 bs (pio_data v1)\<rparr>"
  let ?val = "if sz < 4 then pv_rax v else 0"
  let ?bytes = "memcpy_at 0 bs (reg_bytes ?val)"
  define v2 where "v2 = ?u\<lparr>pio_count := 0, pv_rax := of_reg_bytes ?bytes\<rparr>"
  have "complete_fast_pio_in e ?u = Some (skip_emulated e v2)"
    using assms(6) by (simp add: complete_fast_pio_in_def emulator_pio_in_def complete_emulator_pio_in_def
        v1_def v2_def memcpy_at_def)
  moreover have "length ?bytes = 8" using assms(3,6) by (simp add: memcpy_at_def)
  then have "reg_bytes (pv_rax v2) = ?bytes" using reg_bytes_of by (simp add: v2_def)
  then have "reg_bytes (pv_rax v2) = bs @ drop sz (if sz < 4 then reg_bytes (pv_rax v) else replicate 8 0)"
    using assms(6) by (simp add: memcpy_at_def reg_bytes_0)
  moreover have "pio_count v2 = 0" "pio_complete_cb v1 = Some Complete_fast_pio_in"
    by (simp_all add: v2_def v1_def)
  moreover have "complete_fast_pio_in e (v1\<lparr>pio_data := memcpy_at 0 bs (pio_data v1), pv_linear_rip := rip\<rparr>)
      = Some (1, v1\<lparr>pio_data := memcpy_at 0 bs (pio_data v1), pv_linear_rip := rip, pio_count := 0\<rparr>)"
    if "rip \<noteq> pv_linear_rip v" for rip
    using that by (simp add: complete_fast_pio_in_def v1_def)
  ultimately show ?thesis using v1 by blast
qed

section \<open>Witnesses\<close>

definition bare_env :: "unit pio_env" where
  "bare_env = \<lparr>pio_read = (\<lambda>d p n. (None, d)), pio_write = (\<lambda>d p bs. (False, d)),
     skip_emulated = (\<lambda>v. (1, v\<lparr>pv_linear_rip := pv_linear_rip v + 1\<rparr>)), quirk_out_7e = False, PIO_PAGE_OFFSET = 1\<rparr>"

definition pio_start :: "unit pio_vcpu" where
  "pio_start = \<lparr>pv_dev = (), pv_rax = 0x1122334455667788, pv_linear_rip = 0x1000, pio_port = 0, pio_in = False,
     pio_count = 0, pio_size = 0, pio_linear_rip = 0, pio_data = replicate 4096 0, run_exit_io = False,
     io_direction_in = False, io_size = 0, io_count = 0, io_port = 0, io_data_offset = 0,
     pio_complete_cb = None, sev_buf = replicate 20000 7, sev_pio_data = 0, sev_pio_count = 0\<rparr>"

lemma bare_env_ok: "no_port_device bare_env"
  by (simp add: no_port_device_def bare_env_def)

theorem sev_string_out_witness:
  "\<exists>v1 v2. kvm_sev_es_string_io bare_env 2 0x60 100 5000 False pio_start = Some (0, v1)
    \<and> pio_rounds (complete_sev_es_emulated_outs bare_env) (chunks (4096 div 2) 5000) [] v1
        = Some (1, v2, sub_buf 100 (5000 * 2) (sev_buf pio_start)) \<and> pio_count v2 = 0"
  by (rule sev_string_out [OF bare_env_ok]) (simp_all add: pio_start_def)

theorem sev_string_in_witness:
  "\<exists>v1 v2. kvm_sev_es_string_io bare_env 2 0x60 100 5000 True pio_start = Some (0, v1)
    \<and> pio_rounds (complete_sev_es_emulated_ins bare_env) (chunks (4096 div 2) 5000) (replicate 10000 3) v1 = Some (1, v2, [])
    \<and> sev_buf v2 = take 100 (sev_buf pio_start) @ take (5000 * 2) (replicate 10000 3) @ drop (100 + 5000 * 2) (sev_buf pio_start)
    \<and> pio_count v2 = 0"
  by (rule sev_string_in [OF bare_env_ok]) (simp_all add: pio_start_def)

theorem fast_pio_in_merges_witness:
  "\<exists>v1 v2. kvm_fast_pio bare_env 2 0x60 True pio_start = (0, v1) \<and> pio_complete_cb v1 = Some Complete_fast_pio_in
    \<and> complete_fast_pio_in bare_env (v1\<lparr>pio_data := memcpy_at 0 [0xaa, 0xbb] (pio_data v1)\<rparr>) = Some (skip_emulated bare_env v2)
    \<and> reg_bytes (pv_rax v2) = [0xaa, 0xbb] @ drop 2 (reg_bytes 0x1122334455667788)"
  using fast_pio_in_merges [OF bare_env_ok, of 2 pio_start "[0xaa, 0xbb]" "0x60"] by (auto simp: pio_start_def)

end
