(* ===== verification/KvmSmm.thy ===== *)
theory KvmSmm
  imports KvmRegs KvmException KvmPio
begin

unbundle bit_operations_syntax

text \<open>
  Entry into system management mode (\<^verbatim>\<open>kvm/x86.c\<close>): the 32-bit and the 64-bit layout in which the
  registers of the interrupted guest are saved, and the state in which the handler starts.  The macro
  that stores a field, vendor callbacks and constants are the parameter \<open>senv\<close>.
\<close>

section \<open>State\<close>

record kvm_segment =
  s_base :: u64
  s_limit :: u32
  s_selector :: u16
  s_type :: u8
  s_present :: u8
  s_dpl :: u8
  s_db :: u8
  s_s :: u8
  s_l :: u8
  s_g :: u8
  s_avl :: u8
  s_unusable :: u8
  s_padding :: u8

record desc_ptr =
  dt_size :: u16
  dt_address :: u64

text \<open>A processor with its registers; \<open>guest_writes\<close> are the writes to the memory of the guest.\<close>

record svcpu =
  xv :: xvcpu
  rv :: rvcpu
  gprs :: "nat \<Rightarrow> u64"
  s_rip :: u64
  hw_rflags :: u64
  smbase :: u64
  hflags :: u32
  segs :: "nat \<Rightarrow> kvm_segment"
  gdt :: desc_ptr
  idt :: desc_ptr
  nmi_masked :: bool
  singlestep_rip :: u64
  guest_state_protected :: bool
  guest_writes :: "(u64 \<times> u8 list) list"

record senv =
  se_x :: xenv
  se_r :: renv
  put_smstate :: "nat \<Rightarrow> nat \<Rightarrow> u64 \<Rightarrow> u8 list \<Rightarrow> u8 list"
  vendor_enter_smm :: "u8 list \<Rightarrow> svcpu \<Rightarrow> u8 list \<times> svcpu"
  vendor_set_efer :: "u64 \<Rightarrow> rvcpu \<Rightarrow> rvcpu"
  is_64_bit_mode :: "svcpu \<Rightarrow> bool"
  has_lm :: bool
  HF_SMM :: u32
  HF_SMM_INSIDE_NMI :: u32
  EFLAGS_FIXED :: u64
  EFLAGS_TF :: u64
  CR0_EM :: u64
  CR0_TS :: u64
  GUESTDBG_SINGLESTEP :: u64
  SREG_ES :: nat
  SREG_CS :: nat
  SREG_SS :: nat
  SREG_DS :: nat
  SREG_FS :: nat
  SREG_GS :: nat
  SREG_TR :: nat
  SREG_LDTR :: nat

definition s_request :: "req \<Rightarrow> svcpu \<Rightarrow> svcpu" where
  "s_request r c = c\<lparr>xv := make_request r (xv c)\<rparr>"

section \<open>Flags and the instruction pointer\<close>

definition get_segment_base :: "nat \<Rightarrow> svcpu \<Rightarrow> u64" where
  "get_segment_base n c = s_base (segs c n)"

definition kvm_get_linear_rip :: "senv \<Rightarrow> svcpu \<Rightarrow> u64" where
  "kvm_get_linear_rip e c =
     (if guest_state_protected c then 0
      else if is_64_bit_mode e c then s_rip c
      else ucast (ucast (get_segment_base (SREG_CS e) c + s_rip c) :: u32))"

definition kvm_is_linear_rip :: "senv \<Rightarrow> u64 \<Rightarrow> svcpu \<Rightarrow> bool" where
  "kvm_is_linear_rip e linear_rip c \<longleftrightarrow> kvm_get_linear_rip e c = linear_rip"

definition kvm_get_rflags :: "senv \<Rightarrow> svcpu \<Rightarrow> u64" where
  "kvm_get_rflags e c =
     (if guest_debug (rv c) AND GUESTDBG_SINGLESTEP e \<noteq> 0 then hw_rflags c AND NOT (EFLAGS_TF e) else hw_rflags c)"

definition kvm_set_rflags' :: "senv \<Rightarrow> u64 \<Rightarrow> svcpu \<Rightarrow> svcpu" where
  "kvm_set_rflags' e rflags c =
     c\<lparr>hw_rflags := (if guest_debug (rv c) AND GUESTDBG_SINGLESTEP e \<noteq> 0 \<and> kvm_is_linear_rip e (singlestep_rip c) c
                     then rflags OR EFLAGS_TF e else rflags)\<rparr>"

definition kvm_set_rflags :: "senv \<Rightarrow> u64 \<Rightarrow> svcpu \<Rightarrow> svcpu" where
  "kvm_set_rflags e rflags c = s_request REQ_EVENT (kvm_set_rflags' e rflags c)"

section \<open>The saved state\<close>

text \<open>A field of the save area: width in bytes, offset, value.\<close>

type_synonym smfield = "nat \<times> nat \<times> u64"

definition puts :: "senv \<Rightarrow> smfield list \<Rightarrow> u8 list \<Rightarrow> u8 list" where
  "puts e = fold (\<lambda>(w, off, val). put_smstate e w off val)"

definition enter_smm_get_segment_flags :: "kvm_segment \<Rightarrow> u32" where
  "enter_smm_get_segment_flags seg =
     push_bit 23 (ucast (s_g seg)) OR push_bit 22 (ucast (s_db seg)) OR push_bit 21 (ucast (s_l seg))
     OR push_bit 20 (ucast (s_avl seg)) OR push_bit 15 (ucast (s_present seg)) OR push_bit 13 (ucast (s_dpl seg))
     OR push_bit 12 (ucast (s_s seg)) OR push_bit 8 (ucast (s_type seg))"

definition seg_fields_32 :: "svcpu \<Rightarrow> nat \<Rightarrow> smfield list" where
  "seg_fields_32 c n =
     (let seg = segs c n; offset = (if n < 3 then 0x7f84 + n * 12 else 0x7f2c + (n - 3) * 12)
      in [(4, 0x7fa8 + n * 4, ucast (s_selector seg)), (4, offset + 8, s_base seg), (4, offset + 4, ucast (s_limit seg)),
          (4, offset, ucast (enter_smm_get_segment_flags seg))])"

definition enter_smm_save_seg_32 :: "senv \<Rightarrow> svcpu \<Rightarrow> nat \<Rightarrow> u8 list \<Rightarrow> u8 list" where
  "enter_smm_save_seg_32 e c n buf = puts e (seg_fields_32 c n) buf"

definition seg_fields_64 :: "svcpu \<Rightarrow> nat \<Rightarrow> smfield list" where
  "seg_fields_64 c n =
     (let seg = segs c n; offset = 0x7e00 + n * 16; flags = ucast (drop_bit 8 (enter_smm_get_segment_flags seg)) :: u16
      in [(2, offset, ucast (s_selector seg)), (2, offset + 2, ucast flags), (4, offset + 4, ucast (s_limit seg)),
          (8, offset + 8, s_base seg)])"

definition enter_smm_save_seg_64 :: "senv \<Rightarrow> svcpu \<Rightarrow> nat \<Rightarrow> u8 list \<Rightarrow> u8 list" where
  "enter_smm_save_seg_64 e c n buf = puts e (seg_fields_64 c n) buf"

definition state_fields_32 :: "senv \<Rightarrow> svcpu \<Rightarrow> smfield list" where
  "state_fields_32 e c =
     [(4, 0x7ffc, r_cr0 (rv c)), (4, 0x7ff8, r_cr3 (rv c)), (4, 0x7ff4, kvm_get_rflags e c), (4, 0x7ff0, s_rip c)]
     @ map (\<lambda>i. (4, 0x7fd0 + i * 4, gprs c i)) [0..<8]
     @ [(4, 0x7fcc, kvm_get_dr 6 (rv c)), (4, 0x7fc8, kvm_get_dr 7 (rv c))]
     @ (let seg = segs c (SREG_TR e)
        in [(4, 0x7fc4, ucast (s_selector seg)), (4, 0x7f64, s_base seg), (4, 0x7f60, ucast (s_limit seg)),
            (4, 0x7f5c, ucast (enter_smm_get_segment_flags seg))])
     @ (let seg = segs c (SREG_LDTR e)
        in [(4, 0x7fc0, ucast (s_selector seg)), (4, 0x7f80, s_base seg), (4, 0x7f7c, ucast (s_limit seg)),
            (4, 0x7f78, ucast (enter_smm_get_segment_flags seg))])
     @ [(4, 0x7f74, dt_address (gdt c)), (4, 0x7f70, ucast (dt_size (gdt c))),
        (4, 0x7f58, dt_address (idt c)), (4, 0x7f54, ucast (dt_size (idt c)))]"

definition enter_smm_save_state_32 :: "senv \<Rightarrow> svcpu \<Rightarrow> u8 list \<Rightarrow> u8 list" where
  "enter_smm_save_state_32 e c buf =
     (let buf1 = puts e (state_fields_32 e c) buf;
          buf2 = fold (enter_smm_save_seg_32 e c) [0..<6] buf1
      in puts e [(4, 0x7f14, r_cr4 (rv c)), (4, 0x7efc, 0x00020000), (4, 0x7ef8, smbase c)] buf2)"

definition state_fields_64 :: "senv \<Rightarrow> svcpu \<Rightarrow> smfield list" where
  "state_fields_64 e c =
     map (\<lambda>i. (8, 0x7ff8 - i * 8, gprs c i)) [0..<16]
     @ [(8, 0x7f78, s_rip c), (4, 0x7f70, kvm_get_rflags e c), (8, 0x7f68, kvm_get_dr 6 (rv c)),
        (8, 0x7f60, kvm_get_dr 7 (rv c)), (8, 0x7f58, r_cr0 (rv c)), (8, 0x7f50, r_cr3 (rv c)), (8, 0x7f48, r_cr4 (rv c)),
        (4, 0x7f00, smbase c), (4, 0x7efc, 0x00020064), (8, 0x7ed0, efer (rv c))]
     @ (let seg = segs c (SREG_TR e)
        in [(2, 0x7e90, ucast (s_selector seg)), (2, 0x7e92, ucast (drop_bit 8 (enter_smm_get_segment_flags seg))),
            (4, 0x7e94, ucast (s_limit seg)), (8, 0x7e98, s_base seg)])
     @ [(4, 0x7e84, ucast (dt_size (idt c))), (8, 0x7e88, dt_address (idt c))]
     @ (let seg = segs c (SREG_LDTR e)
        in [(2, 0x7e70, ucast (s_selector seg)), (2, 0x7e72, ucast (drop_bit 8 (enter_smm_get_segment_flags seg))),
            (4, 0x7e74, ucast (s_limit seg)), (8, 0x7e78, s_base seg)])
     @ [(4, 0x7e64, ucast (dt_size (gdt c))), (8, 0x7e68, dt_address (gdt c))]"

definition enter_smm_save_state_64 :: "senv \<Rightarrow> svcpu \<Rightarrow> u8 list \<Rightarrow> u8 list" where
  "enter_smm_save_state_64 e c buf =
     fold (enter_smm_save_seg_64 e c) [0..<6] (puts e (state_fields_64 e c) buf)"

section \<open>Entry\<close>

definition kvm_smm_changed :: "senv \<Rightarrow> bool \<Rightarrow> svcpu \<Rightarrow> svcpu" where
  "kvm_smm_changed e entering_smm c =
     (let c1 = (if entering_smm then c\<lparr>hflags := hflags c OR HF_SMM e\<rparr>
                else s_request REQ_EVENT
                  (c\<lparr>hflags := hflags c AND NOT (HF_SMM e OR HF_SMM_INSIDE_NMI e),
                     rv := (rv c)\<lparr>pdptrs_from_userspace := False\<rparr>\<rparr>))
      in c1\<lparr>rv := note_ev [ResetMmu] (rv c1)\<rparr>)"

definition smm_data_seg :: kvm_segment where
  "smm_data_seg = \<lparr>s_base = 0, s_limit = 0xffffffff, s_selector = 0, s_type = 3, s_present = 1, s_dpl = 0, s_db = 0,
     s_s = 1, s_l = 0, s_g = 1, s_avl = 0, s_unusable = 0, s_padding = 0\<rparr>"

definition smm_code_seg :: "u64 \<Rightarrow> kvm_segment" where
  "smm_code_seg base = smm_data_seg\<lparr>s_selector := ucast (drop_bit 4 base AND 0xffff), s_base := base\<rparr>"

definition kvm_set_segment :: "nat \<Rightarrow> kvm_segment \<Rightarrow> svcpu \<Rightarrow> svcpu" where
  "kvm_set_segment n seg c = c\<lparr>segs := (segs c)(n := seg)\<rparr>"

definition smm_segments :: "senv \<Rightarrow> svcpu \<Rightarrow> svcpu" where
  "smm_segments e c =
     (let c1 = kvm_set_segment (SREG_CS e) (smm_code_seg (smbase c)) c
      in fold (\<lambda>n. kvm_set_segment n smm_data_seg) [SREG_DS e, SREG_ES e, SREG_FS e, SREG_GS e, SREG_SS e] c1)"

definition enter_smm :: "senv \<Rightarrow> svcpu \<Rightarrow> svcpu" where
  "enter_smm e c =
     (let buf = replicate 512 0;
          buf1 = (if has_lm e then enter_smm_save_state_64 e c buf else enter_smm_save_state_32 e c buf);
          (buf2, c1) = vendor_enter_smm e buf1 c;
          c2 = kvm_smm_changed e True c1;
          c3 = c2\<lparr>guest_writes := guest_writes c2 @ [(smbase c2 + 0xfe00, buf2)]\<rparr>;
          c4 = (if nmi_masked c3 then c3\<lparr>hflags := hflags c3 OR HF_SMM_INSIDE_NMI e\<rparr> else c3\<lparr>nmi_masked := True\<rparr>);
          c5 = (kvm_set_rflags e (EFLAGS_FIXED e) c4)\<lparr>s_rip := 0x8000\<rparr>;
          cr0 = r_cr0 (rv c5) AND NOT (mk (se_r e) CR0_PE OR CR0_EM e OR CR0_TS e OR mk (se_r e) CR0_PG);
          r1 = (vendor_set_cr0 (se_r e) cr0 (rv c5))\<lparr>r_cr0 := cr0\<rparr>;
          r2 = vendor_set_cr4 (se_r e) 0 r1;
          c6 = c5\<lparr>rv := r2, idt := \<lparr>dt_size = 0, dt_address = 0\<rparr>\<rparr>;
          c7 = c6\<lparr>rv := snd (kvm_set_dr (se_r e) 7 (mk (se_r e) DR7_FIXED_1) (rv c6))\<rparr>;
          c8 = smm_segments e c7;
          r3 = (if has_lm e then vendor_set_efer e 0 (rv c8) else rv c8)
      in c8\<lparr>rv := note_ev [UpdateCpuid, ResetMmu] r3\<rparr>)"

section \<open>The save area\<close>

text \<open>The macro stores the low bytes of a value at an offset that counts from \<open>0x7e00\<close>.\<close>

definition put_law :: "senv \<Rightarrow> bool" where
  "put_law e \<longleftrightarrow> (\<forall>w off val buf. length buf = 512 \<and> 0x7e00 \<le> off \<and> off + w \<le> 0x8000 \<and> w \<le> 8 \<longrightarrow>
     put_smstate e w off val buf = memcpy_at (off - 0x7e00) (take w (reg_bytes val)) buf)"

definition saved :: "u8 list \<Rightarrow> smfield \<Rightarrow> bool" where
  "saved area = (\<lambda>(w, off, val). sub_buf (off - 0x7e00) w area = take w (reg_bytes val))"

text \<open>Width and offset of a field; fields in the area and without overlap.\<close>

definition span :: "smfield \<Rightarrow> nat \<times> nat" where
  "span = (\<lambda>(w, off, val). (w, off))"

definition in_area :: "nat \<times> nat \<Rightarrow> bool" where
  "in_area = (\<lambda>(w, off). 0x7e00 \<le> off \<and> off + w \<le> 0x8000 \<and> w \<le> 8)"

definition clear_of :: "nat \<times> nat \<Rightarrow> nat \<times> nat \<Rightarrow> bool" where
  "clear_of = (\<lambda>(w, off) (w', off'). off + w \<le> off' \<or> off' + w' \<le> off)"

fun apart :: "(nat \<times> nat) list \<Rightarrow> bool" where
  "apart [] = True"
| "apart (x # xs) = (list_all (clear_of x) xs \<and> apart xs)"

lemma sub_buf_other:
  assumes "a + n \<le> off \<or> off + length bs \<le> a" "off + length bs \<le> length b"
  shows "sub_buf a n (memcpy_at off bs b) = sub_buf a n b"
  using assms(1)
proof
  assume "a + n \<le> off"
  then show ?thesis using assms(2) by (simp add: sub_buf_def memcpy_at_def drop_take)
next
  assume "off + length bs \<le> a"
  then show ?thesis using assms(2) by (simp add: sub_buf_def memcpy_at_def)
qed

lemma put_field:
  assumes "put_law e" "length buf = 512" "in_area (span f)"
  shows "puts e [f] buf = memcpy_at (snd (span f) - 0x7e00) (take (fst (span f)) (reg_bytes (snd (snd f)))) buf"
    "length (puts e [f] buf) = 512" "saved (puts e [f] buf) f"
proof -
  obtain w off val where f: "f = (w, off, val)" by (cases f)
  have r: "0x7e00 \<le> off" "off + w \<le> 0x8000" "w \<le> 8" using assms(3) by (auto simp: f span_def in_area_def)
  then have p: "puts e [f] buf = memcpy_at (off - 0x7e00) (take w (reg_bytes val)) buf"
    using assms(1,2) by (simp add: put_law_def puts_def f)
  then show "puts e [f] buf = memcpy_at (snd (span f) - 0x7e00) (take (fst (span f)) (reg_bytes (snd (snd f)))) buf"
    by (simp add: f span_def)
  have l: "length (take w (reg_bytes val)) = w" using r by simp
  show "length (puts e [f] buf) = 512" unfolding p using r l assms(2) by (subst length_memcpy_at) auto
  show "saved (puts e [f] buf) f" unfolding p unfolding saved_def f
    using sub_buf_memcpy [of "off - 0x7e00" "take w (reg_bytes val)" buf] r l assms(2) by simp
qed

lemma put_other:
  assumes "put_law e" "length buf = 512" "in_area (span f)" "in_area s" "clear_of s (span f)"
  shows "sub_buf (snd s - 0x7e00) (fst s) (puts e [f] buf) = sub_buf (snd s - 0x7e00) (fst s) buf"
proof -
  obtain w off val where f: "f = (w, off, val)" by (cases f)
  obtain w' off' where s: "s = (w', off')" by (cases s)
  show ?thesis unfolding put_field(1) [OF assms(1-3)]
    using assms(2-5) by (intro sub_buf_other) (auto simp: f s span_def in_area_def clear_of_def)
qed

lemma puts_Cons: "puts e (f # fs) buf = puts e fs (puts e [f] buf)"
  by (simp add: puts_def)

lemma puts_append: "puts e (fs @ gs) buf = puts e gs (puts e fs buf)"
  by (simp add: puts_def)

lemma puts_other:
  assumes "put_law e" "length buf = 512" "list_all in_area (map span fs)" "in_area s" "list_all (clear_of s) (map span fs)"
  shows "sub_buf (snd s - 0x7e00) (fst s) (puts e fs buf) = sub_buf (snd s - 0x7e00) (fst s) buf"
  using assms
proof (induction fs arbitrary: buf)
  case (Cons f fs)
  then show ?case using put_field(2) [of e buf f] put_other [of e buf f s] by (subst puts_Cons) simp
qed (simp add: puts_def)

lemma puts_saved:
  assumes "put_law e" "length buf = 512" "list_all in_area (map span fs)" "apart (map span fs)"
  shows "length (puts e fs buf) = 512 \<and> list_all (saved (puts e fs buf)) fs"
  using assms
proof (induction fs arbitrary: buf)
  case (Cons f fs)
  let ?b = "puts e [f] buf"
  have b: "length ?b = 512" "saved ?b f" using put_field [of e buf f] Cons.prems by auto
  have "sub_buf (snd (span f) - 0x7e00) (fst (span f)) (puts e fs ?b) = sub_buf (snd (span f) - 0x7e00) (fst (span f)) ?b"
    using Cons.prems b by (intro puts_other) auto
  then have "saved (puts e fs ?b) f" using b(2) by (auto simp: saved_def span_def split: prod.splits)
  then show ?case using Cons b by (subst (1 2) puts_Cons) simp
qed (simp add: puts_def)

text \<open>All fields of a layout.\<close>

definition fields_32 :: "senv \<Rightarrow> svcpu \<Rightarrow> smfield list" where
  "fields_32 e c = state_fields_32 e c @ concat (map (seg_fields_32 c) [0..<6])
     @ [(4, 0x7f14, r_cr4 (rv c)), (4, 0x7efc, 0x00020000), (4, 0x7ef8, smbase c)]"

definition fields_64 :: "senv \<Rightarrow> svcpu \<Rightarrow> smfield list" where
  "fields_64 e c = state_fields_64 e c @ concat (map (seg_fields_64 c) [0..<6])"

lemma puts_concat: "fold (\<lambda>n. puts e (f n)) ns buf = puts e (concat (map f ns)) buf"
  by (induction ns arbitrary: buf) (simp_all add: puts_append, simp add: puts_def)

lemma save_32: "enter_smm_save_state_32 e c buf = puts e (fields_32 e c) buf"
  by (simp add: enter_smm_save_state_32_def fields_32_def Let_def puts_append puts_concat enter_smm_save_seg_32_def [abs_def])

lemma save_64: "enter_smm_save_state_64 e c buf = puts e (fields_64 e c) buf"
  by (simp add: enter_smm_save_state_64_def fields_64_def puts_append puts_concat enter_smm_save_seg_64_def [abs_def])

lemmas span_simps = span_def state_fields_32_def state_fields_64_def seg_fields_32_def seg_fields_64_def fields_32_def
  fields_64_def upt_rec Let_def

lemma layout_32: "list_all in_area (map span (fields_32 e c)) \<and> apart (map span (fields_32 e c))"
  by (simp add: span_simps in_area_def clear_of_def)

lemma layout_64: "list_all in_area (map span (fields_64 e c)) \<and> apart (map span (fields_64 e c))"
  by (simp add: span_simps in_area_def clear_of_def)

definition segments_distinct :: "senv \<Rightarrow> bool" where
  "segments_distinct e \<longleftrightarrow> SREG_CS e \<notin> {SREG_DS e, SREG_ES e, SREG_FS e, SREG_GS e, SREG_SS e}"

lemma smm_code_data: "segments_distinct e \<Longrightarrow> SREG_CS e \<noteq> SREG_DS e \<and> SREG_CS e \<noteq> SREG_ES e \<and> SREG_CS e \<noteq> SREG_FS e
    \<and> SREG_CS e \<noteq> SREG_GS e \<and> SREG_CS e \<noteq> SREG_SS e"
  by (simp add: segments_distinct_def)

lemmas smm_defs = kvm_smm_changed_def kvm_set_rflags_def kvm_set_rflags'_def s_request_def smm_segments_def
  kvm_set_segment_def Let_def


definition flat_seg :: kvm_segment where
  "flat_seg = smm_data_seg\<lparr>s_selector := 16\<rparr>"

definition intelS :: senv where
  "intelS = \<lparr>se_x = intelX, se_r = intelR, put_smstate = (\<lambda>w off val buf. memcpy_at (off - 0x7e00) (take w (reg_bytes val)) buf),
     vendor_enter_smm = (\<lambda>buf d. (buf, d)), vendor_set_efer = (\<lambda>x r. r\<lparr>efer := x\<rparr>), is_64_bit_mode = (\<lambda>_. True), has_lm = True,
     HF_SMM = 0x40, HF_SMM_INSIDE_NMI = 0x80, EFLAGS_FIXED = 2, EFLAGS_TF = 0x100, CR0_EM = 4, CR0_TS = 8,
     GUESTDBG_SINGLESTEP = 2, SREG_ES = 0, SREG_CS = 1, SREG_SS = 2, SREG_DS = 3, SREG_FS = 4, SREG_GS = 5, SREG_TR = 6, SREG_LDTR = 7\<rparr>"

definition freshS :: svcpu where
  "freshS = \<lparr>xv = freshX, rv = resetR, gprs = (\<lambda>i. of_nat i + 100), s_rip = 0x401000, hw_rflags = 0x202, smbase = 0x30000, hflags = 0,
     segs = (\<lambda>_. flat_seg), gdt = \<lparr>dt_size = 0x7f, dt_address = 0x1000\<rparr>, idt = \<lparr>dt_size = 0xfff, dt_address = 0x2000\<rparr>,
     nmi_masked = False, singlestep_rip = 0, guest_state_protected = False, guest_writes = []\<rparr>"

lemma put_law_intelS: "put_law intelS"
  by (simp add: put_law_def intelS_def)


end
