(* ===== verification/KvmEvents.thy ===== *)
theory KvmEvents
  imports KvmSmm
begin

unbundle bit_operations_syntax

text \<open>
  Events of a guest (\<^verbatim>\<open>kvm/x86.c\<close>): non-maskable, system management and external interrupts as they wait,
  the choice of the event that is injected at an entry to the guest, and the system calls that save and
  restore the state of all events.  Vendor callbacks, the interrupt controllers and the nested
  hypervisor are the parameter \<open>evenv\<close>; the state of the controllers is the opaque number \<open>irq_state\<close>.
\<close>

section \<open>State\<close>

text \<open>What is handed to the hardware: events, and windows that cause an exit when an event becomes possible.\<close>

datatype hw_event =
  HwException nat bool u32 | HwNmi | HwIrq nat | HwSmm
| SmiWindow | NmiWindow | IrqWindow | Cr8Intercept int int

record evcpu =
  sv :: svcpu
  nmi_pending :: nat
  nmi_injected :: bool
  int_injected :: bool
  int_nr :: nat
  int_soft :: bool
  smi_pending :: bool
  smi_requested :: bool
  smi_count :: nat
  pending_external_vector :: int
  int_shadow :: u8
  sipi_vector :: u32
  latched_init :: bool
  init_received :: bool
  irq_state :: nat
  request_interrupt_window :: bool
  run_if_flag :: bool
  run_cr8 :: u64
  run_apic_base :: u64
  run_ready :: bool
  run_smm :: bool
  hw :: "hw_event list"

text \<open>
  The callbacks that say whether an event may be injected return a positive number, zero or a negative
  error.  \<open>check_events\<close> and \<open>nested_triple_fault\<close> belong to the nested hypervisor.
\<close>

record evenv =
  ev_s :: senv
  EBUSY :: int
  EINVAL :: int
  ENXIO :: int
  EEXIST :: int
  smi_allowed :: "svcpu \<Rightarrow> int"
  nmi_allowed :: "svcpu \<Rightarrow> int"
  irq_allowed :: "svcpu \<Rightarrow> int"
  has_injectable_intr :: "nat \<Rightarrow> bool"
  get_interrupt :: "nat \<Rightarrow> nat \<times> nat"
  has_extint :: "nat \<Rightarrow> bool"
  apic_accept_pic_intr :: "nat \<Rightarrow> bool"
  find_highest_irr :: "nat \<Rightarrow> int"
  queue_interrupt :: "nat \<Rightarrow> bool \<Rightarrow> evcpu \<Rightarrow> evcpu"
  needs_reinjection :: "evcpu \<Rightarrow> bool"
  is_guest_mode :: "evcpu \<Rightarrow> bool"
  check_events :: "evcpu \<Rightarrow> int \<times> evcpu"
  nested_triple_fault :: "evcpu \<Rightarrow> evcpu"
  hv_timer_pending :: "(evcpu \<Rightarrow> bool) option"
  is_protmode :: "u64 \<Rightarrow> bool"
  exception_is_soft :: "nat \<Rightarrow> bool"
  is_smm :: "u32 \<Rightarrow> bool"
  irq_allowed_now :: "svcpu \<Rightarrow> bool"
  cr8_hook :: bool
  apicv_active :: bool
  vapic_addr :: bool
  irqchip_in_kernel :: bool
  pic_in_kernel :: bool
  apic_base :: u64
  exception_payload_enabled :: bool
  KVM_NR_INTERRUPTS :: nat
  GUESTDBG_BLOCKIRQ :: u64
  EFLAGS_RF :: u64
  EFLAGS_IF :: u64
  DR7_GD :: u64
  VALID_NMI_PENDING :: u32
  VALID_SIPI_VECTOR :: u32
  VALID_SHADOW :: u32
  VALID_SMM :: u32
  VALID_PAYLOAD :: u32

abbreviation xev :: "evcpu \<Rightarrow> exception_state" where
  "xev c \<equiv> exc (xv (sv c))"

definition e_request :: "req \<Rightarrow> evcpu \<Rightarrow> evcpu" where
  "e_request r c = c\<lparr>sv := s_request r (sv c)\<rparr>"

definition set_exc :: "exception_state \<Rightarrow> evcpu \<Rightarrow> evcpu" where
  "set_exc x c = c\<lparr>sv := (sv c)\<lparr>xv := (xv (sv c))\<lparr>exc := x\<rparr>\<rparr>\<rparr>"

definition to_hw :: "hw_event \<Rightarrow> evcpu \<Rightarrow> evcpu" where
  "to_hw ev c = c\<lparr>hw := hw c @ [ev]\<rparr>"

section \<open>Waiting interrupts\<close>

definition process_nmi :: "evcpu \<Rightarrow> evcpu" where
  "process_nmi c =
     (let limit = (if nmi_masked (sv c) \<or> nmi_injected c then 1 else 2);
          n = nmi_pending c + nmi_queued (xv (sv c))
      in e_request REQ_EVENT (c\<lparr>nmi_pending := min n limit, sv := (sv c)\<lparr>xv := (xv (sv c))\<lparr>nmi_queued := 0\<rparr>\<rparr>\<rparr>))"

definition process_smi :: "evcpu \<Rightarrow> evcpu" where
  "process_smi c = e_request REQ_EVENT (c\<lparr>smi_pending := True\<rparr>)"

definition kvm_vcpu_ioctl_nmi :: "evcpu \<Rightarrow> int \<times> evcpu" where
  "kvm_vcpu_ioctl_nmi c = (0, c\<lparr>sv := (sv c)\<lparr>xv := kvm_inject_nmi (xv (sv c))\<rparr>\<rparr>)"

definition kvm_vcpu_ioctl_smi :: "evcpu \<Rightarrow> int \<times> evcpu" where
  "kvm_vcpu_ioctl_smi c = (0, c\<lparr>smi_requested := True\<rparr>)"

definition kvm_vcpu_ioctl_interrupt :: "evenv \<Rightarrow> nat \<Rightarrow> evcpu \<Rightarrow> int \<times> evcpu" where
  "kvm_vcpu_ioctl_interrupt e irq c =
     (if irq \<ge> KVM_NR_INTERRUPTS e then (- EINVAL e, c)
      else if \<not> irqchip_in_kernel e then (0, e_request REQ_EVENT (queue_interrupt e irq False c))
      else if pic_in_kernel e then (- ENXIO e, c)
      else if pending_external_vector c \<noteq> -1 then (- EEXIST e, c)
      else (0, e_request REQ_EVENT (c\<lparr>pending_external_vector := int irq\<rparr>)))"

definition kvm_cpu_accept_dm_intr :: "evenv \<Rightarrow> evcpu \<Rightarrow> bool" where
  "kvm_cpu_accept_dm_intr e c \<longleftrightarrow>
     (if has_extint e (irq_state c) then False
      else \<not> renv.lapic_in_kernel (se_r (ev_s e)) \<or> apic_accept_pic_intr e (irq_state c))"

definition kvm_vcpu_ready_for_interrupt_injection :: "evenv \<Rightarrow> evcpu \<Rightarrow> bool" where
  "kvm_vcpu_ready_for_interrupt_injection e c \<longleftrightarrow>
     irq_allowed_now e (sv c) \<and> kvm_cpu_accept_dm_intr e c \<and> \<not> needs_reinjection e c \<and> \<not> pending (xev c)"

definition dm_request_for_irq_injection :: "evenv \<Rightarrow> evcpu \<Rightarrow> bool" where
  "dm_request_for_irq_injection e c \<longleftrightarrow> request_interrupt_window c \<and> \<not> pic_in_kernel e"

definition post_kvm_run_save :: "evenv \<Rightarrow> evcpu \<Rightarrow> evcpu" where
  "post_kvm_run_save e c =
     c\<lparr>run_if_flag := \<not> guest_state_protected (sv c) \<and> kvm_get_rflags (ev_s e) (sv c) AND EFLAGS_IF e \<noteq> 0,
       run_cr8 := kvm_get_cr8 (se_r (ev_s e)) (rv (sv c)), run_apic_base := apic_base e,
       run_ready := pic_in_kernel e \<or> kvm_vcpu_ready_for_interrupt_injection e c,
       run_smm := run_smm c \<or> is_smm e (hflags (sv c))\<rparr>"

definition update_cr8_intercept :: "evenv \<Rightarrow> evcpu \<Rightarrow> evcpu" where
  "update_cr8_intercept e c =
     (if \<not> cr8_hook e \<or> \<not> renv.lapic_in_kernel (se_r (ev_s e)) \<or> apicv_active e then c
      else
        let max_irr = (if \<not> vapic_addr e then find_highest_irr e (irq_state c) else -1);
            max_irr' = (if max_irr \<noteq> -1 then drop_bit 4 max_irr else max_irr);
            tpr = uint (lapic_cr8_of (se_r (ev_s e)) (tpr (rv (sv c))))
        in to_hw (Cr8Intercept tpr max_irr') c)"

section \<open>Injection\<close>

definition kvm_inject_exception :: "evenv \<Rightarrow> evcpu \<Rightarrow> evcpu" where
  "kvm_inject_exception e c =
     (let c1 = (if error_code (xev c) \<noteq> 0 \<and> \<not> is_protmode e (r_cr0 (rv (sv c))) then set_exc ((xev c)\<lparr>error_code := 0\<rparr>) c else c)
      in to_hw (HwException (nr (xev c1)) (has_error_code (xev c1)) (error_code (xev c1))) c1)"

definition kvm_check_nested_events :: "evenv \<Rightarrow> evcpu \<Rightarrow> int \<times> evcpu" where
  "kvm_check_nested_events e c =
     (if REQ_TRIPLE_FAULT \<in> requests (xv (sv c))
      then (1, nested_triple_fault e
                 (c\<lparr>sv := (sv c)\<lparr>xv := (xv (sv c))\<lparr>requests := requests (xv (sv c)) - {REQ_TRIPLE_FAULT}\<rparr>\<rparr>\<rparr>))
      else check_events e c)"

text \<open>Events whose delivery was interrupted; whether another event may still be injected.\<close>

definition reinject :: "evenv \<Rightarrow> evcpu \<Rightarrow> bool \<times> evcpu" where
  "reinject e c =
     (if injected (xev c) then (False, kvm_inject_exception e c)
      else if \<not> pending (xev c) then
        if nmi_injected c then (False, to_hw HwNmi c)
        else if int_injected c then (False, to_hw (HwIrq (int_nr c)) c)
        else (True, c)
      else (True, c))"

definition inject_new_exception :: "evenv \<Rightarrow> evcpu \<Rightarrow> evcpu" where
  "inject_new_exception e c =
     (let s = ev_s e;
          c1 = set_exc ((xev c)\<lparr>pending := False, injected := True\<rparr>) c;
          c2 = (if exception_type (se_x s) (nr (xev c1)) = EXCPT_FAULT
                then c1\<lparr>sv := kvm_set_rflags' s (kvm_get_rflags s (sv c1) OR EFLAGS_RF e) (sv c1)\<rparr> else c1);
          c3 = (if nr (xev c2) = DB_VECTOR (se_x s)
                then let d = c2\<lparr>sv := (sv c2)\<lparr>xv := kvm_deliver_exception_payload (se_x s) (xv (sv c2))\<rparr>\<rparr>;
                         r = rv (sv d)
                     in if r_dr7 r AND DR7_GD e \<noteq> 0
                        then d\<lparr>sv := (sv d)\<lparr>rv := kvm_update_dr7 (se_r s) (r\<lparr>r_dr7 := r_dr7 r AND NOT (DR7_GD e)\<rparr>)\<rparr>\<rparr>
                        else d
                else c2)
      in kvm_inject_exception e c3)"

text \<open>The three kinds of interrupts; \<open>Inl\<close> is the jump to the end with a result.\<close>

definition inject_smi :: "evenv \<Rightarrow> bool \<Rightarrow> evcpu \<Rightarrow> (int \<times> evcpu) + (bool \<times> evcpu)" where
  "inject_smi e can_inject c =
     (if \<not> smi_pending c then Inr (can_inject, c)
      else
        let r = (if can_inject then smi_allowed e (sv c) else - EBUSY e)
        in if r < 0 then Inl (r, c)
           else if r \<noteq> 0
           then Inr (False, to_hw HwSmm (c\<lparr>smi_pending := False, smi_count := smi_count c + 1, sv := enter_smm (ev_s e) (sv c)\<rparr>))
           else Inr (can_inject, to_hw SmiWindow c))"

definition inject_nmi :: "evenv \<Rightarrow> bool \<Rightarrow> evcpu \<Rightarrow> (int \<times> evcpu) + (bool \<times> evcpu)" where
  "inject_nmi e can_inject c =
     (if nmi_pending c = 0 then Inr (can_inject, c)
      else
        let r = (if can_inject then nmi_allowed e (sv c) else - EBUSY e)
        in if r < 0 then Inl (r, c)
           else
             let (can, c1) = (if r \<noteq> 0
                              then (False, to_hw HwNmi (c\<lparr>nmi_pending := nmi_pending c - 1, nmi_injected := True\<rparr>))
                              else (can_inject, c))
             in Inr (can, if nmi_pending c1 \<noteq> 0 then to_hw NmiWindow c1 else c1))"

definition inject_irq :: "evenv \<Rightarrow> bool \<Rightarrow> evcpu \<Rightarrow> (int \<times> evcpu) + (bool \<times> evcpu)" where
  "inject_irq e can_inject c =
     (if \<not> has_injectable_intr e (irq_state c) then Inr (can_inject, c)
      else
        let r = (if can_inject then irq_allowed e (sv c) else - EBUSY e)
        in if r < 0 then Inl (r, c)
           else
             let c1 = (if r \<noteq> 0
                       then let (v, q) = get_interrupt e (irq_state c);
                                d = queue_interrupt e v False (c\<lparr>irq_state := q\<rparr>)
                            in to_hw (HwIrq (int_nr d)) d
                       else c)
             in Inr (can_inject, if has_injectable_intr e (irq_state c1) then to_hw IrqWindow c1 else c1))"

text \<open>The label \<open>out\<close>: result, request for an immediate exit, state.\<close>

definition inject_out :: "evenv \<Rightarrow> int \<times> evcpu \<Rightarrow> int \<times> bool \<times> evcpu" where
  "inject_out e = (\<lambda>(r, c). if r = - EBUSY e then (0, True, c) else (r, False, c))"

definition inject_interrupts :: "evenv \<Rightarrow> bool \<Rightarrow> evcpu \<Rightarrow> int \<times> bool \<times> evcpu" where
  "inject_interrupts e can_inject c =
     (case inject_smi e can_inject c of
        Inl x \<Rightarrow> inject_out e x
      | Inr (can1, c1) \<Rightarrow>
          case inject_nmi e can1 c1 of
            Inl x \<Rightarrow> inject_out e x
          | Inr (can2, c2) \<Rightarrow>
              case inject_irq e can2 c2 of
                Inl x \<Rightarrow> inject_out e x
              | Inr (can3, c3) \<Rightarrow>
                  (0, is_guest_mode e c3 \<and> (case hv_timer_pending e of None \<Rightarrow> False | Some f \<Rightarrow> f c3), c3))"

definition inject_pending_event :: "evenv \<Rightarrow> evcpu \<Rightarrow> int \<times> bool \<times> evcpu" where
  "inject_pending_event e c =
     (let (can_inject, c1) = reinject e c;
          (r, c2) = (if is_guest_mode e c1 then kvm_check_nested_events e c1 else (0, c1))
      in if r < 0 then inject_out e (r, c2)
         else
           let (can, c3) = (if pending (xev c2) then (False, inject_new_exception e c2) else (can_inject, c2))
           in if guest_debug (rv (sv c3)) AND GUESTDBG_BLOCKIRQ e \<noteq> 0 then (0, False, c3)
              else inject_interrupts e can c3)"

section \<open>Saving and restoring\<close>

record vcpu_events =
  ve_injected :: bool
  ve_pending :: bool
  ve_nr :: nat
  ve_has_error_code :: bool
  ve_error_code :: u32
  ve_has_payload :: bool
  ve_payload :: u64
  ve_int_injected :: bool
  ve_int_nr :: nat
  ve_int_soft :: bool
  ve_shadow :: u8
  ve_nmi_injected :: bool
  ve_nmi_pending :: u8
  ve_nmi_masked :: bool
  ve_sipi_vector :: u32
  ve_smm :: u8
  ve_smi_pending :: bool
  ve_smm_inside_nmi :: bool
  ve_latched_init :: bool
  ve_flags :: u32

definition kvm_vcpu_ioctl_x86_get_vcpu_events :: "evenv \<Rightarrow> evcpu \<Rightarrow> vcpu_events \<times> evcpu" where
  "kvm_vcpu_ioctl_x86_get_vcpu_events e c =
     (let c1 = process_nmi c;
          c2 = (if smi_requested c1 then process_smi (c1\<lparr>smi_requested := False\<rparr>) else c1);
          c3 = (if \<not> exception_payload_enabled e \<and> pending (xev c2) \<and> has_payload (xev c2)
                then c2\<lparr>sv := (sv c2)\<lparr>xv := kvm_deliver_exception_payload (se_x (ev_s e)) (xv (sv c2))\<rparr>\<rparr> else c2);
          x = xev c3; soft = exception_is_soft e (nr x)
      in (\<lparr>ve_injected = \<not> soft \<and> (injected x \<or> \<not> exception_payload_enabled e \<and> pending x),
           ve_pending = \<not> soft \<and> pending x,
           ve_nr = nr x, ve_has_error_code = has_error_code x, ve_error_code = error_code x,
           ve_has_payload = has_payload x, ve_payload = payload x,
           ve_int_injected = int_injected c3 \<and> \<not> int_soft c3, ve_int_nr = int_nr c3, ve_int_soft = False,
           ve_shadow = int_shadow c3,
           ve_nmi_injected = nmi_injected c3, ve_nmi_pending = (if nmi_pending c3 \<noteq> 0 then 1 else 0),
           ve_nmi_masked = nmi_masked (sv c3), ve_sipi_vector = 0,
           ve_smm = (if is_smm e (hflags (sv c3)) then 1 else 0), ve_smi_pending = smi_pending c3,
           ve_smm_inside_nmi = (hflags (sv c3) AND HF_SMM_INSIDE_NMI (ev_s e) \<noteq> 0),
           ve_latched_init = latched_init c3,
           ve_flags = (VALID_NMI_PENDING e OR VALID_SHADOW e OR VALID_SMM e)
             OR (if exception_payload_enabled e then VALID_PAYLOAD e else 0)\<rparr>, c3))"

text \<open>The checks come first; \<open>None\<close> is a refusal, otherwise the result is the corrected request.\<close>

definition check_vcpu_events :: "evenv \<Rightarrow> vcpu_events \<Rightarrow> evcpu \<Rightarrow> vcpu_events option" where
  "check_vcpu_events e v c =
     (if ve_flags v AND NOT (VALID_NMI_PENDING e OR VALID_SIPI_VECTOR e OR VALID_SHADOW e OR VALID_SMM e OR VALID_PAYLOAD e) \<noteq> 0
      then None
      else if ve_flags v AND VALID_PAYLOAD e \<noteq> 0 \<and> \<not> exception_payload_enabled e then None
      else
        let v1 = (if ve_flags v AND VALID_PAYLOAD e \<noteq> 0
                  then if ve_pending v then v\<lparr>ve_injected := False\<rparr> else v\<lparr>ve_has_payload := False\<rparr>
                  else v\<lparr>ve_pending := False, ve_has_payload := False\<rparr>)
        in if (ve_injected v1 \<or> ve_pending v1) \<and> (ve_nr v1 > 31 \<or> ve_nr v1 = NMI_VECTOR (se_x (ev_s e))) then None
           else if ve_flags v1 AND VALID_SMM e \<noteq> 0 \<and> (ve_smm v1 \<noteq> 0 \<or> ve_smi_pending v1) \<and> init_received c then None
           else Some v1)"

definition restore_smm :: "evenv \<Rightarrow> vcpu_events \<Rightarrow> evcpu \<Rightarrow> evcpu" where
  "restore_smm e v c =
     (let s = ev_s e;
          c1 = (if (if hflags (sv c) AND HF_SMM s \<noteq> 0 then 1 else 0) \<noteq> ve_smm v
                then c\<lparr>sv := kvm_smm_changed s (ve_smm v \<noteq> 0) (sv c)\<rparr> else c);
          c2 = c1\<lparr>smi_pending := ve_smi_pending v\<rparr>;
          c3 = (if ve_smm v \<noteq> 0
                then c2\<lparr>sv := (sv c2)\<lparr>hflags := (if ve_smm_inside_nmi v then hflags (sv c2) OR HF_SMM_INSIDE_NMI s
                       else hflags (sv c2) AND NOT (HF_SMM_INSIDE_NMI s))\<rparr>\<rparr> else c2)
      in if renv.lapic_in_kernel (se_r s) then c3\<lparr>latched_init := ve_latched_init v\<rparr> else c3)"

text \<open>Exception, interrupt and NMI of a checked request.\<close>

definition restore_events :: "evenv \<Rightarrow> vcpu_events \<Rightarrow> evcpu \<Rightarrow> evcpu" where
  "restore_events e v c =
     (let c1 = process_nmi c;
          c2 = set_exc ((xev c1)\<lparr>injected := ve_injected v, pending := ve_pending v, nr := ve_nr v,
                 has_error_code := ve_has_error_code v, error_code := ve_error_code v,
                 has_payload := ve_has_payload v, payload := ve_payload v\<rparr>) c1;
          c3 = c2\<lparr>int_injected := ve_int_injected v, int_nr := ve_int_nr v, int_soft := ve_int_soft v\<rparr>;
          c4 = (if ve_flags v AND VALID_SHADOW e \<noteq> 0 then c3\<lparr>int_shadow := ve_shadow v\<rparr> else c3);
          c5 = c4\<lparr>nmi_injected := ve_nmi_injected v\<rparr>;
          c6 = (if ve_flags v AND VALID_NMI_PENDING e \<noteq> 0 then c5\<lparr>nmi_pending := unat (ve_nmi_pending v)\<rparr> else c5);
          c7 = c6\<lparr>sv := (sv c6)\<lparr>nmi_masked := ve_nmi_masked v\<rparr>\<rparr>
      in if ve_flags v AND VALID_SIPI_VECTOR e \<noteq> 0 \<and> renv.lapic_in_kernel (se_r (ev_s e))
         then c7\<lparr>sipi_vector := ve_sipi_vector v\<rparr> else c7)"

definition kvm_vcpu_ioctl_x86_set_vcpu_events :: "evenv \<Rightarrow> vcpu_events \<Rightarrow> evcpu \<Rightarrow> int \<times> evcpu" where
  "kvm_vcpu_ioctl_x86_set_vcpu_events e events c =
     (case check_vcpu_events e events c of
        None \<Rightarrow> (- EINVAL e, c)
      | Some v \<Rightarrow>
          let c1 = restore_events e v c;
              c2 = (if ve_flags v AND VALID_SMM e \<noteq> 0 then restore_smm e v c1 else c1)
          in (0, e_request REQ_EVENT c2))"

section \<open>The choice of the event\<close>

definition is_event :: "hw_event \<Rightarrow> bool" where
  "is_event h \<longleftrightarrow> (case h of HwException _ _ _ \<Rightarrow> True | HwNmi \<Rightarrow> True | HwIrq _ \<Rightarrow> True | HwSmm \<Rightarrow> True | _ \<Rightarrow> False)"

definition delivered :: "evcpu \<Rightarrow> hw_event list" where
  "delivered c = filter is_event (hw c)"

definition block_irq :: "evenv \<Rightarrow> evcpu \<Rightarrow> bool" where
  "block_irq e c \<longleftrightarrow> guest_debug (rv (sv c)) AND GUESTDBG_BLOCKIRQ e \<noteq> 0"

text \<open>What is injected by priority; a callback with an error stops the search.\<close>

definition next_interrupt :: "evenv \<Rightarrow> evcpu \<Rightarrow> hw_event list" where
  "next_interrupt e c =
     (if smi_pending c \<and> smi_allowed e (sv c) \<noteq> 0 then if smi_allowed e (sv c) > 0 then [HwSmm] else []
      else if nmi_pending c \<noteq> 0 \<and> nmi_allowed e (sv c) \<noteq> 0 then if nmi_allowed e (sv c) > 0 then [HwNmi] else []
      else if has_injectable_intr e (irq_state c) \<and> irq_allowed e (sv c) > 0
      then [HwIrq (fst (get_interrupt e (irq_state c)))] else [])"

definition next_event :: "evenv \<Rightarrow> evcpu \<Rightarrow> hw_event list" where
  "next_event e c =
     (if injected (xev c) \<or> pending (xev c)
      then [HwException (nr (xev c)) (has_error_code (xev c)) (if is_protmode e (r_cr0 (rv (sv c))) then error_code (xev c) else 0)]
      else if nmi_injected c then [HwNmi] else if int_injected c then [HwIrq (int_nr c)]
      else if block_irq e c then [] else next_interrupt e c)"

text \<open>The hypotheses on the parameters: outside a nested guest, and the queue of one interrupt of a header.\<close>

definition env_laws :: "evenv \<Rightarrow> bool" where
  "env_laws e \<longleftrightarrow> 0 < EBUSY e \<and> (\<forall>c. \<not> is_guest_mode e c)
     \<and> (\<forall>v s c. queue_interrupt e v s c = c\<lparr>int_injected := True, int_soft := s, int_nr := v\<rparr>)"

lemma delivered_hw [simp]: "delivered (to_hw h c) = delivered c @ (if is_event h then [h] else [])"
  by (simp add: delivered_def to_hw_def)

lemma to_hw_keeps [simp]:
  "sv (to_hw h c) = sv c" "smi_pending (to_hw h c) = smi_pending c" "nmi_pending (to_hw h c) = nmi_pending c"
  "irq_state (to_hw h c) = irq_state c" "nmi_injected (to_hw h c) = nmi_injected c" "int_injected (to_hw h c) = int_injected c"
  "int_nr (to_hw h c) = int_nr c"
  by (simp_all add: to_hw_def)

lemma delivered_upd [simp]:
  "delivered (c\<lparr>sv := s\<rparr>) = delivered c" "delivered (c\<lparr>smi_pending := b\<rparr>) = delivered c"
  "delivered (c\<lparr>nmi_pending := n\<rparr>) = delivered c" "delivered (c\<lparr>smi_count := n\<rparr>) = delivered c"
  "delivered (c\<lparr>nmi_injected := b\<rparr>) = delivered c" "delivered (c\<lparr>irq_state := n\<rparr>) = delivered c"
  "delivered (c\<lparr>int_injected := b\<rparr>) = delivered c" "delivered (c\<lparr>int_soft := b\<rparr>) = delivered c"
  "delivered (c\<lparr>int_nr := n\<rparr>) = delivered c" "delivered (set_exc x c) = delivered c"
  by (simp_all add: delivered_def set_exc_def)

lemma is_event_simps [simp]:
  "is_event (HwException n h x)" "is_event HwNmi" "is_event (HwIrq n)" "is_event HwSmm"
  "\<not> is_event SmiWindow" "\<not> is_event NmiWindow" "\<not> is_event IrqWindow"
  by (simp_all add: is_event_def)

lemma set_exc_xev [simp]: "xev (set_exc x c) = x" "rv (sv (set_exc x c)) = rv (sv c)"
  by (simp_all add: set_exc_def)

lemma inject_exception_hw:
  "delivered (kvm_inject_exception e c) = delivered c
     @ [HwException (nr (xev c)) (has_error_code (xev c)) (if is_protmode e (r_cr0 (rv (sv c))) then error_code (xev c) else 0)]"
  by (simp add: kvm_inject_exception_def Let_def)

lemma inject_exception_keeps:
  "pending (xev (kvm_inject_exception e c)) = pending (xev c)" "rv (sv (kvm_inject_exception e c)) = rv (sv c)"
  by (simp_all add: kvm_inject_exception_def Let_def)

lemma payload_keeps:
  "nr (exc (kvm_deliver_exception_payload e x)) = nr (exc x)" "pending (exc (kvm_deliver_exception_payload e x)) = pending (exc x)"
  "has_error_code (exc (kvm_deliver_exception_payload e x)) = has_error_code (exc x)"
  "error_code (exc (kvm_deliver_exception_payload e x)) = error_code (exc x)"
  "injected (exc (kvm_deliver_exception_payload e x)) = injected (exc x)"
  by (simp_all add: kvm_deliver_exception_payload_def Let_def)

lemma update_dr7_keeps: "r_cr0 (kvm_update_dr7 r d) = r_cr0 d" "guest_debug (kvm_update_dr7 r d) = guest_debug d"
  by (simp_all add: kvm_update_dr7_def Let_def)

lemma new_exception:
  "delivered (inject_new_exception e c) = delivered c
     @ [HwException (nr (xev c)) (has_error_code (xev c)) (if is_protmode e (r_cr0 (rv (sv c))) then error_code (xev c) else 0)]"
  "\<not> pending (xev (inject_new_exception e c))" "guest_debug (rv (sv (inject_new_exception e c))) = guest_debug (rv (sv c))"
  by (simp_all add: inject_new_exception_def Let_def inject_exception_hw inject_exception_keeps payload_keeps update_dr7_keeps
      kvm_set_rflags'_def)

text \<open>With an event already on its way no further one is injected.\<close>

lemma interrupts_blocked:
  assumes "env_laws e"
  shows "delivered (snd (snd (inject_interrupts e False c))) = delivered c"
  using assms by (simp add: inject_interrupts_def inject_smi_def inject_nmi_def inject_irq_def inject_out_def env_laws_def)

lemma interrupts_free:
  assumes "env_laws e"
  shows "delivered (snd (snd (inject_interrupts e True c))) = delivered c @ next_interrupt e c"
  using assms by (auto simp: inject_interrupts_def inject_smi_def inject_nmi_def inject_irq_def inject_out_def env_laws_def
      next_interrupt_def Let_def case_prod_unfold)

text \<open>
  C28 (refinement).  Outside a nested guest, an entry hands to the hardware exactly the event
  that the priorities select, and never two: an exception, new or interrupted in its delivery, comes before
  an interrupted NMI, an interrupted interrupt, a system management interrupt, a waiting NMI and an
  external interrupt, where a debugger can hold back the last three and a callback can forbid each.
\<close>

theorem inject_priority:
  assumes "env_laws e" "\<not> (injected (xev c) \<and> pending (xev c))"
  shows "delivered (snd (snd (inject_pending_event e c))) = delivered c @ next_event e c \<and> length (next_event e c) \<le> 1"
proof -
  have g: "\<not> is_guest_mode e d" for d using assms(1) by (simp add: env_laws_def)
  have "delivered (snd (snd (inject_pending_event e c))) = delivered c @ next_event e c"
  proof (cases "injected (xev c) \<or> pending (xev c)")
    case True
    then show ?thesis using assms interrupts_blocked [OF assms(1)]
      by (auto simp: inject_pending_event_def reinject_def g next_event_def inject_exception_hw inject_exception_keeps new_exception Let_def)
  next
    case False
    then show ?thesis using interrupts_blocked [OF assms(1)] interrupts_free [OF assms(1)]
      by (auto simp: inject_pending_event_def reinject_def g next_event_def block_irq_def Let_def)
  qed
  then show ?thesis by (simp add: next_event_def next_interrupt_def)
qed

section \<open>No waiting event is forgotten\<close>

text \<open>A waiting event of each kind has its window in the list.\<close>

definition windows_open :: "evenv \<Rightarrow> evcpu \<Rightarrow> bool" where
  "windows_open e c \<longleftrightarrow> (smi_pending c \<longrightarrow> SmiWindow \<in> set (hw c)) \<and> (nmi_pending c \<noteq> 0 \<longrightarrow> NmiWindow \<in> set (hw c))
     \<and> (has_injectable_intr e (irq_state c) \<longrightarrow> IrqWindow \<in> set (hw c))"

lemma hw_to_hw [simp]: "hw (to_hw h c) = hw c @ [h]"
  by (simp add: to_hw_def)

lemma inject_smi_window:
  assumes "inject_smi e can c = Inr (can', c')"
  shows "smi_pending c' \<longrightarrow> SmiWindow \<in> set (hw c')"
  using assms by (auto simp: inject_smi_def Let_def split: if_splits)

lemma inject_nmi_window:
  assumes "inject_nmi e can c = Inr (can', c')"
  shows "nmi_pending c' \<noteq> 0 \<longrightarrow> NmiWindow \<in> set (hw c')" "set (hw c) \<subseteq> set (hw c')" "smi_pending c' = smi_pending c"
    "irq_state c' = irq_state c"
  using assms by (auto simp: inject_nmi_def Let_def split: if_splits)

lemma inject_irq_window:
  assumes "inject_irq e can c = Inr (can', c')" "env_laws e"
  shows "has_injectable_intr e (irq_state c') \<longrightarrow> IrqWindow \<in> set (hw c')" "set (hw c) \<subseteq> set (hw c')"
    "smi_pending c' = smi_pending c" "nmi_pending c' = nmi_pending c"
  using assms by (auto simp: inject_irq_def env_laws_def Let_def case_prod_unfold split: if_splits)

lemma interrupts_windows:
  assumes "env_laws e" "inject_interrupts e can c = (r, imm, c')" "0 \<le> r"
  shows "imm \<or> windows_open e c'"
proof (cases "inject_smi e can c")
  case (Inl x)
  moreover have "fst x < 0" using Inl by (auto simp: inject_smi_def Let_def split: if_splits)
  ultimately show ?thesis using assms by (auto simp: inject_interrupts_def inject_out_def split: if_splits prod.splits)
next
  case (Inr x)
  then obtain can1 c1 where s: "inject_smi e can c = Inr (can1, c1)" by (cases x) simp
  show ?thesis
  proof (cases "inject_nmi e can1 c1")
    case (Inl x)
    moreover have "fst x < 0" using Inl by (auto simp: inject_nmi_def Let_def split: if_splits)
    ultimately show ?thesis using assms s by (auto simp: inject_interrupts_def inject_out_def split: if_splits prod.splits)
  next
    case (Inr x)
    then obtain can2 c2 where n: "inject_nmi e can1 c1 = Inr (can2, c2)" by (cases x) simp
    show ?thesis
    proof (cases "inject_irq e can2 c2")
      case (Inl x)
      moreover have "fst x < 0" using Inl by (auto simp: inject_irq_def Let_def split: if_splits)
      ultimately show ?thesis using assms s n by (auto simp: inject_interrupts_def inject_out_def split: if_splits prod.splits)
    next
      case (Inr x)
      then obtain can3 where i: "inject_irq e can2 c2 = Inr (can3, c')"
        using assms(2) s n by (cases x) (simp add: inject_interrupts_def)
      then show ?thesis
        using inject_smi_window [OF s] inject_nmi_window [OF n] inject_irq_window [OF i assms(1)]
        unfolding windows_open_def by auto
    qed
  qed
qed

text \<open>
  C29 (liveness).  After an entry that succeeds without a debugger holding interrupts
  back, either an immediate exit is requested or every kind of interrupt that is still waiting has had its
  window opened during this entry, so that the processor comes back for it.
\<close>

theorem no_event_forgotten:
  assumes "env_laws e" "inject_pending_event e c = (r, imm, c')" "0 \<le> r" "\<not> block_irq e c" "hw c = []"
  shows "imm \<or> windows_open e c'"
proof -
  have g: "\<not> is_guest_mode e d" for d using assms(1) by (simp add: env_laws_def)
  obtain can c1 where r1: "reinject e c = (can, c1)" by fastforce
  have d1: "guest_debug (rv (sv c1)) = guest_debug (rv (sv c))"
    using r1 inject_exception_keeps(2) [of e c] by (auto simp: reinject_def split: if_splits)
  define c3 where "c3 = (if pending (xev c1) then inject_new_exception e c1 else c1)"
  have d3: "guest_debug (rv (sv c3)) = guest_debug (rv (sv c))" using d1 new_exception(3) [of e c1] by (simp add: c3_def)
  then have "inject_pending_event e c = inject_interrupts e (if pending (xev c1) then False else can) c3"
    using assms(4) by (cases "pending (xev c1)") (simp_all add: inject_pending_event_def r1 g block_irq_def c3_def Let_def)
  then show ?thesis using interrupts_windows [OF assms(1) _ assms(3)] assms(2) by metis
qed

section \<open>Migration\<close>

lemma mask_lemmas:
  fixes h m n :: u32
  shows "(h OR m) AND m = m" "(h AND NOT m AND NOT n) AND m = 0" "(h AND NOT m AND NOT n) AND n = 0"
    "(h AND NOT n) AND n = 0" "m AND n = 0 \<Longrightarrow> (h OR n) AND m = h AND m" "m AND n = 0 \<Longrightarrow> (h AND NOT n) AND m = h AND m"
    "m AND n = 0 \<Longrightarrow> (h OR m) AND n = h AND n"
proof -
  show "(h OR m) AND m = m" "(h AND NOT m AND NOT n) AND m = 0" "(h AND NOT m AND NOT n) AND n = 0" "(h AND NOT n) AND n = 0"
    by (rule bit_word_eqI, auto simp: bit_simps)+
  assume d: "m AND n = 0"
  then have "\<not> (bit m i \<and> bit n i)" for i by (metis bit_and_iff bit_0_eq bot_apply bot_bool_def)
  then show "(h OR n) AND m = h AND m" "(h AND NOT n) AND m = h AND m" "(h OR m) AND n = h AND n"
    by (rule_tac bit_word_eqI, auto simp: bit_simps dest: bit_imp_le_length)+
qed

text \<open>The flags of the interface and of a processor are distinct bits.\<close>

definition flags_ok :: "evenv \<Rightarrow> bool" where
  "flags_ok e \<longleftrightarrow> VALID_NMI_PENDING e \<noteq> 0 \<and> VALID_SHADOW e \<noteq> 0 \<and> VALID_SMM e \<noteq> 0 \<and> VALID_PAYLOAD e \<noteq> 0
     \<and> VALID_SIPI_VECTOR e AND (((VALID_NMI_PENDING e OR VALID_SHADOW e) OR VALID_SMM e) OR VALID_PAYLOAD e) = 0
     \<and> HF_SMM (ev_s e) \<noteq> 0 \<and> HF_SMM_INSIDE_NMI (ev_s e) \<noteq> 0 \<and> HF_SMM (ev_s e) AND HF_SMM_INSIDE_NMI (ev_s e) = 0
     \<and> (\<forall>h. is_smm e h \<longleftrightarrow> h AND HF_SMM (ev_s e) \<noteq> 0)"

definition in_smm :: "evenv \<Rightarrow> evcpu \<Rightarrow> bool" where
  "in_smm e c \<longleftrightarrow> hflags (sv c) AND HF_SMM (ev_s e) \<noteq> 0"

definition inside_nmi :: "evenv \<Rightarrow> evcpu \<Rightarrow> bool" where
  "inside_nmi e c \<longleftrightarrow> hflags (sv c) AND HF_SMM_INSIDE_NMI (ev_s e) \<noteq> 0"

text \<open>
  A processor whose events the interface can carry: no software exception or interrupt, a vector of an
  exception, a payload only with a pending exception, and the record of NMIs only in the mode it belongs to.
\<close>

definition portable :: "evenv \<Rightarrow> evcpu \<Rightarrow> bool" where
  "portable e c \<longleftrightarrow> \<not> exception_is_soft e (nr (xev c)) \<and> \<not> int_soft c \<and> \<not> (injected (xev c) \<and> pending (xev c))
     \<and> (injected (xev c) \<or> pending (xev c) \<longrightarrow> nr (xev c) \<le> 31 \<and> nr (xev c) \<noteq> NMI_VECTOR (se_x (ev_s e)))
     \<and> (has_payload (xev c) \<longrightarrow> pending (xev c)) \<and> (inside_nmi e c \<longrightarrow> in_smm e c)"

definition same_events :: "evenv \<Rightarrow> evcpu \<Rightarrow> evcpu \<Rightarrow> bool" where
  "same_events e c d \<longleftrightarrow> xev d = (xev c)\<lparr>nested_apf := nested_apf (xev d)\<rparr>
     \<and> int_injected d = int_injected c \<and> int_nr d = int_nr c \<and> int_soft d = int_soft c \<and> int_shadow d = int_shadow c
     \<and> nmi_injected d = nmi_injected c \<and> nmi_masked (sv d) = nmi_masked (sv c) \<and> nmi_pending d = min 1 (nmi_pending c)
     \<and> in_smm e d = in_smm e c \<and> inside_nmi e d = inside_nmi e c \<and> smi_pending d = smi_pending c
     \<and> latched_init d = latched_init c"

lemma restore_smm_result:
  assumes "flags_ok e" "renv.lapic_in_kernel (se_r (ev_s e))" "inside_nmi e c \<longrightarrow> in_smm e c"
    "ve_smm v = (if m then 1 else 0)" "ve_smm_inside_nmi v \<longrightarrow> m"
  shows "in_smm e (restore_smm e v c) = m" "inside_nmi e (restore_smm e v c) = ve_smm_inside_nmi v"
    "smi_pending (restore_smm e v c) = ve_smi_pending v" "latched_init (restore_smm e v c) = ve_latched_init v"
    "xev (restore_smm e v c) = xev c" "nmi_masked (sv (restore_smm e v c)) = nmi_masked (sv c)"
    "int_injected (restore_smm e v c) = int_injected c" "int_nr (restore_smm e v c) = int_nr c"
    "int_soft (restore_smm e v c) = int_soft c" "int_shadow (restore_smm e v c) = int_shadow c"
    "nmi_injected (restore_smm e v c) = nmi_injected c" "nmi_pending (restore_smm e v c) = nmi_pending c"
proof -
  note f = assms(1) [unfolded flags_ok_def]
  show "in_smm e (restore_smm e v c) = m" "inside_nmi e (restore_smm e v c) = ve_smm_inside_nmi v"
    using f assms(2-5) by (auto simp: restore_smm_def kvm_smm_changed_def s_request_def in_smm_def inside_nmi_def Let_def mask_lemmas)
qed (use assms(2) in \<open>auto simp: restore_smm_def kvm_smm_changed_def s_request_def make_request_def Let_def\<close>)

lemma process_keeps:
  "xev (process_nmi c) = xev c" "int_soft (process_nmi c) = int_soft c" "hflags (sv (process_nmi c)) = hflags (sv c)"
  "xev (process_smi c) = xev c" "int_soft (process_smi c) = int_soft c" "hflags (sv (process_smi c)) = hflags (sv c)"
  by (simp_all add: process_nmi_def process_smi_def e_request_def s_request_def make_request_def Let_def)

lemma get_events_state:
  assumes "exception_payload_enabled e" "kvm_vcpu_ioctl_x86_get_vcpu_events e c = (v, c')"
  shows "xev c' = xev c" "int_soft c' = int_soft c" "hflags (sv c') = hflags (sv c)"
  using assms by (auto simp: kvm_vcpu_ioctl_x86_get_vcpu_events_def process_keeps Let_def split: if_splits)

text \<open>What the first call reports.\<close>

lemma get_events_report:
  assumes "exception_payload_enabled e" "kvm_vcpu_ioctl_x86_get_vcpu_events e c = (v, c')"
  shows "ve_injected v = (\<not> exception_is_soft e (nr (xev c')) \<and> injected (xev c'))"
    "ve_pending v = (\<not> exception_is_soft e (nr (xev c')) \<and> pending (xev c'))" "ve_nr v = nr (xev c')"
    "ve_has_error_code v = has_error_code (xev c')" "ve_error_code v = error_code (xev c')"
    "ve_has_payload v = has_payload (xev c')" "ve_payload v = payload (xev c')"
    "ve_int_injected v = (int_injected c' \<and> \<not> int_soft c')" "ve_int_nr v = int_nr c'" "ve_int_soft v = False"
    "ve_shadow v = int_shadow c'" "ve_nmi_injected v = nmi_injected c'" "ve_nmi_masked v = nmi_masked (sv c')"
    "ve_nmi_pending v = (if nmi_pending c' \<noteq> 0 then 1 else 0)"
    "ve_smm v = (if is_smm e (hflags (sv c')) then 1 else 0)" "ve_smi_pending v = smi_pending c'"
    "ve_smm_inside_nmi v = inside_nmi e c'" "ve_latched_init v = latched_init c'"
    "ve_flags v = ((VALID_NMI_PENDING e OR VALID_SHADOW e) OR VALID_SMM e) OR VALID_PAYLOAD e"
  using assms by (auto simp: kvm_vcpu_ioctl_x86_get_vcpu_events_def Let_def inside_nmi_def ac_simps)

lemma restore_events_result:
  assumes "ve_flags v AND VALID_NMI_PENDING e \<noteq> 0" "ve_flags v AND VALID_SHADOW e \<noteq> 0" "c1 = restore_events e v c"
  shows "xev c1 = (xev c)\<lparr>injected := ve_injected v, pending := ve_pending v, nr := ve_nr v,
      has_error_code := ve_has_error_code v, error_code := ve_error_code v, has_payload := ve_has_payload v, payload := ve_payload v\<rparr>"
    "int_injected c1 = ve_int_injected v" "int_nr c1 = ve_int_nr v" "int_soft c1 = ve_int_soft v" "int_shadow c1 = ve_shadow v"
    "nmi_injected c1 = ve_nmi_injected v" "nmi_pending c1 = unat (ve_nmi_pending v)" "nmi_masked (sv c1) = ve_nmi_masked v"
    "hflags (sv c1) = hflags (sv c)"
  using assms by (simp_all add: restore_events_def set_exc_def process_keeps Let_def)

text \<open>The request written by the first call passes the checks of the second.\<close>

lemma own_events_pass:
  assumes "flags_ok e" "exception_payload_enabled e" "portable e c" "\<not> init_received d"
    and g: "kvm_vcpu_ioctl_x86_get_vcpu_events e c = (v, c')"
  shows "check_vcpu_events e v d = Some v"
proof -
  note x = get_events_report [OF assms(2) g, unfolded get_events_state(1) [OF assms(2) g]]
  have "ve_flags v AND NOT (VALID_NMI_PENDING e OR VALID_SIPI_VECTOR e OR VALID_SHADOW e OR VALID_SMM e OR VALID_PAYLOAD e) = 0"
    unfolding x by (rule bit_word_eqI) (auto simp: bit_simps)
  moreover have "ve_flags v AND VALID_PAYLOAD e \<noteq> 0"
    unfolding x mask_lemmas(1) using assms(1) by (simp add: flags_ok_def)
  ultimately show ?thesis using assms(2-4) x(1-3,6) unfolding check_vcpu_events_def portable_def
    by (cases "pending (xev c)") (auto simp: Let_def)
qed


text \<open>An exception in real mode: the error code is cleared, but the flag that announces one stays set.\<close>

lemma real_mode_error_code:
  assumes "injected (xev c)" "has_error_code (xev c)" "\<not> is_protmode e (r_cr0 (rv (sv c)))"
  shows "delivered (snd (reinject e c)) = delivered c @ [HwException (nr (xev c)) True 0]"
  using assms by (simp add: reinject_def inject_exception_hw)

text \<open>Two waiting NMIs are saved as one.\<close>

lemma second_nmi_lost:
  assumes "nmi_pending c = 2" "nmi_queued (xv (sv c)) = 0" "\<not> nmi_masked (sv c)" "\<not> nmi_injected c"
  shows "nmi_pending (snd (kvm_vcpu_ioctl_x86_get_vcpu_events e c)) = 2
    \<and> ve_nmi_pending (fst (kvm_vcpu_ioctl_x86_get_vcpu_events e c)) = 1"
  using assms by (simp add: kvm_vcpu_ioctl_x86_get_vcpu_events_def process_nmi_def process_smi_def e_request_def Let_def)

section \<open>Witnesses\<close>

definition intelE :: evenv where
  "intelE = \<lparr>ev_s = intelS\<lparr>se_r := intelR\<lparr>renv.lapic_in_kernel := True\<rparr>\<rparr>, EBUSY = 16, EINVAL = 22, ENXIO = 6, EEXIST = 17,
     smi_allowed = (\<lambda>_. 0), nmi_allowed = (\<lambda>_. 1), irq_allowed = (\<lambda>_. 1), has_injectable_intr = (\<lambda>q. q \<noteq> 0),
     get_interrupt = (\<lambda>q. (32, q - 1)), has_extint = (\<lambda>_. False), apic_accept_pic_intr = (\<lambda>_. True), find_highest_irr = (\<lambda>_. -1),
     queue_interrupt = (\<lambda>v s c. c\<lparr>int_injected := True, int_soft := s, int_nr := v\<rparr>),
     needs_reinjection = (\<lambda>c. injected (xev c) \<or> int_injected c \<or> nmi_injected c), is_guest_mode = (\<lambda>_. False),
     check_events = (\<lambda>c. (0, c)), nested_triple_fault = (\<lambda>c. c), hv_timer_pending = None, is_protmode = (\<lambda>x. x AND 1 \<noteq> 0),
     exception_is_soft = (\<lambda>n. n = 3 \<or> n = 4), is_smm = (\<lambda>h. h AND 0x40 \<noteq> 0), irq_allowed_now = (\<lambda>_. True), cr8_hook = False,
     apicv_active = False, vapic_addr = False, irqchip_in_kernel = True, pic_in_kernel = False, apic_base = 0xfee00900,
     exception_payload_enabled = True, KVM_NR_INTERRUPTS = 256, GUESTDBG_BLOCKIRQ = 0x100000, EFLAGS_RF = 0x10000, EFLAGS_IF = 0x200,
     DR7_GD = 0x2000, VALID_NMI_PENDING = 1, VALID_SIPI_VECTOR = 2, VALID_SHADOW = 4, VALID_SMM = 8, VALID_PAYLOAD = 16\<rparr>"

text \<open>A system management interrupt, an NMI and an external interrupt are waiting.\<close>

definition waitingE :: evcpu where
  "waitingE = \<lparr>sv = freshS, nmi_pending = 1, nmi_injected = False, int_injected = False, int_nr = 0, int_soft = False,
     smi_pending = True, smi_requested = False, smi_count = 0, pending_external_vector = -1, int_shadow = 0, sipi_vector = 0,
     latched_init = False, init_received = False, irq_state = 2, request_interrupt_window = False, run_if_flag = False,
     run_cr8 = 0, run_apic_base = 0, run_ready = False, run_smm = False, hw = []\<rparr>"

lemma intelE_laws: "env_laws intelE"
  by (simp add: env_laws_def intelE_def)

theorem inject_priority_witness:
  "delivered (snd (snd (inject_pending_event intelE waitingE))) = [HwNmi]"
proof -
  have "\<not> (injected (xev waitingE) \<and> pending (xev waitingE))" by (simp add: waitingE_def freshS_def freshX_def)
  from inject_priority [OF intelE_laws this] show ?thesis
    by (simp add: next_event_def next_interrupt_def block_irq_def delivered_def waitingE_def freshS_def freshX_def intelE_def resetR_def)
qed

theorem no_event_forgotten_witness:
  "fst (snd (inject_pending_event intelE waitingE)) \<or> windows_open intelE (snd (snd (inject_pending_event intelE waitingE)))"
proof -
  have "0 \<le> fst (inject_pending_event intelE waitingE)"
    by (simp add: inject_pending_event_def reinject_def inject_interrupts_def inject_smi_def inject_nmi_def inject_irq_def
        inject_out_def waitingE_def freshS_def freshX_def intelE_def resetR_def to_hw_def Let_def)
  moreover have "\<not> block_irq intelE waitingE" "hw waitingE = []"
    by (simp_all add: block_irq_def waitingE_def freshS_def intelE_def resetR_def)
  moreover obtain r imm c' where "inject_pending_event intelE waitingE = (r, imm, c')" by (rule prod_cases3)
  ultimately show ?thesis using no_event_forgotten [OF intelE_laws] by simp
qed


end
