(* ===== verification/Rsa.thy ===== *)
theory Rsa
  imports Prelude Complex_Main
begin

unbundle bit_operations_syntax

text \<open>
  The RSA routines of the introspection host (\<^verbatim>\<open>rsa.h\<close>, of which \<^verbatim>\<open>rsa.c\<close> is the stand-alone
  copy with a key generating \<^verbatim>\<open>main\<close>): modular exponentiation, the Jacobi symbol and the
  Solovay-Strassen test, random primes and exponents, the extended Euclidean inverse, reading a
  file into padded blocks, and the encoding of messages.  The values of \<^verbatim>\<open>rand()\<close> are a parameter:
  \<open>rnd i\<close> is the \<open>i\<close>-th value drawn, and every routine that draws returns the index of the next
  one.  Overflow of a signed operation, division by zero and access outside a block are \<^term>\<open>None\<close>.
\<close>

section \<open>Modular exponentiation\<close>

function modpowLoop :: "int \<Rightarrow> int \<Rightarrow> int \<Rightarrow> int \<Rightarrow> int option" where
  "modpowLoop res a b c =
     (if b > 0
      then do {
        res' \<leftarrow> (if b AND 1 \<noteq> 0 then do { t \<leftarrow> i64 (res * a); crem t c } else Some res);
        t \<leftarrow> i64 (a * a);
        a' \<leftarrow> crem t c;
        modpowLoop res' a' (drop_bit 1 b) c
      }
      else Some res)"
  by pat_completeness auto
termination
  by (relation "measure (\<lambda>(res, a, b, c). nat b)") (auto simp: drop_bit_eq_div)

definition modpow :: "int \<Rightarrow> int \<Rightarrow> int \<Rightarrow> int option" where
  "modpow a b c = modpowLoop 1 a b c"

section \<open>The Jacobi symbol and the primality test\<close>

text \<open>
  \<open>while(a % 2 == 0 && ++twos) a /= 2\<close>: the loop is entered with \<open>a > 1\<close> only, so the case
  \<open>a = 0\<close>, in which it would not end, does not occur.
\<close>

function stripTwos :: "int \<Rightarrow> int \<Rightarrow> int \<times> int" where
  "stripTwos a twos =
     (if a smod 2 = 0 \<and> a \<noteq> 0 then stripTwos (a sdiv 2) (twos + 1) else (a, twos))"
  by pat_completeness auto
termination
  by (relation "measure (\<lambda>(a, twos). nat \<bar>a\<bar>)")
    (auto simp: signed_divide_int_def sgn_if abs_if)

declare stripTwos.simps [simp del]

lemma stripTwos_rec:
  "0 < a \<Longrightarrow> stripTwos a t = (if even a then stripTwos (a div 2) (t + 1) else (a, t))"
  by (subst stripTwos.simps) (simp add: smod_nonneg sdiv_nonneg even_iff_mod_2_eq_zero)

lemma stripTwos_pos:
  "0 < a \<Longrightarrow> 0 < fst (stripTwos a t) \<and> fst (stripTwos a t) \<le> a \<and> odd (fst (stripTwos a t))"
proof (induction "nat a" arbitrary: a t rule: less_induct)
  case less
  show ?case
  proof (cases "even a")
    case True
    with less.prems have "0 < a div 2" "a div 2 < a" by auto
    then show ?thesis
      using less.hyps [of "a div 2" "t + 1"] stripTwos_rec [OF less.prems, of t] True by simp
  qed (use stripTwos_rec [OF less.prems, of t] less.prems in simp)
qed

definition jacobiFlip :: "int \<Rightarrow> int \<Rightarrow> int \<Rightarrow> int" where
  "jacobiFlip twos n mult =
     (if twos > 0 \<and> twos smod 2 = 1
      then mult * ((if n smod 8 = 1 \<or> n smod 8 = 7 then 1 else 0) * 2 - 1) else mult)"

function jacobiLoop :: "int \<Rightarrow> int \<Rightarrow> int \<Rightarrow> (int \<times> int) option" where
  "jacobiLoop a n mult =
     (if a > 1 \<and> a \<noteq> n
      then do {
        a1 \<leftarrow> crem a n;
        if a1 \<le> 1 \<or> a1 = n then Some (a1, mult)
        else
          let (a2, twos) = stripTwos a1 0;
              mult1 = jacobiFlip twos n mult
          in if a2 \<le> 1 \<or> a2 = n then Some (a2, mult1)
             else jacobiLoop n a2 (if n smod 4 \<noteq> 1 \<and> a2 smod 4 \<noteq> 1 then - mult1 else mult1)
      }
      else Some (a, mult))"
  by pat_completeness auto
termination
proof (relation "measure (\<lambda>(a, n, mult). nat \<bar>n\<bar>)", goal_cases)
  case (2 a n mult a1 x a2 twos mult1)
  then have "\<bar>a1\<bar> < \<bar>n\<bar>" "1 < a1"
    using smod_int_range [of n a] by (auto simp: crem_def split: if_splits)
  moreover have "0 < a2" "a2 \<le> a1"
    using stripTwos_pos [of a1 0] 2(4,5) \<open>1 < a1\<close> by (cases "stripTwos a1 0", simp)+
  ultimately show ?case by simp
qed simp

definition jacobi :: "int \<Rightarrow> int \<Rightarrow> int option" where
  "jacobi a n =
     do {
       (a', mult) \<leftarrow> jacobiLoop a n 1;
       Some (if a' = 0 then 0 else if a' = 1 then mult else 0)
     }"

definition solovayPrime :: "int \<Rightarrow> int \<Rightarrow> int option" where
  "solovayPrime a n =
     do {
       x \<leftarrow> jacobi a n;
       let x' = (if x = -1 then n - 1 else x);
       if x' = 0 then Some 0
       else do {
         m \<leftarrow> modpow a ((n - 1) sdiv 2) n;
         Some (if m = x' then 1 else 0)
       }
     }"

fun primeTests :: "(nat \<Rightarrow> int) \<Rightarrow> nat \<Rightarrow> int \<Rightarrow> nat \<Rightarrow> (int \<times> nat) option" where
  "primeTests rnd i n 0 = Some (1, i)"
| "primeTests rnd i n (Suc k) =
     do {
       r \<leftarrow> crem (rnd i) (n - 2);
       s \<leftarrow> solovayPrime (r + 2) n;
       if s = 0 then Some (0, i + 1) else primeTests rnd (i + 1) n k
     }"

definition probablePrime :: "(nat \<Rightarrow> int) \<Rightarrow> nat \<Rightarrow> int \<Rightarrow> int \<Rightarrow> (int \<times> nat) option" where
  "probablePrime rnd i n k =
     (if n = 2 then Some (1, i)
      else if n smod 2 = 0 \<or> n = 1 then Some (0, i)
      else primeTests rnd i n (nat k))"

text \<open>The endless loop of \<open>randPrime\<close>: \<^term>\<open>None\<close> is also the value of a run that never returns.\<close>

definition ACCURACY :: int where
  "ACCURACY = 5"

partial_function (option) randPrimeLoop ::
  "(nat \<Rightarrow> int) \<Rightarrow> nat \<Rightarrow> int \<Rightarrow> int \<Rightarrow> (int \<times> nat) option" where
  "randPrimeLoop rnd i prime n =
     Option.bind (probablePrime rnd i prime ACCURACY) (\<lambda>(r, j).
       if r \<noteq> 0 then Some (prime, j)
       else Option.bind (crem (prime + 2) n) (\<lambda>prime'. randPrimeLoop rnd j prime' n))"

definition randPrime :: "(nat \<Rightarrow> int) \<Rightarrow> nat \<Rightarrow> int \<Rightarrow> (int \<times> nat) option" where
  "randPrime rnd i n =
     do {
       prime \<leftarrow> crem (rnd i) n;
       let n' = n + n smod 2;
       let prime' = prime + (1 - prime smod 2);
       randPrimeLoop rnd (i + 1) prime' n'
     }"

section \<open>Greatest common divisor, exponents and inverses\<close>

function gcdC :: "int \<Rightarrow> int \<Rightarrow> int" where
  "gcdC a b = (if b \<noteq> 0 then gcdC b (a smod b) else a)"
  by pat_completeness auto
termination
proof (relation "measure (\<lambda>(a, b). nat \<bar>b\<bar>)")
  fix a b :: int
  assume "b \<noteq> 0"
  then show "((b, a smod b), a, b) \<in> measure (\<lambda>(a, b). nat \<bar>b\<bar>)"
    using smod_int_range [of b a] by auto
qed simp

declare gcdC.simps [simp del]

partial_function (option) randExponentLoop :: "int \<Rightarrow> int \<Rightarrow> int \<Rightarrow> int option" where
  "randExponentLoop e phi n =
     (if gcdC e phi = 1 then Some e
      else Option.bind (crem (e + 1) n) (\<lambda>e'. randExponentLoop (if e' \<le> 2 then 3 else e') phi n))"

definition randExponent :: "(nat \<Rightarrow> int) \<Rightarrow> nat \<Rightarrow> int \<Rightarrow> int \<Rightarrow> (int \<times> nat) option" where
  "randExponent rnd i phi n =
     do {
       e \<leftarrow> crem (rnd i) n;
       e' \<leftarrow> randExponentLoop e phi n;
       Some (e', i + 1)
     }"

text \<open>All four coefficients are kept, as in the code, each product and difference inside \<open>int\<close>.\<close>

function inverseLoop :: "int \<Rightarrow> int \<Rightarrow> int \<Rightarrow> int \<Rightarrow> int \<Rightarrow> int \<Rightarrow> int option" where
  "inverseLoop a b x y x0 y0 =
     (if b \<noteq> 0
      then do {
        let q = a sdiv b;
        qx \<leftarrow> i32 (q * x);
        x' \<leftarrow> i32 (x0 - qx);
        qy \<leftarrow> i32 (q * y);
        y' \<leftarrow> i32 (y0 - qy);
        inverseLoop b (a smod b) x' y' x y
      }
      else Some x0)"
  by pat_completeness auto
termination
proof (relation "measure (\<lambda>(a, b, x, y, x0, y0). nat \<bar>b\<bar>)", goal_cases)
  case (2 a b x y x0 y0 q qx x' qy y')
  then show ?case using smod_int_range [of b a] by auto
qed simp

declare inverseLoop.simps [simp del]

definition inverse :: "int \<Rightarrow> int \<Rightarrow> int option" where
  "inverse n modulus =
     do {
       x0 \<leftarrow> inverseLoop n modulus 0 1 1 0;
       if x0 < 0 then i32 (x0 + modulus) else Some x0
     }"

section \<open>Reading a message\<close>

definition BUF_SIZE :: nat where
  "BUF_SIZE = 1024"

text \<open>
  \<open>fill\<close> is the content of fresh heap memory.  The file is the list of the bytes still to be read;
  \<open>fread\<close> delivers \<open>BUF_SIZE\<close> of them, or what is left.  The loop returns the buffer, its capacity
  and the number of bytes stored.
\<close>

definition realloc :: "(nat \<Rightarrow> u8) \<Rightarrow> u8 list \<Rightarrow> nat \<Rightarrow> u8 list" where
  "realloc fill b n = take n b @ map fill [length b..<n]"

function readLoop ::
  "(nat \<Rightarrow> u8) \<Rightarrow> u8 list \<Rightarrow> u8 list \<Rightarrow> nat \<Rightarrow> nat \<Rightarrow> (u8 list \<times> nat \<times> nat) option" where
  "readLoop fill fd buffer cap len =
     (let buf = take BUF_SIZE fd; r = length buf
      in if r > 0
         then do {
           let cap' = (if len + r \<ge> cap then cap * 2 else cap);
           let buffer' = (if len + r \<ge> cap then realloc fill buffer cap' else buffer);
           buffer'' \<leftarrow> buf_write buffer' len buf;
           readLoop fill (drop BUF_SIZE fd) buffer'' cap' (len + r)
         }
         else Some (buffer, cap, len))"
  by pat_completeness auto
termination
  by (relation "measure (\<lambda>(fill, fd, buffer, cap, len). length fd)") (auto simp: BUF_SIZE_def)

declare readLoop.simps [simp del]

function padLoop :: "u8 list \<Rightarrow> nat \<Rightarrow> nat \<Rightarrow> (u8 list \<times> nat) option" where
  "padLoop buffer len bytes =
     (if bytes = 0 then None
      else do {
        buffer' \<leftarrow> buf_write buffer len [0];
        if (len + 1) mod bytes \<noteq> 0 then padLoop buffer' (len + 1) bytes else Some (buffer', len + 1)
      })"
  by pat_completeness auto
termination
proof (relation "measure (\<lambda>(buffer, len, bytes). bytes - len mod bytes)", goal_cases)
  case (2 buffer len bytes b)
  then have "(len + 1) mod bytes = len mod bytes + 1" by (simp add: mod_Suc split: if_splits)
  then show ?case using 2 by (simp add: diff_less_mono2)
qed simp

declare padLoop.simps [simp del]

definition readFile :: "(nat \<Rightarrow> u8) \<Rightarrow> u8 list \<Rightarrow> nat \<Rightarrow> (u8 list \<times> nat) option" where
  "readFile fill fd bytes =
     do {
       (buffer, cap, len) \<leftarrow> readLoop fill fd (realloc fill [] BUF_SIZE) BUF_SIZE 0;
       if bytes = 0 then None
       else
         let buffer' = (if len + bytes - len mod bytes > cap
                        then realloc fill buffer (len + bytes - len mod bytes) else buffer)
         in padLoop buffer' len bytes
     }"

section \<open>Encoding messages\<close>

definition encode :: "int \<Rightarrow> int \<Rightarrow> int \<Rightarrow> int option" where
  "encode m e n = modpow m e n"

definition decode :: "int \<Rightarrow> int \<Rightarrow> int \<Rightarrow> int option" where
  "decode c d n = modpow c d n"

text \<open>\<open>char\<close> is signed on the target, so a byte is read with its sign.\<close>

fun packLoop :: "u8 list \<Rightarrow> nat \<Rightarrow> nat \<Rightarrow> nat \<Rightarrow> int \<Rightarrow> int option" where
  "packLoop message i j 0 x = Some x"
| "packLoop message i j (Suc k) x =
     do {
       c \<leftarrow> buf_read message (i + j) 1;
       s \<leftarrow> (if 7 * j < 31 then Some (2 ^ (7 * j)) else None);
       t \<leftarrow> i32 (sint (hd c) * s);
       x' \<leftarrow> i32 (x + t);
       packLoop message i (j + 1) k x'
     }"

function encodeLoop ::
  "nat \<Rightarrow> nat \<Rightarrow> u8 list \<Rightarrow> int \<Rightarrow> int \<Rightarrow> nat \<Rightarrow> int list \<Rightarrow> int list option" where
  "encodeLoop len bytes message ex modulus i encoded =
     (if bytes = 0 then None
      else if i < len
      then do {
        x \<leftarrow> packLoop message i 0 bytes 0;
        c \<leftarrow> encode x ex modulus;
        encoded' \<leftarrow> buf_write encoded (i div bytes) [c];
        encodeLoop len bytes message ex modulus (i + bytes) encoded'
      }
      else Some encoded)"
  by pat_completeness auto
termination
  by (relation "measure (\<lambda>(len, bytes, message, ex, modulus, i, encoded). len - i)") auto

declare encodeLoop.simps [simp del]

text \<open>\<open>fill\<close> is the content of the fresh arrays; zero \<open>bytes\<close> is a division by zero.\<close>

definition encodeMessage ::
  "(nat \<Rightarrow> int) \<Rightarrow> nat \<Rightarrow> nat \<Rightarrow> u8 list \<Rightarrow> int \<Rightarrow> int \<Rightarrow> int list option" where
  "encodeMessage fill len bytes message ex modulus =
     encodeLoop len bytes message ex modulus 0 (map fill [0..<len div bytes])"

fun unpackLoop :: "int \<Rightarrow> nat \<Rightarrow> nat \<Rightarrow> nat \<Rightarrow> int list \<Rightarrow> int list option" where
  "unpackLoop x pos j 0 decoded = Some decoded"
| "unpackLoop x pos j (Suc k) decoded =
     do {
       s \<leftarrow> (if 7 * j < 32 then Some (drop_bit (7 * j) x) else None);
       decoded' \<leftarrow> buf_write decoded (pos + j) [s smod 128];
       unpackLoop x pos (j + 1) k decoded'
     }"

fun decodeLoop ::
  "nat \<Rightarrow> nat \<Rightarrow> int list \<Rightarrow> int \<Rightarrow> int \<Rightarrow> nat \<Rightarrow> int list \<Rightarrow> int list option" where
  "decodeLoop 0 bytes cryptogram ex modulus i decoded = Some decoded"
| "decodeLoop (Suc k) bytes cryptogram ex modulus i decoded =
     do {
       c \<leftarrow> buf_read cryptogram i 1;
       x \<leftarrow> decode (hd c) ex modulus;
       decoded' \<leftarrow> unpackLoop x (i * bytes) 0 bytes decoded;
       decodeLoop k bytes cryptogram ex modulus (i + 1) decoded'
     }"

definition decodeMessage ::
  "(nat \<Rightarrow> int) \<Rightarrow> nat \<Rightarrow> nat \<Rightarrow> int list \<Rightarrow> int \<Rightarrow> int \<Rightarrow> int list option" where
  "decodeMessage fill len bytes cryptogram ex modulus =
     decodeLoop len bytes cryptogram ex modulus 0 (map fill [0..<len * bytes])"

section \<open>Key generation\<close>

definition SINGLE_MAX :: int where
  "SINGLE_MAX = 10000"

definition EXPONENT_MAX :: int where
  "EXPONENT_MAX = 1000"

record rsaKey =
  modulusN :: int
  blockBytes :: nat
  expE :: int
  expD :: int

partial_function (option) pickPrimes :: "(nat \<Rightarrow> int) \<Rightarrow> nat \<Rightarrow> (int \<times> int \<times> nat) option" where
  "pickPrimes rnd i =
     Option.bind (randPrime rnd i SINGLE_MAX) (\<lambda>(p, j).
     Option.bind (randPrime rnd j SINGLE_MAX) (\<lambda>(q, k).
     Option.bind (i32 (p * q)) (\<lambda>n.
       if n < 128 then pickPrimes rnd k else Some (p, q, k))))"

definition keygen :: "(nat \<Rightarrow> int) \<Rightarrow> nat \<Rightarrow> (rsaKey \<times> nat) option" where
  "keygen rnd i =
     do {
       (p, q, j) \<leftarrow> pickPrimes rnd i;
       let n = p * q;
       let bytes = (if drop_bit 21 n \<noteq> 0 then 3 else if drop_bit 14 n \<noteq> 0 then 2 else 1);
       phi \<leftarrow> i32 ((p - 1) * (q - 1));
       (e, k) \<leftarrow> randExponent rnd j phi EXPONENT_MAX;
       d \<leftarrow> inverse e phi;
       Some (\<lparr>modulusN = n, blockBytes = bytes, expE = e, expD = d\<rparr>, k)
     }"

text \<open>The whole program: generate a key, read the file, encode it, decode the cryptogram.\<close>

definition rsaMain ::
  "(nat \<Rightarrow> int) \<Rightarrow> (nat \<Rightarrow> u8) \<Rightarrow> (nat \<Rightarrow> int) \<Rightarrow> u8 list \<Rightarrow> (int list \<times> int list) option" where
  "rsaMain rnd fill ifill file =
     do {
       (key, i) \<leftarrow> keygen rnd 0;
       (buffer, len) \<leftarrow> readFile fill file (blockBytes key);
       encoded \<leftarrow> encodeMessage ifill len (blockBytes key) buffer (expE key) (modulusN key);
       decoded \<leftarrow> decodeMessage ifill (len div blockBytes key) (blockBytes key) encoded
         (expD key) (modulusN key);
       Some (encoded, decoded)
     }"

section \<open>Modular exponentiation computes powers\<close>

declare modpowLoop.simps [simp del]

lemma i64_prod:
  assumes "0 \<le> x" "x < 2 ^ 31" "0 \<le> y" "y < 2 ^ 31"
  shows "i64 (x * y) = Some (x * y)"
proof -
  have "x * y \<le> 2 ^ 31 * 2 ^ 31" using assms by (intro mult_mono) auto
  moreover have "0 \<le> x * y" using assms by simp
  ultimately show ?thesis by (intro i64_fits) simp
qed

lemma modpowLoop_eq:
  assumes "0 \<le> res" "res < c" "0 \<le> a" "a < 2 ^ 31" "c < 2 ^ 31" "0 \<le> b"
  shows "modpowLoop res a b c = Some (res * a ^ nat b mod c)"
  using assms
proof (induction "nat b" arbitrary: b res a rule: less_induct)
  case less
  show ?case
  proof (cases "b = 0")
    case True
    with less.prems show ?thesis by (simp add: modpowLoop.simps)
  next
    case False
    with less.prems have b: "0 < b" by simp
    from less.prems have c: "0 < c" "res < 2 ^ 31" by auto
    have ia: "i64 (a * a) = Some (a * a)" "i64 (res * a) = Some (res * a)"
      using less.prems c by (auto intro: i64_prod)
    let ?a = "a * a mod c" and ?b = "b div 2"
    let ?res = "if odd b then res * a mod c else res"
    have "?a < c" using c by simp
    then have a: "0 \<le> ?a" "?a < 2 ^ 31" using c less.prems(5) by (simp, linarith)
    have r: "0 \<le> ?res" "?res < c" using c less.prems by auto
    have "modpowLoop res a b c = modpowLoop ?res ?a ?b c"
      using b c ia less.prems
      by (subst modpowLoop.simps) (auto simp: and_one_eq odd_iff_mod_2_eq_one drop_bit_eq_div)
    also have "\<dots> = Some (?res * ?a ^ nat ?b mod c)"
      by (rule less.hyps) (use b less.prems a r in \<open>auto simp: nat_less_iff\<close>)
    also have "?res * ?a ^ nat ?b mod c = res * a ^ nat b mod c"
    proof -
      have "nat b = 2 * nat ?b + (if odd b then 1 else 0)"
        using b by (cases "even b") (auto elim!: oddE evenE simp: nat_add_distrib nat_mult_distrib)
      then have "a ^ nat b = (a * a) ^ nat ?b * (if odd b then a else 1)"
        by (simp add: power_add power_mult power2_eq_square)
      moreover have "r * ?a ^ k mod c = r * (a * a) ^ k mod c" for r k
        by (metis mod_mult_right_eq power_mod)
      ultimately show ?thesis
        by (simp add: mod_simps ac_simps)
    qed
    finally show ?thesis .
  qed
qed

lemma modpow_eq:
  assumes "0 \<le> a" "a < 2 ^ 31" "0 \<le> b" "1 < c" "c < 2 ^ 31"
  shows "modpow a b c = Some (a ^ nat b mod c)"
  using modpowLoop_eq [of 1 c a b] assms by (simp add: modpow_def)

section \<open>Greatest common divisor and inverse\<close>

lemma gcdC_eq: "0 \<le> a \<Longrightarrow> 0 \<le> b \<Longrightarrow> gcdC a b = gcd a b"
proof (induction a b rule: gcdC.induct)
  case (1 a b)
  show ?case
  proof (cases "b = 0")
    case True
    with 1 show ?thesis by (simp add: gcdC.simps)
  next
    case False
    with 1 show ?thesis
      by (subst gcdC.simps) (simp add: smod_nonneg gcd_red_int [of a b])
  qed
qed

text \<open>
  The invariant of the extended Euclidean loop: the two Bezout equations, and the conserved sums
  that bound all four coefficients (the signs of the two columns alternate).
\<close>

definition euclidInv :: "int \<Rightarrow> int \<Rightarrow> int \<Rightarrow> int \<Rightarrow> int \<Rightarrow> int \<Rightarrow> int \<Rightarrow> int \<Rightarrow> int \<Rightarrow> bool" where
  "euclidInv n m s a b x y x0 y0 \<longleftrightarrow>
     0 < a \<and> 0 \<le> b \<and> \<bar>s\<bar> = 1 \<and>
     a = x0 * n + y0 * m \<and> b = x * n + y * m \<and> gcd a b = gcd n m \<and>
     0 \<le> s * x0 \<and> s * x \<le> 0 \<and> s * y0 \<le> 0 \<and> 0 \<le> s * y \<and>
     a * (- (s * x)) + b * (s * x0) = m \<and> a * (s * y) + b * (- (s * y0)) = n"

lemma coeff_bound:
  assumes "0 < a" "0 \<le> b" "0 \<le> x" "0 \<le> y" "a * x + b * y = (m :: int)"
  shows "x \<le> m"
proof -
  have "x * 1 \<le> x * a" using assms by (intro mult_left_mono) auto
  then have "x \<le> a * x" by (simp add: mult.commute)
  moreover have "0 \<le> b * y" using assms by simp
  ultimately show ?thesis using assms(5) by linarith
qed

lemma euclidInv_step:
  assumes inv: "euclidInv n m s a b x y x0 y0" and b: "0 < b"
  shows "euclidInv n m (- s) b (a mod b) (x0 - a div b * x) (y0 - a div b * y) x y"
proof -
  note i = inv [unfolded euclidInv_def]
  let ?q = "a div b"
  have q: "0 \<le> ?q" using i b by (simp add: pos_imp_zdiv_nonneg_iff)
  have ab: "a mod b = a - ?q * b" by (simp add: minus_div_mult_eq_mod)
  have "gcd a b = gcd n m" using i by blast
  then have g: "gcd b (a mod b) = gcd n m" by (metis gcd_red_int)
  have qs: "0 \<le> ?q * (- (s * x))" "0 \<le> ?q * (s * y)"
    by (rule mult_nonneg_nonneg [OF q]; use i in simp)+
  have sums: "b * (s * (x0 - ?q * x)) + (a mod b) * (- (s * x)) = m"
    "b * (- (s * (y0 - ?q * y))) + (a mod b) * (s * y) = n"
    using i unfolding ab by (auto simp: algebra_simps)
  have bez: "a mod b = (x0 - ?q * x) * n + (y0 - ?q * y) * m"
    unfolding ab using i by (auto simp: algebra_simps)
  have "\<bar>- s\<bar> = 1" "0 \<le> a mod b" using i b by auto
  moreover have "- s * (x0 - ?q * x) \<le> 0" "0 \<le> - s * (y0 - ?q * y)"
    using i qs by (auto simp: algebra_simps)
  moreover have "0 \<le> - s * x" "- s * y \<le> 0" using i by auto
  ultimately show ?thesis
    unfolding euclidInv_def using i b g bez sums by (simp add: algebra_simps)
qed

lemma euclidInv_bounds:
  assumes inv: "euclidInv n m s a b x y x0 y0"
  shows "\<bar>x\<bar> \<le> m" "\<bar>y\<bar> \<le> n"
proof -
  note i = inv [unfolded euclidInv_def]
  have "- (s * x) \<le> m" by (rule coeff_bound [of a b _ "s * x0"]) (use i in auto)
  moreover have "s * y \<le> n" by (rule coeff_bound [of a b _ "- (s * y0)"]) (use i in auto)
  moreover have "s * x \<le> 0" "0 \<le> s * y" "s = 1 \<or> s = - 1" using i by auto
  ultimately show "\<bar>x\<bar> \<le> m" "\<bar>y\<bar> \<le> n" by auto
qed

lemma euclidInv_products:
  assumes inv: "euclidInv n m s a b x y x0 y0" and b: "0 < b"
  shows "\<bar>a div b * x\<bar> \<le> m" "\<bar>a div b * y\<bar> \<le> n"
proof -
  note i = inv [unfolded euclidInv_def]
  have q: "0 \<le> a div b" using i b by (simp add: pos_imp_zdiv_nonneg_iff)
  have "\<bar>x0 - a div b * x\<bar> \<le> m" "\<bar>y0 - a div b * y\<bar> \<le> n"
    using euclidInv_bounds [OF euclidInv_step [OF inv b]] by auto
  moreover have "s = 1 \<or> s = - 1" "0 \<le> s * x0" "s * x \<le> 0" "s * y0 \<le> 0" "0 \<le> s * y"
    using i by auto
  then have "(0 \<le> x0 \<and> a div b * x \<le> 0) \<or> (x0 \<le> 0 \<and> 0 \<le> a div b * x)"
    "(0 \<le> y0 \<and> a div b * y \<le> 0) \<or> (y0 \<le> 0 \<and> 0 \<le> a div b * y)"
    using q by (auto simp: mult_nonneg_nonpos)
  ultimately show "\<bar>a div b * x\<bar> \<le> m" "\<bar>a div b * y\<bar> \<le> n" by linarith+
qed

lemma inverseLoop_eq:
  assumes "euclidInv n m s a b x y x0 y0" "\<bar>x0\<bar> \<le> m" "n < 2 ^ 31" "m < 2 ^ 31"
  shows "\<exists>u v. inverseLoop a b x y x0 y0 = Some u \<and> u * n + v * m = gcd n m \<and> \<bar>u\<bar> \<le> m"
  using assms
proof (induction "nat b" arbitrary: s a b x y x0 y0 rule: less_induct)
  case less
  note i = less.prems(1) [unfolded euclidInv_def]
  show ?case
  proof (cases "b = 0")
    case True
    then have "inverseLoop a b x y x0 y0 = Some x0" by (simp add: inverseLoop.simps)
    moreover have "x0 * n + y0 * m = gcd n m" using i True by auto
    ultimately show ?thesis using less.prems(2) by blast
  next
    case False
    with i have b: "0 < b" by simp
    let ?x = "x0 - a div b * x" and ?y = "y0 - a div b * y"
    have st: "euclidInv n m (- s) b (a mod b) ?x ?y x y" by (rule euclidInv_step [OF less.prems(1) b])
    note bd = euclidInv_bounds [OF less.prems(1)] euclidInv_bounds [OF st]
      euclidInv_products [OF less.prems(1) b]
    have "inverseLoop a b x y x0 y0 = inverseLoop b (a mod b) ?x ?y x y"
      using b i bd less.prems(3,4)
      by (subst inverseLoop.simps) (simp add: i32_fits smod_nonneg sdiv_nonneg Let_def)
    moreover have "nat (a mod b) < nat b" using b by simp
    ultimately show ?thesis
      using less.hyps [OF _ st bd(1) less.prems(3,4)] by simp
  qed
qed

lemma inverse_eq:
  assumes "0 < n" "n < 2 ^ 31" "1 < m" "m < 2 ^ 31" "coprime n m"
  shows "\<exists>d. inverse n m = Some d \<and> 0 \<le> d \<and> d \<le> m \<and> (n * d) mod m = 1"
proof -
  have "euclidInv n m 1 n m 0 1 1 0" using assms by (simp add: euclidInv_def)
  then obtain u v where u: "inverseLoop n m 0 1 1 0 = Some u" "u * n + v * m = 1" "\<bar>u\<bar> \<le> m"
    using inverseLoop_eq [of n m 1 n m 0 1 1 0] assms by auto
  let ?d = "if u < 0 then u + m else u"
  have "inverse n m = Some ?d" using u assms by (simp add: inverse_def i32_fits)
  moreover have "(n * ?d) mod m = 1"
  proof -
    have "n * ?d = 1 + m * ((if u < 0 then n else 0) - v)" using u(2) by (auto simp: algebra_simps)
    then show ?thesis using assms(3) by (simp add: mod_mult_self2)
  qed
  ultimately show ?thesis using u(3) by auto
qed

section \<open>Primes and the RSA identity\<close>

definition is_prime :: "nat \<Rightarrow> bool" where
  "is_prime p \<longleftrightarrow> 1 < p \<and> (\<forall>d. d dvd p \<longrightarrow> d = 1 \<or> d = p)"

lemma is_prime_coprime: "is_prime p \<Longrightarrow> \<not> p dvd a \<Longrightarrow> coprime p a"
  unfolding is_prime_def coprime_iff_gcd_eq_1 by (metis gcd_dvd1 gcd_dvd2)

lemma is_prime_dvd_mult: "is_prime p \<Longrightarrow> p dvd a * b \<Longrightarrow> p dvd a \<or> p dvd b"
  using is_prime_coprime coprime_dvd_mult_right_iff by blast

lemma is_prime_dvd_fact: "is_prime p \<Longrightarrow> p dvd fact k \<Longrightarrow> p \<le> k"
proof (induction k)
  case 0
  then show ?case by (simp add: is_prime_def)
next
  case (Suc k)
  then have "p dvd Suc k \<or> p dvd fact k" using is_prime_dvd_mult [of p "Suc k" "fact k"] by simp
  then show ?case using Suc by (auto dest: dvd_imp_le)
qed

lemma is_prime_dvd_choose:
  assumes "is_prime p" "0 < k" "k < p"
  shows "p dvd (p choose k)"
proof -
  have "fact k * fact (p - k) * (p choose k) = (fact p :: nat)"
    using binomial_fact_lemma [of k p] assms by simp
  moreover have "p dvd (fact p :: nat)" using assms by (intro dvd_fact) (auto simp: is_prime_def)
  ultimately have "p dvd fact k * fact (p - k) * (p choose k)" by simp
  moreover have "\<not> p dvd fact k" "\<not> p dvd fact (p - k)"
    using is_prime_dvd_fact [OF assms(1)] assms by fastforce+
  ultimately show ?thesis using is_prime_dvd_mult [OF assms(1)] by blast
qed

lemma freshman:
  assumes "is_prime p"
  shows "(a + 1) ^ p mod p = (a ^ p + 1) mod (p :: nat)"
proof -
  have p: "0 < p" using assms by (simp add: is_prime_def)
  let ?f = "\<lambda>k. (p choose k) * a ^ k"
  have "(a + 1) ^ p = (\<Sum>k\<le>p. ?f k)" by (subst binomial) simp
  also have "\<dots> = ?f 0 + ?f p + (\<Sum>k \<in> {1..<p}. ?f k)"
  proof -
    have "{..p} = insert 0 (insert p {1..<p})" using p by auto
    then show ?thesis using p by simp
  qed
  finally have e: "(a + 1) ^ p = 1 + a ^ p + (\<Sum>k \<in> {1..<p}. ?f k)" by simp
  have "p dvd (\<Sum>k \<in> {1..<p}. ?f k)"
    by (rule dvd_sum) (use assms is_prime_dvd_choose in auto)
  then show ?thesis unfolding e by (metis add.commute add_0 dvd_imp_mod_0 mod_add_right_eq)
qed

lemma fermat: "is_prime p \<Longrightarrow> a ^ p mod p = a mod p"
proof (induction a)
  case 0
  then show ?case by (simp add: is_prime_def zero_power)
next
  case (Suc a)
  then have "(a + 1) ^ p mod p = (a mod p + 1) mod p"
    using freshman [of p a] by (metis mod_add_left_eq)
  then show ?case by (simp add: mod_simps)
qed

lemma fermat_power:
  assumes p: "is_prime p" and k: "k mod (p - 1) = 1 mod (p - 1)" "0 < k"
  shows "a ^ k mod p = a mod (p :: nat)"
proof -
  have "1 < p" using p by (simp add: is_prime_def)
  have step: "a ^ (1 + (p - 1) * j) mod p = a mod p" for j
  proof (induction j)
    case (Suc j)
    have "a ^ (1 + (p - 1) * Suc j) = a ^ (p - 1) * a ^ (1 + (p - 1) * j)"
      by (simp add: power_add ac_simps)
    also have "\<dots> mod p = a ^ (p - 1) * a mod p" by (metis Suc mod_mult_right_eq)
    also have "a ^ (p - 1) * a = a ^ p"
      using \<open>1 < p\<close> by (metis Suc_diff_1 less_trans mult.commute power_Suc zero_less_one)
    finally show ?case by (simp add: fermat [OF p])
  qed simp
  have "(p - 1) dvd k - 1" using k mod_eq_dvd_iff_nat [of 1 k "p - 1"] by simp
  then obtain j where "k = 1 + (p - 1) * j" using k(2) by (metis Suc_diff_1 dvdE plus_1_eq_Suc)
  then show ?thesis using step by simp
qed

lemma mod_mult_eqI:
  assumes "coprime (p::nat) q" "a mod p = b mod p" "a mod q = b mod q"
  shows "a mod (p * q) = b mod (p * q)"
proof -
  have "p * q dvd a - b" if "b \<le> a" "a mod p = b mod p" "a mod q = b mod q" for a b
    using that assms(1) by (simp add: divides_mult mod_eq_dvd_iff_nat)
  with assms show ?thesis
    by (metis mod_eq_dvd_iff_nat nat_le_linear)
qed

text \<open>The identity behind decoding, for two different primes.\<close>

lemma rsa_identity:
  assumes p: "is_prime p" and q: "is_prime q" and "p \<noteq> q"
    and ed: "(e * d) mod ((p - 1) * (q - 1)) = 1 mod ((p - 1) * (q - 1))" "0 < e * d"
    and m: "m < p * q"
  shows "(m ^ e mod (p * q)) ^ d mod (p * q) = m"
proof -
  have "coprime p q"
    using is_prime_coprime [OF p, of q] p q \<open>p \<noteq> q\<close> unfolding is_prime_def by (metis less_irrefl)
  moreover have "(e * d) mod (p - 1) = 1 mod (p - 1)" "(e * d) mod (q - 1) = 1 mod (q - 1)"
    using ed(1) by (metis mod_mod_cancel dvd_triv_left dvd_triv_right)+
  ultimately have "m ^ (e * d) mod (p * q) = m mod (p * q)"
    by (intro mod_mult_eqI fermat_power p q ed(2))
  with m show ?thesis by (simp add: power_mod power_mult [symmetric])
qed

text \<open>The same over the integers, where the program computes.\<close>

lemma decode_encode:
  assumes p: "is_prime p" and q: "is_prime q" and "p \<noteq> q" and n: "n = int (p * q)" "n < 2 ^ 31"
    and ed: "0 \<le> e" "0 \<le> d" "(e * d) mod (int (p - 1) * int (q - 1)) = 1"
    and m: "0 \<le> m" "m < n"
  shows "\<exists>c. encode m e n = Some c \<and> 0 \<le> c \<and> c < n \<and> decode c d n = Some m"
proof -
  have "1 < p * q" using p q less_1_mult [of p q] by (simp add: is_prime_def)
  then have n1: "1 < n" unfolding n(1) by linarith
  let ?c = "m ^ nat e mod n"
  have c: "0 \<le> ?c" "?c < n" using n1 by auto
  have "encode m e n = Some ?c" using m n n1 ed by (simp add: encode_def modpow_eq)
  moreover have "decode ?c d n = Some (?c ^ nat d mod n)"
    unfolding decode_def by (rule modpow_eq) (use c n(2) n1 ed in linarith)+
  moreover have "?c ^ nat d mod n = m"
  proof -
    have pos: "0 < e * d" using ed by (metis linorder_neqE_linordered_idom mod_0 mult_nonneg_nonneg not_less zero_neq_one)
    have k: "nat e * nat d = nat (e * d)" using ed by (simp add: nat_mult_distrib)
    have "int (nat e * nat d mod ((p - 1) * (q - 1))) = 1"
      unfolding k using ed pos by (simp add: zmod_int)
    then have "nat e * nat d mod ((p - 1) * (q - 1)) = 1 mod ((p - 1) * (q - 1))"
      by (metis mod_mod_trivial of_nat_eq_1_iff)
    moreover have "nat m < p * q" using m n by (simp add: nat_less_iff)
    ultimately have r: "(nat m ^ nat e mod (p * q)) ^ nat d mod (p * q) = nat m"
      using pos k by (intro rsa_identity p q assms(3)) simp_all
    have "?c ^ nat d mod n = int ((nat m ^ nat e mod (p * q)) ^ nat d mod (p * q))"
      unfolding n(1) using m(1) by (simp only: of_nat_mod of_nat_power nat_0_le)
    also have "\<dots> = m" unfolding r using m(1) by simp
    finally show ?thesis .
  qed
  ultimately show ?thesis using c by (intro exI [of _ ?c] conjI) simp_all
qed

section \<open>Packing and unpacking blocks\<close>

text \<open>A block of seven-bit characters is a number to the base 128.\<close>

definition packed :: "u8 list \<Rightarrow> int" where
  "packed bs = (\<Sum>j<length bs. uint (bs ! j) * 128 ^ j)"

lemma packed_Nil [simp]: "packed [] = 0"
  by (simp add: packed_def)

lemma packed_snoc: "packed (bs @ [b]) = packed bs + uint b * 128 ^ length bs"
  by (simp add: packed_def nth_append)

definition ascii :: "u8 list \<Rightarrow> bool" where
  "ascii bs \<longleftrightarrow> (\<forall>b \<in> set bs. uint b < 128)"

lemma packed_bound: "ascii bs \<Longrightarrow> 0 \<le> packed bs \<and> packed bs < 128 ^ length bs"
proof (induction bs rule: rev_induct)
  case (snoc b bs)
  then have "uint b \<le> 127" "packed bs < 128 ^ length bs" "0 \<le> packed bs"
    by (auto simp: ascii_def)
  moreover from this(1) have "uint b * 128 ^ length bs \<le> 127 * 128 ^ length bs"
    by (intro mult_right_mono) auto
  moreover have "0 \<le> uint b * 128 ^ length bs" by simp
  moreover have "packed (bs @ [b]) = packed bs + uint b * 128 ^ length bs" by (rule packed_snoc)
  ultimately have "0 \<le> packed (bs @ [b])" "packed (bs @ [b]) < 128 * 128 ^ length bs" by linarith+
  then show ?case by simp
qed simp

lemma packed_digit:
  "ascii bs \<Longrightarrow> j < length bs \<Longrightarrow> packed bs div 128 ^ j mod 128 = uint (bs ! j)"
proof (induction bs arbitrary: j rule: rev_induct)
  case (snoc b bs)
  then have a: "ascii bs" "uint b < 128" by (auto simp: ascii_def)
  show ?case
  proof (cases "j < length bs")
    case True
    then obtain k where k: "length bs = Suc (j + k)" using less_imp_Suc_add by blast
    have e: "uint b * 128 ^ length bs = (uint b * 128 ^ k * 128) * 128 ^ j"
      by (simp add: k power_add ac_simps)
    have "packed (bs @ [b]) div 128 ^ j = packed bs div 128 ^ j + uint b * 128 ^ k * 128"
      unfolding packed_snoc e by (simp add: div_mult_self1)
    then show ?thesis using snoc.IH [OF a(1) True] True by (simp add: nth_append)
  next
    case False
    with snoc.prems have j: "j = length bs" by simp
    have "packed (bs @ [b]) div 128 ^ j = uint b"
      using packed_bound [OF a(1)] by (simp add: packed_snoc j div_pos_pos_trivial)
    with a(2) j show ?thesis by simp
  qed
qed simp

lemma sint_ascii: "uint (b :: u8) < 128 \<Longrightarrow> sint b = uint b"
  by (simp add: sint_uint signed_take_bit_int_eq_self order.trans [OF _ uint_ge_0])

lemma packLoop_eq:
  assumes "ascii bs" "length bs \<le> 4" "i + length bs \<le> length msg" "bs = take (length bs) (drop i msg)"
    and "j + k = length bs"
  shows "packLoop msg i j k (packed (take j bs)) = Some (packed bs)"
  using assms(5)
proof (induction k arbitrary: j)
  case (Suc k)
  then have j: "j < length bs" "j < 4" using assms(2) by auto
  have b: "uint (bs ! j) < 128" using assms(1) j by (auto simp: ascii_def)
  have "bs ! j = msg ! (i + j)" using assms(3,4) j by (metis add.commute nth_take nth_drop add_leD1)
  then have rd: "buf_read msg (i + j) 1 = Some [bs ! j]"
    using assms(3) j by (simp add: buf_read_def take_Suc_conv_app_nth hd_drop_conv_nth take_Suc)
  have step: "packed (take (Suc j) bs) = packed (take j bs) + uint (bs ! j) * 128 ^ j"
    using j by (simp add: take_Suc_conv_app_nth packed_snoc)
  have bnd: "0 \<le> packed (take (Suc j) bs) \<and> packed (take (Suc j) bs) < 128 ^ Suc j"
    "0 \<le> packed (take j bs)"
    using packed_bound [of "take (Suc j) bs"] packed_bound [of "take j bs"] assms(1) j
    by (auto simp: ascii_def dest: in_set_takeD)
  have "(128 :: int) ^ Suc j \<le> 128 ^ 4" using j by (intro power_increasing) auto
  with bnd step have "i32 (uint (bs ! j) * 128 ^ j) = Some (uint (bs ! j) * 128 ^ j)"
    "i32 (packed (take j bs) + uint (bs ! j) * 128 ^ j) = Some (packed (take (Suc j) bs))"
    by (auto intro!: i32_fits)
  moreover have "(2 :: int) ^ (7 * j) = 128 ^ j" by (simp add: power_mult)
  ultimately show ?case
    using Suc.IH [of "Suc j"] Suc.prems j rd b by (simp add: sint_ascii)
qed (use assms in simp)


text \<open>Decoding writes one block of characters at its place.\<close>

lemma drop_bit_digit: "drop_bit (7 * j) x mod 128 = x div 128 ^ j mod (128 :: int)"
  by (simp add: drop_bit_eq_div power_mult)

lemma unpackLoop_eq:
  assumes "ascii bs" "length bs \<le> 4" "pos + length bs \<le> length decoded" "j + k = length bs"
  shows "unpackLoop (packed bs) pos j k decoded =
    Some (take (pos + j) decoded @ map uint (drop j bs) @ drop (pos + length bs) decoded)"
  using assms(3,4)
proof (induction k arbitrary: j decoded)
  case (Suc k)
  then have j: "j < length bs" "j < 4" using assms(2) by auto
  have "drop_bit (7 * j) (packed bs) smod 128 = uint (bs ! j)"
    using packed_digit [OF assms(1) j(1)] packed_bound [OF assms(1)]
    by (simp add: smod_nonneg drop_bit_digit)
  moreover have "drop j bs = bs ! j # drop (Suc j) bs" using j by (simp add: Cons_nth_drop_Suc)
  ultimately show ?case
    using Suc.IH [of "take (pos + j) decoded @ uint (bs ! j) # drop (Suc (pos + j)) decoded" "Suc j"]
      Suc.prems j
    by (cases "length bs") (simp_all add: buf_write_def drop_Cons' Suc_diff_le ac_simps)
qed simp

text \<open>The blocks of a message.\<close>

definition blk :: "nat \<Rightarrow> u8 list \<Rightarrow> nat \<Rightarrow> u8 list" where
  "blk bytes msg i = take bytes (drop (i * bytes) msg)"

lemma ascii_blk: "ascii msg \<Longrightarrow> ascii (blk bytes msg i)"
  by (auto simp: ascii_def blk_def dest: in_set_takeD in_set_dropD)

lemma length_blk: "(i + 1) * bytes \<le> length msg \<Longrightarrow> length (blk bytes msg i) = bytes"
  by (simp add: blk_def)

lemma pack_blk:
  assumes "ascii (blk bytes msg i)" "bytes \<le> 4" "(i + 1) * bytes \<le> length msg"
  shows "packLoop msg (i * bytes) 0 bytes 0 = Some (packed (blk bytes msg i))"
  using packLoop_eq [OF assms(1), of "i * bytes" msg 0 bytes] assms
  by (simp add: length_blk) (simp add: blk_def)

text \<open>
  What encoding and decoding compute, with \<open>enc\<close> the encoding of one number: every block is
  replaced by its cryptogram, and every cryptogram by the characters of its block.
\<close>

lemma encodeLoop_eq:
  assumes "\<And>i. i < k \<Longrightarrow> ascii (blk bytes msg i)" "0 < bytes" "bytes \<le> 4" "len = k * bytes" "len \<le> length msg"
    and "length encoded = k" "i + j = k"
    and "\<And>i. i < k \<Longrightarrow> encode (packed (blk bytes msg i)) ex n = Some (c i)"
  shows "encodeLoop len bytes msg ex n (i * bytes) encoded = Some (take i encoded @ map c [i..<k])"
  using assms(6,7)
proof (induction j arbitrary: i encoded)
  case 0
  then show ?case using assms by (simp add: encodeLoop.simps)
next
  case (Suc j)
  then have i: "i < k" "(i + 1) * bytes \<le> k * bytes" by (simp, intro mult_le_mono1) simp
  have "encodeLoop len bytes msg ex n (i * bytes) encoded =
      encodeLoop len bytes msg ex n (Suc i * bytes) (take i encoded @ c i # drop (Suc i) encoded)"
    using assms(2-5) i Suc.prems pack_blk [OF assms(1) [OF i(1)] assms(3)] assms(8) [OF i(1)]
    by (subst encodeLoop.simps) (simp add: buf_write_def add.commute)
  also have "\<dots> = Some (take (Suc i) (take i encoded @ c i # drop (Suc i) encoded) @ map c [Suc i..<k])"
    by (rule Suc.IH) (use Suc.prems i in auto)
  finally show ?case using i Suc.prems by (simp add: upt_conv_Cons)
qed

lemma decodeLoop_eq:
  assumes "ascii msg" "bytes \<le> 4" "k * bytes \<le> length msg" "length cry = k"
    and "\<And>i. i < k \<Longrightarrow> decode (cry ! i) ex n = Some (packed (blk bytes msg i))"
    and "length decoded = k * bytes" "i + j = k"
  shows "decodeLoop j bytes cry ex n i decoded =
    Some (take (i * bytes) decoded @ map uint (take (j * bytes) (drop (i * bytes) msg)))"
  using assms(6,7)
proof (induction j arbitrary: i decoded)
  case (Suc j)
  then have i: "i < k" "(i + 1) * bytes \<le> k * bytes" by (simp, intro mult_le_mono1) simp
  let ?b = "blk bytes msg i"
  have b: "length ?b = bytes" using i assms(3) by (intro length_blk) simp
  let ?d = "take (i * bytes) decoded @ map uint ?b @ drop (Suc i * bytes) decoded"
  have rd: "buf_read cry i 1 = Some [cry ! i]"
    using i assms(4) by (simp add: buf_read_def take_Suc hd_drop_conv_nth)
  have un: "unpackLoop (packed ?b) (i * bytes) 0 bytes decoded = Some ?d"
    using unpackLoop_eq [OF ascii_blk [OF assms(1)], of bytes i "i * bytes" decoded 0 bytes] b
      assms(2) i Suc.prems by (simp add: add.commute)
  have "decodeLoop (Suc j) bytes cry ex n i decoded = decodeLoop j bytes cry ex n (Suc i) ?d"
    using rd un assms(5) [OF i(1)] by simp
  also have "\<dots> = Some (take (Suc i * bytes) ?d @ map uint (take (j * bytes) (drop (Suc i * bytes) msg)))"
    by (rule Suc.IH) (use Suc.prems b i in auto)
  also have "take (Suc i * bytes) ?d = take (i * bytes) decoded @ map uint ?b"
    using b Suc.prems i by simp
  finally show ?case
    by (simp add: blk_def take_add add.commute)
qed simp

section \<open>The Jacobi symbol\<close>

declare jacobiLoop.simps [simp del]

lemma stripTwos_coprime:
  assumes "0 < a" "odd n"
  shows "coprime (fst (stripTwos a t)) n \<longleftrightarrow> coprime a n"
  using assms(1)
proof (induction "nat a" arbitrary: a t rule: less_induct)
  case less
  show ?case
  proof (cases "even a")
    case True
    then obtain b where b: "a = 2 * b" by blast
    have "coprime 2 n" using assms(2) by simp
    then have "coprime a n \<longleftrightarrow> coprime b n" unfolding b by (simp add: coprime_mult_left_iff)
    then show ?thesis
      using less.hyps [of b "t + 1"] stripTwos_rec [OF less.prems, of t] less.prems b by simp
  qed (use stripTwos_rec [OF less.prems, of t] in simp)
qed

lemma jacobiFlip_unit: "\<bar>m\<bar> = 1 \<Longrightarrow> \<bar>jacobiFlip t n m\<bar> = 1"
  by (auto simp: jacobiFlip_def abs_mult)

text \<open>The loop ends with a unit as the sign, and with 1 exactly on coprime arguments.\<close>

lemma jacobiLoop_eq:
  assumes "0 \<le> a" "odd n" "1 < n" "\<bar>mult\<bar> = 1"
  shows "\<exists>a' m. jacobiLoop a n mult = Some (a', m) \<and> \<bar>m\<bar> = 1 \<and> (a' = 1 \<longleftrightarrow> coprime a n)"
  using assms
proof (induction "nat n" arbitrary: a n mult rule: less_induct)
  case less
  show ?case
  proof (cases "a > 1 \<and> a \<noteq> n")
    case False
    then show ?thesis using less.prems by (subst jacobiLoop.simps) (cases "a = 0", auto)
  next
    case True
    let ?a = "a mod n"
    have cop: "coprime ?a n \<longleftrightarrow> coprime a n" using less.prems by simp
    have lt: "0 \<le> ?a" "?a < n" using less.prems by auto
    show ?thesis
    proof (cases "?a \<le> 1")
      case True
      with lt have "?a = 0 \<or> ?a = 1" by linarith
      then have "?a = 1 \<longleftrightarrow> coprime ?a n"
        by (elim disjE; simp only:) (use less.prems(3) in auto)
      with cop have "?a = 1 \<longleftrightarrow> coprime a n" by (simp only:)
      moreover have "jacobiLoop a n mult = Some (?a, mult)"
        using \<open>a > 1 \<and> a \<noteq> n\<close> less.prems True by (subst jacobiLoop.simps) simp
      ultimately show ?thesis using less.prems(4) by blast
    next
      case False
      obtain b t where b: "stripTwos ?a 0 = (b, t)" by fastforce
      have bb: "0 < b" "b \<le> ?a" "odd b" "coprime b n \<longleftrightarrow> coprime a n"
        using stripTwos_pos [of ?a 0] stripTwos_coprime [of ?a n 0] less.prems False b cop by auto
      let ?m = "jacobiFlip t n mult"
      have m: "\<bar>?m\<bar> = 1" using less.prems by (simp add: jacobiFlip_unit)
      show ?thesis
      proof (cases "b = 1")
        case b1: True
        then have "jacobiLoop a n mult = Some (b, ?m)"
          using \<open>a > 1 \<and> a \<noteq> n\<close> less.prems lt False b by (subst jacobiLoop.simps) simp
        with m bb b1 show ?thesis by auto
      next
        case b1: False
        let ?m' = "if n smod 4 \<noteq> 1 \<and> b smod 4 \<noteq> 1 then - ?m else ?m"
        have "jacobiLoop a n mult = jacobiLoop n b ?m'"
          using \<open>a > 1 \<and> a \<noteq> n\<close> less.prems lt False b b1 bb
          by (subst jacobiLoop.simps) (simp add: Let_def)
        moreover have "\<exists>a' m. jacobiLoop n b ?m' = Some (a', m) \<and> \<bar>m\<bar> = 1 \<and> (a' = 1 \<longleftrightarrow> coprime n b)"
          by (rule less.hyps) (use less.prems lt bb b1 m in auto)
        ultimately show ?thesis using bb(4) by (simp add: coprime_commute)
      qed
    qed
  qed
qed

lemma jacobi_eq:
  assumes "0 \<le> a" "odd n" "1 < n"
  shows "\<exists>x. jacobi a n = Some x \<and> (x \<noteq> 0 \<longleftrightarrow> coprime a n) \<and> \<bar>x\<bar> \<le> 1"
proof -
  obtain a' m where "jacobiLoop a n 1 = Some (a', m)" "\<bar>m\<bar> = 1" "a' = 1 \<longleftrightarrow> coprime a n"
    using jacobiLoop_eq [of a n 1] assms by auto
  then show ?thesis by (auto simp: jacobi_def)
qed

lemma solovayPrime_eq:
  assumes "0 \<le> a" "a < 2 ^ 31" "odd n" "1 < n" "n < 2 ^ 31"
  shows "\<exists>x. jacobi a n = Some x \<and> solovayPrime a n =
    Some (if coprime a n \<and> a ^ nat ((n - 1) div 2) mod n = (if x = -1 then n - 1 else x) then 1 else 0)"
proof -
  obtain x where x: "jacobi a n = Some x" "x \<noteq> 0 \<longleftrightarrow> coprime a n" "\<bar>x\<bar> \<le> 1"
    using jacobi_eq [of a n] assms by auto
  have "modpow a ((n - 1) sdiv 2) n = Some (a ^ nat ((n - 1) div 2) mod n)"
    using assms by (simp add: sdiv_nonneg modpow_eq)
  with x assms show ?thesis by (auto simp: solovayPrime_def Let_def)
qed

text \<open>An accepted base satisfies the Fermat congruence.\<close>

lemma solovay_fermat:
  assumes "0 \<le> a" "a < 2 ^ 31" "odd n" "1 < n" "n < 2 ^ 31" "solovayPrime a n = Some 1"
  shows "a ^ nat (n - 1) mod n = 1"
proof -
  obtain x where x: "jacobi a n = Some x" and
    s: "solovayPrime a n = Some (if coprime a n \<and>
      a ^ nat ((n - 1) div 2) mod n = (if x = -1 then n - 1 else x) then 1 else 0)"
    using solovayPrime_eq [OF assms(1-5)] by auto
  have "x = 1 \<or> x = -1" using jacobi_eq [of a n] x s assms by (auto split: if_splits)
  with s assms(6) have h: "a ^ nat ((n - 1) div 2) mod n = 1 \<or> a ^ nat ((n - 1) div 2) mod n = n - 1"
    by (auto split: if_splits)
  have "nat (n - 1) = nat ((n - 1) div 2) * 2"
    using assms(3,4) by (auto elim!: oddE simp: nat_mult_distrib)
  then have "a ^ nat (n - 1) mod n = (a ^ nat ((n - 1) div 2) mod n)\<^sup>2 mod n"
    by (simp add: power_mult power_mod)
  also have "\<dots> = 1"
  proof -
    have "(n - 1)\<^sup>2 = 1 + n * (n - 2)" by (simp add: power2_eq_square algebra_simps)
    then have "(n - 1)\<^sup>2 mod n = 1" using assms(4) by simp
    with h assms(4) show ?thesis by (elim disjE) simp_all
  qed
  finally show ?thesis .
qed

section \<open>Random primes and exponents\<close>

lemma primeTests_total:
  assumes "odd n" "2 < n" "n < 2 ^ 31" "\<And>i. 0 \<le> rnd i"
  shows "\<exists>r j. primeTests rnd i n k = Some (r, j) \<and> i \<le> j \<and> (r = 0 \<or> r = 1)"
proof (induction k arbitrary: i)
  case (Suc k)
  let ?a = "rnd i mod (n - 2) + 2"
  have "rnd i mod (n - 2) < n - 2" "0 \<le> rnd i mod (n - 2)" using assms by auto
  then have a: "0 \<le> ?a" "?a < 2 ^ 31" using assms(3) by linarith+
  obtain s where "solovayPrime ?a n = Some s"
    using solovayPrime_eq [OF a, of n] assms by auto
  moreover obtain r j where "primeTests rnd (i + 1) n k = Some (r, j)" "i + 1 \<le> j" "r = 0 \<or> r = 1"
    using Suc.IH [of "i + 1"] by blast
  ultimately show ?case using assms(2,4) by simp
qed simp

lemma probablePrime_total:
  assumes "0 < n" "n < 2 ^ 31" "\<And>i. 0 \<le> rnd i"
  shows "\<exists>r j. probablePrime rnd i n k = Some (r, j) \<and> (r = 0 \<or> r = 1)"
proof (cases "n = 2 \<or> even n \<or> n = 1")
  case True
  then show ?thesis using assms(1) by (auto simp: probablePrime_def smod_nonneg)
next
  case False
  then have "n smod 2 \<noteq> 0" "2 < n" using assms(1) by (auto simp: smod_nonneg even_iff_mod_2_eq_zero)
  with False show ?thesis
    using primeTests_total [of n rnd i "nat k"] assms by (auto simp: probablePrime_def)
qed

text \<open>Three passes the test whatever is drawn, so the search for a prime cannot run for ever.\<close>

lemma jacobi_2_3: "jacobi 2 3 = Some (-1)"
  by (simp add: jacobi_def jacobiLoop.simps stripTwos_rec jacobiFlip_def smod_nonneg)

lemma solovayPrime_2_3: "solovayPrime 2 3 = Some 1"
  by (simp add: solovayPrime_def jacobi_2_3 Let_def modpow_eq)

lemma primeTests_3: "(\<And>i. 0 \<le> rnd i) \<Longrightarrow> primeTests rnd i 3 k = Some (1, i + k)"
  by (induction k arbitrary: i) (simp_all add: solovayPrime_2_3)

lemma probablePrime_3: "(\<And>i. 0 \<le> rnd i) \<Longrightarrow> probablePrime rnd i 3 ACCURACY = Some (1, i + 5)"
  by (simp add: probablePrime_def primeTests_3 ACCURACY_def)

lemma probablePrime_1: "probablePrime rnd i 1 k = Some (0, i)"
  by (simp add: probablePrime_def)

text \<open>
  The distance to the next visit of 3: up to the wrap-around at \<open>n\<close> and then over 1 to 3.
\<close>

definition dist3 :: "int \<Rightarrow> int \<Rightarrow> nat" where
  "dist3 n p = (if p \<le> 3 then nat (3 - p) else nat (n + 3 - p))"

lemma dist3_less:
  assumes "odd p" "0 < p" "p < n" "even n" "3 < n" "p \<noteq> 3"
  shows "dist3 n ((p + 2) mod n) < dist3 n p" "odd ((p + 2) mod n)" "0 < (p + 2) mod n"
proof -
  have "p + 2 \<noteq> n" using assms(1,4) by auto
  then have e: "(p + 2) mod n = (if p + 1 = n then 1 else p + 2)"
  proof (cases "p + 1 = n")
    case True
    then have "p + 2 = 1 + n" by simp
    then have "(p + 2) mod n = (1 + n) mod n" by (simp only:)
    also have "\<dots> = 1" using assms(5) by simp
    finally show ?thesis using True by simp
  qed (use \<open>p + 2 \<noteq> n\<close> assms(2,3) in auto)
  have "p = 1 \<or> 3 < p" using assms(1,2,6) by presburger
  then show "dist3 n ((p + 2) mod n) < dist3 n p"
    unfolding e using assms by (auto simp: dist3_def)
  show "odd ((p + 2) mod n)" "0 < (p + 2) mod n" unfolding e using assms by auto
qed

lemma randPrimeLoop_returns:
  assumes "odd p" "0 < p" "p < n" "even n" "3 < n" "n < 2 ^ 31" "\<And>i. 0 \<le> rnd i"
  shows "\<exists>q j k. randPrimeLoop rnd i p n = Some (q, j) \<and> odd q \<and> 1 < q \<and> q < n \<and>
    probablePrime rnd k q ACCURACY = Some (1, j)"
  using assms(1-3)
proof (induction "dist3 n p" arbitrary: p i rule: less_induct)
  case less
  obtain r j where r: "probablePrime rnd i p ACCURACY = Some (r, j)" "r = 0 \<or> r = 1"
    using probablePrime_total [of p rnd i ACCURACY] less.prems assms(6,7) by auto
  show ?case
  proof (cases "r = 1")
    case True
    then have "randPrimeLoop rnd i p n = Some (p, j)" using r by (simp add: randPrimeLoop.simps)
    moreover have "1 < p" using r True less.prems probablePrime_1 [of rnd i ACCURACY] by (cases "p = 1") auto
    ultimately show ?thesis using r True less.prems by auto
  next
    case False
    then have "p \<noteq> 3" using r probablePrime_3 [of rnd i] assms(7) by auto
    note d = dist3_less [OF less.prems assms(4,5) this]
    have "randPrimeLoop rnd i p n = randPrimeLoop rnd j ((p + 2) mod n) n"
      using r False less.prems assms(5) by (subst randPrimeLoop.simps) simp
    then show ?thesis using less.hyps [OF d(1) d(2,3), of j] assms(5) by simp
  qed
qed

lemma randPrime_returns:
  assumes "3 \<le> n" "n < 2 ^ 31 - 1" "\<And>i. 0 \<le> rnd i"
  shows "\<exists>p j k. randPrime rnd i n = Some (p, j) \<and> odd p \<and> 1 < p \<and> p \<le> n \<and>
    probablePrime rnd k p ACCURACY = Some (1, j)"
proof -
  let ?r = "rnd i mod n"
  let ?n = "n + n mod 2" and ?p = "?r + (1 - ?r mod 2)"
  have r: "0 \<le> ?r" "?r < n" using assms by auto
  have parity: "odd (x + (1 - x mod 2))" "0 < x + (1 - x mod 2)" "x + (1 - x mod 2) < n + n mod 2"
    if "0 \<le> x" "x < n" for x
    using that by presburger+
  have "even ?n" "3 < ?n" "n mod 2 \<le> 1" using assms(1) by presburger+
  with parity [OF r] have p: "odd ?p" "0 < ?p" "?p < ?n" "even ?n" "3 < ?n" "?n < 2 ^ 31" "?n \<le> n + 1"
    using assms(2) by auto
  then obtain q j k where "randPrimeLoop rnd (i + 1) ?p ?n = Some (q, j)" "odd q" "1 < q" "q < ?n"
    "probablePrime rnd k q ACCURACY = Some (1, j)"
    using randPrimeLoop_returns [of ?p ?n rnd "i + 1"] assms(3) by auto
  moreover have "randPrime rnd i n = randPrimeLoop rnd (i + 1) ?p ?n"
    using assms r by (simp add: randPrime_def smod_nonneg Let_def)
  ultimately show ?thesis using p(7) by auto
qed

text \<open>
  An exponent is found as soon as one of the candidates from 3 up is coprime to \<open>phi\<close>: the
  candidates grow until they reach it, or wrap around to 3 first.
\<close>

lemma randExponentLoop_returns:
  assumes "0 < phi" "3 \<le> e0" "e0 < n" "coprime e0 phi" "0 \<le> e" "e < n"
  shows "\<exists>x. randExponentLoop e phi n = Some x \<and> coprime x phi \<and> 0 \<le> x \<and> x < n"
  using assms(5,6)
proof (induction "if e \<le> e0 then nat (e0 - e) else nat (n + e0 - e)" arbitrary: e rule: less_induct)
  case less
  have g: "gcdC e phi = 1 \<longleftrightarrow> coprime e phi"
    using assms(1) less.prems by (simp add: gcdC_eq coprime_iff_gcd_eq_1)
  show ?case
  proof (cases "coprime e phi")
    case True
    then show ?thesis using g less.prems by (auto simp: randExponentLoop.simps)
  next
    case False
    then have ne: "e \<noteq> e0" using assms(4) by auto
    let ?m = "(e + 1) mod n"
    let ?e = "if ?m \<le> 2 then 3 else ?m"
    have m: "?m = (if e + 1 = n then 0 else e + 1)" using less.prems by (auto simp: mod_pos_pos_trivial)
    have "randExponentLoop e phi n = randExponentLoop ?e phi n"
      using False g less.prems assms(2,3) by (subst randExponentLoop.simps) simp
    moreover have "(if ?e \<le> e0 then nat (e0 - ?e) else nat (n + e0 - ?e))
        < (if e \<le> e0 then nat (e0 - e) else nat (n + e0 - e))"
      using m ne less.prems assms(2,3) by auto
    ultimately show ?thesis using less.hyps [of ?e] m less.prems assms(2,3) by auto
  qed
qed


lemma is_prime_code: "is_prime p \<longleftrightarrow> 1 < p \<and> (\<forall>d \<in> set [2..<p]. \<not> d dvd p)"
proof -
  have "d = 1 \<or> d = p" if "d dvd p" "1 < p" "\<forall>d \<in> set [2..<p]. \<not> d dvd p" for d
  proof -
    have "0 < d" "d \<le> p" using that by (auto intro: Nat.gr0I dvd_imp_le)
    with that show ?thesis by (cases "d = 1 \<or> d = p") auto
  qed
  then show ?thesis unfolding is_prime_def by auto
qed

lemma coprime_candidate:
  assumes "0 < phi" "phi < 111546435"
  shows "\<exists>e0. 3 \<le> e0 \<and> e0 < 24 \<and> coprime e0 (phi :: int)"
proof (rule ccontr)
  assume none: "\<not> ?thesis"
  have dvd: "int p dvd phi" if "is_prime p" "3 \<le> p" "p < 24" for p
  proof (rule ccontr)
    assume "\<not> int p dvd phi"
    then have "\<not> p dvd nat phi" using assms(1) by (metis int_dvd_int_iff nat_0_le order_less_imp_le)
    then have "coprime (int p) phi"
      using is_prime_coprime [OF that(1)] assms(1) by (metis coprime_int_iff nat_0_le order_less_imp_le)
    with none that show False by auto
  qed
  have pr: "is_prime 3" "is_prime 5" "is_prime 7" "is_prime 11" "is_prime 13" "is_prime 17"
    "is_prime 19" "is_prime 23"
    unfolding is_prime_code by code_simp+
  have co: "coprime (3 * 5 * 7 * 11 * 13 * 17 * 19) (23 :: int)" "coprime (3 * 5 * 7 * 11 * 13 * 17) (19 :: int)"
    "coprime (3 * 5 * 7 * 11 * 13) (17 :: int)" "coprime (3 * 5 * 7 * 11) (13 :: int)"
    "coprime (3 * 5 * 7) (11 :: int)" "coprime (3 * 5) (7 :: int)" "coprime 3 (5 :: int)"
    unfolding coprime_iff_gcd_eq_1 by code_simp+
  have "(3 * 5 * 7 * 11 * 13 * 17 * 19 * 23 :: int) dvd phi"
    by (intro divides_mult co) (use pr [THEN dvd] in simp_all)
  then show False using assms zdvd_imp_le by fastforce
qed

lemma randExponent_returns:
  assumes "0 < phi" "phi < 111546435" "24 \<le> n" "\<And>i. 0 \<le> rnd i"
  shows "\<exists>e. randExponent rnd i phi n = Some (e, i + 1) \<and> coprime e phi \<and> 0 \<le> e \<and> e < n"
proof -
  obtain e0 where e0: "3 \<le> e0" "e0 < 24" "coprime e0 phi" using coprime_candidate assms by blast
  have "0 \<le> rnd i mod n" "rnd i mod n < n" using assms by auto
  then show ?thesis
    using randExponentLoop_returns [of phi e0 n "rnd i mod n"] e0 assms
    by (auto simp: randExponent_def)
qed

section \<open>Reading a file\<close>

lemma length_realloc: "length (realloc fill b n) = n"
  by (simp add: realloc_def)

lemma take_realloc: "k \<le> length b \<Longrightarrow> k \<le> n \<Longrightarrow> take k (realloc fill b n) = take k b"
  by (simp add: realloc_def)

text \<open>Every copy stays inside the block: the length stays below the capacity.\<close>

lemma readLoop_eq:
  assumes "length buffer = cap" "len < cap" "BUF_SIZE \<le> cap"
  shows "\<exists>b c. readLoop fill fd buffer cap len = Some (b, c, len + length fd) \<and> length b = c \<and>
    len + length fd < c \<and> take (len + length fd) b = take len buffer @ fd"
  using assms
proof (induction fd arbitrary: buffer cap len rule: measure_induct_rule [of length])
  case (less fd)
  show ?case
  proof (cases "fd = []")
    case True
    then show ?thesis using less.prems by (subst readLoop.simps) simp
  next
    case False
    define buf where "buf = take BUF_SIZE fd"
    define rest where "rest = drop BUF_SIZE fd"
    define cap' where "cap' = (if len + length buf \<ge> cap then cap * 2 else cap)"
    define b1 where "b1 = (if len + length buf \<ge> cap then realloc fill buffer cap' else buffer)"
    let ?b' = "take len b1 @ buf @ drop (len + length buf) b1"
    have r: "0 < length buf" "length buf \<le> BUF_SIZE" "buf @ rest = fd"
      using False by (simp_all add: BUF_SIZE_def buf_def rest_def)
    have lb: "length b1 = cap'" using less.prems by (simp add: length_realloc b1_def cap'_def)
    have fits: "len + length buf < cap'" "BUF_SIZE \<le> cap'" using less.prems r by (auto simp: cap'_def)
    have tk: "take len b1 = take len buffer" using less.prems by (simp add: take_realloc b1_def cap'_def)
    have "readLoop fill fd buffer cap len = readLoop fill rest ?b' cap' (len + length buf)"
      using r(1) lb fits
      by (subst readLoop.simps)
        (simp add: Let_def buf_write_def flip: buf_def rest_def cap'_def b1_def)
    moreover have "\<exists>b c. readLoop fill rest ?b' cap' (len + length buf) =
        Some (b, c, (len + length buf) + length rest) \<and> length b = c \<and>
        (len + length buf) + length rest < c \<and>
        take ((len + length buf) + length rest) b = take (len + length buf) ?b' @ rest"
      by (rule less.IH) (use r lb fits in \<open>auto simp flip: r(3)\<close>)
    moreover have "(len + length buf) + length rest = len + length fd" by (simp flip: r(3))
    moreover have "take (len + length buf) ?b' @ rest = take len buffer @ fd"
      using lb fits tk less.prems by (simp flip: r(3))
    ultimately show ?thesis by metis
  qed
qed

lemma padLoop_eq:
  assumes "0 < bytes" "len + (bytes - len mod bytes) \<le> length b"
  shows "\<exists>b'. padLoop b len bytes = Some (b', len + (bytes - len mod bytes)) \<and>
    take (len + (bytes - len mod bytes)) b' = take len b @ replicate (bytes - len mod bytes) 0"
  using assms(2)
proof (induction "bytes - len mod bytes" arbitrary: len b rule: less_induct)
  case less
  let ?k = "bytes - len mod bytes"
  have k: "0 < ?k" using assms(1) by simp
  let ?b = "take len b @ 0 # drop (Suc len) b"
  have w: "buf_write b len [0] = Some ?b" using less.prems k by (simp add: buf_write_def)
  show ?case
  proof (cases "Suc len mod bytes = 0")
    case True
    then have "?k = 1" using assms(1) by (auto simp: mod_Suc split: if_splits)
    with True w less.prems assms(1) show ?thesis by (subst padLoop.simps) simp
  next
    case False
    then have s: "bytes - Suc len mod bytes = ?k - 1" using assms(1) by (auto simp: mod_Suc)
    have "\<exists>b'. padLoop ?b (Suc len) bytes = Some (b', Suc len + (bytes - Suc len mod bytes)) \<and>
        take (Suc len + (bytes - Suc len mod bytes)) b' =
          take (Suc len) ?b @ replicate (bytes - Suc len mod bytes) 0"
      by (rule less.hyps) (use s k less.prems in auto)
    moreover have "Suc len + (bytes - Suc len mod bytes) = len + ?k" using s k by linarith
    ultimately obtain b' where b': "padLoop ?b (Suc len) bytes = Some (b', len + ?k)"
      "take (len + ?k) b' = take (Suc len) ?b @ replicate (?k - 1) 0"
      unfolding s [symmetric] by metis
    moreover have "take (Suc len) ?b @ replicate (?k - 1) 0 = take len b @ replicate ?k 0"
      using less.prems k by (cases ?k) auto
    moreover have "padLoop b len bytes = padLoop ?b (Suc len) bytes"
      using False w assms(1) by (subst padLoop.simps) simp
    ultimately show ?thesis by auto
  qed
qed

lemma readFile_eq:
  assumes "0 < bytes"
  shows "\<exists>b. readFile fill fd bytes = Some (b, length fd + (bytes - length fd mod bytes)) \<and>
    take (length fd + (bytes - length fd mod bytes)) b = fd @ replicate (bytes - length fd mod bytes) 0"
proof -
  let ?l = "length fd" and ?k = "bytes - length fd mod bytes"
  obtain b c where b: "readLoop fill fd (realloc fill [] BUF_SIZE) BUF_SIZE 0 = Some (b, c, ?l)"
    "length b = c" "?l < c" "take ?l b = fd"
    using readLoop_eq [of "realloc fill [] BUF_SIZE" BUF_SIZE 0 fill fd]
    by (auto simp: length_realloc BUF_SIZE_def)
  have "?l + bytes - ?l mod bytes = ?l + ?k" using assms by (simp add: less_imp_le)
  moreover define t where "t = ?l + ?k"
  ultimately have e: "?l + bytes - ?l mod bytes = t" by simp
  let ?b = "if t > c then realloc fill b t else b"
  have "t \<le> length ?b" "take ?l ?b = fd" using b by (auto simp: length_realloc take_realloc t_def)
  then obtain b' where "padLoop ?b ?l bytes = Some (b', t)" "take t b' = fd @ replicate ?k 0"
    using padLoop_eq [OF assms, of ?l ?b] unfolding t_def by auto
  moreover have "readFile fill fd bytes = padLoop ?b ?l bytes"
    using b(1) assms by (simp add: readFile_def e Let_def)
  ultimately show ?thesis unfolding t_def by auto
qed

section \<open>Key generation\<close>

lemma pickPrimes_result:
  "pickPrimes rnd i = Some y \<Longrightarrow> (\<forall>i. 0 \<le> rnd i) \<longrightarrow> (case y of (p, q, j) \<Rightarrow>
     odd p \<and> 1 < p \<and> p \<le> SINGLE_MAX \<and> odd q \<and> 1 < q \<and> q \<le> SINGLE_MAX \<and> 128 \<le> p * q)"
proof (induction rule: pickPrimes.raw_induct [rotated, consumes 1, case_names step])
  case (step pick rnd i y)
  show ?case
  proof
    assume rnd: "\<forall>i. 0 \<le> rnd i"
    obtain p1 j1 where p1: "randPrime rnd i SINGLE_MAX = Some (p1, j1)" "odd p1" "1 < p1" "p1 \<le> SINGLE_MAX"
      using randPrime_returns [of SINGLE_MAX rnd i] rnd by (auto simp: SINGLE_MAX_def)
    obtain q1 j2 where q1: "randPrime rnd j1 SINGLE_MAX = Some (q1, j2)" "odd q1" "1 < q1" "q1 \<le> SINGLE_MAX"
      using randPrime_returns [of SINGLE_MAX rnd j1] rnd by (auto simp: SINGLE_MAX_def)
    show "case y of (p, q, j) \<Rightarrow>
        odd p \<and> 1 < p \<and> p \<le> SINGLE_MAX \<and> odd q \<and> 1 < q \<and> q \<le> SINGLE_MAX \<and> 128 \<le> p * q"
      using step(2) step(1) [of rnd j2 y] p1 q1 rnd by (auto simp: i32_def split: if_splits)
  qed
qed

lemma pickPrimes_cases:
  assumes "pickPrimes rnd i = Some (p, q, j)" "\<And>i. 0 \<le> rnd i"
  shows "odd p \<and> 1 < p \<and> p \<le> SINGLE_MAX \<and> odd q \<and> 1 < q \<and> q \<le> SINGLE_MAX \<and> 128 \<le> p * q"
  using pickPrimes_result [OF assms(1)] assms(2) by simp

definition validKey :: "int \<Rightarrow> int \<Rightarrow> rsaKey \<Rightarrow> bool" where
  "validKey p q key \<longleftrightarrow>
     modulusN key = p * q \<and> 0 < expE key \<and> 0 \<le> expD key \<and>
     expE key * expD key mod ((p - 1) * (q - 1)) = 1 \<and>
     1 \<le> blockBytes key \<and> blockBytes key \<le> 3 \<and> 128 ^ blockBytes key \<le> modulusN key"

lemma keygen_valid:
  assumes "pickPrimes rnd i = Some (p, q, j)" "\<And>i. 0 \<le> rnd i"
  shows "\<exists>key k. keygen rnd i = Some (key, k) \<and> validKey p q key \<and> expE key < EXPONENT_MAX"
proof -
  have pq: "odd p" "1 < p" "p \<le> 10000" "odd q" "1 < q" "q \<le> 10000" "128 \<le> p * q"
    using pickPrimes_cases [OF assms] by (auto simp: SINGLE_MAX_def)
  let ?phi = "(p - 1) * (q - 1)"
  have "3 \<le> p" "3 \<le> q" using pq by presburger+
  then have "2 * 2 \<le> ?phi" by (intro mult_mono) auto
  moreover have "?phi \<le> 9999 * 9999" using pq by (intro mult_mono) auto
  ultimately have phi: "1 < ?phi" "?phi < 111546435" by auto
  obtain e where e: "randExponent rnd j ?phi EXPONENT_MAX = Some (e, j + 1)" "coprime e ?phi"
    "0 \<le> e" "e < EXPONENT_MAX"
    using randExponent_returns [of ?phi EXPONENT_MAX rnd j] phi assms(2) by (auto simp: EXPONENT_MAX_def)
  have "e \<noteq> 0"
  proof
    assume "e = 0"
    with e(2) have "is_unit ?phi" by (simp only: coprime_0_left_iff)
    with phi show False by (simp only: zdvd1_eq)
  qed
  then obtain d where d: "inverse e ?phi = Some d" "0 \<le> d" "e * d mod ?phi = 1"
    using inverse_eq [of e ?phi] e phi by (auto simp: EXPONENT_MAX_def)
  let ?n = "p * q"
  let ?bytes = "if drop_bit 21 ?n \<noteq> 0 then 3 else if drop_bit 14 ?n \<noteq> 0 then 2 else 1 :: nat"
  let ?key = "\<lparr>modulusN = ?n, blockBytes = ?bytes, expE = e, expD = d\<rparr>"
  have "128 ^ ?bytes \<le> ?n"
    using pq(7) div_pos_pos_trivial [of ?n "2 ^ 21"] div_pos_pos_trivial [of ?n "2 ^ 14"]
    by (auto simp: drop_bit_eq_div not_le)
  then have "validKey p q ?key" using e d \<open>e \<noteq> 0\<close> by (auto simp: validKey_def)
  moreover have "i32 ?phi = Some ?phi" using phi by (intro i32_fits) simp
  then have "keygen rnd i = Some (?key, j + 1)"
    using assms(1) e d by (simp add: keygen_def Let_def)
  ultimately show ?thesis using e(4) by auto
qed

text \<open>Decoding an encoded message, for a valid key over two different primes.\<close>

lemma message_roundtrip:
  assumes "is_prime p" "is_prime q" "p \<noteq> q" "validKey (int p) (int q) key" "modulusN key < 2 ^ 31"
    and "ascii msg" "length msg = k * blockBytes key"
  shows "\<exists>enc. encodeMessage fill (length msg) (blockBytes key) (msg @ rest) (expE key) (modulusN key)
      = Some enc \<and> length enc = k \<and>
    decodeMessage fill k (blockBytes key) enc (expD key) (modulusN key) = Some (map uint msg)"
proof -
  let ?b = "blockBytes key" and ?n = "modulusN key"
  note v = assms(4) [unfolded validKey_def]
  have pm: "int p - 1 = int (p - 1)" "int q - 1 = int (q - 1)"
    using assms(1,2) by (auto simp: is_prime_def of_nat_diff)
  have n: "?n = int (p * q)" using v by simp
  have ed: "0 \<le> expE key" "0 \<le> expD key" "expE key * expD key mod (int (p - 1) * int (q - 1)) = 1"
    unfolding pm [symmetric] using v by auto
  let ?x = "\<lambda>i. packed (blk ?b msg i)"
  have len: "length (blk ?b msg i) = ?b" if "i < k" for i
    using that assms(7) mult_le_mono1 [of "Suc i" k ?b] by (intro length_blk) simp
  have x: "0 \<le> ?x i \<and> ?x i < ?n" if "i < k" for i
    using packed_bound [OF ascii_blk [OF assms(6)], of ?b i] len [OF that] v by auto
  have "\<forall>i. \<exists>c. i < k \<longrightarrow> encode (?x i) (expE key) ?n = Some c \<and> decode c (expD key) ?n = Some (?x i)"
  proof (intro allI)
    fix i
    have "i < k \<Longrightarrow> \<exists>c. encode (?x i) (expE key) ?n = Some c \<and> 0 \<le> c \<and> c < ?n \<and>
        decode c (expD key) ?n = Some (?x i)"
      using decode_encode [OF assms(1-3) n assms(5) ed(1,2) ed(3)] x by blast
    then show "\<exists>c. i < k \<longrightarrow> encode (?x i) (expE key) ?n = Some c \<and> decode c (expD key) ?n = Some (?x i)"
      by blast
  qed
  then obtain c where c: "encode (?x i) (expE key) ?n = Some (c i)" "decode (c i) (expD key) ?n = Some (?x i)"
    if "i < k" for i
    by metis
  have eq: "blk ?b (msg @ rest) i = blk ?b msg i" if "i < k" for i
    using that assms(7) mult_le_mono1 [of "Suc i" k ?b] by (simp add: blk_def)
  have "encodeMessage fill (length msg) ?b (msg @ rest) (expE key) ?n = Some (map c [0..<k])"
    using encodeLoop_eq [of k ?b "msg @ rest" "length msg" "map fill [0..<k]" 0 k "expE key" ?n c]
      v assms(6,7) c(1) by (simp add: encodeMessage_def eq ascii_blk)
  moreover have "decodeMessage fill k ?b (map c [0..<k]) (expD key) ?n = Some (map uint msg)"
    using decodeLoop_eq [of msg ?b k "map c [0..<k]" "expD key" ?n "map fill [0..<k * ?b]" 0 k]
      v assms(6,7) c(2) by (simp add: decodeMessage_def)
  ultimately show ?thesis by simp
qed

lemma rsaMain_run:
  assumes "pickPrimes rnd 0 = Some (p, q, j)" "\<And>i. 0 \<le> rnd i" "is_prime (nat p)" "is_prime (nat q)"
    and "p \<noteq> q" "ascii file"
  shows "\<exists>enc z. 1 \<le> z \<and> z \<le> 3 \<and>
    rsaMain rnd fill ifill file = Some (enc, map uint (file @ replicate z 0))"
proof -
  obtain key i where key: "keygen rnd 0 = Some (key, i)" "validKey p q key"
    using keygen_valid [OF assms(1,2)] by blast
  note v = key(2) [unfolded validKey_def]
  have pq: "1 < p" "1 < q" "p \<le> 10000" "q \<le> 10000"
    using pickPrimes_cases [OF assms(1,2)] by (auto simp: SINGLE_MAX_def)
  then have "p * q \<le> 10000 * 10000" by (intro mult_mono) auto
  then have n31: "modulusN key < 2 ^ 31" using v by simp
  let ?b = "blockBytes key"
  let ?z = "?b - length file mod ?b"
  obtain b where b: "readFile fill file ?b = Some (b, length file + ?z)"
    "take (length file + ?z) b = file @ replicate ?z 0"
    using readFile_eq [of ?b fill "file"] v by auto
  let ?msg = "file @ replicate ?z 0"
  have msg: "b = ?msg @ drop (length file + ?z) b" using b(2) by (metis append_take_drop_id)
  define k where "k = length file div ?b + 1"
  have b0: "0 < ?b" using v by simp
  have "length ?msg = length file + ?z" "k * ?b = length file div ?b * ?b + ?b" by (simp_all add: k_def)
  then have k: "length ?msg = k * ?b"
    using div_mult_mod_eq [of "length file" ?b] mod_less_divisor [OF b0, of "length file"] by linarith
  have ne: "nat p \<noteq> nat q" "int (nat p) = p" "int (nat q) = q" using assms(5) pq by auto
  have "ascii ?msg" using assms(6) by (auto simp: ascii_def)
  then obtain enc where enc:
    "encodeMessage ifill (length ?msg) ?b (?msg @ drop (length file + ?z) b) (expE key) (modulusN key) = Some enc"
    "decodeMessage ifill k ?b enc (expD key) (modulusN key) = Some (map uint ?msg)"
    using message_roundtrip [OF assms(3,4) ne(1) _ n31 _ k, of ifill "drop (length file + ?z) b"]
      key(2) ne(2,3) by auto
  have len: "length ?msg = length file + ?z" by simp
  have "(length file + ?z) div ?b = k" using k b0 by (simp only: len nonzero_mult_div_cancel_right)
  moreover have "encodeMessage ifill (length file + ?z) ?b b (expE key) (modulusN key) = Some enc"
    using enc(1) by (simp only: msg [symmetric] len)
  ultimately have "rsaMain rnd fill ifill file = Some (enc, map uint ?msg)"
    by (simp only: rsaMain_def key(1) b(1) enc(2) bind.bind_lunit prod.case)
  moreover have "1 \<le> ?z" "?z \<le> 3" using v b0 by (simp_all add: Suc_leI le_trans [OF diff_le_self])
  ultimately show ?thesis by blast
qed

section \<open>Properties\<close>

text \<open>
  Remark.  \<^verbatim>\<open>modpow\<close> computes a power modulo \<open>c\<close>: for a base below \<open>2^31\<close>, a non-negative exponent
  and a modulus of at least 2 the 64-bit products never overflow and the result is \<open>a^b mod c\<close>.
\<close>

theorem modpow_correct:
  assumes "0 \<le> a" "a < 2 ^ 31" "0 \<le> b" "1 < c" "c < 2 ^ 31"
  shows "modpow a b c = Some (a ^ nat b mod c)"
  by (rule modpow_eq [OF assms])

theorem modpow_correct_witness: "modpow 5 3 13 = Some (5 ^ nat 3 mod 13)"
  by (rule modpow_correct) simp_all

text \<open>
  Remark.  \<^verbatim>\<open>inverse\<close> returns, for coprime arguments, a number in \<open>[0, modulus]\<close> whose product with
  \<open>n\<close> is 1 modulo the modulus, and no coefficient of the extended Euclidean loop overflows \<open>int\<close>.
\<close>

theorem inverse_correct:
  assumes "0 < n" "n < 2 ^ 31" "1 < m" "m < 2 ^ 31" "gcdC n m = 1"
  shows "\<exists>d. inverse n m = Some d \<and> 0 \<le> d \<and> d \<le> m \<and> (n * d) mod m = 1"
  using inverse_eq [OF assms(1-4)] assms(1,3,5) by (simp add: gcdC_eq coprime_iff_gcd_eq_1)

theorem inverse_correct_witness:
  "\<exists>d. inverse 17 3120 = Some d \<and> 0 \<le> d \<and> d \<le> 3120 \<and> (17 * d) mod 3120 = 1"
  by (rule inverse_correct) (simp_all add: gcdC.simps smod_nonneg)


definition demoRnd :: "nat \<Rightarrow> int" where
  "demoRnd i = (if i = 0 then 11 else if i = 6 then 13 else 0)"

lemma demo_solovay: "solovayPrime 2 11 = Some 1" "solovayPrime 2 13 = Some 1"
  by code_simp+

lemma demo_probable:
  "probablePrime demoRnd 1 11 ACCURACY = Some (1, 6)" "probablePrime demoRnd 7 13 ACCURACY = Some (1, 12)"
  by (simp_all add: probablePrime_def demoRnd_def ACCURACY_def eval_nat_numeral demo_solovay)

lemma randPrime_hit:
  assumes "0 \<le> rnd i" "rnd i < n" "odd (rnd i)" "probablePrime rnd (i + 1) (rnd i) ACCURACY = Some (1, j)"
  shows "randPrime rnd i n = Some (rnd i, j)"
proof -
  have "rnd i + (1 - rnd i smod 2) = rnd i" using assms by (simp add: smod_nonneg odd_iff_mod_2_eq_one)
  moreover have "randPrimeLoop rnd (i + 1) (rnd i) m = Some (rnd i, j)" for m
    using assms(4) by (subst randPrimeLoop.simps) simp
  ultimately show ?thesis using assms(1,2) by (simp add: randPrime_def Let_def)
qed

lemma demo_randPrime:
  "randPrime demoRnd 0 SINGLE_MAX = Some (11, 6)" "randPrime demoRnd 6 SINGLE_MAX = Some (13, 12)"
  using randPrime_hit [of demoRnd 0 SINGLE_MAX 6] randPrime_hit [of demoRnd 6 SINGLE_MAX 12] demo_probable
  by (simp_all add: demoRnd_def SINGLE_MAX_def)

lemma demo_pick: "pickPrimes demoRnd 0 = Some (11, 13, 12)"
  by (subst pickPrimes.simps) (simp add: demo_randPrime i32_fits)


text \<open>
  C36.  Whenever the program has picked its two numbers, key generation returns, with an exponent that
  has an inverse modulo \<open>(p - 1)(q - 1)\<close>, that inverse, and a block size whose blocks fit the modulus.
\<close>

theorem keygen_keys:
  assumes "pickPrimes rnd i = Some (p, q, j)" "\<And>i. 0 \<le> rnd i"
  shows "\<exists>key k. keygen rnd i = Some (key, k) \<and> validKey p q key \<and> expE key < EXPONENT_MAX"
  by (rule keygen_valid [OF assms])

theorem keygen_keys_witness:
  "\<exists>key k. keygen demoRnd 0 = Some (key, k) \<and> validKey 11 13 key \<and> expE key < EXPONENT_MAX"
  by (rule keygen_keys [OF demo_pick]) (simp add: demoRnd_def)

text \<open>
  Remark.  \<^verbatim>\<open>randPrime\<close> always returns, whatever the random numbers are, and its result is an odd number
  of at least 3, at most \<open>n\<close>, that passed the five Solovay-Strassen tests.
\<close>

theorem randPrime_returns_candidate:
  assumes "3 \<le> n" "n < 2 ^ 31 - 1" "\<And>i. 0 \<le> rnd i"
  shows "\<exists>p j k. randPrime rnd i n = Some (p, j) \<and> odd p \<and> 1 < p \<and> p \<le> n \<and>
    probablePrime rnd k p ACCURACY = Some (1, j)"
  by (rule randPrime_returns [OF assms])

theorem randPrime_returns_candidate_witness:
  "\<exists>p j k. randPrime (\<lambda>i. int i * 7) 3 10000 = Some (p, j) \<and> odd p \<and> 1 < p \<and> p \<le> 10000 \<and>
    probablePrime (\<lambda>i. int i * 7) k p ACCURACY = Some (1, j)"
  by (rule randPrime_returns_candidate) simp_all

text \<open>
  Remark.  A base that \<^verbatim>\<open>solovayPrime\<close> accepts is coprime to \<open>n\<close> and satisfies Fermat's congruence, so a
  composite number passes only with bases for which it is a pseudoprime.
\<close>

theorem solovay_sound:
  assumes "0 \<le> a" "a < 2 ^ 31" "odd n" "1 < n" "n < 2 ^ 31" "solovayPrime a n = Some 1"
  shows "coprime a n \<and> a ^ nat (n - 1) mod n = 1"
  using solovay_fermat [OF assms] solovayPrime_eq [OF assms(1-5)] assms(6) by (auto split: if_splits)

theorem solovay_sound_witness: "coprime 2 (3 :: int) \<and> 2 ^ nat (3 - 1) mod 3 = (1 :: int)"
  by (rule solovay_sound) (simp_all add: solovayPrime_2_3)

text \<open>
  Remark.  \<^verbatim>\<open>readFile\<close> reads a file of any size without leaving its heap block, and pads it with at least
  one zero up to the next multiple of the block size.
\<close>

theorem readFile_pads:
  assumes "0 < bytes"
  shows "\<exists>b n. readFile fill fd bytes = Some (b, n) \<and> n mod bytes = 0 \<and> length fd < n \<and>
    n \<le> length fd + bytes \<and> take n b = fd @ replicate (n - length fd) 0"
proof -
  let ?n = "length fd + (bytes - length fd mod bytes)"
  have "?n = bytes * (length fd div bytes + 1)"
    unfolding distrib_left mult_1_right
    using mult_div_mod_eq [of bytes "length fd"] mod_less_divisor [OF assms, of "length fd"] by linarith
  then have "?n mod bytes = 0" by (metis mod_mult_self1_is_0)
  moreover have "length fd < ?n" "?n \<le> length fd + bytes"
    using mod_less_divisor [OF assms, of "length fd"] by linarith+
  ultimately show ?thesis using readFile_eq [OF assms, of fill fd] by auto
qed

theorem readFile_pads_witness:
  "\<exists>b n. readFile (\<lambda>_. 255) [1, 2, 3] 3 = Some (b, n) \<and> n mod 3 = 0 \<and> length [1, 2, 3 :: u8] < n \<and>
    n \<le> length [1, 2, 3 :: u8] + 3 \<and> take n b = [1, 2, 3] @ replicate (n - length [1, 2, 3 :: u8]) 0"
  by (rule readFile_pads) simp

text \<open>
  Remark.  \<^verbatim>\<open>randExponent\<close> can return 1, although its comment promises an exponent of at least 3: it
  tests the number it drew before it steps past the small ones, and 1 is coprime to everything.  The
  cryptogram of a block is then the block itself.
\<close>

theorem randExponent_one:
  assumes "0 \<le> phi" "0 \<le> x" "x < n" "1 < n" "n < 2 ^ 31"
  shows "randExponent (\<lambda>_. 1) i phi EXPONENT_MAX = Some (1, i + 1) \<and> encode x 1 n = Some x"
  using assms modpow_eq [of x 1 n]
  by (simp add: randExponent_def EXPONENT_MAX_def randExponentLoop.simps gcdC_eq encode_def)

theorem randExponent_one_witness:
  "randExponent (\<lambda>_. 1) 4 3120 EXPONENT_MAX = Some (1, 4 + 1) \<and> encode 65 1 3233 = Some 65"
  by (rule randExponent_one) simp_all

lemma solovay_4_13: "solovayPrime 4 13 = Some 1"
  by code_simp

lemma equal_draws: "randPrime (\<lambda>_. 13) i SINGLE_MAX = Some (13, i + 6)"
  by (rule randPrime_hit)
    (simp_all add: SINGLE_MAX_def probablePrime_def ACCURACY_def eval_nat_numeral solovay_4_13)

lemma equal_key: "inverse 13 144 = Some 133" "modpow 13 13 169 = Some 0" "modpow 0 133 169 = Some 0"
  by code_simp+

text \<open>
  Remark.  Nothing keeps the two primes apart: two equal draws give a modulus that is a
  square, and a block divisible by the prime does not survive encoding and decoding.
\<close>

theorem equal_primes_lose:
  "pickPrimes (\<lambda>_. 13) 0 = Some (13, 13, 12) \<and>
   (\<exists>key k c. keygen (\<lambda>_. 13) 0 = Some (key, k) \<and> encode 13 (expE key) (modulusN key) = Some c \<and>
     decode c (expD key) (modulusN key) = Some 0)"
proof -
  have pick: "pickPrimes (\<lambda>_. 13) 0 = Some (13, 13, 12)"
    by (subst pickPrimes.simps) (simp add: equal_draws i32_fits)
  have "gcd 13 (144 :: int) = 1" by code_simp
  then have "randExponent (\<lambda>_. 13) 12 144 EXPONENT_MAX = Some (13, 13)"
    by (simp add: randExponent_def EXPONENT_MAX_def gcdC_eq randExponentLoop.simps [of 13])
  with pick show ?thesis
    by (simp add: keygen_def i32_fits Let_def equal_key encode_def decode_def)
qed

end
