(* ===== verification/SbRand.thy ===== *)
theory SbRand
  imports Rsa
begin

unbundle bit_operations_syntax

text \<open>
  Random numbers of the benchmark (\<^verbatim>\<open>sb_rand.c\<close>, \<^verbatim>\<open>sb_rand.h\<close>, \<^verbatim>\<open>xoroshiro128plus.h\<close>): the generator
  behind all distributions, the uniform distribution with its floating-point arithmetic, random
  strings, and the sequence of unique numbers.  The numbers of \<^verbatim>\<open>random()\<close> that seed the generators
  are arguments.  The distributions that need logarithms are not modelled.
\<close>

section \<open>The generator\<close>

type_synonym rng = "u64 \<times> u64"

definition xoroshiro_rotl :: "u64 \<Rightarrow> nat \<Rightarrow> u64" where
  "xoroshiro_rotl x k = push_bit k x OR drop_bit (64 - k) x"

definition xoroshiro_next :: "rng \<Rightarrow> u64 \<times> rng" where
  "xoroshiro_next s =
     (let s0 = fst s; s1 = snd s;
          result = s0 + s1;
          s1' = s1 XOR s0
      in (result, (xoroshiro_rotl s0 55 XOR s1' XOR push_bit 14 s1', xoroshiro_rotl s1' 36)))"

definition sb_rand_uniform_uint64 :: "rng \<Rightarrow> u64 \<times> rng" where
  "sb_rand_uniform_uint64 s = xoroshiro_next s"

definition sb_rand_thread_init :: "u64 \<Rightarrow> u64 \<Rightarrow> u64 \<Rightarrow> u64 \<Rightarrow> rng" where
  "sb_rand_thread_init r0 r1 r2 r3 =
     (push_bit 32 r0 OR (r1 AND 0xffffffff), push_bit 32 r2 OR (r3 AND 0xffffffff))"

section \<open>Floating point\<close>

text \<open>
  A non-negative \<open>double\<close> is a natural number of units of \<open>2\<^sup>-\<^sup>5\<^sup>2\<close>.  The result of an operation is rounded to
  53 significant bits, to the nearest, ties to even; the numbers here are far from overflow and
  underflow.
\<close>

fun bit_len :: "nat \<Rightarrow> nat" where
  "bit_len n = (if n = 0 then 0 else Suc (bit_len (n div 2)))"

declare bit_len.simps [simp del]

definition round53 :: "nat \<Rightarrow> nat" where
  "round53 x =
     (let s = bit_len x - 53; q = x div 2 ^ s; r = x mod 2 ^ s
      in if s = 0 then x
         else if 2 ^ s < 2 * r \<or> (2 * r = 2 ^ s \<and> odd q) then (q + 1) * 2 ^ s else q * 2 ^ s)"

text \<open>
  The bits of the random number become the fraction of a number in \<open>[1, 2)\<close>, from which 1 is subtracted:
  the result is the number of units.
\<close>

definition sb_rand_uniform_double :: "rng \<Rightarrow> nat \<times> rng" where
  "sb_rand_uniform_double s =
     (let (x, s') = sb_rand_uniform_uint64 s in (unat (drop_bit 12 x), s'))"

text \<open>The range \<open>b - a + 1\<close> is computed in 32 bits.  A result of \<open>2\<^sup>3\<^sup>2\<close> or more has no defined conversion.\<close>

definition uniform_of :: "u32 \<Rightarrow> u32 \<Rightarrow> nat \<Rightarrow> nat" where
  "uniform_of a b d =
     (let t = round53 (d * unat (b - a + 1)) in round53 (unat a * 2 ^ 52 + t) div 2 ^ 52)"

definition sb_rand_uniform :: "u32 \<Rightarrow> u32 \<Rightarrow> rng \<Rightarrow> (u32 \<times> rng) option" where
  "sb_rand_uniform a b s =
     (let (d, s') = sb_rand_uniform_double s; v = uniform_of a b d
      in if int v < 2 ^ 32 then Some (of_nat v, s') else None)"

section \<open>Strings\<close>

fun sb_rand_str :: "u8 list \<Rightarrow> rng \<Rightarrow> (u8 list \<times> rng) option" where
  "sb_rand_str [] s = Some ([], s)"
| "sb_rand_str (c # fmt) s =
     do {
       (x, s1) \<leftarrow> (if c = 0x23 then sb_rand_uniform 0x30 0x39 s
                   else if c = 0x40 then sb_rand_uniform 0x61 0x7a s
                   else Some (ucast c, s));
       (xs, s2) \<leftarrow> sb_rand_str fmt s1;
       Some (ucast x # xs, s2)
     }"

fun fill_chars :: "nat \<Rightarrow> nat \<Rightarrow> u8 list \<Rightarrow> rng \<Rightarrow> (u8 list \<times> rng) option" where
  "fill_chars i 0 buf s = Some (buf, s)"
| "fill_chars i (Suc n) buf s =
     do {
       (x, s1) \<leftarrow> sb_rand_uniform 0x30 0x7a s;
       buf1 \<leftarrow> buf_write buf i [ucast x];
       fill_chars (i + 1) n buf1 s1
     }"

definition sb_rand_varstr :: "u8 list \<Rightarrow> u32 \<Rightarrow> u32 \<Rightarrow> rng \<Rightarrow> (u32 \<times> u8 list \<times> rng) option" where
  "sb_rand_varstr buf min_len max_len s =
     (if max_len = 0 then Some (0, buf, s)
      else
        let mn = (if min_len > max_len then 1 else min_len)
        in do {
             (num, s1) \<leftarrow> sb_rand_uniform mn max_len s;
             (buf1, s2) \<leftarrow> fill_chars 0 (unat num) buf s1;
             Some (num, buf1, s2)
           })"

section \<open>Unique numbers\<close>

definition unique_prime :: nat where
  "unique_prime = 4294967291"

definition rand_unique_permute :: "u32 \<Rightarrow> u32" where
  "rand_unique_permute x =
     (if x \<ge> 4294967291 then x
      else
        let residue = ucast (((ucast x :: u64) * ucast x) mod 4294967291) :: u32
        in if x \<le> 4294967291 div 2 then residue else 4294967291 - residue)"

record unique_gen =
  rand_unique_index :: u32
  rand_unique_offset :: u32

definition rand_unique_seed :: "u32 \<Rightarrow> u32 \<Rightarrow> unique_gen" where
  "rand_unique_seed index offset =
     \<lparr>rand_unique_index = rand_unique_permute (rand_unique_permute index + 0x682f0161),
      rand_unique_offset = rand_unique_permute (rand_unique_permute offset + 0x46790905)\<rparr>"

definition sb_rand_unique :: "unique_gen \<Rightarrow> u32 \<times> unique_gen" where
  "sb_rand_unique g =
     (let index = rand_unique_index g
      in (rand_unique_permute ((rand_unique_permute index + rand_unique_offset g) XOR 0x5bf03635),
          g\<lparr>rand_unique_index := index + 1\<rparr>))"

fun unique_numbers :: "nat \<Rightarrow> unique_gen \<Rightarrow> u32 list" where
  "unique_numbers 0 g = []"
| "unique_numbers (Suc n) g = (let (x, g') = sb_rand_unique g in x # unique_numbers n g')"

section \<open>The prime\<close>

text \<open>
  Powers modulo \<open>n\<close> by squaring and trial division, on integers, so that the kernel can evaluate
  the certificate.
\<close>

function powmod :: "int \<Rightarrow> int \<Rightarrow> int \<Rightarrow> int" where
  "powmod a k n =
     (if k \<le> 0 then 1 mod n
      else let h = powmod a (k div 2) n; h2 = h * h mod n in if even k then h2 else h2 * a mod n)"
  by pat_completeness auto

termination
  by (relation "measure (\<lambda>(a, k, n). nat k)") auto

declare powmod.simps [simp del]

lemma powmod_eq: "powmod a k n = a ^ nat k mod n"
proof (induction a k n rule: powmod.induct)
  case (1 a k n)
  show ?case
  proof (cases "k \<le> 0")
    case False
    let ?h = "powmod a (k div 2) n" and ?m = "nat (k div 2)"
    have h: "?h * ?h mod n = a ^ (?m + ?m) mod n"
      using 1 False by (simp add: power_add mod_mult_eq)
    show ?thesis
    proof (cases "even k")
      case True
      then have "?m + ?m = nat k" using False by (auto elim!: evenE)
      then show ?thesis using False True h by (subst powmod.simps) (simp add: Let_def)
    next
      case odd: False
      then have k: "nat k = Suc (?m + ?m)" using False by (auto elim!: oddE)
      have "powmod a k n = (a ^ (?m + ?m) mod n) * a mod n"
        using False odd h by (subst powmod.simps) (simp add: Let_def)
      also have "\<dots> = a ^ (?m + ?m) * a mod n" by (simp add: mod_simps)
      also have "a ^ (?m + ?m) * a = a ^ nat k" using k by (metis power_Suc2)
      finally show ?thesis .
    qed
  qed (simp add: powmod.simps)
qed

function trial :: "int \<Rightarrow> int \<Rightarrow> int \<Rightarrow> bool" where
  "trial n d hi = (if d < hi then n mod d \<noteq> 0 \<and> trial n (d + 2) hi else True)"
  by pat_completeness auto

termination
  by (relation "measure (\<lambda>(n, d, hi). nat (hi - d))") auto

declare trial.simps [simp del]

lemma trial_odd: "trial n d hi \<Longrightarrow> d \<le> x \<Longrightarrow> x < hi \<Longrightarrow> odd d \<Longrightarrow> odd x \<Longrightarrow> \<not> x dvd n"
proof (induction n d hi rule: trial.induct)
  case (1 n d hi)
  have t: "n mod d \<noteq> 0" "trial n (d + 2) hi" using 1(2-4) by (subst (asm) trial.simps, simp)+
  show ?case
  proof (cases "x = d")
    case True
    then show ?thesis using t by (auto simp: dvd_eq_mod_eq_0)
  next
    case False
    then have "d + 2 \<le> x" using 1(3,5,6) by (cases "x = d + 1") auto
    then show ?thesis using 1 t by auto
  qed
qed

lemma prime_by_trial:
  assumes "odd n" "1 < n" "trial (int n) 3 hi" "int n < hi * hi" "3 \<le> hi"
  shows "is_prime n"
proof -
  have no: "\<not> d dvd n" if "1 < d" "int d < hi" for d
  proof
    assume d: "d dvd n"
    then have "odd d" using assms(1) by auto
    moreover from this have "3 \<le> d" using that(1) by (cases "d = 2") auto
    ultimately show False using trial_odd [OF assms(3), of "int d"] that d by simp
  qed
  have "d = 1 \<or> d = n" if dv: "d dvd n" for d
  proof (rule ccontr)
    assume ne: "\<not> (d = 1 \<or> d = n)"
    obtain c where c: "n = d * c" using dv unfolding dvd_def by blast
    have "1 < d" "1 < c" using ne c assms(2) by (cases d; cases c; auto)+
    then have "hi \<le> int d" "hi \<le> int c" using no [of d] no [of c] c by (auto simp: not_less [symmetric])
    then have "hi * hi \<le> int d * int c" using assms(5) by (intro mult_mono) auto
    then show False using assms(4) by (simp add: c)
  qed
  then show ?thesis using assms(2) by (simp add: is_prime_def)
qed

lemma least_divisor:
  assumes "1 < n"
  shows "\<exists>r. is_prime r \<and> r dvd n \<and> (is_prime n \<or> r * r \<le> n)"
proof -
  define r where "r = (LEAST d. 1 < d \<and> d dvd n)"
  have r: "1 < r" "r dvd n" using LeastI [of "\<lambda>d. 1 < d \<and> d dvd n" n] assms by (simp_all add: r_def)
  have least: "r \<le> d" if "1 < d" "d dvd n" for d unfolding r_def using that by (intro Least_le) simp
  have pr: "is_prime r"
    unfolding is_prime_def
  proof (intro conjI allI impI)
    fix d assume d: "d dvd r"
    have "d \<noteq> 0" using d r(1) by (cases "d = 0") auto
    moreover have "d \<le> r" using d r(1) by (auto intro: dvd_imp_le)
    ultimately show "d = 1 \<or> d = r" using least [of d] d r(2) dvd_trans by (cases "d = 1") fastforce+
  qed (rule r)
  obtain c where c: "n = r * c" using r(2) unfolding dvd_def by blast
  show ?thesis
  proof (cases "c = 1")
    case True
    then show ?thesis using pr c by auto
  next
    case False
    moreover have "c dvd n" "0 < c" using c assms by (auto intro: Nat.gr0I)
    ultimately have "r \<le> c" using least [of c] by simp
    then show ?thesis using pr r(2) c by auto
  qed
qed

text \<open>Pocklington's criterion for a large prime factor \<open>q\<close> of \<open>n - 1\<close>.\<close>

lemma power_1_coprime:
  assumes "is_prime r" "b ^ q mod r = 1 mod r" "b ^ (r - 1) mod r = 1 mod r" "coprime q (r - 1)"
  shows "b mod r = 1 mod (r :: nat)"
proof -
  have r: "1 < r" using assms(1) by (simp add: is_prime_def)
  have pw: "b ^ (k * m) mod r = 1 mod r" if "b ^ k mod r = 1 mod r" for k m
  proof -
    have "b ^ (k * m) mod r = (b ^ k mod r) ^ m mod r" by (simp add: power_mult power_mod)
    then show ?thesis using that r by simp
  qed
  obtain x y where xy: "q * x = (r - 1) * y + 1 \<or> (r - 1) * x = q * y + 1"
    using assms(4) bezout_nat [of q "r - 1"] bezout_nat [of "r - 1" q] r
    by (cases "q = 0") (auto simp: gcd.commute coprime_iff_gcd_eq_1)
  have "b mod r = 1 mod r" if "k * x = m * y + 1" "b ^ k mod r = 1 mod r" "b ^ m mod r = 1 mod r" for k m
  proof -
    have "1 mod r = b ^ (m * y + 1) mod r" using pw [OF that(2), of x] that(1) by simp
    also have "\<dots> = (b ^ (m * y) mod r) * b mod r" by (simp add: mod_simps mult.commute)
    also have "\<dots> = b mod r" using pw [OF that(3), of y] r by simp
    finally show ?thesis by simp
  qed
  then show ?thesis using xy assms(2,3) by blast
qed

lemma fermat_unit:
  assumes "is_prime r" "\<not> r dvd b"
  shows "b ^ (r - 1) mod r = 1 mod (r :: nat)"
proof -
  have r: "1 < r" and b: "0 < b" using assms by (auto simp: is_prime_def intro: Nat.gr0I)
  have "b * b ^ (r - 1) = b ^ r" using r by (metis power_eq_if not_one_less_zero)
  then have "b * b ^ (r - 1) mod r = b * 1 mod r" using fermat [OF assms(1), of b] by simp
  then have "r dvd b * b ^ (r - 1) - b * 1" using b by (subst mod_eq_dvd_iff_nat [symmetric]) auto
  then have "r dvd b * (b ^ (r - 1) - 1)" by (simp add: diff_mult_distrib2)
  then have "r dvd b ^ (r - 1) - 1" using assms is_prime_dvd_mult by blast
  then show ?thesis using b by (subst mod_eq_dvd_iff_nat) auto
qed

lemma pocklington:
  assumes q: "is_prime q" and n: "n = m * q + 1" "n < (q + 1) * (q + 1)" "1 < n"
    and e: "e = n - 1" and a: "a ^ e mod n = 1" and b: "a ^ m mod n = b" "1 \<le> b" "(b - 1) * u mod n = 1"
  shows "is_prime n"
proof -
  obtain r where r: "is_prime r" "r dvd n" "is_prime n \<or> r * r \<le> n" using least_divisor [OF n(3)] by blast
  have r1: "1 < r" using r(1) by (simp add: is_prime_def)
  have "b ^ q mod n = (a ^ m) ^ q mod n" unfolding b(1) [symmetric] by (rule power_mod)
  then have "b ^ q mod n = 1" using a n(1) e by (simp add: power_mult)
  then have bq: "b ^ q mod r = 1 mod r" using r(2) by (metis mod_mod_cancel)
  have "0 < q" using q by (simp add: is_prime_def)
  then have "\<not> r dvd b" using bq r1 dvd_power_le [of r b 1 q] by (auto simp: dvd_eq_mod_eq_0)
  then have fb: "b ^ (r - 1) mod r = 1 mod r" by (rule fermat_unit [OF r(1)])
  have "\<not> coprime q (r - 1)"
  proof
    assume "coprime q (r - 1)"
    then have "b mod r = 1 mod r" by (rule power_1_coprime [OF r(1) bq fb])
    then have "r dvd b - 1" using b(2) mod_eq_dvd_iff_nat [of 1 b r] by simp
    then have "(b - 1) * u mod r = 0" by simp
    moreover have "(b - 1) * u mod r = 1 mod r" using b(3) r(2) by (metis mod_mod_cancel)
    ultimately show False using r1 by simp
  qed
  then have "q dvd r - 1" using is_prime_coprime [OF q] by blast
  then have "q + 1 \<le> r" using r1 dvd_imp_le [of q "r - 1"] by simp
  then have "(q + 1) * (q + 1) \<le> r * r" by (intro mult_le_mono)
  then show ?thesis using r(3) n(2) by auto
qed

lemma prime_22605091: "is_prime 22605091"
proof (rule prime_by_trial)
  have "trial 22605091 3 4755" by code_simp
  then show "trial (int 22605091) 3 4755" by simp
qed simp_all

lemma unique_prime_prime: "is_prime unique_prime"
proof -
  have "powmod 2 4294967290 4294967291 = 1" "powmod 2 190 4294967291 = 1073745729" by code_simp+
  then have p: "(2 :: int) ^ 4294967290 mod 4294967291 = 1" "(2 :: int) ^ 190 mod 4294967291 = 1073745729"
    by (simp_all only: powmod_eq nat_numeral)
  have "int (2 ^ 4294967290 mod 4294967291) = int 1" "int (2 ^ 190 mod 4294967291) = int 1073745729"
    by (simp_all only: zmod_int of_nat_power of_nat_numeral of_nat_1 p)
  then have f: "(2 :: nat) ^ 4294967290 mod 4294967291 = 1" "(2 :: nat) ^ 190 mod 4294967291 = 1073745729"
    by (simp_all only: of_nat_eq_iff)
  have "is_prime 4294967291"
    by (rule pocklington [OF prime_22605091 _ _ _ _ f, where u = 1771216906]) simp_all
  then show ?thesis by (simp add: unique_prime_def)
qed

section \<open>The permutation\<close>

text \<open>Minus one is not a square modulo a prime that is 3 modulo 4.\<close>

lemma sum_of_squares:
  assumes p: "is_prime p" "p mod 4 = 3" and s: "p dvd x * x + y * y"
  shows "p dvd y"
proof (rule ccontr)
  assume y: "\<not> p dvd y"
  then have x: "\<not> p dvd x" using s is_prime_dvd_mult [OF p(1), of y y] by (metis dvd_add_right_iff dvd_mult2)
  obtain k where k: "p - 1 = 2 * k" "odd k"
  proof
    show "p - 1 = 2 * ((p - 1) div 2)" "odd ((p - 1) div 2)" using p(2) by presburger+
  qed
  have p1: "2 < p" using p by (cases "p = 2") (auto simp: is_prime_def)
  have one: "int (z * z) ^ k mod int p = 1" if "\<not> p dvd z" for z
  proof -
    have "(z * z) ^ k mod p = 1"
      using fermat_unit [OF p(1) that] p1 k(1) by (simp add: power_mult power2_eq_square)
    then show ?thesis by (metis of_nat_1 of_nat_power zmod_int)
  qed
  have "int (x * x) mod int p = (- int (y * y)) mod int p"
    using s by (simp add: mod_eq_dvd_iff) (metis of_nat_add of_nat_dvd_iff of_nat_mult)
  then have "int (x * x) ^ k mod int p = (- int (y * y)) ^ k mod int p" by (metis power_mod)
  also have "(- int (y * y)) ^ k = - (int (y * y) ^ k)" using k(2) by (simp add: power_minus_odd)
  also have "\<dots> mod int p = (- (int (y * y) ^ k mod int p)) mod int p" by (simp add: mod_minus_eq)
  finally have "(1 :: int) = (- 1) mod int p" using one [OF x] one [OF y] by simp
  then have "1 mod int p = (- 1) mod int p" using p1 by simp
  then have "int p dvd 1 - - 1" by (simp only: mod_eq_dvd_iff)
  then show False using p1 by (auto dest: zdvd_imp_le)
qed

lemma equal_squares:
  assumes p: "is_prime p" and s: "x * x mod p = y * y mod p" and n: "\<not> p dvd x + y" and le: "x \<le> y" "y < p"
  shows "x = y"
proof -
  have "p dvd y * y - x * x" using s le mult_le_mono [OF le(1) le(1)] by (metis mod_eq_dvd_iff_nat)
  also have "y * y - x * x = (y - x) * (x + y)" using le(1) by (auto simp: le_iff_add algebra_simps)
  finally have "p dvd y - x" using is_prime_dvd_mult [OF p] n by blast
  moreover have "y - x < p" using le(2) by simp
  ultimately show ?thesis using le(1) dvd_imp_le [of p "y - x"] by force
qed

definition nat_permute :: "nat \<Rightarrow> nat \<Rightarrow> nat" where
  "nat_permute p x = (if x \<le> p div 2 then x * x mod p else p - x * x mod p)"

lemma nat_permute_inj:
  assumes p: "is_prime p" "p mod 4 = 3" and x: "x < p" and y: "y < p" and xy: "nat_permute p x = nat_permute p y" and "x \<le> y"
  shows "x = y"
proof -
  have odd: "2 * (p div 2) + 1 = p" using p(2) by presburger
  have lt: "z * z mod p < p" for z using x by simp
  consider "y \<le> p div 2" | "p div 2 < x" | "x \<le> p div 2" "p div 2 < y" by linarith
  then show ?thesis
  proof cases
    case 1
    then have "x * x mod p = y * y mod p" using xy \<open>x \<le> y\<close> by (simp add: nat_permute_def)
    moreover have "x + y < p" using 1 \<open>x \<le> y\<close> odd by simp
    then have "x = y" if "p dvd x + y" using that dvd_imp_le [of p "x + y"] by auto
    ultimately show ?thesis using equal_squares [OF p(1) _ _ \<open>x \<le> y\<close> y] by blast
  next
    case 2
    then have "p - x * x mod p = p - y * y mod p" using xy \<open>x \<le> y\<close> by (simp add: nat_permute_def)
    then have "x * x mod p = y * y mod p" using lt [of x] lt [of y] by simp
    moreover have "\<not> p dvd x + y"
    proof
      assume "p dvd x + y"
      then obtain c where c: "x + y = p * c" unfolding dvd_def by blast
      have "p < x + y" "x + y < 2 * p" using 2 \<open>x \<le> y\<close> odd x y by linarith+
      then have "p * 1 < p * c" "p * c < p * 2" using c by simp_all
      then have "1 < c" "c < 2" by (simp_all only: mult_less_cancel1)
      then show False by simp
    qed
    ultimately show ?thesis using equal_squares [OF p(1) _ _ \<open>x \<le> y\<close> y] by blast
  next
    case 3
    then have "x * x mod p = p - y * y mod p" using xy by (simp add: nat_permute_def)
    then have "x * x mod p + y * y mod p = p" using lt [of y] by simp
    then have "(x * x mod p + y * y mod p) mod p = 0" by simp
    then have "(x * x + y * y) mod p = 0" by (simp only: mod_add_eq)
    then have "p dvd x * x + y * y" by (simp only: dvd_eq_mod_eq_0)
    then have "p dvd y" by (rule sum_of_squares [OF p])
    then show ?thesis using 3 y dvd_imp_le [of p y] by simp
  qed
qed

lemma nat_permute_bound:
  assumes "is_prime p" "x < p"
  shows "nat_permute p x < p"
proof (cases "x \<le> p div 2")
  case True
  then show ?thesis using assms(2) by (simp add: nat_permute_def)
next
  case False
  then have "\<not> p dvd x" using assms(2) dvd_imp_le [of p x] by force
  then have "\<not> p dvd x * x" using is_prime_dvd_mult [OF assms(1)] by blast
  then have "0 < x * x mod p" by (simp add: dvd_eq_mod_eq_0)
  then show ?thesis using False assms(2) by (simp add: nat_permute_def)
qed

text \<open>The words: products of two 32-bit numbers fit 64 bits.\<close>

lemma unat_permute:
  "unat (rand_unique_permute x) = (if unat x < unique_prime then nat_permute unique_prime (unat x) else unat x)"
proof -
  let ?p = "4294967291 :: nat"
  have x: "unat x < 2 ^ 32" using unsigned_less [of x, where 'a = nat] by simp
  have "unat x * unat x < 2 ^ 64" using mult_strict_mono [OF x x] by simp
  then have sq: "unat ((ucast x :: u64) * ucast x) = unat x * unat x"
    using x by (simp add: unat_word_ariths unsigned_ucast_eq take_bit_nat_eq_self)
  define r :: u32 where "r = ucast (((ucast x :: u64) * ucast x) mod 4294967291)"
  have "unat (((ucast x :: u64) * ucast x) mod 4294967291) = unat x * unat x mod ?p"
    unfolding unat_mod sq by simp
  then have r: "unat r = unat x * unat x mod ?p"
    unfolding r_def by (simp add: unsigned_ucast_eq take_bit_nat_eq_self)
  have h: "(4294967291 :: u32) div 2 = 2147483645" by simp
  have "unat (4294967291 - r) = ?p - unat r"
    by (subst unat_sub) (use r in \<open>simp_all add: word_le_nat_alt\<close>)
  then show ?thesis
    using r by (auto simp: rand_unique_permute_def h r_def [symmetric] Let_def nat_permute_def unique_prime_def word_le_nat_alt)
qed

lemma permute_inj: "inj rand_unique_permute"
proof (rule injI)
  fix x y :: u32 assume eq: "rand_unique_permute x = rand_unique_permute y"
  have m: "unique_prime mod 4 = 3" by (simp add: unique_prime_def)
  have "unat x = unat y"
  proof (cases "unat x < unique_prime \<longleftrightarrow> unat y < unique_prime")
    case True
    then show ?thesis
      using arg_cong [OF eq, of unat] nat_permute_inj [OF unique_prime_prime m, of "unat x" "unat y"]
        nat_permute_inj [OF unique_prime_prime m, of "unat y" "unat x"]
      unfolding unat_permute by (auto split: if_splits) (metis nat_le_linear)
  next
    case False
    then show ?thesis
      using arg_cong [OF eq, of unat] nat_permute_bound [OF unique_prime_prime, of "unat x"]
        nat_permute_bound [OF unique_prime_prime, of "unat y"]
      unfolding unat_permute by (auto split: if_splits)
  qed
  then show "x = y" by (rule word_unat_eq_iff [THEN iffD2])
qed

lemma xor_add_inj: "(x + k) XOR m = (y + k) XOR m \<Longrightarrow> x = (y :: u32)"
  by (metis add_right_cancel xor_cancel_right)

lemma unique_numbers_eq:
  "unique_numbers n g =
     map (\<lambda>i. rand_unique_permute ((rand_unique_permute (rand_unique_index g + of_nat i) + rand_unique_offset g) XOR 0x5bf03635)) [0..<n]"
proof (induction n arbitrary: g)
  case (Suc n)
  have "[0..<Suc n] = 0 # map Suc [0..<n]" by (simp add: map_Suc_upt upt_conv_Cons del: upt_Suc)
  then show ?case using Suc by (simp add: sb_rand_unique_def Let_def add.assoc del: upt_Suc)
qed simp

text \<open>
  C9 (safety).  For all seeds the sequence of unique random numbers does not repeat within the first \<open>2\<^sup>3\<^sup>2\<close> calls:
  squaring modulo the prime \<open>2\<^sup>3\<^sup>2 - 5\<close>, with the sign given by the half, is a permutation.
\<close>

theorem rand_unique: "distinct (unique_numbers (2 ^ 32) (rand_unique_seed index offset))"
proof -
  define g where "g = rand_unique_seed index offset"
  have "inj_on (\<lambda>i. rand_unique_permute ((rand_unique_permute (rand_unique_index g + of_nat i) + rand_unique_offset g) XOR 0x5bf03635)) {0..<2 ^ 32}"
  proof (rule inj_onI)
    fix i j :: nat
    let ?f = "\<lambda>i. rand_unique_permute (rand_unique_index g + of_nat i)"
    assume ij: "i \<in> {0..<2 ^ 32}" "j \<in> {0..<2 ^ 32}"
      and eq: "rand_unique_permute ((?f i + rand_unique_offset g) XOR 0x5bf03635) = rand_unique_permute ((?f j + rand_unique_offset g) XOR 0x5bf03635)"
    have "?f i = ?f j" by (rule xor_add_inj) (rule injD [OF permute_inj eq])
    then have "rand_unique_index g + of_nat i = rand_unique_index g + of_nat j" by (rule injD [OF permute_inj])
    then have "unat (of_nat i :: u32) = unat (of_nat j :: u32)" by simp
    then have "i mod 2 ^ 32 = j mod 2 ^ 32" by (simp only: unat_of_nat) simp
    then show "i = j" using ij by simp
  qed
  then show ?thesis unfolding g_def [symmetric] unique_numbers_eq by (simp only: distinct_map distinct_upt set_upt simp_thms)
qed

section \<open>The generator never gets stuck\<close>

lemma rotl_eq_0: "k < 64 \<Longrightarrow> xoroshiro_rotl x k = 0 \<longleftrightarrow> x = 0"
proof
  assume k: "k < 64" and z: "xoroshiro_rotl x k = 0"
  have no: "\<not> bit (xoroshiro_rotl x k) m" for m by (simp add: z)
  show "x = 0"
  proof (rule bit_word_eqI)
    fix n assume n: "n < LENGTH(64)"
    have "\<not> bit x n"
    proof (cases "n + k < 64")
      case True
      then show ?thesis using no [of "n + k"] by (simp add: xoroshiro_rotl_def bit_simps)
    next
      case False
      then have "64 - k + (n + k - 64) = n" using k by simp
      then show ?thesis using no [of "n + k - 64"] by (simp add: xoroshiro_rotl_def bit_simps)
    qed
    then show "bit x n = bit (0 :: u64) n" by simp
  qed
qed (simp add: xoroshiro_rotl_def)

lemma next_nonzero: "snd (xoroshiro_next s) = (0, 0) \<longleftrightarrow> s = (0, 0)"
proof
  assume z: "snd (xoroshiro_next s) = (0, 0)"
  then have e: "snd s XOR fst s = 0" by (simp add: xoroshiro_next_def Let_def rotl_eq_0)
  then have "(snd s XOR fst s) XOR fst s = fst s" by simp
  then have "snd s = fst s" by (simp add: xor.assoc)
  moreover from this have "xoroshiro_rotl (fst s) 55 = 0" using z by (simp add: xoroshiro_next_def Let_def)
  ultimately show "s = (0, 0)" by (cases s) (simp add: rotl_eq_0)
qed (simp add: xoroshiro_next_def xoroshiro_rotl_def)

text \<open>Remark.  A seed other than zero never leads to the state zero, in which all numbers would be zero.\<close>

lemma rng_never_stuck: "((\<lambda>s. snd (xoroshiro_next s)) ^^ n) s = (0, 0) \<longleftrightarrow> s = (0, 0)"
  by (induction n) (simp_all add: next_nonzero)

section \<open>Rounding\<close>

lemma bit_len_0 [simp]: "bit_len 0 = 0"
  by (subst bit_len.simps) simp

lemma bit_len_bounds: "n < (2 :: nat) ^ bit_len n \<and> (n \<noteq> 0 \<longrightarrow> 2 ^ (bit_len n - 1) \<le> n)"
proof (induction n rule: bit_len.induct)
  case (1 n)
  show ?case
  proof (cases "n = 0")
    case True
    then show ?thesis by (simp add: bit_len.simps)
  next
    case False
    let ?h = "n div 2"
    have l: "bit_len n = Suc (bit_len ?h)" using False by (subst bit_len.simps) simp
    have h: "?h < 2 ^ bit_len ?h" "?h \<noteq> 0 \<longrightarrow> 2 ^ (bit_len ?h - 1) \<le> ?h" using 1 False by auto
    have "n < 2 ^ Suc (bit_len ?h)" using h(1) by simp
    moreover have "2 ^ bit_len ?h \<le> n"
    proof (cases "?h = 0")
      case True
      then show ?thesis using False by (simp add: bit_len.simps)
    next
      case False
      then have "bit_len ?h \<noteq> 0" by (subst bit_len.simps) simp
      then have "(2 :: nat) ^ bit_len ?h = 2 * 2 ^ (bit_len ?h - 1)" by (metis power_eq_if)
      then show ?thesis using h(2) False by linarith
    qed
    ultimately show ?thesis unfolding l by simp
  qed
qed

text \<open>Rounding does not cross a number with at most 53 significant bits.\<close>

lemma round53_bounds:
  assumes y: "y = c * 2 ^ k" "c < 2 ^ 53"
  shows "x \<le> y \<Longrightarrow> round53 x \<le> y" and "y \<le> x \<Longrightarrow> y \<le> round53 x"
proof -
  define s where "s = bit_len x - 53"
  define q where "q = x div 2 ^ s"
  define r where "r = x mod 2 ^ s"
  have x: "x = q * 2 ^ s + r" unfolding q_def r_def by (rule div_mult_mod_eq [symmetric])
  have r: "r < 2 ^ s" by (simp add: r_def)
  have cases: "round53 x = x \<or> s \<noteq> 0 \<and> (round53 x = q * 2 ^ s \<or> r \<noteq> 0 \<and> round53 x = (q + 1) * 2 ^ s)"
    unfolding round53_def s_def [symmetric] Let_def q_def [symmetric] r_def [symmetric] by auto
  have big: "2 ^ 52 * 2 ^ s \<le> q * 2 ^ s" if "s \<noteq> 0"
  proof -
    have "bit_len x - 1 = 52 + s" "x \<noteq> 0" using that by (auto simp: s_def intro!: gr0I)
    then have "2 ^ (52 + s) \<le> x" using bit_len_bounds [of x] by simp
    then have "2 ^ 52 \<le> q" by (simp add: q_def power_add less_eq_div_iff_mult_less_eq)
    then show ?thesis by simp
  qed
  have small: "y < 2 ^ 52 * 2 ^ s" if "k < s"
  proof -
    have "y < 2 ^ 53 * 2 ^ k" using y by simp
    also have "\<dots> = 2 ^ 52 * 2 ^ Suc k" by simp
    also have "\<dots> \<le> 2 ^ 52 * 2 ^ s" using that by (intro mult_left_mono power_increasing) auto
    finally show ?thesis .
  qed
  have multiple: "\<exists>m. y = m * 2 ^ s" if "s \<le> k"
    using y(1) that by (metis le_imp_power_dvd dvd_def dvd_mult mult.commute)
  show "round53 x \<le> y" if "x \<le> y"
  proof (cases "s \<le> k \<or> s = 0")
    case True
    then obtain m where m: "y = m * 2 ^ s" using multiple by force
    have "q + 1 \<le> m" if "r \<noteq> 0"
    proof -
      have "q * 2 ^ s < m * 2 ^ s" using \<open>x \<le> y\<close> x r m that by linarith
      then show ?thesis by simp
    qed
    then have "r \<noteq> 0 \<Longrightarrow> (q + 1) * 2 ^ s \<le> y" unfolding m by (intro mult_right_mono) auto
    then show ?thesis using cases that x by auto
  next
    case False
    then have "y < 2 ^ 52 * 2 ^ s" "2 ^ 52 * 2 ^ s \<le> q * 2 ^ s" using small big by auto
    then have "y < x" using x by linarith
    then show ?thesis using that by simp
  qed
  show "y \<le> round53 x" if "y \<le> x"
  proof -
    have "y \<le> q * 2 ^ s" if "s \<noteq> 0"
    proof (cases "s \<le> k")
      case True
      then obtain m where m: "y = m * 2 ^ s" using multiple by blast
      have "m * 2 ^ s < (q + 1) * 2 ^ s" using \<open>y \<le> x\<close> x r unfolding m by simp
      then have "m < q + 1" by (simp only: mult_less_cancel2)
      then show ?thesis unfolding m by (intro mult_right_mono) auto
    next
      case False
      then show ?thesis using less_le_trans [OF small big] that by simp
    qed
    moreover have "q * 2 ^ s \<le> (q + 1) * 2 ^ s" by simp
    ultimately show ?thesis using cases that by (metis le_trans)
  qed
qed

lemma uniform_of_range:
  assumes "a \<le> b" "d < 2 ^ 52"
  shows "unat a \<le> uniform_of a b d \<and> uniform_of a b d \<le> unat b + 1"
proof -
  define n where "n = unat (b - a + 1)"
  define t where "t = round53 (d * n)"
  have ab: "unat a \<le> unat b" using assms(1) by (simp add: word_le_nat_alt)
  have b: "unat b < 2 ^ 32" using unsigned_less [of b, where 'a = nat] by simp
  have n: "n \<le> unat b - unat a + 1"
    using assms(1) ab by (simp add: n_def unat_word_ariths unat_sub)
  have n53: "n < 2 ^ 53" using n b by simp
  have t: "t \<le> n * 2 ^ 52"
    unfolding t_def by (rule round53_bounds(1) [OF refl n53]) (use assms(2) in \<open>simp add: mult.commute\<close>)
  then have top: "unat a * 2 ^ 52 + t \<le> (unat b + 1) * 2 ^ 52"
    using n ab mult_le_mono1 [of "unat a + n" "unat b + 1" "2 ^ 52"] by (simp add: algebra_simps)
  have "unat a < 2 ^ 53" "unat b + 1 < 2 ^ 53" using ab b by simp_all
  then have "unat a * 2 ^ 52 \<le> round53 (unat a * 2 ^ 52 + t)" "round53 (unat a * 2 ^ 52 + t) \<le> (unat b + 1) * 2 ^ 52"
    using round53_bounds(2) [OF refl, of "unat a" 52 "unat a * 2 ^ 52 + t"] round53_bounds(1) [OF refl _ top] by simp_all
  note rounded = this
  have v: "uniform_of a b d = round53 (unat a * 2 ^ 52 + t) div 2 ^ 52"
    by (simp add: uniform_of_def n_def t_def Let_def)
  show ?thesis
    using div_le_mono [OF rounded(1), of "2 ^ 52"] div_le_mono [OF rounded(2), of "2 ^ 52"] unfolding v by simp
qed

text \<open>
  Remark (bounds).  A uniform random number from \<open>[a, b]\<close> is never below \<open>a\<close> and never above
  \<open>b + 1\<close>, and it exists unless \<open>b\<close> is the largest number of 32 bits.
\<close>

theorem uniform_range:
  assumes "a \<le> b"
  shows "case sb_rand_uniform a b s of
           None \<Rightarrow> b = - 1
         | Some (v, s') \<Rightarrow> a \<le> v \<and> unat v \<le> unat b + 1 \<and> s' = snd (xoroshiro_next s)"
proof -
  define d where "d = unat (drop_bit 12 (fst (xoroshiro_next s)))"
  define v where "v = uniform_of a b d"
  have "d < 2 ^ 52"
    using unsigned_less [of "fst (xoroshiro_next s)", where 'a = nat]
    unfolding d_def unsigned_drop_bit_eq by (simp add: take_bit_nat_eq_self drop_bit_eq_div less_mult_imp_div_less)
  from uniform_of_range [OF assms this] have v: "unat a \<le> v" "v \<le> unat b + 1" by (simp_all add: v_def)
  have u: "sb_rand_uniform a b s = (if int v < 2 ^ 32 then Some (of_nat v, snd (xoroshiro_next s)) else None)"
    by (simp add: sb_rand_uniform_def sb_rand_uniform_double_def sb_rand_uniform_uint64_def v_def d_def
        split_beta Let_def)
  show ?thesis
  proof (cases "int v < 2 ^ 32")
    case True
    then have "unat (of_nat v :: u32) = v" by (simp only: unat_of_nat) simp
    then show ?thesis using True v by (simp add: u word_le_nat_alt)
  next
    case False
    then have "unat b = unat (- 1 :: u32)" using v(2) unsigned_less [of b, where 'a = nat]
      by (simp add: unsigned_minus_1_eq_mask mask_eq_exp_minus_1)
    then have "b = - 1" by (simp only: unsigned_word_eqI)
    moreover have "sb_rand_uniform a b s = None" using False by (simp add: u)
    ultimately show ?thesis by simp
  qed
qed

theorem uniform_range_witness:
  "case sb_rand_uniform 0x30 0x39 (- 1, 0) of
     None \<Rightarrow> (0x39 :: u32) = - 1
   | Some (v, s') \<Rightarrow> 0x30 \<le> v \<and> unat v \<le> unat (0x39 :: u32) + 1 \<and> s' = snd (xoroshiro_next (- 1, 0))"
  by (rule uniform_range) simp

text \<open>
  Remark.  The rounding of the sum makes \<open>b + 1\<close> possible, so that a random digit may be a colon and a
  random string may be longer than its buffer; and the whole range of 32 bits gives always zero.
\<close>

lemma bit_len_eqI: "2 ^ k \<le> n \<Longrightarrow> n < 2 ^ Suc k \<Longrightarrow> bit_len n = Suc k"
proof (induction k arbitrary: n)
  case 0
  then show ?case by (simp add: bit_len.simps)
next
  case (Suc k)
  have "0 < n" using Suc(2) by (cases n) auto
  then show ?case using Suc(1) [of "n div 2"] Suc(2,3) by (subst bit_len.simps) simp
qed

lemma uniform_of_top: "uniform_of 0x30 0x39 (2 ^ 52 - 1) = 0x3a" "uniform_of 5 5 (2 ^ 52 - 1) = 6"
  using bit_len_eqI [of 55 "(2 ^ 52 - 1) * 10"] bit_len_eqI [of 57 "48 * 2 ^ 52 + (10 * 2 ^ 52 - 8)"]
    bit_len_eqI [of 51 "2 ^ 52 - 1"] bit_len_eqI [of 54 "5 * 2 ^ 52 + (2 ^ 52 - 1)"]
  by (simp_all add: uniform_of_def round53_def Let_def)

lemma uniform_top:
  "map_option fst (sb_rand_uniform 0x30 0x39 (- 1, 0)) = Some 0x3a"
  "map_option fst (sb_rand_uniform 5 5 (- 1, 0)) = Some 6"
proof -
  have "unat (drop_bit 12 (fst (xoroshiro_next (- 1, 0)))) = 2 ^ 52 - 1"
    unfolding unsigned_drop_bit_eq by (simp add: xoroshiro_next_def Let_def unsigned_minus_1_eq_mask mask_eq_exp_minus_1)
  then show "map_option fst (sb_rand_uniform 0x30 0x39 (- 1, 0)) = Some 0x3a"
    "map_option fst (sb_rand_uniform 5 5 (- 1, 0)) = Some 6"
    using uniform_of_top
    by (simp_all add: sb_rand_uniform_def sb_rand_uniform_double_def sb_rand_uniform_uint64_def split_beta Let_def)
qed

lemma fill_chars_overrun: "length buf < i + n \<Longrightarrow> 0 < n \<Longrightarrow> fill_chars i n buf s = None"
proof (induction i n buf s rule: fill_chars.induct)
  case (2 i n buf s)
  show ?case
  proof (cases "sb_rand_uniform 0x30 0x7a s")
    case (Some r)
    then show ?thesis
    proof (cases "buf_write buf i [ucast (fst r) :: u8]")
      case w: (Some buf1)
      then have "length buf1 = length buf" "i < length buf" by (auto simp: buf_write_def split: if_splits)
      then show ?thesis using 2(1) [of r "fst r" "snd r" buf1] 2(2) Some w by (cases n) (auto simp: split_beta)
    qed (simp add: split_beta)
  qed simp
qed simp

lemma varstr_overrun: "length buf < 6 \<Longrightarrow> sb_rand_varstr buf 5 5 (- 1, 0) = None"
  using uniform_top(2) fill_chars_overrun [of buf 0 6] by (auto simp: sb_rand_varstr_def split_beta)

lemma uniform_all: "map_option fst (sb_rand_uniform 0 (- 1) s) = Some 0"
  by (simp add: sb_rand_uniform_def sb_rand_uniform_double_def sb_rand_uniform_uint64_def
      uniform_of_def round53_def split_beta Let_def)

end
