(* ===== verification/SbStats.thy ===== *)
theory SbStats
  imports SbRand
begin

unbundle bit_operations_syntax

text \<open>
  Statistics of the benchmark: timers (\<^verbatim>\<open>sb_timer.c\<close>, \<^verbatim>\<open>sb_timer.h\<close>), event counters (\<^verbatim>\<open>sb_counter.c\<close>,
  \<^verbatim>\<open>sb_counter.h\<close>) and the latency histogram (\<^verbatim>\<open>sb_histogram.c\<close>).  The current time is an argument of
  the operations that read the clock.  Operations that run under the lock of a timer are single
  steps.  The histogram is updated without a lock: its merging loops take the updates that other
  threads make before each atomic fetch as an argument.
\<close>

section \<open>Timers\<close>

record timespec =
  tv_sec :: int
  tv_nsec :: int

record sb_timer =
  time_start :: timespec
  time_end :: timespec
  events :: u64
  queue_time :: u64
  min_time :: u64
  max_time :: u64
  sum_time :: u64

definition SEC2NS :: "int \<Rightarrow> u64" where
  "SEC2NS sec = of_int sec * 1000000000"

definition TIMESPEC_DIFF :: "timespec \<Rightarrow> timespec \<Rightarrow> u64" where
  "TIMESPEC_DIFF a b = SEC2NS (tv_sec a - tv_sec b) + of_int (tv_nsec a - tv_nsec b)"

definition sb_timer_reset :: "sb_timer \<Rightarrow> sb_timer" where
  "sb_timer_reset t =
     t\<lparr>min_time := 0xffffffffffffffff, max_time := 0, sum_time := 0, events := 0, queue_time := 0\<rparr>"

definition zero_time :: timespec where
  "zero_time = \<lparr>tv_sec = 0, tv_nsec = 0\<rparr>"

definition sb_timer_init :: "sb_timer \<Rightarrow> sb_timer" where
  "sb_timer_init t = sb_timer_reset (t\<lparr>time_start := zero_time, time_end := zero_time\<rparr>)"

definition sb_timer_copy :: "sb_timer \<Rightarrow> sb_timer" where
  "sb_timer_copy from_timer = from_timer"

definition sb_timer_running :: "sb_timer \<Rightarrow> bool" where
  "sb_timer_running t = (TIMESPEC_DIFF (time_start t) (time_end t) > 0)"

definition sb_timer_start :: "timespec \<Rightarrow> sb_timer \<Rightarrow> sb_timer" where
  "sb_timer_start now t = t\<lparr>time_start := now\<rparr>"

definition sb_timer_stop :: "timespec \<Rightarrow> sb_timer \<Rightarrow> u64 \<times> sb_timer" where
  "sb_timer_stop now t =
     (let t1 = t\<lparr>time_end := now\<rparr>;
          elapsed = TIMESPEC_DIFF (time_end t1) (time_start t1) + queue_time t1;
          t2 = t1\<lparr>events := events t1 + 1, sum_time := sum_time t1 + elapsed\<rparr>;
          t3 = (if elapsed < min_time t2 then t2\<lparr>min_time := elapsed\<rparr> else t2);
          t4 = (if elapsed > max_time t3 then t3\<lparr>max_time := elapsed\<rparr> else t3)
      in (elapsed, t4))"

definition sb_timer_value :: "timespec \<Rightarrow> sb_timer \<Rightarrow> u64" where
  "sb_timer_value now t = TIMESPEC_DIFF now (time_start t) + queue_time t"

definition sb_timer_current :: "timespec \<Rightarrow> sb_timer \<Rightarrow> u64 \<times> sb_timer" where
  "sb_timer_current now t = (TIMESPEC_DIFF now (time_start t), t\<lparr>time_start := now\<rparr>)"

text \<open>The copy of the old state, and the reset timer.\<close>

definition sb_timer_checkpoint :: "sb_timer \<Rightarrow> sb_timer \<times> sb_timer" where
  "sb_timer_checkpoint t = (t, sb_timer_reset t)"

definition sb_timer_avg :: "sb_timer \<Rightarrow> u64" where
  "sb_timer_avg t = (if events t = 0 then 0 else sum_time t div events t)"

definition sb_timer_sum :: "sb_timer \<Rightarrow> u64" where
  "sb_timer_sum t = sum_time t"

definition sb_timer_min :: "sb_timer \<Rightarrow> u64" where
  "sb_timer_min t = (if events t = 0 then 0 else min_time t)"

definition sb_timer_max :: "sb_timer \<Rightarrow> u64" where
  "sb_timer_max t = max_time t"

definition sb_timer_merge :: "sb_timer \<Rightarrow> sb_timer \<Rightarrow> sb_timer" where
  "sb_timer_merge t1 t2 =
     \<lparr>time_start = zero_time, time_end = zero_time,
      events = events t1 + events t2, queue_time = 0,
      min_time = (if min_time t1 < min_time t2 then min_time t1 else min_time t2),
      max_time = (if max_time t1 > max_time t2 then max_time t1 else max_time t2),
      sum_time = sum_time t1 + sum_time t2\<rparr>"

section \<open>Counters\<close>

datatype sb_counter_type =
  SB_CNT_OTHER | SB_CNT_READ | SB_CNT_WRITE | SB_CNT_EVENT | SB_CNT_ERROR | SB_CNT_RECONNECT
  | SB_CNT_BYTES_READ | SB_CNT_BYTES_WRITTEN

type_synonym counters = "sb_counter_type \<Rightarrow> u64"

record counter_state =
  sb_counters :: "counters list"
  last_intermediate_counters :: counters
  last_cumulative_counters :: counters

text \<open>One zeroed array for each thread.\<close>

definition sb_counters_init :: "nat \<Rightarrow> counter_state" where
  "sb_counters_init threads =
     \<lparr>sb_counters = replicate threads (\<lambda>t. 0),
      last_intermediate_counters = (\<lambda>t. 0), last_cumulative_counters = (\<lambda>t. 0)\<rparr>"

definition sb_counter_val :: "nat \<Rightarrow> sb_counter_type \<Rightarrow> counter_state \<Rightarrow> u64 option" where
  "sb_counter_val thread_id type st =
     (if thread_id < length (sb_counters st) then Some ((sb_counters st ! thread_id) type) else None)"

definition sb_counter_add :: "nat \<Rightarrow> sb_counter_type \<Rightarrow> u64 \<Rightarrow> counter_state \<Rightarrow> counter_state option" where
  "sb_counter_add thread_id type val st =
     do {
       v \<leftarrow> sb_counter_val thread_id type st;
       Some (st\<lparr>sb_counters := (sb_counters st)[thread_id := (sb_counters st ! thread_id)(type := v + val)]\<rparr>)
     }"

definition sb_counter_inc :: "nat \<Rightarrow> sb_counter_type \<Rightarrow> counter_state \<Rightarrow> counter_state option" where
  "sb_counter_inc thread_id type st = sb_counter_add thread_id type 1 st"

definition sb_counters_merge :: "counter_state \<Rightarrow> counters \<Rightarrow> counters" where
  "sb_counters_merge st dst = (\<lambda>t. fold (\<lambda>c d. d + c t) (sb_counters st) (dst t))"

definition sb_counters_checkpoint :: "counters \<Rightarrow> counters \<Rightarrow> counters \<times> counters" where
  "sb_counters_checkpoint dst cp = (\<lambda>t. dst t - cp t, \<lambda>t. dst t)"

definition sb_counters_agg_intermediate :: "counter_state \<Rightarrow> counters \<times> counter_state" where
  "sb_counters_agg_intermediate st =
     (let (dst, cp) = sb_counters_checkpoint (sb_counters_merge st (\<lambda>t. 0)) (last_intermediate_counters st)
      in (dst, st\<lparr>last_intermediate_counters := cp\<rparr>))"

definition sb_counters_agg_cumulative :: "counter_state \<Rightarrow> counters \<times> counter_state" where
  "sb_counters_agg_cumulative st =
     (let (dst, cp) = sb_counters_checkpoint (sb_counters_merge st (\<lambda>t. 0)) (last_cumulative_counters st)
      in (dst, st\<lparr>last_cumulative_counters := cp\<rparr>))"

section \<open>Histogram\<close>

record histogram =
  cumulative_array :: "u64 list"
  cumulative_nevents :: u64
  temp_array :: "u64 list"
  interm_slots :: "u64 list list"
  array_size :: nat
  lock :: bool

definition SB_HISTOGRAM_NSLOTS :: nat where
  "SB_HISTOGRAM_NSLOTS = 128"

text \<open>
  \<open>ok1\<close> and \<open>ok2\<close> tell whether the two allocations succeed.  The field \<open>cumulative_nevents\<close> keeps the
  value that it has in \<open>h\<close>.
\<close>

definition sb_histogram_init :: "bool \<Rightarrow> bool \<Rightarrow> nat \<Rightarrow> histogram \<Rightarrow> int \<times> histogram" where
  "sb_histogram_init ok1 ok2 sz h =
     (if \<not> ok1 \<or> \<not> ok2 then (1, h)
      else (0, h\<lparr>cumulative_array := replicate sz 0, temp_array := replicate sz 0,
                 interm_slots := replicate SB_HISTOGRAM_NSLOTS (replicate sz 0),
                 array_size := sz, lock := False\<rparr>))"

text \<open>\<open>garbage\<close> is what the allocated block holds.\<close>

definition sb_histogram_new :: "histogram option \<Rightarrow> bool \<Rightarrow> bool \<Rightarrow> nat \<Rightarrow> histogram option" where
  "sb_histogram_new garbage ok1 ok2 sz =
     do {
       h \<leftarrow> garbage;
       let (rc, h') = sb_histogram_init ok1 ok2 sz h;
       if rc \<noteq> 0 then None else Some h'
     }"

definition slot_inc :: "nat \<times> nat \<Rightarrow> u64 list list \<Rightarrow> u64 list list" where
  "slot_inc p sl = sl[fst p := (sl ! fst p)[snd p := sl ! fst p ! snd p + 1]]"

text \<open>
  \<open>bucket v\<close> is the rounded logarithm of the value on the scale of the histogram.
  An update of a histogram of size zero writes outside of the array.
\<close>

definition clamp :: "nat \<Rightarrow> int \<Rightarrow> int" where
  "clamp sz i = (if i < 0 then 0 else if i \<ge> int sz then int sz - 1 else i)"

definition sb_histogram_update :: "('v \<Rightarrow> int) \<Rightarrow> 'v \<Rightarrow> rng \<Rightarrow> histogram \<Rightarrow> (histogram \<times> rng) option" where
  "sb_histogram_update bucket val s h =
     (let (x, s') = sb_rand_uniform_uint64 s;
          slot = unat (x mod 128);
          i = clamp (array_size h) (bucket val)
      in if i < 0 then None
         else Some (h\<lparr>interm_slots := slot_inc (slot, nat i) (interm_slots h)\<rparr>, s'))"

text \<open>
  The merging loops.  \<open>env s i\<close> are the positions that other threads increment between the previous
  atomic fetch and the fetch of position \<open>(s, i)\<close>; \<open>f\<close> combines the element of the target array and the
  fetched number.
\<close>

type_synonym schedule = "nat \<Rightarrow> nat \<Rightarrow> (nat \<times> nat) list"

fun fetch_loop ::
  "schedule \<Rightarrow> (u64 \<Rightarrow> u64 \<Rightarrow> u64) \<Rightarrow> (nat \<times> nat) list \<Rightarrow> u64 list list \<Rightarrow> u64 list \<Rightarrow> u64
    \<Rightarrow> u64 list list \<times> u64 list \<times> u64"
where
  "fetch_loop env f [] sl a n = (sl, a, n)"
| "fetch_loop env f ((s, i) # ps) sl a n =
     (let sl1 = fold slot_inc (env s i) sl;
          t = sl1 ! s ! i
      in fetch_loop env f ps (sl1[s := (sl1 ! s)[i := 0]]) (a[i := f (a ! i) t]) (n + t))"

definition rows :: "nat list \<Rightarrow> nat \<Rightarrow> (nat \<times> nat) list" where
  "rows ss sz = concat (map (\<lambda>s. map (\<lambda>i. (s, i)) [0..<sz]) ss)"

definition merge_intermediate_into_cumulative :: "schedule \<Rightarrow> histogram \<Rightarrow> histogram" where
  "merge_intermediate_into_cumulative env h =
     (let (sl, a, n) = fetch_loop env (+) (rows [0..<SB_HISTOGRAM_NSLOTS] (array_size h))
            (interm_slots h) (cumulative_array h) (cumulative_nevents h)
      in h\<lparr>interm_slots := sl, cumulative_array := a, cumulative_nevents := n\<rparr>)"

fun pct_scan :: "u64 \<Rightarrow> u64 \<Rightarrow> u64 list \<Rightarrow> nat \<Rightarrow> nat" where
  "pct_scan nmax ncur [] i = i"
| "pct_scan nmax ncur (x # xs) i =
     (let n = ncur + x in if n \<ge> nmax then i else pct_scan nmax n xs (i + 1))"

text \<open>
  \<open>rank n\<close> is the percentile of \<open>n\<close> events, rounded.  The result is the index of the array, from which
  the code computes the latency.
\<close>

definition get_pct_cumulative :: "(u64 \<Rightarrow> u64) \<Rightarrow> histogram \<Rightarrow> nat" where
  "get_pct_cumulative rank h = pct_scan (rank (cumulative_nevents h)) 0 (cumulative_array h) 0"

text \<open>The lock for writing: without it a caller does not return.\<close>

definition wrlock :: "histogram \<Rightarrow> histogram option" where
  "wrlock h = (if lock h then None else Some (h\<lparr>lock := True\<rparr>))"

definition unlock :: "histogram \<Rightarrow> histogram" where
  "unlock h = h\<lparr>lock := False\<rparr>"

definition add_arrays :: "u64 list \<Rightarrow> u64 list \<Rightarrow> u64 list" where
  "add_arrays xs ys = map (\<lambda>(x, y). x + y) (zip xs ys)"

definition sb_histogram_get_pct_intermediate ::
  "schedule \<Rightarrow> (u64 \<Rightarrow> u64) \<Rightarrow> histogram \<Rightarrow> (nat \<times> histogram) option"
where
  "sb_histogram_get_pct_intermediate env rank h =
     do {
       h1 \<leftarrow> wrlock h;
       let sz = array_size h1;
       let (sl1, a1, n1) = fetch_loop env (\<lambda>old t. t) (rows [0] sz) (interm_slots h1) (temp_array h1) 0;
       let (sl2, a2, n2) = fetch_loop env (+) (rows [1..<SB_HISTOGRAM_NSLOTS] sz) sl1 a1 n1;
       let res = pct_scan (rank n2) 0 a2 0;
       Some (res, unlock (h1\<lparr>interm_slots := sl2, temp_array := a2,
                             cumulative_array := add_arrays (cumulative_array h1) a2,
                             cumulative_nevents := cumulative_nevents h1 + n2\<rparr>))
     }"

definition sb_histogram_get_pct_cumulative ::
  "schedule \<Rightarrow> (u64 \<Rightarrow> u64) \<Rightarrow> histogram \<Rightarrow> (nat \<times> histogram) option"
where
  "sb_histogram_get_pct_cumulative env rank h =
     do {
       h1 \<leftarrow> wrlock h;
       let h2 = merge_intermediate_into_cumulative env h1;
       Some (get_pct_cumulative rank h2, unlock h2)
     }"

definition sb_histogram_get_pct_checkpoint ::
  "schedule \<Rightarrow> (u64 \<Rightarrow> u64) \<Rightarrow> histogram \<Rightarrow> (nat \<times> histogram) option"
where
  "sb_histogram_get_pct_checkpoint env rank h =
     do {
       h1 \<leftarrow> wrlock h;
       let h2 = merge_intermediate_into_cumulative env h1;
       let res = get_pct_cumulative rank h2;
       Some (res, unlock (h2\<lparr>cumulative_array := replicate (array_size h2) 0, cumulative_nevents := 0\<rparr>))
     }"

text \<open>
  The printed lines are the index, the width of the bar and the count of each bucket that is not
  empty.  The early return leaves the lock taken.
\<close>

definition sb_histogram_print ::
  "schedule \<Rightarrow> (u64 \<Rightarrow> u64 \<Rightarrow> nat) \<Rightarrow> histogram \<Rightarrow> ((nat \<times> nat \<times> u64) list \<times> histogram) option"
where
  "sb_histogram_print env width h =
     do {
       h1 \<leftarrow> wrlock h;
       let h2 = merge_intermediate_into_cumulative env h1;
       let maxcnt = fold (\<lambda>x m. if x > m then x else m) (cumulative_array h2) 0;
       if maxcnt = 0 then Some ([], h2)
       else Some (map (\<lambda>(i, x). (i, width x maxcnt, x))
                    (filter (\<lambda>(i, x). x \<noteq> 0) (enumerate 0 (cumulative_array h2))), unlock h2)
     }"

section \<open>What a timer stands for\<close>

text \<open>A timer holds the times of its events since it was reset.\<close>

definition timer_holds :: "sb_timer \<Rightarrow> u64 list \<Rightarrow> bool" where
  "timer_holds t xs \<longleftrightarrow>
     events t = of_nat (length xs) \<and> sum_time t = sum_list xs
       \<and> min_time t = fold min xs (- 1) \<and> max_time t = fold max xs 0"

lemma min_top: "min a (- 1 :: u64) = a"
  by (rule min_absorb1) (rule word_order.extremum)

lemma fold_min_init: "fold min xs m = min m (fold min xs (- 1 :: u64))"
proof (induction xs arbitrary: m)
  case (Cons a xs)
  have "fold min (a # xs) m = min (min a m) (fold min xs (- 1))" using Cons [of "min a m"] by simp
  moreover have "fold min (a # xs) (- 1) = min a (fold min xs (- 1))" using Cons [of a] by (simp add: min_top)
  ultimately show ?case by (simp only: min.assoc min.left_commute)
qed (simp add: min_top)

lemma max_zero: "max a (0 :: u64) = a"
  by (rule max_absorb1) simp

lemma fold_max_init: "fold max xs m = max m (fold max xs (0 :: u64))"
proof (induction xs arbitrary: m)
  case (Cons a xs)
  have "fold max (a # xs) m = max (max a m) (fold max xs 0)" using Cons [of "max a m"] by simp
  moreover have "fold max (a # xs) 0 = max a (fold max xs 0)" using Cons [of a] by simp
  ultimately show ?case by (simp only: max.assoc max.left_commute)
qed simp

text \<open>A structure that collects numbers, and the merging of the structures of all threads.\<close>

locale collector =
  fixes holds :: "'s \<Rightarrow> 'e list \<Rightarrow> bool" and nothing :: 's and merge :: "'s \<Rightarrow> 's \<Rightarrow> 's"
  assumes holds_nothing: "holds nothing []"
    and holds_merge: "holds a xs \<Longrightarrow> holds b ys \<Longrightarrow> holds (merge a b) (xs @ ys)"
begin

lemma merge_onto:
  "list_all2 holds ts xss \<Longrightarrow> holds a xs \<Longrightarrow> holds (fold (\<lambda>t acc. merge acc t) ts a) (xs @ concat xss)"
proof (induction ts xss arbitrary: a xs rule: list_all2_induct)
  case (Cons t ts ys xss)
  then show ?case using Cons.IH [OF holds_merge] by simp
qed simp

lemma merge_all: "list_all2 holds ts xss \<Longrightarrow> holds (fold (\<lambda>t acc. merge acc t) ts nothing) (concat xss)"
  using merge_onto [OF _ holds_nothing] by simp

end

lemma timer_holds_reset: "timer_holds (sb_timer_reset t) []"
  by (simp add: timer_holds_def sb_timer_reset_def)

lemma timer_holds_init: "timer_holds (sb_timer_init t) []"
  by (simp add: sb_timer_init_def timer_holds_reset)

lemma timer_holds_start: "timer_holds t xs \<Longrightarrow> timer_holds (sb_timer_start now t) xs"
  by (simp add: timer_holds_def sb_timer_start_def)

lemma timer_holds_stop:
  "timer_holds t xs \<Longrightarrow> timer_holds (snd (sb_timer_stop now t)) (xs @ [fst (sb_timer_stop now t)])"
  by (auto simp: timer_holds_def sb_timer_stop_def Let_def min_def max_def)

lemma timer_holds_merge:
  assumes "timer_holds a xs" "timer_holds b ys"
  shows "timer_holds (sb_timer_merge a b) (xs @ ys)"
proof -
  have "fold min (xs @ ys) (- 1) = min (fold min xs (- 1)) (fold min ys (- 1))"
    using fold_min_init [of ys "fold min xs (- 1)"] by simp
  moreover have "fold max (xs @ ys) 0 = max (fold max xs 0) (fold max ys 0)"
    using fold_max_init [of ys "fold max xs 0"] by simp
  ultimately show ?thesis
    using assms by (auto simp: timer_holds_def sb_timer_merge_def min_def max_def)
qed

interpretation tm: collector timer_holds "sb_timer_init t" sb_timer_merge for t
  by unfold_locales (simp_all add: timer_holds_init timer_holds_merge)

lemma timer_elapsed: "fst (sb_timer_stop now t) = TIMESPEC_DIFF now (time_start t) + queue_time t"
  by (simp add: sb_timer_stop_def Let_def)

lemma fold_min_Min: "xs \<noteq> [] \<Longrightarrow> fold min xs (- 1 :: u64) = Min (set xs)"
  by (cases xs) (simp_all only: Min.set_eq_fold fold_simps min_top list.distinct simp_thms)

lemma fold_max_Max: "xs \<noteq> [] \<Longrightarrow> fold max xs (0 :: u64) = Max (set xs)"
  by (cases xs) (simp_all only: Max.set_eq_fold fold_simps max_zero list.distinct simp_thms)

text \<open>The values reported from a timer.\<close>

lemma timer_report:
  assumes "timer_holds t xs" "xs \<noteq> []" "length xs < 2 ^ 64"
  shows "sb_timer_min t = Min (set xs)" "sb_timer_max t = Max (set xs)" "sb_timer_sum t = sum_list xs"
    "sb_timer_avg t = sum_list xs div of_nat (length xs)"
proof -
  have "unat (of_nat (length xs) :: u64) = length xs" using assms(3) by (simp only: unat_of_nat) simp
  then have "events t \<noteq> 0" using assms(1,2) by (auto simp: timer_holds_def simp del: of_nat_eq_0_iff)
  then show "sb_timer_min t = Min (set xs)" "sb_timer_max t = Max (set xs)" "sb_timer_sum t = sum_list xs"
    "sb_timer_avg t = sum_list xs div of_nat (length xs)"
    using assms(1) fold_min_Min [OF assms(2)] fold_max_Max [OF assms(2)]
    by (simp_all add: timer_holds_def sb_timer_min_def sb_timer_max_def sb_timer_sum_def sb_timer_avg_def)
qed

text \<open>
  Remark.  The difference of two times is unsigned, so that a timer counts as running unless its
  two times are equal: one that has been stopped after its start counts too.
\<close>

lemma timespec_diff_eq:
  "TIMESPEC_DIFF a b = of_int ((tv_sec a - tv_sec b) * 1000000000 + (tv_nsec a - tv_nsec b))"
  by (simp add: TIMESPEC_DIFF_def SEC2NS_def)

lemma stopped_timer_running:
  assumes "a = (tv_sec now - tv_sec (time_start t)) * 1000000000 + (tv_nsec now - tv_nsec (time_start t))"
    and "0 < a" "a < 2 ^ 64"
  shows "sb_timer_running (snd (sb_timer_stop now t))"
proof -
  have "time_start (snd (sb_timer_stop now t)) = time_start t" "time_end (snd (sb_timer_stop now t)) = now"
    by (simp_all add: sb_timer_stop_def Let_def)
  then have "TIMESPEC_DIFF (time_start (snd (sb_timer_stop now t))) (time_end (snd (sb_timer_stop now t))) = of_int (- a)"
    by (simp add: timespec_diff_eq assms(1) algebra_simps)
  moreover have "(of_int (- a) :: u64) \<noteq> 0"
  proof
    assume "(of_int (- a) :: u64) = 0"
    then have "uint (of_int a :: u64) = 0" by simp
    then show False using assms(2,3) unfolding uint_word_of_int_eq by (simp add: take_bit_int_eq_self)
  qed
  ultimately show ?thesis by (simp only: sb_timer_running_def word_neq_0_conv)
qed

section \<open>Counters report every increment once\<close>

datatype counter_op = CAdd nat sb_counter_type u64 | CIntermediate | CCumulative

text \<open>The reports of both kinds, newest first, and the final state.\<close>

fun counter_run ::
  "counter_op list \<Rightarrow> counters list \<times> counters list \<times> counter_state \<Rightarrow> (counters list \<times> counters list \<times> counter_state) option"
where
  "counter_run [] s = Some s"
| "counter_run (op # ops) (ri, rc, st) =
     (case op of
        CAdd i t v \<Rightarrow> do { st1 \<leftarrow> sb_counter_add i t v st; counter_run ops (ri, rc, st1) }
      | CIntermediate \<Rightarrow> (let (r, st1) = sb_counters_agg_intermediate st in counter_run ops (r # ri, rc, st1))
      | CCumulative \<Rightarrow> (let (r, st1) = sb_counters_agg_cumulative st in counter_run ops (ri, r # rc, st1)))"

definition added :: "counter_op list \<Rightarrow> sb_counter_type \<Rightarrow> u64" where
  "added ops t = sum_list (map (\<lambda>op. case op of CAdd i t' v \<Rightarrow> if t' = t then v else 0 | _ \<Rightarrow> 0) ops)"

lemma merge_eq_sum: "sb_counters_merge st dst t = dst t + sum_list (map (\<lambda>c. c t) (sb_counters st))"
proof -
  have "fold (\<lambda>c d. d + c t) cs d = d + sum_list (map (\<lambda>c. c t) cs)" for cs :: "counters list" and d
    by (induction cs arbitrary: d) (simp_all add: add.assoc)
  then show ?thesis by (simp add: sb_counters_merge_def)
qed

lemma sum_list_update_word:
  "i < length xs \<Longrightarrow> sum_list (map f (xs[i := x])) = sum_list (map f xs) - f (xs ! i) + (f x :: u64)"
  by (induction xs arbitrary: i) (auto split: nat.splits simp: algebra_simps)

lemma merge_add:
  "sb_counter_add i t v st = Some st' \<Longrightarrow>
     sb_counters_merge st' (\<lambda>t. 0) t' = sb_counters_merge st (\<lambda>t. 0) t' + (if t = t' then v else 0)"
  by (auto simp: sb_counter_add_def sb_counter_val_def merge_eq_sum sum_list_update_word
      split: if_splits Option.bind_splits)

lemma counter_run_inv:
  assumes "counter_run ops (ri, rc, st) = Some (ri', rc', st')"
    and "\<And>t. sum_list (map (\<lambda>r. r t) ri) = last_intermediate_counters st t"
    and "\<And>t. sum_list (map (\<lambda>r. r t) rc) = last_cumulative_counters st t"
  shows "sb_counters_merge st' (\<lambda>t. 0) t = sb_counters_merge st (\<lambda>t. 0) t + added ops t
    \<and> sum_list (map (\<lambda>r. r t) ri') = last_intermediate_counters st' t
    \<and> sum_list (map (\<lambda>r. r t) rc') = last_cumulative_counters st' t"
  using assms
proof (induction ops arbitrary: ri rc st)
  case (Cons op ops)
  show ?case
  proof (cases op)
    case (CAdd i t' v)
    then obtain st1 where st1: "sb_counter_add i t' v st = Some st1" "counter_run ops (ri, rc, st1) = Some (ri', rc', st')"
      using Cons.prems(1) by (auto split: Option.bind_splits)
    have "last_intermediate_counters st1 = last_intermediate_counters st" "last_cumulative_counters st1 = last_cumulative_counters st"
      using st1(1) by (auto simp: sb_counter_add_def split: Option.bind_splits)
    then show ?thesis using Cons.IH [OF st1(2)] Cons.prems(2,3) merge_add [OF st1(1), of t] CAdd by (simp add: added_def)
  next
    case CIntermediate
    then show ?thesis
      using Cons.prems Cons.IH [of "fst (sb_counters_agg_intermediate st) # ri" rc "snd (sb_counters_agg_intermediate st)"]
      by (simp add: added_def sb_counters_agg_intermediate_def sb_counters_checkpoint_def sb_counters_merge_def)
  next
    case CCumulative
    then show ?thesis
      using Cons.prems Cons.IH [of ri "fst (sb_counters_agg_cumulative st) # rc" "snd (sb_counters_agg_cumulative st)"]
      by (simp add: added_def sb_counters_agg_cumulative_def sb_counters_checkpoint_def sb_counters_merge_def)
  qed
qed (simp add: added_def)

text \<open>
  C35 (safety).  For every sequence of increments by the threads and reports of both kinds, the reports of
  one kind add up to all increments made before the last of them: no increment is reported twice
  and none is lost, and the two kinds of reports do not disturb each other.
\<close>

theorem counters_telescope:
  assumes "counter_run (ops @ [CIntermediate, CCumulative]) ([], [], sb_counters_init threads) = Some (ri, rc, st)"
  shows "sum_list (map (\<lambda>r. r t) ri) = added ops t \<and> sum_list (map (\<lambda>r. r t) rc) = added ops t"
proof -
  have split: "counter_run (xs @ ys) s = Option.bind (counter_run xs s) (counter_run ys)" for xs ys s
    by (induction xs s rule: counter_run.induct) (auto split: counter_op.split Option.bind_split simp: split_beta Let_def)
  obtain ri1 rc1 st1 where r: "counter_run ops ([], [], sb_counters_init threads) = Some (ri1, rc1, st1)"
    "counter_run [CIntermediate, CCumulative] (ri1, rc1, st1) = Some (ri, rc, st)"
    using assms unfolding split by (auto split: Option.bind_splits)
  have z: "sb_counters_merge (sb_counters_init threads) (\<lambda>t. 0) t = 0"
    by (simp add: merge_eq_sum sb_counters_init_def sum_list_replicate)
  have "sb_counters_merge st1 (\<lambda>t. 0) t = added ops t"
    "sum_list (map (\<lambda>r. r t) ri1) = last_intermediate_counters st1 t"
    "sum_list (map (\<lambda>r. r t) rc1) = last_cumulative_counters st1 t"
    using counter_run_inv [OF r(1), of t] z by (simp_all add: sb_counters_init_def)
  then show ?thesis
    using r(2) by (auto simp: sb_counters_agg_intermediate_def sb_counters_agg_cumulative_def
        sb_counters_checkpoint_def merge_eq_sum Let_def)
qed

theorem counters_telescope_witness:
  "\<exists>ri rc st. counter_run ([CAdd 0 SB_CNT_EVENT 2, CIntermediate, CAdd 1 SB_CNT_EVENT 3] @ [CIntermediate, CCumulative])
       ([], [], sb_counters_init 2) = Some (ri, rc, st)
     \<and> sum_list (map (\<lambda>r. r SB_CNT_EVENT) ri) = 5 \<and> sum_list (map (\<lambda>r. r SB_CNT_EVENT) rc) = 5"
proof -
  let ?ops = "[CAdd 0 SB_CNT_EVENT 2, CIntermediate, CAdd 1 SB_CNT_EVENT 3]"
  have "\<exists>ri rc st. counter_run (?ops @ [CIntermediate, CCumulative]) ([], [], sb_counters_init 2) = Some (ri, rc, st)"
    by (simp add: sb_counter_add_def sb_counter_val_def sb_counters_init_def sb_counters_agg_intermediate_def
        sb_counters_agg_cumulative_def sb_counters_checkpoint_def Let_def numeral_2_eq_2)
  then show ?thesis using counters_telescope [of ?ops 2 _ _ _ SB_CNT_EVENT] by (fastforce simp: added_def)
qed

section \<open>The histogram loses no event\<close>

definition slots_wf :: "nat \<Rightarrow> u64 list list \<Rightarrow> bool" where
  "slots_wf sz sl \<longleftrightarrow> length sl = 128 \<and> (\<forall>r\<in>set sl. length r = sz)"

definition col :: "u64 list list \<Rightarrow> nat \<Rightarrow> u64" where
  "col sl j = sum_list (map (\<lambda>r. r ! j) sl)"

definition pos_ok :: "nat \<Rightarrow> nat \<times> nat \<Rightarrow> bool" where
  "pos_ok sz p \<longleftrightarrow> fst p < 128 \<and> snd p < sz"

definition env_ok :: "nat \<Rightarrow> schedule \<Rightarrow> bool" where
  "env_ok sz env \<longleftrightarrow> (\<forall>s i. list_all (pos_ok sz) (env s i))"

definition env_events :: "schedule \<Rightarrow> (nat \<times> nat) list \<Rightarrow> nat list" where
  "env_events env ps = concat (map (\<lambda>p. map snd (env (fst p) (snd p))) ps)"

lemma slots_wf_row: "slots_wf sz sl \<Longrightarrow> s < 128 \<Longrightarrow> length (sl ! s) = sz"
  by (simp add: slots_wf_def)

lemma slots_wf_update: "slots_wf sz sl \<Longrightarrow> length r = sz \<Longrightarrow> slots_wf sz (sl[s := r])"
  by (auto simp: slots_wf_def dest: set_update_subset_insert [THEN subsetD])

lemma col_update:
  "slots_wf sz sl \<Longrightarrow> s < 128 \<Longrightarrow> i < sz \<Longrightarrow> j < sz \<Longrightarrow>
     col (sl[s := (sl ! s)[i := x]]) j = col sl j + (if i = j then x - sl ! s ! i else 0)"
  by (auto simp: col_def slots_wf_def sum_list_update_word)

lemma slot_inc_wf: "slots_wf sz sl \<Longrightarrow> pos_ok sz p \<Longrightarrow> slots_wf sz (slot_inc p sl)"
  by (simp add: slot_inc_def slots_wf_update slots_wf_row pos_ok_def)

lemma slot_inc_col:
  "slots_wf sz sl \<Longrightarrow> pos_ok sz p \<Longrightarrow> j < sz \<Longrightarrow> col (slot_inc p sl) j = col sl j + (if snd p = j then 1 else 0)"
  by (simp add: slot_inc_def col_update pos_ok_def)

lemma fold_slot_inc:
  "slots_wf sz sl \<Longrightarrow> list_all (pos_ok sz) ps \<Longrightarrow>
     slots_wf sz (fold slot_inc ps sl)
       \<and> (\<forall>j < sz. col (fold slot_inc ps sl) j = col sl j + of_nat (count_list (map snd ps) j))"
proof (induction ps arbitrary: sl)
  case (Cons p ps)
  then show ?case using Cons.IH [of "slot_inc p sl"] by (simp add: slot_inc_wf slot_inc_col)
qed simp

text \<open>What a merging loop guarantees: what leaves the slots arrives in the array, and is counted.\<close>

definition moved ::
  "nat \<Rightarrow> nat list \<Rightarrow> u64 list list \<times> u64 list \<times> u64 \<Rightarrow> u64 list list \<times> u64 list \<times> u64 \<Rightarrow> bool"
where
  "moved sz evs s s' \<longleftrightarrow>
     (case (s, s') of ((sl, a, n), (sl', a', n')) \<Rightarrow>
        slots_wf sz sl' \<and> length a' = sz \<and> n' - n = sum_list a' - sum_list a
        \<and> (\<forall>j < sz. col sl' j + a' ! j = col sl j + a ! j + of_nat (count_list evs j)))"

lemma movedD:
  assumes "moved sz evs (sl, a, n) (sl', a', n')"
  shows "slots_wf sz sl'" "length a' = sz" "n' - n = sum_list a' - sum_list a"
    "j < sz \<Longrightarrow> col sl' j + a' ! j = col sl j + a ! j + of_nat (count_list evs j)"
  using assms by (auto simp: moved_def)

lemma moved_trans: "moved sz xs s1 s2 \<Longrightarrow> moved sz ys s2 s3 \<Longrightarrow> moved sz (xs @ ys) s1 s3"
proof -
  assume a: "moved sz xs s1 s2" "moved sz ys s2 s3"
  obtain sl1 a1 n1 where s1: "s1 = (sl1, a1, n1)" by (cases s1)
  obtain sl2 a2 n2 where s2: "s2 = (sl2, a2, n2)" by (cases s2)
  obtain sl3 a3 n3 where s3: "s3 = (sl3, a3, n3)" by (cases s3)
  note d = movedD [OF a(1) [unfolded s1 s2]] movedD [OF a(2) [unfolded s2 s3]]
  have "n3 - n1 = sum_list a3 - sum_list a1" using d(3) d(7) by (simp add: diff_eq_eq)
  then show ?thesis using d by (auto simp: moved_def s1 s3 add.assoc) 
qed

lemma fetch_moved:
  assumes "slots_wf sz sl" "length a = sz" "pos_ok sz (s, i)"
  shows "moved sz [] (sl, a, n) (sl[s := (sl ! s)[i := 0]], a[i := a ! i + sl ! s ! i], n + sl ! s ! i)"
  using assms sum_list_update_word [of i a "\<lambda>x. x" "a ! i + sl ! s ! i"]
  by (auto simp: moved_def slots_wf_update slots_wf_row col_update pos_ok_def nth_list_update)

lemma fetch_loop_moved:
  "slots_wf sz sl \<Longrightarrow> length a = sz \<Longrightarrow> list_all (pos_ok sz) ps \<Longrightarrow> env_ok sz env \<Longrightarrow>
     moved sz (env_events env ps) (sl, a, n) (fetch_loop env (+) ps sl a n)"
proof (induction ps arbitrary: sl a n)
  case Nil
  then show ?case by (simp add: moved_def env_events_def)
next
  case (Cons p ps)
  obtain s i where p: "p = (s, i)" by (cases p)
  define sl1 where "sl1 = fold slot_inc (env s i) sl"
  have e: "list_all (pos_ok sz) (env s i)" using Cons.prems(4) by (simp add: env_ok_def)
  note f = fold_slot_inc [OF Cons.prems(1) e, folded sl1_def]
  have m1: "moved sz (map snd (env s i)) (sl, a, n) (sl1, a, n)"
    using f Cons.prems(2) by (simp add: moved_def)
  have m2: "moved sz [] (sl1, a, n) (sl1[s := (sl1 ! s)[i := 0]], a[i := a ! i + sl1 ! s ! i], n + sl1 ! s ! i)"
    using fetch_moved f Cons.prems(2,3) p by simp
  have m3: "moved sz (env_events env ps)
      (sl1[s := (sl1 ! s)[i := 0]], a[i := a ! i + sl1 ! s ! i], n + sl1 ! s ! i) (fetch_loop env (+) (p # ps) sl a n)"
    using Cons.IH [OF movedD(1,2) [OF m2]] Cons.prems(3,4) by (simp add: p sl1_def Let_def)
  show ?case using moved_trans [OF moved_trans [OF m1 m2] m3] by (simp add: env_events_def p)
qed

lemma rows_ok: "\<forall>s\<in>set ss. s < 128 \<Longrightarrow> list_all (pos_ok sz) (rows ss sz)"
  by (auto simp: rows_def list_all_iff pos_ok_def)

text \<open>The first loop of an intermediate report overwrites the array, as if it added to zeros.\<close>

lemma fetch_assign:
  "k \<le> sz \<Longrightarrow> length a = sz \<Longrightarrow>
     fetch_loop env (\<lambda>old t. t) (map (Pair s) [k..<sz]) sl a n
       = fetch_loop env (+) (map (Pair s) [k..<sz]) sl (take k a @ replicate (sz - k) 0) n"
proof (induction "sz - k" arbitrary: k sl a n)
  case 0
  then show ?case by simp
next
  case (Suc d)
  then have k: "k < sz" "sz - k = Suc (sz - Suc k)" by simp_all
  let ?t = "fold slot_inc (env s k) sl ! s ! k"
  have "(take k a @ replicate (sz - k) 0)[k := (take k a @ replicate (sz - k) 0) ! k + ?t]
      = take (Suc k) (a[k := ?t]) @ replicate (sz - Suc k) 0"
    using k Suc(4) by (simp add: take_Suc_conv_app_nth nth_append list_update_append)
  then show ?case using Suc(1) [of "Suc k" "a[k := ?t]"] Suc(2-4) k(1) by (simp add: upt_conv_Cons Let_def)
qed

definition hist_ok :: "nat \<Rightarrow> histogram \<Rightarrow> bool" where
  "hist_ok sz h \<longleftrightarrow>
     array_size h = sz \<and> slots_wf sz (interm_slots h) \<and> length (cumulative_array h) = sz
       \<and> length (temp_array h) = sz \<and> cumulative_nevents h = sum_list (cumulative_array h)"

definition held :: "histogram \<Rightarrow> nat \<Rightarrow> u64" where
  "held h j = col (interm_slots h) j + cumulative_array h ! j"

text \<open>All positions that a merging loop visits, in its order, and the concurrent updates.\<close>

definition env_buckets :: "nat \<Rightarrow> schedule \<Rightarrow> nat list" where
  "env_buckets sz env = env_events env (rows [0..<SB_HISTOGRAM_NSLOTS] sz)"

lemma merge_ok:
  assumes "hist_ok sz h" "env_ok sz env" and h': "h' = merge_intermediate_into_cumulative env h"
  shows "hist_ok sz h'" "lock h' = lock h"
    "j < sz \<Longrightarrow> held h' j = held h j + of_nat (count_list (env_buckets sz env) j)"
proof -
  define s where "s = fetch_loop env (+) (rows [0..<SB_HISTOGRAM_NSLOTS] sz) (interm_slots h) (cumulative_array h) (cumulative_nevents h)"
  obtain sl a n where s: "s = (sl, a, n)" by (cases s)
  have "moved sz (env_buckets sz env) (interm_slots h, cumulative_array h, cumulative_nevents h) (sl, a, n)"
    using assms(1,2) unfolding env_buckets_def s [symmetric] s_def
    by (intro fetch_loop_moved rows_ok) (auto simp: hist_ok_def SB_HISTOGRAM_NSLOTS_def)
  note d = movedD [OF this]
  have e: "h' = h\<lparr>interm_slots := sl, cumulative_array := a, cumulative_nevents := n\<rparr>"
    using s assms(1) unfolding h' merge_intermediate_into_cumulative_def s_def by (simp add: hist_ok_def)
  show "hist_ok sz h'" "lock h' = lock h" using assms(1) d(1-3) by (simp_all add: hist_ok_def e)
  show "held h' j = held h j + of_nat (count_list (env_buckets sz env) j)" if "j < sz"
    using d(4) [OF that] by (simp add: held_def e)
qed

lemma rows_split: "rows [0..<SB_HISTOGRAM_NSLOTS] sz = rows [0] sz @ rows [1..<SB_HISTOGRAM_NSLOTS] sz"
  by (simp add: rows_def SB_HISTOGRAM_NSLOTS_def upt_conv_Cons del: upt_Suc)

lemma sum_list_add_arrays: "length xs = length ys \<Longrightarrow> sum_list (add_arrays xs ys) = sum_list xs + sum_list ys"
  unfolding add_arrays_def by (induction xs ys rule: list_induct2) (simp_all add: algebra_simps)

lemma intermediate_ok:
  assumes "hist_ok sz h" "env_ok sz env" "\<not> lock h"
  obtains r h' where "sb_histogram_get_pct_intermediate env rank h = Some (r, h')" "hist_ok sz h'" "\<not> lock h'"
    "\<And>j. j < sz \<Longrightarrow> held h' j = held h j + of_nat (count_list (env_buckets sz env) j)"
proof -
  define s1 where "s1 = fetch_loop env (\<lambda>old t. t) (rows [0] sz) (interm_slots h) (temp_array h) 0"
  obtain sl1 a1 n1 where s1: "s1 = (sl1, a1, n1)" by (cases s1)
  define s2 where "s2 = fetch_loop env (+) (rows [1..<SB_HISTOGRAM_NSLOTS] sz) sl1 a1 n1"
  obtain sl2 a2 n2 where s2: "s2 = (sl2, a2, n2)" by (cases s2)
  have wf: "slots_wf sz (interm_slots h)" "length (temp_array h) = sz" "array_size h = sz" "length (cumulative_array h) = sz"
    using assms(1) by (simp_all add: hist_ok_def)
  have s1_eq: "s1 = fetch_loop env (+) (rows [0] sz) (interm_slots h) (replicate sz 0) 0"
    using fetch_assign [of 0 sz "temp_array h" env 0 "interm_slots h" 0] wf(2) by (simp add: s1_def rows_def)
  have m1: "moved sz (env_events env (rows [0] sz)) (interm_slots h, replicate sz 0, 0) (sl1, a1, n1)"
    unfolding s1 [symmetric] s1_eq by (rule fetch_loop_moved) (use wf assms(2) rows_ok [of "[0]"] in simp_all)
  have m2: "moved sz (env_events env (rows [1..<SB_HISTOGRAM_NSLOTS] sz)) (sl1, a1, n1) (sl2, a2, n2)"
    unfolding s2 [symmetric] s2_def
    by (rule fetch_loop_moved [OF movedD(1,2) [OF m1] rows_ok assms(2)]) (simp add: SB_HISTOGRAM_NSLOTS_def)
  have evs: "env_buckets sz env = env_events env (rows [0] sz) @ env_events env (rows [1..<SB_HISTOGRAM_NSLOTS] sz)"
    by (simp only: env_buckets_def rows_split env_events_def map_append concat_append)
  note d = movedD [OF moved_trans [OF m1 m2]]
  let ?h = "unlock (h\<lparr>lock := True, interm_slots := sl2, temp_array := a2,
      cumulative_array := add_arrays (cumulative_array h) a2, cumulative_nevents := cumulative_nevents h + n2\<rparr>)"
  have "sb_histogram_get_pct_intermediate env rank h = Some (pct_scan (rank n2) 0 a2 0, ?h)"
    using assms(3) wf(3) s1 s2 unfolding s1_def s2_def
    by (simp add: sb_histogram_get_pct_intermediate_def wrlock_def)
  moreover have "n2 = sum_list a2" using d(3) by (simp add: sum_list_replicate)
  then have "hist_ok sz ?h" using assms(1) d(1,2) by (simp add: hist_ok_def unlock_def sum_list_add_arrays) (simp add: add_arrays_def)
  moreover have "\<not> lock ?h" by (simp add: unlock_def)
  moreover have "held ?h j = held h j + of_nat (count_list (env_buckets sz env) j)" if "j < sz" for j
    using d(4) [OF that] d(2) wf(4) that unfolding evs by (simp add: held_def unlock_def add_arrays_def algebra_simps)
  ultimately show thesis by (rule that)
qed

lemma clamp_bounds: "0 < sz \<Longrightarrow> 0 \<le> clamp sz i \<and> clamp sz i < int sz"
  by (auto simp: clamp_def)

lemma update_ok:
  assumes "hist_ok sz h" "0 < sz"
  obtains h' s' where "sb_histogram_update bucket v s h = Some (h', s')" "hist_ok sz h'" "lock h' = lock h"
    "\<And>j. j < sz \<Longrightarrow> held h' j = held h j + of_nat (count_list [nat (clamp sz (bucket v))] j)"
proof -
  obtain x s' where x: "sb_rand_uniform_uint64 s = (x, s')" by (cases "sb_rand_uniform_uint64 s")
  let ?p = "(unat (x mod 128), nat (clamp sz (bucket v)))"
  have "unat (x mod 128) < 128" by (simp add: unat_mod)
  then have p: "pos_ok sz ?p" using clamp_bounds [OF assms(2), of "bucket v"] by (simp add: pos_ok_def nat_less_iff)
  have wf: "slots_wf sz (interm_slots h)" "array_size h = sz" using assms(1) by (simp_all add: hist_ok_def)
  let ?h = "h\<lparr>interm_slots := slot_inc ?p (interm_slots h)\<rparr>"
  have "sb_histogram_update bucket v s h = Some (?h, s')"
    using clamp_bounds [OF assms(2), of "bucket v"] x by (simp add: sb_histogram_update_def wf(2))
  moreover have "hist_ok sz ?h" using assms(1) slot_inc_wf [OF wf(1) p] by (simp add: hist_ok_def)
  moreover have "lock ?h = lock h" by simp
  moreover have "held ?h j = held h j + of_nat (count_list [nat (clamp sz (bucket v))] j)" if "j < sz" for j
    using slot_inc_col [OF wf(1) p that] by (simp add: held_def)
  ultimately show thesis by (rule that)
qed

datatype 'v hist_op =
  HUpdate 'v rng | HIntermediate schedule | HCumulative schedule | HCheckpoint schedule

text \<open>The operations in the order of the lock, and the arrays that checkpoints have reset.\<close>

fun hist_run ::
  "('v \<Rightarrow> int) \<Rightarrow> (u64 \<Rightarrow> u64) \<Rightarrow> 'v hist_op list \<Rightarrow> histogram \<times> u64 list list \<Rightarrow> (histogram \<times> u64 list list) option"
where
  "hist_run bucket rank [] s = Some s"
| "hist_run bucket rank (op # ops) (h, ds) =
     (case op of
        HUpdate v r \<Rightarrow> do { (h1, _) \<leftarrow> sb_histogram_update bucket v r h; hist_run bucket rank ops (h1, ds) }
      | HIntermediate env \<Rightarrow>
          do { (_, h1) \<leftarrow> sb_histogram_get_pct_intermediate env rank h; hist_run bucket rank ops (h1, ds) }
      | HCumulative env \<Rightarrow>
          do { (_, h1) \<leftarrow> sb_histogram_get_pct_cumulative env rank h; hist_run bucket rank ops (h1, ds) }
      | HCheckpoint env \<Rightarrow>
          do { (_, h1) \<leftarrow> sb_histogram_get_pct_checkpoint env rank h;
               hist_run bucket rank ops (h1, cumulative_array (merge_intermediate_into_cumulative env h) # ds) })"

primrec op_buckets :: "('v \<Rightarrow> int) \<Rightarrow> nat \<Rightarrow> 'v hist_op \<Rightarrow> nat list" where
  "op_buckets bucket sz (HUpdate v r) = [nat (clamp sz (bucket v))]"
| "op_buckets bucket sz (HIntermediate env) = env_buckets sz env"
| "op_buckets bucket sz (HCumulative env) = env_buckets sz env"
| "op_buckets bucket sz (HCheckpoint env) = env_buckets sz env"

primrec op_ok :: "nat \<Rightarrow> 'v hist_op \<Rightarrow> bool" where
  "op_ok sz (HUpdate v r) = True"
| "op_ok sz (HIntermediate env) = env_ok sz env"
| "op_ok sz (HCumulative env) = env_ok sz env"
| "op_ok sz (HCheckpoint env) = env_ok sz env"

lemma cumulative_ok:
  assumes "hist_ok sz h" "env_ok sz env" "\<not> lock h"
  obtains r h' where "sb_histogram_get_pct_cumulative env rank h = Some (r, h')" "hist_ok sz h'" "\<not> lock h'"
    "\<And>j. j < sz \<Longrightarrow> held h' j = held h j + of_nat (count_list (env_buckets sz env) j)"
proof -
  define h1 where "h1 = merge_intermediate_into_cumulative env (h\<lparr>lock := True\<rparr>)"
  have "hist_ok sz (h\<lparr>lock := True\<rparr>)" using assms(1) by (simp add: hist_ok_def)
  note m = merge_ok [OF this assms(2) h1_def]
  have "sb_histogram_get_pct_cumulative env rank h = Some (get_pct_cumulative rank h1, unlock h1)"
    using assms(3) by (simp add: sb_histogram_get_pct_cumulative_def wrlock_def h1_def Let_def)
  then show thesis
    by (rule that) (use m in \<open>simp_all add: hist_ok_def unlock_def held_def\<close>)
qed

lemma merge_lock:
  "merge_intermediate_into_cumulative env (h\<lparr>lock := b\<rparr>) = (merge_intermediate_into_cumulative env h)\<lparr>lock := b\<rparr>"
  by (simp add: merge_intermediate_into_cumulative_def split_beta)

lemma checkpoint_ok:
  assumes "hist_ok sz h" "env_ok sz env" "\<not> lock h" and d: "d = cumulative_array (merge_intermediate_into_cumulative env h)"
  obtains r h' where "sb_histogram_get_pct_checkpoint env rank h = Some (r, h')" "hist_ok sz h'" "\<not> lock h'"
    "\<And>j. j < sz \<Longrightarrow> held h' j + d ! j = held h j + of_nat (count_list (env_buckets sz env) j)"
proof -
  define h1 where "h1 = merge_intermediate_into_cumulative env (h\<lparr>lock := True\<rparr>)"
  have "hist_ok sz (h\<lparr>lock := True\<rparr>)" using assms(1) by (simp add: hist_ok_def)
  note m = merge_ok [OF this assms(2) h1_def]
  let ?h = "unlock (h1\<lparr>cumulative_array := replicate (array_size h1) 0, cumulative_nevents := 0\<rparr>)"
  have "sb_histogram_get_pct_checkpoint env rank h = Some (get_pct_cumulative rank h1, ?h)"
    using assms(3) by (simp add: sb_histogram_get_pct_checkpoint_def wrlock_def h1_def Let_def)
  moreover have "hist_ok sz ?h" "\<not> lock ?h" using m(1) by (simp_all add: hist_ok_def unlock_def sum_list_replicate)
  moreover have "held ?h j + d ! j = held h j + of_nat (count_list (env_buckets sz env) j)" if "j < sz" for j
    using m(1) m(3) [OF that] that by (simp add: d h1_def merge_lock hist_ok_def unlock_def held_def)
  ultimately show thesis by (rule that)
qed

lemma col_Cons: "col (d # ds) j = d ! j + col ds j"
  by (simp add: col_def)

lemma hist_run_ok:
  assumes "0 < sz"
  shows "hist_ok sz h \<Longrightarrow> \<not> lock h \<Longrightarrow> list_all (op_ok sz) ops \<Longrightarrow>
    \<exists>h' ds'. hist_run bucket rank ops (h, ds) = Some (h', ds') \<and> hist_ok sz h'
      \<and> (\<forall>j < sz. held h' j + col ds' j
            = held h j + col ds j + of_nat (count_list (concat (map (op_buckets bucket sz) ops)) j))"
proof (induction ops arbitrary: h ds)
  case (Cons op ops)
  have chain: ?case
    if "hist_run bucket rank (op # ops) (h, ds) = hist_run bucket rank ops (h1, ds1)" "hist_ok sz h1" "\<not> lock h1"
      "\<And>j. j < sz \<Longrightarrow> held h1 j + col ds1 j = held h j + col ds j + of_nat (count_list (op_buckets bucket sz op) j)" for h1 ds1
    unfolding that(1) using Cons.IH [OF that(2,3), of ds1] Cons.prems(3) that(4) by (auto simp: add.assoc)
  show ?case
  proof (cases op)
    case (HUpdate v r)
    obtain h1 s1 where u: "sb_histogram_update bucket v r h = Some (h1, s1)" "hist_ok sz h1" "lock h1 = lock h"
      "\<And>j. j < sz \<Longrightarrow> held h1 j = held h j + of_nat (count_list [nat (clamp sz (bucket v))] j)"
      using update_ok [OF Cons.prems(1) assms, of bucket v r] by metis
    show ?thesis
      by (rule chain [of h1 ds]) (use u Cons.prems(2) HUpdate in simp_all)
  next
    case (HIntermediate env)
    obtain r h1 where u: "sb_histogram_get_pct_intermediate env rank h = Some (r, h1)" "hist_ok sz h1" "\<not> lock h1"
      "\<And>j. j < sz \<Longrightarrow> held h1 j = held h j + of_nat (count_list (env_buckets sz env) j)"
      using intermediate_ok [OF Cons.prems(1) _ Cons.prems(2), of env rank] Cons.prems(3) HIntermediate by auto
    show ?thesis
      by (rule chain [of h1 ds]) (use u HIntermediate in simp_all)
  next
    case (HCumulative env)
    obtain r h1 where u: "sb_histogram_get_pct_cumulative env rank h = Some (r, h1)" "hist_ok sz h1" "\<not> lock h1"
      "\<And>j. j < sz \<Longrightarrow> held h1 j = held h j + of_nat (count_list (env_buckets sz env) j)"
      using cumulative_ok [OF Cons.prems(1) _ Cons.prems(2), of env rank] Cons.prems(3) HCumulative by auto
    show ?thesis
      by (rule chain [of h1 ds]) (use u HCumulative in simp_all)
  next
    case (HCheckpoint env)
    define d where "d = cumulative_array (merge_intermediate_into_cumulative env h)"
    obtain r h1 where u: "sb_histogram_get_pct_checkpoint env rank h = Some (r, h1)" "hist_ok sz h1" "\<not> lock h1"
      "\<And>j. j < sz \<Longrightarrow> held h1 j + d ! j = held h j + of_nat (count_list (env_buckets sz env) j)"
      using checkpoint_ok [OF Cons.prems(1) _ Cons.prems(2) d_def, of rank] Cons.prems(3) HCheckpoint by auto
    show ?thesis
      by (rule chain [of h1 "d # ds"]) (use u HCheckpoint in \<open>simp_all add: d_def col_Cons algebra_simps\<close>)
  qed
qed simp

lemma init_ok:
  assumes "cumulative_nevents g = 0" "h = snd (sb_histogram_init True True sz g)"
  shows "hist_ok sz h" "\<not> lock h" "j < sz \<Longrightarrow> held h j = 0"
  using assms by (simp_all add: sb_histogram_init_def hist_ok_def slots_wf_def SB_HISTOGRAM_NSLOTS_def sum_list_replicate
      held_def col_def)


text \<open>The witness has an update of a slot that the running checkpoint has already fetched.\<close>

definition late_update :: schedule where
  "late_update s i = (if s = 5 \<and> i = 0 then [(3, 1)] else [])"


section \<open>Percentiles\<close>

lemma pct_scan_ge: "i \<le> pct_scan nmax ncur xs i"
  by (induction nmax ncur xs i rule: pct_scan.induct) (auto simp: Let_def)

lemma pct_scan_spec:
  "unat ncur + sum_list (map unat xs) < 2 ^ 64 \<Longrightarrow> r = pct_scan nmax ncur xs i - i \<Longrightarrow>
     r \<le> length xs \<and> (\<forall>k < r. unat ncur + sum_list (map unat (take (Suc k) xs)) < unat nmax)
       \<and> (r < length xs \<longrightarrow> unat nmax \<le> unat ncur + sum_list (map unat (take (Suc r) xs)))"
proof (induction nmax ncur xs i arbitrary: r rule: pct_scan.induct)
  case (2 nmax ncur x xs i)
  have n: "unat (ncur + x) = unat ncur + unat x" using 2(2) by (intro unat_add_lem [THEN iffD1]) simp
  show ?case
  proof (cases "nmax \<le> ncur + x")
    case True
    then show ?thesis using 2(3) n by (simp add: word_le_nat_alt)
  next
    case False
    define r1 where "r1 = pct_scan nmax (ncur + x) xs (i + 1) - (i + 1)"
    have r: "r = Suc r1" using 2(3) False pct_scan_ge [of "i + 1" nmax "ncur + x" xs] by (simp add: r1_def)
    have lt: "unat ncur + unat x < unat nmax" using False n by (simp add: word_le_nat_alt)
    have ih: "r1 \<le> length xs \<and> (\<forall>k < r1. unat ncur + unat x + sum_list (map unat (take (Suc k) xs)) < unat nmax)
       \<and> (r1 < length xs \<longrightarrow> unat nmax \<le> unat ncur + unat x + sum_list (map unat (take (Suc r1) xs)))"
      using 2(1) [OF refl False _ r1_def] 2(2) n by simp
    have "unat ncur + sum_list (map unat (take (Suc k) (x # xs))) < unat nmax" if "k < r" for k
    proof (cases k)
      case 0
      then show ?thesis using lt by simp
    next
      case (Suc k')
      then show ?thesis using ih that r by (simp add: add.assoc del: take_Suc)
    qed
    then show ?thesis using ih r by (simp add: add.assoc)
  qed
qed simp

lemma sum_list_unat: "sum_list (map unat xs) < 2 ^ 64 \<Longrightarrow> unat (sum_list (xs :: u64 list)) = sum_list (map unat xs)"
proof (induction xs)
  case (Cons x xs)
  then show ?case using unat_add_lem [of x "sum_list xs"] by simp
qed simp

text \<open>
  Remark (functional).  The cumulative percentile is the first bucket up to which there are at least as many events as
  the rank asks for; there is one, as the rank is at most the number of events.
\<close>

theorem percentile_rank:
  assumes "hist_ok sz h" "env_ok sz env" "\<not> lock h" "0 < sz"
    and "sb_histogram_get_pct_cumulative env rank h = Some (r, h')"
    and "sum_list (map unat (cumulative_array h')) < 2 ^ 64"
    and "rank (cumulative_nevents h') \<le> cumulative_nevents h'"
  shows "r < sz
    \<and> unat (rank (cumulative_nevents h')) \<le> sum_list (map unat (take (Suc r) (cumulative_array h')))
    \<and> (\<forall>k < r. sum_list (map unat (take (Suc k) (cumulative_array h'))) < unat (rank (cumulative_nevents h')))"
proof -
  obtain r1 h1 where c: "sb_histogram_get_pct_cumulative env rank h = Some (r1, h1)" "hist_ok sz h1"
    using cumulative_ok [OF assms(1-3)] by metis
  then have ok: "hist_ok sz h'" using assms(5) by simp
  have r: "r = get_pct_cumulative rank h'"
    using assms(3,5) by (auto simp: sb_histogram_get_pct_cumulative_def wrlock_def Let_def get_pct_cumulative_def unlock_def)
  define n where "n = rank (cumulative_nevents h')"
  define a where "a = cumulative_array h'"
  have len: "length a = sz" using ok by (simp add: hist_ok_def a_def)
  have rs: "r = pct_scan n 0 a 0 - 0" by (simp add: r get_pct_cumulative_def n_def a_def)
  have small: "unat (0 :: u64) + sum_list (map unat a) < 2 ^ 64" using assms(6) by (simp add: a_def)
  note s = pct_scan_spec [OF small rs]
  have total: "unat n \<le> sum_list (map unat a)"
    using assms(7) sum_list_unat [OF assms(6)] ok by (simp add: n_def a_def hist_ok_def word_le_nat_alt)
  have "r \<noteq> sz"
  proof
    assume "r = sz"
    moreover have "sz - 1 < sz" using assms(4) by simp
    ultimately show False using s len total assms(4) by (fastforce simp: le_Suc_eq)
  qed
  then show ?thesis using s len by (simp add: n_def [symmetric] a_def [symmetric] del: take_Suc)
qed

lemma fetch_zeros: "sl = replicate m (replicate sz 0) \<Longrightarrow> list_all (pos_ok sz) ps \<Longrightarrow> m = 128 \<Longrightarrow>
    fetch_loop (\<lambda>s i. []) (+) ps sl a n = (sl, a, n)"
proof (induction ps)
  case (Cons p ps)
  obtain s i where p: "p = (s, i)" "s < 128" "i < sz" using Cons(3) by (cases p) (simp add: pos_ok_def)
  then have "sl ! s = replicate sz 0" "sl ! s ! i = 0" using Cons(2,4) by simp_all
  moreover from this have "sl[s := (sl ! s)[i := 0]] = sl" "a[i := a ! i + 0] = a" by (metis list_update_id, simp)
  ultimately show ?case using Cons p(1) by simp
qed simp

lemma quiet_merge:
  "interm_slots h = replicate 128 (replicate (array_size h) 0) \<Longrightarrow> merge_intermediate_into_cumulative (\<lambda>s i. []) h = h"
  using rows_ok [of "[0..<SB_HISTOGRAM_NSLOTS]" "array_size h"]
  by (simp add: merge_intermediate_into_cumulative_def fetch_zeros SB_HISTOGRAM_NSLOTS_def)

theorem percentile_rank_witness:
  "\<exists>r h'. sb_histogram_get_pct_cumulative (\<lambda>s i. []) (\<lambda>n. n div 2)
      \<lparr>cumulative_array = [1, 3], cumulative_nevents = 4, temp_array = [0, 0],
       interm_slots = replicate 128 (replicate 2 0), array_size = 2, lock = False\<rparr> = Some (r, h')
    \<and> r < 2 \<and> 2 \<le> sum_list (map unat (take (Suc r) (cumulative_array h')))
    \<and> (\<forall>k < r. sum_list (map unat (take (Suc k) (cumulative_array h'))) < 2)"
proof -
  let ?h = "\<lparr>cumulative_array = [1, 3], cumulative_nevents = 4, temp_array = [0, 0],
       interm_slots = replicate 128 (replicate 2 0), array_size = 2, lock = False\<rparr>"
  let ?rank = "\<lambda>n :: u64. n div 2"
  have ok: "hist_ok 2 ?h" by (simp add: hist_ok_def slots_wf_def)
  have e: "sb_histogram_get_pct_cumulative (\<lambda>s i. []) ?rank ?h = Some (get_pct_cumulative ?rank ?h, ?h)"
    by (simp add: sb_histogram_get_pct_cumulative_def wrlock_def unlock_def quiet_merge get_pct_cumulative_def Let_def)
  have "get_pct_cumulative ?rank ?h < 2
    \<and> unat (?rank (cumulative_nevents ?h)) \<le> sum_list (map unat (take (Suc (get_pct_cumulative ?rank ?h)) (cumulative_array ?h)))
    \<and> (\<forall>k < get_pct_cumulative ?rank ?h.
          sum_list (map unat (take (Suc k) (cumulative_array ?h))) < unat (?rank (cumulative_nevents ?h)))"
    by (rule percentile_rank [OF ok _ _ _ e]) (simp_all add: env_ok_def)
  moreover have "unat (?rank (cumulative_nevents ?h)) = 2" by simp
  ultimately show ?thesis unfolding e by (intro exI [of _ "get_pct_cumulative ?rank ?h"] exI [of _ ?h]) simp
qed

text \<open>
  Remark.  Printing a histogram without events returns with the lock taken: no report on it returns
  any more.
\<close>

lemma print_keeps_lock:
  assumes "interm_slots h = replicate 128 (replicate (array_size h) 0)" "cumulative_array h = replicate (array_size h) 0"
    and "\<not> lock h" "sb_histogram_print (\<lambda>s i. []) width h = Some (out, h')"
  shows "sb_histogram_get_pct_cumulative env rank h' = None" "sb_histogram_get_pct_intermediate env rank h' = None"
    "sb_histogram_get_pct_checkpoint env rank h' = None" "sb_histogram_print env width h' = None"
proof -
  have m: "merge_intermediate_into_cumulative (\<lambda>s i. []) (h\<lparr>lock := True\<rparr>) = h\<lparr>lock := True\<rparr>"
    using assms(1) by (intro quiet_merge) simp
  have z: "((\<lambda>m. m) ^^ k) x = x" for k and x :: u64 by (induction k) simp_all
  have "sb_histogram_print (\<lambda>s i. []) width h = Some ([], h\<lparr>lock := True\<rparr>)"
    using assms(2,3) by (simp add: sb_histogram_print_def wrlock_def m z)
  then have "lock h'" using assms(4) by auto
  then show "sb_histogram_get_pct_cumulative env rank h' = None" "sb_histogram_get_pct_intermediate env rank h' = None"
    "sb_histogram_get_pct_checkpoint env rank h' = None" "sb_histogram_print env width h' = None"
    by (simp_all add: sb_histogram_get_pct_cumulative_def sb_histogram_get_pct_intermediate_def
        sb_histogram_get_pct_checkpoint_def sb_histogram_print_def wrlock_def)
qed

text \<open>Remark.  The number of events of an allocated histogram is what the memory held before.\<close>

lemma new_keeps_garbage:
  "sb_histogram_new (Some g) True True sz = Some h \<Longrightarrow> cumulative_nevents h = cumulative_nevents g"
  by (auto simp: sb_histogram_new_def sb_histogram_init_def)

end
