(* ===== verification/SbList.thy ===== *)
theory SbList
  imports Prelude
begin

text \<open>
  The intrusive circular lists of the benchmark (\<^verbatim>\<open>sb_list.h\<close>).  A heap maps the addresses of the
  allocated items to their two pointers; an access to an address that is not allocated is
  undefined.  The macros are translated assignment by assignment, because they read pointers that
  they have just written.
\<close>

section \<open>The heap\<close>

type_synonym ptr = nat

record sb_list_item =
  next_p :: ptr
  prev_p :: ptr

type_synonym lheap = "ptr \<rightharpoonup> sb_list_item"

definition get_next :: "ptr \<Rightarrow> lheap \<Rightarrow> ptr option" where
  "get_next a h = map_option next_p (h a)"

definition get_prev :: "ptr \<Rightarrow> lheap \<Rightarrow> ptr option" where
  "get_prev a h = map_option prev_p (h a)"

definition set_next :: "ptr \<Rightarrow> ptr \<Rightarrow> lheap \<Rightarrow> lheap option" where
  "set_next a v h = map_option (\<lambda>n. h(a \<mapsto> n\<lparr>next_p := v\<rparr>)) (h a)"

definition set_prev :: "ptr \<Rightarrow> ptr \<Rightarrow> lheap \<Rightarrow> lheap option" where
  "set_prev a v h = map_option (\<lambda>n. h(a \<mapsto> n\<lparr>prev_p := v\<rparr>)) (h a)"

definition release :: "ptr \<Rightarrow> lheap \<Rightarrow> lheap option" where
  "release a h = map_option (\<lambda>_. h(a := None)) (h a)"

section \<open>The macros\<close>

definition SB_LIST_INIT :: "ptr \<Rightarrow> lheap \<Rightarrow> lheap option" where
  "SB_LIST_INIT head h = do { h1 \<leftarrow> set_next head head h; set_prev head head h1 }"

definition SB_LIST_ITEM_INIT :: "ptr \<Rightarrow> lheap \<Rightarrow> lheap option" where
  "SB_LIST_ITEM_INIT item h = SB_LIST_INIT item h"

definition SB_LIST_ADD :: "ptr \<Rightarrow> ptr \<Rightarrow> lheap \<Rightarrow> lheap option" where
  "SB_LIST_ADD item head h =
     do {
       n \<leftarrow> get_next head h;
       h1 \<leftarrow> set_next item n h;
       h2 \<leftarrow> set_prev item head h1;
       h3 \<leftarrow> set_next head item h2;
       n' \<leftarrow> get_next item h3;
       set_prev n' item h3
     }"

definition SB_LIST_ADD_TAIL :: "ptr \<Rightarrow> ptr \<Rightarrow> lheap \<Rightarrow> lheap option" where
  "SB_LIST_ADD_TAIL item head h =
     do {
       p \<leftarrow> get_prev head h;
       h1 \<leftarrow> set_prev item p h;
       h2 \<leftarrow> set_next item head h1;
       h3 \<leftarrow> set_prev head item h2;
       p' \<leftarrow> get_prev item h3;
       set_next p' item h3
     }"

definition SB_LIST_DELETE :: "ptr \<Rightarrow> lheap \<Rightarrow> lheap option" where
  "SB_LIST_DELETE item h =
     do {
       n \<leftarrow> get_next item h;
       p \<leftarrow> get_prev item h;
       h1 \<leftarrow> set_prev n p h;
       p' \<leftarrow> get_prev item h1;
       n' \<leftarrow> get_next item h1;
       set_next p' n' h1
     }"

definition SB_LIST_REPLACE :: "ptr \<Rightarrow> ptr \<Rightarrow> lheap \<Rightarrow> lheap option" where
  "SB_LIST_REPLACE item old h =
     do {
       n \<leftarrow> get_next old h;
       h1 \<leftarrow> set_next item n h;
       p \<leftarrow> get_prev old h1;
       h2 \<leftarrow> set_prev item p h1;
       n' \<leftarrow> get_next item h2;
       h3 \<leftarrow> set_prev n' item h2;
       p' \<leftarrow> get_prev item h3;
       set_next p' item h3
     }"

definition SB_LIST_IS_EMPTY :: "ptr \<Rightarrow> lheap \<Rightarrow> bool option" where
  "SB_LIST_IS_EMPTY head h = map_option (\<lambda>n. n = head) (get_next head h)"

definition SB_LIST_ITEM_IN_LIST :: "ptr \<Rightarrow> lheap \<Rightarrow> bool option" where
  "SB_LIST_ITEM_IN_LIST item h = map_option (\<lambda>n. n \<noteq> item) (get_next item h)"

definition SB_LIST_ITEM_FIRST :: "ptr \<Rightarrow> ptr \<Rightarrow> lheap \<Rightarrow> bool option" where
  "SB_LIST_ITEM_FIRST item head h = map_option (\<lambda>p. p \<noteq> head) (get_prev item h)"

definition SB_LIST_ITEM_LAST :: "ptr \<Rightarrow> ptr \<Rightarrow> lheap \<Rightarrow> bool option" where
  "SB_LIST_ITEM_LAST item head h = map_option (\<lambda>n. n = head) (get_next item h)"

definition SB_LIST_ONCE :: "ptr \<Rightarrow> lheap \<Rightarrow> ptr option option" where
  "SB_LIST_ONCE head h = map_option (\<lambda>pos. if pos \<noteq> head then Some pos else None) (get_next head h)"

definition SB_LIST_ENUM_NEXT :: "ptr \<Rightarrow> ptr \<Rightarrow> lheap \<Rightarrow> ptr option option" where
  "SB_LIST_ENUM_NEXT pos head h = map_option (\<lambda>n. if n \<noteq> head then Some n else None) (get_next pos h)"

text \<open>The items a \<open>SB_LIST_FOR_EACH\<close> loop visits, from position \<open>pos\<close> on.\<close>

partial_function (option) visit :: "lheap \<Rightarrow> ptr \<Rightarrow> ptr \<Rightarrow> ptr list option" where
  "visit h head pos =
     (if pos = head then Some []
      else do { n \<leftarrow> get_next pos h; xs \<leftarrow> visit h head n; Some (pos # xs) })"

definition SB_LIST_FOR_EACH :: "ptr \<Rightarrow> lheap \<Rightarrow> ptr list option" where
  "SB_LIST_FOR_EACH head h = do { pos \<leftarrow> get_next head h; visit h head pos }"

text \<open>
  The safe loop reads the successor of an item before the body may free it.  The body is a
  parameter.
\<close>

partial_function (option) visit_safe :: "(ptr \<Rightarrow> lheap \<Rightarrow> lheap option) \<Rightarrow> ptr \<Rightarrow> ptr \<Rightarrow> ptr \<Rightarrow> lheap \<Rightarrow> lheap option" where
  "visit_safe body head pos temp h =
     (if pos = head then Some h
      else do { h1 \<leftarrow> body pos h; n \<leftarrow> get_next temp h1; visit_safe body head temp n h1 })"

definition SB_LIST_FOR_EACH_SAFE :: "(ptr \<Rightarrow> lheap \<Rightarrow> lheap option) \<Rightarrow> ptr \<Rightarrow> lheap \<Rightarrow> lheap option" where
  "SB_LIST_FOR_EACH_SAFE body head h =
     do { pos \<leftarrow> get_next head h; temp \<leftarrow> get_next pos h; visit_safe body head pos temp h }"

text \<open>The bodies of \<open>free_values\<close>, which unlinks each item before it frees it, and of \<open>free_options\<close>, which does not.\<close>

definition free_value_item :: "ptr \<Rightarrow> lheap \<Rightarrow> lheap option" where
  "free_value_item cur h = do { h1 \<leftarrow> SB_LIST_DELETE cur h; release cur h1 }"

definition free_option_item :: "ptr \<Rightarrow> lheap \<Rightarrow> lheap option" where
  "free_option_item cur h = release cur h"

definition free_values_list :: "ptr \<Rightarrow> lheap \<Rightarrow> lheap option" where
  "free_values_list head h = SB_LIST_FOR_EACH_SAFE free_value_item head h"

definition free_options_list :: "ptr \<Rightarrow> lheap \<Rightarrow> lheap option" where
  "free_options_list head h = SB_LIST_FOR_EACH_SAFE free_option_item head h"

section \<open>Abstraction\<close>

text \<open>\<open>link h a b\<close>: the two pointers between neighbours \<open>a\<close> and \<open>b\<close> agree.\<close>

definition link :: "lheap \<Rightarrow> ptr \<Rightarrow> ptr \<Rightarrow> bool" where
  "link h a b \<longleftrightarrow> get_next a h = Some b \<and> get_prev b h = Some a"

primrec chain :: "lheap \<Rightarrow> ptr \<Rightarrow> ptr list \<Rightarrow> ptr \<Rightarrow> bool" where
  "chain h a [] b \<longleftrightarrow> link h a b"
| "chain h a (x # xs) b \<longleftrightarrow> link h a x \<and> chain h x xs b"

definition clist :: "lheap \<Rightarrow> ptr \<Rightarrow> ptr list \<Rightarrow> bool" where
  "clist h head xs \<longleftrightarrow> distinct (head # xs) \<and> chain h head xs head"

lemma chain_append [simp]: "chain h a (xs @ x # ys) b \<longleftrightarrow> chain h a xs x \<and> chain h x ys b"
  by (induction xs arbitrary: a) auto

lemma get_next_upd [simp]:
  "get_next a (h(b \<mapsto> n)) = (if a = b then Some (next_p n) else get_next a h)"
  "get_next a (h(b := None)) = (if a = b then None else get_next a h)"
  by (simp_all add: get_next_def)

lemma get_prev_upd [simp]:
  "get_prev a (h(b \<mapsto> n)) = (if a = b then Some (prev_p n) else get_prev a h)"
  "get_prev a (h(b := None)) = (if a = b then None else get_prev a h)"
  by (simp_all add: get_prev_def)

lemma chain_cong:
  assumes "\<And>x. x \<in> set (a # xs) \<Longrightarrow> get_next x h' = get_next x h"
    and "\<And>x. x \<in> set (b # xs) \<Longrightarrow> get_prev x h' = get_prev x h"
  shows "chain h' a xs b \<longleftrightarrow> chain h a xs b"
  using assms by (induction xs arbitrary: a) (auto simp: link_def)

text \<open>Assignments to allocated items never fail; reads after them see the value written.\<close>

lemma set_next_Some:
  assumes "a \<in> dom h"
  shows "\<exists>h'. set_next a v h = Some h' \<and> dom h' = dom h \<and>
    (\<forall>x. get_next x h' = (if x = a then Some v else get_next x h)) \<and> (\<forall>x. get_prev x h' = get_prev x h)"
  using assms by (auto simp: set_next_def get_prev_def)

lemma set_prev_Some:
  assumes "a \<in> dom h"
  shows "\<exists>h'. set_prev a v h = Some h' \<and> dom h' = dom h \<and>
    (\<forall>x. get_prev x h' = (if x = a then Some v else get_prev x h)) \<and> (\<forall>x. get_next x h' = get_next x h)"
  using assms by (auto simp: set_prev_def get_next_def)

lemma get_dom: "get_next a h = Some b \<Longrightarrow> a \<in> dom h" "get_prev a h = Some b \<Longrightarrow> a \<in> dom h"
  by (auto simp: get_next_def get_prev_def)

lemma chain_dom: "chain h a xs b \<Longrightarrow> set (a # b # xs) \<subseteq> dom h"
  by (induction xs arbitrary: a) (auto simp: link_def dest: get_dom)

text \<open>
  All four updating macros have one effect: they set the successors and predecessors of a few
  items and leave the others alone.  \<open>relinked h h' ns ps\<close> says so.
\<close>

definition relinked :: "lheap \<Rightarrow> lheap \<Rightarrow> (ptr \<rightharpoonup> ptr) \<Rightarrow> (ptr \<rightharpoonup> ptr) \<Rightarrow> bool" where
  "relinked h h' ns ps \<longleftrightarrow> dom h' = dom h \<and>
     (\<forall>x. get_next x h' = (case ns x of None \<Rightarrow> get_next x h | v \<Rightarrow> v)) \<and>
     (\<forall>x. get_prev x h' = (case ps x of None \<Rightarrow> get_prev x h | v \<Rightarrow> v))"

lemma relinked_refl: "relinked h h Map.empty Map.empty"
  by (simp add: relinked_def)

lemma set_next_relinked:
  assumes "relinked h0 h ns ps" "a \<in> dom h0"
  shows "\<exists>h'. set_next a v h = Some h' \<and> relinked h0 h' (ns(a \<mapsto> v)) ps"
  using assms set_next_Some [of a h v] by (auto simp: relinked_def)

lemma set_prev_relinked:
  assumes "relinked h0 h ns ps" "a \<in> dom h0"
  shows "\<exists>h'. set_prev a v h = Some h' \<and> relinked h0 h' ns (ps(a \<mapsto> v))"
  using assms set_prev_Some [of a h v] by (auto simp: relinked_def)

lemma relinked_get:
  assumes "relinked h0 h ns ps"
  shows "get_next x h = (case ns x of None \<Rightarrow> get_next x h0 | v \<Rightarrow> v)"
    and "get_prev x h = (case ps x of None \<Rightarrow> get_prev x h0 | v \<Rightarrow> v)"
  using assms by (simp_all add: relinked_def)

lemma add_effect:
  assumes "get_next head h = Some n" "item \<in> dom h" "n \<in> dom h" "item \<noteq> head"
  shows "\<exists>h'. SB_LIST_ADD item head h = Some h' \<and>
    relinked h h' [item \<mapsto> n, head \<mapsto> item] [item \<mapsto> head, n \<mapsto> item]"
proof -
  obtain h1 where 1: "set_next item n h = Some h1" "relinked h h1 [item \<mapsto> n] Map.empty"
    using set_next_relinked [OF relinked_refl assms(2)] by blast
  obtain h2 where 2: "set_prev item head h1 = Some h2" "relinked h h2 [item \<mapsto> n] [item \<mapsto> head]"
    using set_prev_relinked [OF 1(2) assms(2)] by blast
  obtain h3 where 3: "set_next head item h2 = Some h3" "relinked h h3 [item \<mapsto> n, head \<mapsto> item] [item \<mapsto> head]"
    using set_next_relinked [OF 2(2) get_dom(1) [OF assms(1)]] by blast
  obtain h4 where 4: "set_prev n item h3 = Some h4" "relinked h h4 [item \<mapsto> n, head \<mapsto> item] [item \<mapsto> head, n \<mapsto> item]"
    using set_prev_relinked [OF 3(2) assms(3)] by blast
  have "get_next item h3 = Some n" using relinked_get(1) [OF 3(2), of item] assms(4) by simp
  then show ?thesis using 1 2 3 4 assms(1) by (auto simp: SB_LIST_ADD_def)
qed

lemma add_tail_effect:
  assumes "get_prev head h = Some p" "item \<in> dom h" "p \<in> dom h" "item \<noteq> head"
  shows "\<exists>h'. SB_LIST_ADD_TAIL item head h = Some h' \<and>
    relinked h h' [item \<mapsto> head, p \<mapsto> item] [item \<mapsto> p, head \<mapsto> item]"
proof -
  obtain h1 where 1: "set_prev item p h = Some h1" "relinked h h1 Map.empty [item \<mapsto> p]"
    using set_prev_relinked [OF relinked_refl assms(2)] by blast
  obtain h2 where 2: "set_next item head h1 = Some h2" "relinked h h2 [item \<mapsto> head] [item \<mapsto> p]"
    using set_next_relinked [OF 1(2) assms(2)] by blast
  obtain h3 where 3: "set_prev head item h2 = Some h3" "relinked h h3 [item \<mapsto> head] [item \<mapsto> p, head \<mapsto> item]"
    using set_prev_relinked [OF 2(2) get_dom(2) [OF assms(1)]] by blast
  obtain h4 where 4: "set_next p item h3 = Some h4" "relinked h h4 [item \<mapsto> head, p \<mapsto> item] [item \<mapsto> p, head \<mapsto> item]"
    using set_next_relinked [OF 3(2) assms(3)] by blast
  have "get_prev item h3 = Some p" using relinked_get(2) [OF 3(2), of item] assms(4) by simp
  then show ?thesis using 1 2 3 4 assms(1) by (auto simp: SB_LIST_ADD_TAIL_def)
qed

lemma delete_effect:
  assumes "get_next item h = Some n" "get_prev item h = Some p" "n \<in> dom h" "p \<in> dom h" "n \<noteq> item"
  shows "\<exists>h'. SB_LIST_DELETE item h = Some h' \<and> relinked h h' [p \<mapsto> n] [n \<mapsto> p]"
proof -
  obtain h1 where 1: "set_prev n p h = Some h1" "relinked h h1 Map.empty [n \<mapsto> p]"
    using set_prev_relinked [OF relinked_refl assms(3)] by blast
  obtain h2 where 2: "set_next p n h1 = Some h2" "relinked h h2 [p \<mapsto> n] [n \<mapsto> p]"
    using set_next_relinked [OF 1(2) assms(4)] by blast
  have "get_next item h1 = Some n" "get_prev item h1 = Some p"
    using relinked_get [OF 1(2), of item] assms by simp_all
  then show ?thesis using 1 2 assms by (auto simp: SB_LIST_DELETE_def)
qed

lemma replace_effect:
  assumes "get_next old h = Some n" "get_prev old h = Some p" "n \<in> dom h" "p \<in> dom h" "item \<in> dom h"
    "n \<noteq> item" "item \<noteq> old"
  shows "\<exists>h'. SB_LIST_REPLACE item old h = Some h' \<and> relinked h h' [item \<mapsto> n, p \<mapsto> item] [item \<mapsto> p, n \<mapsto> item]"
proof -
  obtain h1 where 1: "set_next item n h = Some h1" "relinked h h1 [item \<mapsto> n] Map.empty"
    using set_next_relinked [OF relinked_refl assms(5)] by blast
  obtain h2 where 2: "set_prev item p h1 = Some h2" "relinked h h2 [item \<mapsto> n] [item \<mapsto> p]"
    using set_prev_relinked [OF 1(2) assms(5)] by blast
  obtain h3 where 3: "set_prev n item h2 = Some h3" "relinked h h3 [item \<mapsto> n] [item \<mapsto> p, n \<mapsto> item]"
    using set_prev_relinked [OF 2(2) assms(3)] by blast
  obtain h4 where 4: "set_next p item h3 = Some h4" "relinked h h4 [item \<mapsto> n, p \<mapsto> item] [item \<mapsto> p, n \<mapsto> item]"
    using set_next_relinked [OF 3(2) assms(4)] by blast
  have "get_prev old h1 = Some p" "get_next item h2 = Some n" "get_prev item h3 = Some p"
    using relinked_get [OF 1(2), of old] relinked_get [OF 2(2), of item] relinked_get [OF 3(2), of item] assms by simp_all
  then show ?thesis using 1 2 3 4 assms by (auto simp: SB_LIST_REPLACE_def)
qed

section \<open>Refinement\<close>

lemma relinked_chain:
  assumes "relinked h h' ns ps" "\<forall>x \<in> set (a # xs). ns x = None" "\<forall>x \<in> set (b # xs). ps x = None"
  shows "chain h' a xs b \<longleftrightarrow> chain h a xs b"
  by (rule chain_cong) (use assms in \<open>auto simp: relinked_get [OF assms(1)]\<close>)

lemma relinked_link:
  assumes "relinked h h' ns ps" "ns a = Some b" "ps b = Some a"
  shows "link h' a b"
  using assms by (simp add: link_def relinked_get [OF assms(1)])

lemma last_link: "chain h a xs b \<Longrightarrow> get_prev b h = Some (last (a # xs))"
  by (induction xs arbitrary: a) (auto simp: link_def)

lemma first_link: "chain h a xs b \<Longrightarrow> get_next a h = Some (hd (xs @ [b]))"
  by (cases xs) (auto simp: link_def)

lemma init_clist:
  assumes "head \<in> dom h"
  shows "\<exists>h'. SB_LIST_INIT head h = Some h' \<and> dom h' = dom h \<and> clist h' head []"
proof -
  obtain h1 where 1: "set_next head head h = Some h1" "relinked h h1 [head \<mapsto> head] Map.empty"
    using set_next_relinked [OF relinked_refl assms] by blast
  obtain h2 where 2: "set_prev head head h1 = Some h2" "relinked h h2 [head \<mapsto> head] [head \<mapsto> head]"
    using set_prev_relinked [OF 1(2) assms] by blast
  have "link h2 head head" by (rule relinked_link [OF 2(2)]) simp_all
  then show ?thesis using 1 2 by (auto simp: SB_LIST_INIT_def clist_def relinked_def)
qed

lemma add_clist:
  assumes c: "clist h head xs" and i: "item \<in> dom h" "item \<notin> set (head # xs)"
  shows "\<exists>h'. SB_LIST_ADD item head h = Some h' \<and> dom h' = dom h \<and> clist h' head (item # xs)"
proof -
  let ?n = "hd (xs @ [head])"
  have n: "get_next head h = Some ?n" "?n \<in> dom h" "?n \<noteq> item"
    using c i first_link [of h head xs head] chain_dom [of h head xs head] by (cases xs; auto simp: clist_def)+
  obtain h' where h': "SB_LIST_ADD item head h = Some h'"
    "relinked h h' [item \<mapsto> ?n, head \<mapsto> item] [item \<mapsto> head, ?n \<mapsto> item]"
    using add_effect [OF n(1) i(1) n(2)] i by auto
  have "link h' head item" "link h' item ?n" using h' n i by (auto intro!: relinked_link [OF h'(2)])
  moreover have "chain h' x ys head \<longleftrightarrow> chain h x ys head" if "xs = x # ys" for x ys
    using that c i by (intro relinked_chain [OF h'(2)]) (auto simp: clist_def)
  ultimately have "chain h' head (item # xs) head" using c by (cases xs) (auto simp: clist_def)
  then show ?thesis using h' c i by (auto simp: clist_def relinked_def)
qed

lemma add_tail_clist:
  assumes c: "clist h head xs" and i: "item \<in> dom h" "item \<notin> set (head # xs)"
  shows "\<exists>h'. SB_LIST_ADD_TAIL item head h = Some h' \<and> dom h' = dom h \<and> clist h' head (xs @ [item])"
proof -
  let ?p = "last (head # xs)"
  have p: "get_prev head h = Some ?p" "?p \<in> dom h" "?p \<noteq> item"
    using c i last_link [of h head xs head] chain_dom [of h head xs head] by (cases xs rule: rev_cases; auto simp: clist_def)+
  obtain h' where h': "SB_LIST_ADD_TAIL item head h = Some h'"
    "relinked h h' [item \<mapsto> head, ?p \<mapsto> item] [item \<mapsto> ?p, head \<mapsto> item]"
    using add_tail_effect [OF p(1) i(1) p(2)] i by auto
  have "link h' item head" "link h' ?p item" using h' p i by (auto intro!: relinked_link [OF h'(2)])
  moreover have "chain h' head ys y \<longleftrightarrow> chain h head ys y" if "xs = ys @ [y]" for y ys
    using that c i by (intro relinked_chain [OF h'(2)]) (auto simp: clist_def)
  ultimately have "chain h' head (xs @ [item]) head" using c by (cases xs rule: rev_cases) (auto simp: clist_def)
  then show ?thesis using h' c i by (auto simp: clist_def relinked_def)
qed

text \<open>The neighbours of an item in the middle.\<close>

lemma neighbours:
  assumes "clist h head (xs @ item # ys)"
  defines "n \<equiv> hd (ys @ [head])" and "p \<equiv> last (head # xs)"
  shows "get_next item h = Some n" "get_prev item h = Some p" "n \<in> dom h" "p \<in> dom h" "n \<noteq> item" "p \<noteq> item"
    and "n \<notin> set xs" "p \<notin> set ys" "xs \<noteq> [] \<or> ys \<noteq> [] \<Longrightarrow> n \<noteq> p"
proof -
  have c: "chain h head xs item" "chain h item ys head" "distinct (head # xs @ item # ys)"
    using assms(1) by (simp_all add: clist_def)
  show "get_next item h = Some n" "get_prev item h = Some p"
    using first_link [OF c(2)] last_link [OF c(1)] by (simp_all add: n_def p_def)
  show "n \<in> dom h" using chain_dom [OF c(2)] unfolding n_def by (cases ys) auto
  show "p \<in> dom h" using chain_dom [OF c(1)] unfolding p_def by (cases xs rule: rev_cases) auto
  show "n \<noteq> item" "n \<notin> set xs" using c(3) unfolding n_def by (cases ys; auto)+
  show "p \<noteq> item" "p \<notin> set ys" using c(3) unfolding p_def by (cases xs rule: rev_cases; auto)+
  show "n \<noteq> p" if "xs \<noteq> [] \<or> ys \<noteq> []"
    using c(3) that unfolding n_def p_def by (cases ys; cases xs rule: rev_cases) auto
qed

lemma relinked_front:
  assumes "relinked h h' ns ps" "chain h head xs item" "distinct (head # xs)"
    and "\<forall>x \<in> set (butlast (head # xs)). ns x = None" "\<forall>x \<in> set xs. ps x = None"
    and "link h' (last (head # xs)) y"
  shows "chain h' head xs y"
proof (cases xs rule: rev_cases)
  case Nil
  then show ?thesis using assms by simp
next
  case (snoc ys z)
  have "chain h' head ys z \<longleftrightarrow> chain h head ys z"
    using assms snoc by (intro relinked_chain [OF assms(1)]) (auto simp: butlast_append split: if_splits)
  then show ?thesis using assms snoc by auto
qed

lemma relinked_back:
  assumes "relinked h h' ns ps" "chain h item ys head"
    and "\<forall>x \<in> set ys. ns x = None" "\<forall>x \<in> set (tl (ys @ [head])). ps x = None"
    and "link h' x (hd (ys @ [head]))"
  shows "chain h' x ys head"
proof (cases ys)
  case Nil
  then show ?thesis using assms by simp
next
  case (Cons z zs)
  have "chain h' z zs head \<longleftrightarrow> chain h z zs head"
    using assms Cons by (intro relinked_chain [OF assms(1)]) auto
  then show ?thesis using assms Cons by auto
qed

lemma butlast_last: "distinct xs \<Longrightarrow> xs \<noteq> [] \<Longrightarrow> last xs \<notin> set (butlast xs)"
  by (metis append_butlast_last_id distinct_butlast not_distinct_conv_prefix)

lemma chain_join: "chain h a xs (hd (ys @ [b])) \<Longrightarrow> (\<And>z zs. ys = z # zs \<Longrightarrow> chain h z zs b) \<Longrightarrow> chain h a (xs @ ys) b"
  by (cases ys) auto

lemma delete_clist:
  assumes c: "clist h head (xs @ item # ys)"
  shows "\<exists>h'. SB_LIST_DELETE item h = Some h' \<and> dom h' = dom h \<and> clist h' head (xs @ ys)"
proof -
  let ?n = "hd (ys @ [head])" and ?p = "last (head # xs)"
  note N = neighbours [OF c]
  have d: "distinct (head # xs @ item # ys)" "chain h head xs item" "chain h item ys head"
    using c by (simp_all add: clist_def)
  obtain h' where h': "SB_LIST_DELETE item h = Some h'" "relinked h h' [?p \<mapsto> ?n] [?n \<mapsto> ?p]"
    using delete_effect [OF N(1-5)] by blast
  have l: "link h' ?p ?n" by (rule relinked_link [OF h'(2)]) simp_all
  have "chain h' head xs ?n"
    using d N l butlast_last [of "head # xs"] by (intro relinked_front [OF h'(2) d(2)]) auto
  moreover have "chain h' z zs head" if "ys = z # zs" for z zs
  proof -
    have "chain h' z zs head \<longleftrightarrow> chain h z zs head"
      using that d N by (intro relinked_chain [OF h'(2)]) (auto split: if_splits)
    then show ?thesis using d(3) that by simp
  qed
  ultimately have "chain h' head (xs @ ys) head" by (rule chain_join)
  then show ?thesis using h' d by (auto simp: clist_def relinked_def)
qed

lemma replace_clist:
  assumes c: "clist h head (xs @ old # ys)" and i: "item \<in> dom h" "item \<notin> set (head # xs @ old # ys)"
  shows "\<exists>h'. SB_LIST_REPLACE item old h = Some h' \<and> dom h' = dom h \<and> clist h' head (xs @ item # ys)"
proof -
  let ?n = "hd (ys @ [head])" and ?p = "last (head # xs)"
  note N = neighbours [OF c]
  have d: "distinct (head # xs @ old # ys)" "chain h head xs old" "chain h old ys head"
    using c by (simp_all add: clist_def)
  have ni: "?n \<noteq> item" "?p \<noteq> item" using i by (cases ys; cases xs rule: rev_cases; auto)+
  obtain h' where h': "SB_LIST_REPLACE item old h = Some h'" "relinked h h' [item \<mapsto> ?n, ?p \<mapsto> item] [item \<mapsto> ?p, ?n \<mapsto> item]"
    using replace_effect [OF N(1-4) i(1) ni(1)] i by auto
  have l: "link h' item ?n" "link h' ?p item" using ni by (auto intro!: relinked_link [OF h'(2)])
  have "chain h' head xs item"
    using d N l i butlast_last [of "head # xs"] by (intro relinked_front [OF h'(2) d(2)]) (auto dest: in_set_butlastD)
  moreover have "chain h' item ys head"
  proof (rule relinked_back [OF h'(2) d(3)])
    show "\<forall>x \<in> set ys. [item \<mapsto> ?n, ?p \<mapsto> item] x = None" using i N by auto
    show "\<forall>x \<in> set (tl (ys @ [head])). [item \<mapsto> ?p, ?n \<mapsto> item] x = None" using i d by (cases ys) auto
  qed (rule l)
  ultimately have "chain h' head (xs @ item # ys) head" by simp
  then show ?thesis using h' d i by (auto simp: clist_def relinked_def)
qed

lemma visit_chain:
  "chain h a xs head \<Longrightarrow> head \<notin> set xs \<Longrightarrow> visit h head (hd (xs @ [head])) = Some xs"
proof (induction xs arbitrary: a)
  case Nil
  then show ?case by (simp add: visit.simps)
next
  case (Cons x xs)
  then have "visit h head (hd (xs @ [head])) = Some xs" "get_next x h = Some (hd (xs @ [head]))"
    using first_link [of h x xs head] by auto
  then show ?case using Cons.prems by (subst visit.simps) simp
qed

lemma for_each_clist: "clist h head xs \<Longrightarrow> SB_LIST_FOR_EACH head h = Some xs"
  using first_link [of h head xs head] visit_chain [of h head xs head] by (simp add: clist_def SB_LIST_FOR_EACH_def)

section \<open>The interface of a list\<close>

datatype 'a lop = Prepend 'a | Append 'a | Unlink 'a | Swap 'a 'a

fun list_spec :: "'a set \<Rightarrow> 'a lop \<Rightarrow> 'a list \<Rightarrow> 'a list option" where
  "list_spec D (Prepend i) xs = (if i \<in> D - set xs then Some (i # xs) else None)"
| "list_spec D (Append i) xs = (if i \<in> D - set xs then Some (xs @ [i]) else None)"
| "list_spec D (Unlink i) xs = (if i \<in> set xs then Some (remove1 i xs) else None)"
| "list_spec D (Swap new old) xs =
     (if new \<in> D - set xs \<and> old \<in> set xs then Some (takeWhile (\<lambda>x. x \<noteq> old) xs @ new # tl (dropWhile (\<lambda>x. x \<noteq> old) xs)) else None)"

fun list_macro :: "ptr \<Rightarrow> ptr lop \<Rightarrow> lheap \<Rightarrow> lheap option" where
  "list_macro head (Prepend i) h = SB_LIST_ADD i head h"
| "list_macro head (Append i) h = SB_LIST_ADD_TAIL i head h"
| "list_macro head (Unlink i) h = SB_LIST_DELETE i h"
| "list_macro head (Swap new old) h = SB_LIST_REPLACE new old h"

text \<open>An implementation of lists of items from a set \<open>D\<close>, and what its clients get.\<close>

locale list_impl =
  fixes exec :: "'a lop \<Rightarrow> 'h \<Rightarrow> 'h option"
    and items :: "'h \<Rightarrow> 'a list option"
    and repr :: "'h \<Rightarrow> 'a list \<Rightarrow> bool"
    and D :: "'a set"
  assumes exec_repr: "repr h xs \<Longrightarrow> list_spec D x xs = Some ys \<Longrightarrow> \<exists>h'. exec x h = Some h' \<and> repr h' ys"
    and items_repr: "repr h xs \<Longrightarrow> items h = Some xs"
begin

lemma run_repr:
  "repr h xs \<Longrightarrow> run_steps (list_spec D) ops xs = Some ys \<Longrightarrow>
    \<exists>h'. run_steps exec ops h = Some h' \<and> repr h' ys \<and> items h' = Some ys"
proof (induction ops arbitrary: h xs)
  case Nil
  then show ?case by (simp add: items_repr)
next
  case (Cons x ops)
  then obtain zs where zs: "list_spec D x xs = Some zs" "run_steps (list_spec D) ops zs = Some ys"
    by (auto split: bind_splits)
  then obtain h1 where "exec x h = Some h1" "repr h1 zs" using exec_repr Cons.prems(1) by blast
  then show ?case using Cons.IH [OF _ zs(2)] by simp
qed

end

lemma macro_refines:
  assumes c: "clist h head xs" and s: "list_spec (dom h - {head}) x xs = Some ys"
  shows "\<exists>h'. list_macro head x h = Some h' \<and> dom h' = dom h \<and> clist h' head ys"
proof (cases x)
  case (Unlink i)
  then obtain as bs where "xs = as @ i # bs" "i \<notin> set as" "ys = as @ bs"
    using s by (metis (no_types, lifting) list_spec.simps(3) option.distinct(1) option.inject remove1_append remove1.simps(2) remove1_idem split_list_first)
  then show ?thesis using delete_clist [of h head as i bs] c Unlink by simp
next
  case (Swap new old)
  then have o: "old \<in> set xs" "new \<in> dom h" "new \<notin> set (head # xs)" using s by (auto split: if_splits)
  then obtain as bs where ab: "xs = as @ old # bs" "old \<notin> set as" by (metis split_list_first)
  have "takeWhile (\<lambda>x. x \<noteq> old) xs = as" "tl (dropWhile (\<lambda>x. x \<noteq> old) xs) = bs"
    using ab by (subst ab(1), subst takeWhile_append2 dropWhile_append2; auto)+
  then have "ys = as @ new # bs" using s Swap by (auto split: if_splits)
  then show ?thesis using replace_clist [of h head as old bs new] c o ab Swap by simp
next
  case (Prepend i)
  then have "i \<in> dom h" "i \<notin> set (head # xs)" "ys = i # xs" using s by (auto split: if_splits)
  then show ?thesis using add_clist [OF c, of i] Prepend by simp
next
  case (Append i)
  then have "i \<in> dom h" "i \<notin> set (head # xs)" "ys = xs @ [i]" using s by (auto split: if_splits)
  then show ?thesis using add_tail_clist [OF c, of i] Append by simp
qed

interpretation cl: list_impl "list_macro head" "SB_LIST_FOR_EACH head"
  "\<lambda>h xs. clist h head xs \<and> dom h = insert head D" "D - {head}" for head D
  by unfold_locales (use macro_refines in \<open>fastforce simp: for_each_clist insert_Diff_if\<close>)+


section \<open>Freeing a list\<close>

lemma release_clist: "clist h head xs \<Longrightarrow> x \<notin> set (head # xs) \<Longrightarrow> clist (h(x := None)) head xs"
proof -
  assume c: "clist h head xs" and x: "x \<notin> set (head # xs)"
  have "chain (h(x := None)) head xs head \<longleftrightarrow> chain h head xs head"
    by (rule chain_cong) (use x in auto)
  then show ?thesis using c by (simp add: clist_def)
qed

lemma free_value_step:
  assumes "clist h head (x # xs)"
  shows "\<exists>h'. free_value_item x h = Some h' \<and> clist h' head xs \<and> dom h' = dom h - {x}"
proof -
  obtain h1 where h1: "SB_LIST_DELETE x h = Some h1" "dom h1 = dom h" "clist h1 head xs"
    using delete_clist [of h head "[]" x xs] assms by auto
  moreover have "x \<in> dom h1" using h1(2) assms chain_dom [of h head "x # xs" head] by (auto simp: clist_def)
  moreover have "clist (h1(x := None)) head xs"
    using assms h1(3) by (intro release_clist) (auto simp: clist_def)
  ultimately show ?thesis by (auto simp: free_value_item_def release_def)
qed

lemma visit_free_values:
  assumes "clist h head xs" "get_next (hd (xs @ [head])) h = Some temp"
  shows "\<exists>h'. visit_safe free_value_item head (hd (xs @ [head])) temp h = Some h' \<and> clist h' head [] \<and> dom h' = dom h - set xs"
  using assms
proof (induction xs arbitrary: h temp)
  case Nil
  then show ?case by (simp add: visit_safe.simps)
next
  case (Cons x xs)
  obtain h1 where h1: "free_value_item x h = Some h1" "clist h1 head xs" "dom h1 = dom h - {x}"
    using free_value_step [OF Cons.prems(1)] by blast
  have t: "temp = hd (xs @ [head])"
    using Cons.prems first_link [of h x xs head] by (auto simp: clist_def)
  have "hd (xs @ [head]) \<in> dom h1"
    using h1(2) chain_dom [of h1 head xs head] by (cases xs) (auto simp: clist_def)
  then obtain n where n: "get_next (hd (xs @ [head])) h1 = Some n" by (auto simp: get_next_def)
  have "x \<noteq> head" using Cons.prems(1) by (auto simp: clist_def)
  then have "visit_safe free_value_item head x temp h = visit_safe free_value_item head (hd (xs @ [head])) n h1"
    using h1(1) n t by (subst visit_safe.simps) simp
  moreover have "dom h1 - set xs = dom h - set (x # xs)" using h1(3) by auto
  ultimately show ?case using Cons.IH [OF h1(2) n] by simp
qed

lemma free_values_clist:
  assumes "clist h head xs"
  shows "\<exists>h'. free_values_list head h = Some h' \<and> clist h' head [] \<and> dom h' = dom h - set xs"
proof -
  have "get_next head h = Some (hd (xs @ [head]))" using assms first_link [of h head xs head] by (simp add: clist_def)
  moreover have "hd (xs @ [head]) \<in> dom h" using assms chain_dom [of h head xs head] by (cases xs) (auto simp: clist_def)
  then obtain n where n: "get_next (hd (xs @ [head])) h = Some n" by (auto simp: get_next_def)
  ultimately show ?thesis
    using visit_free_values [OF assms n] by (simp add: free_values_list_def SB_LIST_FOR_EACH_SAFE_def)
qed

text \<open>Without unlinking, only the successor pointers matter.\<close>

primrec npath :: "lheap \<Rightarrow> ptr \<Rightarrow> ptr list \<Rightarrow> ptr \<Rightarrow> bool" where
  "npath h a [] b \<longleftrightarrow> a = b"
| "npath h a (x # xs) b \<longleftrightarrow> a = x \<and> (\<exists>n. get_next x h = Some n \<and> npath h n xs b)"

lemma npath_release: "x \<notin> set xs \<Longrightarrow> npath (h(x := None)) a xs b \<longleftrightarrow> npath h a xs b"
  by (induction xs arbitrary: a) auto

lemma chain_npath: "chain h a xs b \<Longrightarrow> npath h (hd (xs @ [b])) xs b"
proof (induction xs arbitrary: a)
  case (Cons x xs)
  then show ?case using first_link [of h x xs b] by auto
qed simp

lemma visit_free_options:
  assumes "npath h pos xs head" "distinct (head # xs)" "head \<in> dom h" "get_next pos h = Some temp"
  shows "\<exists>h'. visit_safe free_option_item head pos temp h = Some h' \<and> dom h' = dom h - set xs \<and>
    (\<forall>x. x \<notin> set xs \<longrightarrow> h' x = h x)"
  using assms
proof (induction xs arbitrary: h pos temp)
  case Nil
  then show ?case by (auto simp: visit_safe.simps)
next
  case (Cons x xs)
  let ?h = "h(x := None)"
  have x: "pos = x" "x \<noteq> head" "npath h temp xs head" "x \<in> dom h" using Cons.prems get_dom(1) [of x h temp] by auto
  have p: "npath ?h temp xs head" using x(3) Cons.prems(2) by (simp add: npath_release)
  have hd: "head \<in> dom ?h" using Cons.prems(3) x(2) by simp
  have "temp \<in> dom ?h" using p Cons.prems(3) x(2) get_dom(1) [of temp ?h] by (cases xs) auto
  then obtain n where n: "get_next temp ?h = Some n" by (auto simp: get_next_def split: if_splits)
  have "visit_safe free_option_item head pos temp h = visit_safe free_option_item head temp n ?h"
    using x n by (subst visit_safe.simps) (auto simp: free_option_item_def release_def)
  moreover obtain h' where "visit_safe free_option_item head temp n ?h = Some h'" "dom h' = dom ?h - set xs"
      "\<forall>y. y \<notin> set xs \<longrightarrow> h' y = ?h y"
    using Cons.IH [OF p _ hd n] Cons.prems(2) by (auto simp del: fun_upd_apply)
  ultimately show ?case by auto
qed

text \<open>
  Remark (safety).  Freeing the values of an option visits every value, frees it and leaves an empty list.
  Freeing the options themselves also frees every item, but leaves the head pointing at the first
  one: any later loop over the options reads freed memory.
\<close>

theorem free_lists:
  assumes "clist h head xs"
  shows "(\<exists>h'. free_values_list head h = Some h' \<and> clist h' head [] \<and> dom h' = dom h - set xs) \<and>
    (\<exists>h'. free_options_list head h = Some h' \<and> dom h' = dom h - set xs \<and>
      (SB_LIST_FOR_EACH head h' = (if xs = [] then Some [] else None)))"
proof
  have c: "chain h head xs head" "distinct (head # xs)" using assms by (simp_all add: clist_def)
  have hd: "head \<in> dom h" "get_next head h = Some (hd (xs @ [head]))" using chain_dom [OF c(1)] first_link [OF c(1)] by auto
  have "hd (xs @ [head]) \<in> dom h" using chain_dom [OF c(1)] by (cases xs) auto
  then obtain n where n: "get_next (hd (xs @ [head])) h = Some n" by (auto simp: get_next_def)
  obtain h' where h': "free_options_list head h = Some h'" "dom h' = dom h - set xs" "\<forall>x. x \<notin> set xs \<longrightarrow> h' x = h x"
    using visit_free_options [OF chain_npath [OF c(1)] c(2) hd(1) n] hd n
    by (auto simp: free_options_list_def SB_LIST_FOR_EACH_SAFE_def)
  have nx: "get_next head h' = Some (hd (xs @ [head]))" using h'(3) hd c(2) by (simp add: get_next_def)
  have "SB_LIST_FOR_EACH head h' = (if xs = [] then Some [] else None)"
  proof (cases xs)
    case Nil
    then show ?thesis using nx by (simp add: SB_LIST_FOR_EACH_def visit.simps)
  next
    case (Cons x ys)
    then have "get_next x h' = None" "x \<noteq> head" using h'(2) c(2) by (auto simp: get_next_def)
    then show ?thesis using nx Cons by (simp add: SB_LIST_FOR_EACH_def visit.simps)
  qed
  then show "\<exists>h'. free_options_list head h = Some h' \<and> dom h' = dom h - set xs \<and>
      (SB_LIST_FOR_EACH head h' = (if xs = [] then Some [] else None))" using h' by blast
qed (rule free_values_clist [OF assms])

text \<open>Remark.  The test for the first item of a list answers the opposite.\<close>

lemma item_first_inverted:
  assumes "clist h head (x # xs)" "y \<in> set xs"
  shows "SB_LIST_ITEM_FIRST x head h = Some False" "SB_LIST_ITEM_FIRST y head h = Some True"
proof -
  show "SB_LIST_ITEM_FIRST x head h = Some False"
    using assms(1) by (auto simp: clist_def link_def SB_LIST_ITEM_FIRST_def)
  obtain as bs where "xs = as @ y # bs" using assms(2) by (metis split_list)
  then have "clist h head ((x # as) @ y # bs)" using assms(1) by simp
  from neighbours(2) [OF this] have "get_prev y h = Some (last (x # as))" by simp
  moreover have "last (x # as) \<noteq> head" using assms(1) \<open>xs = as @ y # bs\<close> by (cases as rule: rev_cases) (auto simp: clist_def)
  ultimately show "SB_LIST_ITEM_FIRST y head h = Some True" by (simp add: SB_LIST_ITEM_FIRST_def)
qed

section \<open>Witnesses\<close>

definition demoL :: lheap where
  "demoL = [0 \<mapsto> \<lparr>next_p = 0, prev_p = 0\<rparr>, 1 \<mapsto> \<lparr>next_p = 7, prev_p = 7\<rparr>, 2 \<mapsto> \<lparr>next_p = 7, prev_p = 7\<rparr>,
     3 \<mapsto> \<lparr>next_p = 7, prev_p = 7\<rparr>]"

lemma demoL_clist: "clist demoL 0 []" "dom demoL = {0, 1, 2, 3}"
  by (auto simp: clist_def link_def demoL_def get_next_def get_prev_def)


theorem free_lists_witness:
  "\<exists>h h'. run_steps (list_macro 0) [Append 1, Append 2] demoL = Some h \<and> free_options_list 0 h = Some h' \<and>
     SB_LIST_FOR_EACH 0 h' = None"
proof -
  have "run_steps (list_spec (dom demoL - {0})) [Append 1, Append 2] [] = Some [1, 2]"
    by (simp add: demoL_clist)
  then obtain h where h: "run_steps (list_macro 0) [Append 1, Append 2] demoL = Some h" "clist h 0 [1, 2]"
    using cl.run_repr [of demoL 0 "[]" "dom demoL" "[Append 1, Append 2]" "[1, 2]"] demoL_clist by (auto simp: insert_absorb)
  from free_lists [OF h(2)] h(1) show ?thesis by auto
qed

end
