(* ===== verification/SbOptions.thy ===== *)
theory SbOptions
  imports SbList
begin

text \<open>
  The option library of the benchmark (\<^verbatim>\<open>sb_options.c\<close>): registering, setting, copying and removing
  options, the conversions of their values, and reading and writing of configuration files.
  The lists of options and values are the circular lists of \<^verbatim>\<open>sb_list.h\<close>, which refine the lists used
  here; an option is named by its position.  Strings are C strings without their terminating zero.
  The files are a parameter, allocations succeed.
\<close>

section \<open>Data\<close>

datatype sb_arg_type =
  TYPE_NULL | TYPE_BOOL | TYPE_INT | TYPE_SIZE | TYPE_DOUBLE | TYPE_STRING | TYPE_LIST | TYPE_FILE | TYPE_MAX

type_synonym validator = "string \<Rightarrow> string option \<Rightarrow> bool"

record value_t =
  v_data :: string
  v_ignore :: bool

record option_t =
  o_name :: string
  o_type :: sb_arg_type
  o_values :: "value_t list"
  o_ignore :: bool
  o_validate :: "validator option"

record sb_arg_t =
  a_name :: string
  a_desc :: string
  a_value :: "string option"
  a_type :: sb_arg_type
  a_validate :: "validator option"

type_synonym files = "string \<Rightarrow> string option"

definition opt_formats :: "sb_arg_type \<Rightarrow> string option" where
  "opt_formats t =
     (case t of TYPE_NULL \<Rightarrow> None | TYPE_BOOL \<Rightarrow> Some ''[=on|off]'' | TYPE_INT \<Rightarrow> Some ''=N'' | TYPE_SIZE \<Rightarrow> Some ''=SIZE''
      | TYPE_DOUBLE \<Rightarrow> Some ''=N'' | TYPE_STRING \<Rightarrow> Some ''=STRING'' | TYPE_LIST \<Rightarrow> Some ''=[LIST,...]''
      | TYPE_FILE \<Rightarrow> Some ''=FILENAME'' | TYPE_MAX \<Rightarrow> Some ''=UNKNOWN'')"

definition sizemods :: string where
  "sizemods = ''KMGT''"

definition new_value :: "string \<Rightarrow> value_t" where
  "new_value s = \<lparr>v_data = s, v_ignore = False\<rparr>"

definition new_option :: "string \<Rightarrow> option_t" where
  "new_option nm = \<lparr>o_name = nm, o_type = TYPE_NULL, o_values = [], o_ignore = False, o_validate = None\<rparr>"

section \<open>Names\<close>

primrec convert_dashes :: "string \<Rightarrow> string" where
  "convert_dashes [] = []"
| "convert_dashes (c # s) = (if c = CHR ''-'' then CHR ''_'' else c) # convert_dashes s"

definition dash :: "char \<Rightarrow> bool" where
  "dash c \<longleftrightarrow> c = CHR ''-'' \<or> c = CHR ''_''"

text \<open>The character at the position, zero at the end of the string.\<close>

definition at :: "string \<Rightarrow> char" where
  "at s = (case s of [] \<Rightarrow> CHR 0x00 | c # _ \<Rightarrow> c)"

fun opt_name_cmp :: "string \<Rightarrow> string \<Rightarrow> int" where
  "opt_name_cmp [] s2 = 0 - of_char (at s2)"
| "opt_name_cmp (c # s1) s2 =
     (if c = at s2 then opt_name_cmp s1 (tl s2)
      else if \<not> dash c \<or> \<not> dash (at s2) then of_char c - of_char (at s2)
      else opt_name_cmp s1 (tl s2))"

section \<open>Lists of options and values\<close>

fun find_index :: "('a \<Rightarrow> bool) \<Rightarrow> 'a list \<Rightarrow> nat option" where
  "find_index P [] = None"
| "find_index P (x # xs) = (if P x then Some 0 else map_option Suc (find_index P xs))"

definition find_option :: "option_t list \<Rightarrow> string \<Rightarrow> nat option" where
  "find_option opts nm = find_index (\<lambda>x. opt_name_cmp (o_name x) nm = 0) opts"

definition add_option :: "option_t list \<Rightarrow> string \<Rightarrow> nat \<times> option_t list" where
  "add_option opts nm =
     (case find_option opts nm of
        Some i \<Rightarrow> (i, opts)
      | None \<Rightarrow> (length opts, opts @ [new_option (convert_dashes nm)]))"

definition sb_options_init :: "option_t list" where
  "sb_options_init = []"

definition sb_find_option :: "option_t list \<Rightarrow> string \<Rightarrow> nat option" where
  "sb_find_option opts name = find_option opts name"

definition remove_option :: "option_t list \<Rightarrow> string \<Rightarrow> nat \<times> option_t list" where
  "remove_option opts nm =
     (case find_option opts nm of
        None \<Rightarrow> (1, opts)
      | Some i \<Rightarrow> (0, take i opts @ drop (Suc i) opts))"

definition add_value :: "value_t list \<Rightarrow> string \<Rightarrow> value_t list" where
  "add_value vs s = vs @ [new_value s]"

definition find_value :: "value_t list \<Rightarrow> string \<Rightarrow> nat option" where
  "find_value vs s = find_index (\<lambda>v. v_data v = s) vs"

definition remove_value :: "value_t list \<Rightarrow> string \<Rightarrow> nat \<times> value_t list" where
  "remove_value vs s =
     (case find_value vs s of
        None \<Rightarrow> (1, vs)
      | Some i \<Rightarrow> (0, take i vs @ drop (Suc i) vs))"

definition put_values :: "nat \<Rightarrow> value_t list \<Rightarrow> option_t list \<Rightarrow> option_t list" where
  "put_values i vs opts = opts[i := (opts ! i)\<lparr>o_values := vs\<rparr>]"

section \<open>Configuration files\<close>

definition isspace :: "char \<Rightarrow> bool" where
  "isspace c \<longleftrightarrow> c = CHR '' '' \<or> c = CHR 0x09 \<or> c = CHR 0x0A \<or> c = CHR 0x0B \<or> c = CHR 0x0C \<or> c = CHR 0x0D"

text \<open>\<open>fgets\<close> with room for \<open>n\<close> characters: up to the end of the line, which it includes.\<close>

fun fgets :: "nat \<Rightarrow> string \<Rightarrow> string \<times> string" where
  "fgets 0 s = ([], s)"
| "fgets (Suc n) [] = ([], [])"
| "fgets (Suc n) (c # s) =
     (if c = CHR 0x0A then ([c], s) else let (l, rest) = fgets n s in (c # l, rest))"

lemma fgets_shorter: "c \<noteq> [] \<Longrightarrow> length (snd (fgets (Suc n) c)) < length c"
proof -
  have le: "length (snd (fgets m s)) \<le> length s" for m s
    by (induction m s rule: fgets.induct) (auto simp: case_prod_unfold Let_def)
  show "c \<noteq> [] \<Longrightarrow> ?thesis"
    by (cases c) (auto simp: case_prod_unfold Let_def le_imp_less_Suc le)
qed

definition unquoted :: "char \<Rightarrow> bool" where
  "unquoted c \<longleftrightarrow> c \<noteq> CHR '','' \<and> \<not> isspace c"

lemma dropWhile_length: "length (dropWhile P xs) \<le> length xs"
  by (induction xs) auto

text \<open>
  The values of one line.  The result says whether a quote was left open; the values read until then
  have been added.
\<close>

function parse_values :: "string \<Rightarrow> value_t list \<Rightarrow> bool \<times> value_t list" where
  "parse_values tmp vs =
     (case tmp of
        [] \<Rightarrow> (True, vs)
      | c # rest \<Rightarrow>
          if isspace c then parse_values rest vs
          else if c = CHR ''#'' then (True, vs)
          else if c = CHR 0x27 \<or> c = CHR 0x22
          then let word = takeWhile (\<lambda>x. x \<noteq> c) rest; after = dropWhile (\<lambda>x. x \<noteq> c) rest
               in if after = [] then (False, vs)
                  else parse_values (tl (dropWhile (\<lambda>x. x \<noteq> CHR '','') (tl after))) (add_value vs word)
          else let word = takeWhile unquoted tmp
               in parse_values (tl (dropWhile unquoted tmp)) (add_value vs word))"
  by pat_completeness auto

termination
proof (relation "measure (\<lambda>(tmp, vs). length tmp)")
  fix tmp :: string and c rest and vs :: "value_t list" and word after
  assume "tmp = c # rest" "after = dropWhile (\<lambda>x. x \<noteq> c) rest"
  then have "length after \<le> length rest" by (simp add: dropWhile_length)
  then have "length (tl (dropWhile (\<lambda>x. x \<noteq> CHR '','') (tl after))) \<le> length rest"
    using dropWhile_length [of "\<lambda>x. x \<noteq> CHR '',''" "tl after"] by simp
  then show "((tl (dropWhile (\<lambda>x. x \<noteq> CHR '','') (tl after)), add_value vs word), (tmp, vs)) \<in> measure (\<lambda>(tmp, vs). length tmp)"
    using \<open>tmp = c # rest\<close> by simp
next
  fix tmp :: string and c rest and vs :: "value_t list" and word
  assume t: "tmp = c # rest"
  show "((tl (dropWhile unquoted tmp), add_value vs word), (tmp, vs)) \<in> measure (\<lambda>(tmp, vs). length tmp)"
    using dropWhile_length [of unquoted tmp] t by simp
qed auto

declare parse_values.simps [simp del]

definition config_line :: "string \<Rightarrow> option_t list \<Rightarrow> bool \<times> option_t list" where
  "config_line buf opts =
     (let key = takeWhile (\<lambda>c. c \<noteq> CHR ''='') buf; rest = dropWhile (\<lambda>c. c \<noteq> CHR ''='') buf
      in if rest = [] then (True, opts)
         else let (i, opts1) = add_option opts key;
                  (ok, vs) = parse_values (tl rest) []
              in (ok, put_values i vs opts1))"

function read_config :: "string \<Rightarrow> option_t list \<Rightarrow> bool \<times> option_t list" where
  "read_config content opts =
     (if content = [] then (True, opts)
      else let (buf, rest) = fgets 255 content; (ok, opts1) = config_line buf opts
           in if ok then read_config rest opts1 else (False, opts1))"
  by pat_completeness auto

termination
proof (relation "measure (\<lambda>(content, opts). length content)")
  fix content :: string and opts :: "option_t list" and x buf rest xa ok opts1
  assume "content \<noteq> []" "x = fgets 255 content" "(buf, rest) = x"
  then have "rest = snd (fgets (Suc 254) content)" by (metis Suc_numeral semiring_norm(2,5,8) snd_conv)
  then show "((rest, opts1), (content, opts)) \<in> measure (\<lambda>(content, opts). length content)"
    using fgets_shorter [OF \<open>content \<noteq> []\<close>, of 254] by simp
qed auto

declare read_config.simps [simp del]

text \<open>The values are written with a comma and a blank after all but the last.\<close>

fun write_values :: "value_t list \<Rightarrow> string" where
  "write_values [] = []"
| "write_values [v] = (if v_ignore v then [] else v_data v)"
| "write_values (v # w # vs) = (if v_ignore v then [] else v_data v) @ '', '' @ write_values (w # vs)"

fun write_config :: "option_t list \<Rightarrow> string \<times> option_t list" where
  "write_config [] = ([], [])"
| "write_config (x # opts) =
     (let (s, opts') = write_config opts
      in if o_ignore x then (s, x # opts')
         else (o_name x @ '' = '' @ write_values (o_values x) @ [CHR 0x0A] @ s, x\<lparr>o_ignore := True\<rparr> # opts'))"

definition read_config_file :: "files \<Rightarrow> string \<Rightarrow> option_t list \<Rightarrow> option_t list" where
  "read_config_file fs fname opts =
     (case fs fname of None \<Rightarrow> opts | Some content \<Rightarrow> snd (read_config content opts))"

section \<open>Setting\<close>

text \<open>\<open>strtok\<close> with commas: empty pieces are skipped.\<close>

function comma_tokens :: "string \<Rightarrow> string list" where
  "comma_tokens s =
     (let r = dropWhile (\<lambda>c. c = CHR '','') s
      in if r = [] then []
         else takeWhile (\<lambda>c. c \<noteq> CHR '','') r # comma_tokens (dropWhile (\<lambda>c. c \<noteq> CHR '','') r))"
  by pat_completeness auto

termination
proof (relation "measure length")
  fix s r :: string assume eq: "r = dropWhile (\<lambda>c. c = CHR '','') s" and "r \<noteq> []"
  then obtain c rest where r: "r = c # rest" "c \<noteq> CHR '',''"
    using hd_dropWhile [of "\<lambda>c. c = CHR '',''" s] by (metis list.collapse)
  then have "length (dropWhile (\<lambda>c. c \<noteq> CHR '','') r) < length r"
    using dropWhile_length [of "\<lambda>c. c \<noteq> CHR '',''" rest] by simp
  also have "length r \<le> length s" unfolding eq by (rule dropWhile_length)
  finally show "(dropWhile (\<lambda>c. c \<noteq> CHR '','') r, s) \<in> measure length" by simp
qed simp

declare comma_tokens.simps [simp del]

text \<open>A null result means that the value was rejected; the values of the option are gone then, too.\<close>

definition store_value :: "files \<Rightarrow> nat \<Rightarrow> string option \<Rightarrow> sb_arg_type \<Rightarrow> option_t list \<Rightarrow> nat option \<times> option_t list" where
  "store_value fs i value ty opts =
     (let put = (\<lambda>ss. put_values i (foldl add_value (o_values (opts ! i)) ss) opts)
      in if ty \<noteq> TYPE_BOOL \<and> (value = None \<or> value = Some []) then (Some i, opts)
         else case ty of
           TYPE_BOOL \<Rightarrow>
             if value = None \<or> value = Some ''on'' \<or> value = Some ''true'' \<or> value = Some ''1'' then (Some i, put [''on''])
             else if value \<noteq> Some ''off'' \<and> value \<noteq> Some ''false'' \<and> value \<noteq> Some ''0'' then (None, opts)
             else (Some i, opts)
         | TYPE_INT \<Rightarrow> (Some i, put [the value])
         | TYPE_SIZE \<Rightarrow> (Some i, put [the value])
         | TYPE_DOUBLE \<Rightarrow> (Some i, put [the value])
         | TYPE_STRING \<Rightarrow> (Some i, put [the value])
         | TYPE_LIST \<Rightarrow> (Some i, put (comma_tokens (the value)))
         | TYPE_FILE \<Rightarrow> (Some i, read_config_file fs (the value) opts)
         | _ \<Rightarrow> (None, opts))"

definition set_option :: "files \<Rightarrow> string \<Rightarrow> string option \<Rightarrow> sb_arg_type \<Rightarrow> option_t list \<Rightarrow> nat option \<times> option_t list" where
  "set_option fs nm value ty opts =
     (let (i, opts1) = add_option opts nm;
          opts2 = opts1[i := (opts1 ! i)\<lparr>o_values := [], o_type := ty\<rparr>]
      in case o_validate (opts2 ! i) of
           None \<Rightarrow> store_value fs i value ty opts2
         | Some f \<Rightarrow> if \<not> f nm value then (None, opts2) else store_value fs i value ty opts2)"

fun register_args :: "files \<Rightarrow> validator option \<Rightarrow> sb_arg_t list \<Rightarrow> option_t list \<Rightarrow> nat \<times> option_t list" where
  "register_args fs v [] opts = (0, opts)"
| "register_args fs v (x # xs) opts =
     (case set_option fs (a_name x) (a_value x) (a_type x) opts of
        (None, opts1) \<Rightarrow> (1, opts1)
      | (Some i, opts1) \<Rightarrow> register_args fs v xs (opts1[i := (opts1 ! i)\<lparr>o_validate := v\<rparr>]))"

text \<open>\<open>set->validate\<close> is the validator of the first entry.\<close>

definition sb_register_arg_set :: "files \<Rightarrow> sb_arg_t list \<Rightarrow> option_t list \<Rightarrow> nat \<times> option_t list" where
  "sb_register_arg_set fs xs opts = register_args fs (if xs = [] then None else a_validate (hd xs)) xs opts"

section \<open>Getting\<close>

definition sb_opt_to_flag :: "option_t \<Rightarrow> bool" where
  "sb_opt_to_flag x \<longleftrightarrow> o_values x \<noteq> []"

definition sb_opt_to_string :: "option_t \<Rightarrow> string option" where
  "sb_opt_to_string x = (case o_values x of [] \<Rightarrow> None | v # _ \<Rightarrow> Some (v_data v))"

definition isdigit :: "char \<Rightarrow> bool" where
  "isdigit c \<longleftrightarrow> of_char (CHR ''0'') \<le> (of_char c :: nat) \<and> of_char c \<le> (of_char (CHR ''9'') :: nat)"

definition digit_value :: "char \<Rightarrow> nat" where
  "digit_value c = of_char c - of_char (CHR ''0'')"

definition dec_value :: "string \<Rightarrow> nat" where
  "dec_value s = foldl (\<lambda>n c. 10 * n + digit_value c) 0 s"

text \<open>\<open>strtol\<close> in base 10: the value, cut to 64 bits, and the rest of the string.\<close>

definition strtol10 :: "string \<Rightarrow> int \<times> string" where
  "strtol10 s =
     (let s1 = dropWhile isspace s;
          neg = (at s1 = CHR ''-'');
          s2 = (if at s1 = CHR ''-'' \<or> at s1 = CHR ''+'' then tl s1 else s1);
          ds = takeWhile isdigit s2;
          v = int (dec_value ds)
      in if ds = [] then (0, s)
         else (max (- (2 ^ 63)) (min (2 ^ 63 - 1) (if neg then - v else v)), dropWhile isdigit s2))"

text \<open>An invalid number ends the process.\<close>

definition sb_opt_to_int :: "option_t \<Rightarrow> int option" where
  "sb_opt_to_int x =
     (case o_values x of [] \<Rightarrow> Some 0
      | v # _ \<Rightarrow> let (res, rest) = strtol10 (v_data v)
                in if rest \<noteq> [] \<or> res > 2 ^ 31 - 1 \<or> res < - (2 ^ 31) then None else Some res)"

text \<open>The scanning loop: the number so far, whether a digit was seen, the modifier when there is one.\<close>

fun scan_size :: "u64 \<Rightarrow> bool \<Rightarrow> string \<Rightarrow> u64 \<times> char option" where
  "scan_size res seen [] = (res, None)"
| "scan_size res seen (c # s) =
     (if \<not> isdigit c then (res, if seen then Some c else None)
      else scan_size (res * 10 + of_char c - of_char (CHR ''0'')) True s)"

definition toupper :: "char \<Rightarrow> char" where
  "toupper c = (if of_char (CHR ''a'') \<le> (of_char c :: nat) \<and> of_char c \<le> (of_char (CHR ''z'') :: nat)
     then char_of ((of_char c :: nat) - 32) else c)"

definition sb_opt_to_size :: "option_t \<Rightarrow> u64" where
  "sb_opt_to_size x =
     (case o_values x of [] \<Rightarrow> 0
      | v # _ \<Rightarrow>
          let (res, mult) = scan_size 0 False (v_data v)
          in case mult of None \<Rightarrow> res
             | Some c \<Rightarrow> (case find_index (\<lambda>m. toupper c = m) sizemods of
                            None \<Rightarrow> 0
                          | Some n \<Rightarrow> res * 1024 ^ (n + 1)))"

definition sb_opt_to_double :: "(string \<Rightarrow> 'd) \<Rightarrow> 'd \<Rightarrow> option_t \<Rightarrow> 'd" where
  "sb_opt_to_double strtod zero x = foldl (\<lambda>_ v. strtod (v_data v)) zero (o_values x)"

definition get_with :: "(option_t \<Rightarrow> 'a) \<Rightarrow> 'a \<Rightarrow> option_t list \<Rightarrow> string \<Rightarrow> 'a" where
  "get_with f dflt opts nm = (case find_option opts nm of None \<Rightarrow> dflt | Some i \<Rightarrow> f (opts ! i))"

definition sb_get_value_flag :: "option_t list \<Rightarrow> string \<Rightarrow> bool" where
  "sb_get_value_flag = get_with sb_opt_to_flag False"

definition sb_get_value_int :: "option_t list \<Rightarrow> string \<Rightarrow> int option" where
  "sb_get_value_int = get_with sb_opt_to_int (Some 0)"

definition sb_get_value_size :: "option_t list \<Rightarrow> string \<Rightarrow> u64" where
  "sb_get_value_size = get_with sb_opt_to_size 0"

definition sb_get_value_double :: "(string \<Rightarrow> 'd) \<Rightarrow> 'd \<Rightarrow> option_t list \<Rightarrow> string \<Rightarrow> 'd" where
  "sb_get_value_double strtod zero = get_with (sb_opt_to_double strtod zero) zero"

definition sb_get_value_string :: "option_t list \<Rightarrow> string \<Rightarrow> string option" where
  "sb_get_value_string = get_with sb_opt_to_string None"

definition sb_get_value_list :: "option_t list \<Rightarrow> string \<Rightarrow> value_t list option" where
  "sb_get_value_list = get_with (\<lambda>x. Some (o_values x)) None"

text \<open>
  Copying an option passes the string of the source to \<open>set_option\<close>, which first frees the values of the
  target: when both are the same option the string is gone.
\<close>

definition sb_opt_copy :: "files \<Rightarrow> string \<Rightarrow> string \<Rightarrow> option_t list \<Rightarrow> (bool \<times> option_t list) option" where
  "sb_opt_copy fs to from opts =
     (case find_option opts from of
        None \<Rightarrow> Some (False, opts)
      | Some i \<Rightarrow>
          if find_option opts to = Some i \<and> o_values (opts ! i) \<noteq> [] then None
          else Some (True, snd (set_option fs to (sb_opt_to_string (opts ! i)) (o_type (opts ! i)) opts)))"

text \<open>The modifier printed for a value: the position reached, where the last character is the terminating zero.\<close>

fun size_steps :: "nat \<Rightarrow> nat \<Rightarrow> nat \<Rightarrow> nat" where
  "size_steps value i 0 = i"
| "size_steps value i (Suc n) = (if 1024 ^ (i + 1) \<le> value then size_steps value (i + 1) n else i)"

definition print_size_modifier :: "nat \<Rightarrow> char option" where
  "print_size_modifier value =
     (let i = size_steps value 0 5
      in if 0 < i then Some ((sizemods @ [CHR 0x00]) ! (i - 1)) else None)"

text \<open>The help text: names padded to a column.  The format of the type \<open>TYPE_NULL\<close> is a null pointer.\<close>

definition arg_format :: "sb_arg_t \<Rightarrow> string option" where
  "arg_format x = opt_formats (a_type x)"

fun max_len :: "sb_arg_t list \<Rightarrow> nat \<Rightarrow> nat option" where
  "max_len [] m = Some m"
| "max_len (x # xs) m =
     (case arg_format x of None \<Rightarrow> None | Some f \<Rightarrow> max_len xs (max m (length (a_name x) + length f)))"

definition option_line :: "nat \<Rightarrow> sb_arg_t \<Rightarrow> string option" where
  "option_line m x =
     map_option (\<lambda>f. ''  --'' @ a_name x @ f @ replicate (m - length (a_name x) + 1 - length f) (CHR '' '') @ a_desc x @
       (case a_value x of None \<Rightarrow> [] | Some v \<Rightarrow> '' ['' @ v @ '']'')) (arg_format x)"

fun option_lines :: "nat \<Rightarrow> sb_arg_t list \<Rightarrow> string list option" where
  "option_lines m [] = Some []"
| "option_lines m (x # xs) = do { l \<leftarrow> option_line m x; ls \<leftarrow> option_lines m xs; Some (l # ls) }"

definition sb_print_options :: "sb_arg_t list \<Rightarrow> string list option" where
  "sb_print_options xs = Option.bind (max_len xs 0) (\<lambda>m. option_lines m xs)"

section \<open>Names up to dashes\<close>

definition proper :: "string \<Rightarrow> bool" where
  "proper s \<longleftrightarrow> CHR 0x00 \<notin> set s"

lemma of_char_int_eq: "(of_char c :: int) - of_char d = 0 \<longleftrightarrow> c = d"
  by (simp add: of_char_eq_iff)

lemma convert_eq_map: "convert_dashes s = map (\<lambda>c. if c = CHR ''-'' then CHR ''_'' else c) s"
  by (induction s) auto

lemma convert_idem [simp]: "convert_dashes (convert_dashes s) = convert_dashes s"
  by (simp add: convert_eq_map)

lemma proper_convert [simp]: "proper (convert_dashes s) \<longleftrightarrow> proper s"
  by (auto simp: proper_def convert_eq_map)

text \<open>The comparison of names is equality up to dashes and underscores.\<close>

lemma opt_name_cmp_0:
  "proper s \<Longrightarrow> proper t \<Longrightarrow> opt_name_cmp s t = 0 \<longleftrightarrow> convert_dashes s = convert_dashes t"
proof (induction s arbitrary: t)
  case Nil
  then show ?case using of_char_int_eq [of "CHR 0x00" "at t"] by (cases t) (auto simp: at_def proper_def)
next
  case (Cons c s)
  have c: "proper s" "c \<noteq> CHR 0x00" using Cons.prems by (auto simp: proper_def)
  show ?case
  proof (cases t)
    case Nil
    then show ?thesis using c of_char_int_eq [of c "CHR 0x00"] by (auto simp: at_def dash_def)
  next
    case (Cons d u)
    then have "proper u" using \<open>proper t\<close> by (simp add: proper_def)
    then show ?thesis using Cons.IH [of u] c Cons of_char_int_eq [of c d] by (auto simp: at_def dash_def)
  qed
qed

section \<open>Well-formed option lists\<close>

text \<open>No two options have the same name up to dashes, and names are stored with underscores.\<close>

definition wf_opts :: "option_t list \<Rightarrow> bool" where
  "wf_opts opts \<longleftrightarrow> distinct (map o_name opts) \<and> (\<forall>n \<in> set (map o_name opts). proper n \<and> convert_dashes n = n)"

lemma find_index_Some: "find_index P xs = Some i \<Longrightarrow> i < length xs \<and> P (xs ! i) \<and> (\<forall>j < i. \<not> P (xs ! j))"
proof (induction xs arbitrary: i)
  case (Cons x xs)
  then show ?case by (cases i) (auto simp: nth_Cons split: if_splits nat.splits)
qed simp

lemma find_index_None: "find_index P xs = None \<longleftrightarrow> (\<forall>x \<in> set xs. \<not> P x)"
  by (induction xs) auto

lemma find_index_append:
  "find_index P (xs @ ys) = (case find_index P xs of None \<Rightarrow> map_option (\<lambda>i. length xs + i) (find_index P ys) | Some i \<Rightarrow> Some i)"
  by (induction xs; cases "find_index P ys") (auto split: option.splits)

lemma find_index_map: "find_index (\<lambda>x. Q (f x)) xs = find_index Q (map f xs)"
  by (induction xs) auto

lemma find_option_wf:
  assumes "wf_opts opts" "proper nm"
  shows "find_option opts nm = find_index (\<lambda>x. o_name x = convert_dashes nm) opts"
  unfolding find_option_def using assms
proof (induction opts)
  case (Cons x opts)
  then have "opt_name_cmp (o_name x) nm = 0 \<longleftrightarrow> o_name x = convert_dashes nm" "wf_opts opts"
    using opt_name_cmp_0 [of "o_name x" nm] by (simp_all add: wf_opts_def)
  then show ?case using Cons.IH Cons.prems(2) by simp
qed simp

text \<open>What matters of a list of options for finding them is the names.\<close>

lemma find_option_names: "map o_name xs = map o_name ys \<Longrightarrow> find_option xs nm = find_option ys nm"
  using find_index_map [of "\<lambda>n. opt_name_cmp n nm = 0" o_name xs] find_index_map [of "\<lambda>n. opt_name_cmp n nm = 0" o_name ys]
  by (simp add: find_option_def)

lemma wf_names: "map o_name xs = map o_name ys \<Longrightarrow> wf_opts xs \<longleftrightarrow> wf_opts ys"
  by (simp only: wf_opts_def)

lemma names_update: "o_name x = o_name (xs ! i) \<Longrightarrow> map o_name (xs[i := x]) = map o_name xs"
  by (metis list_update_id map_update)

lemma add_option_result:
  assumes "wf_opts opts" "proper nm" "add_option opts nm = (i, opts1)"
  shows "wf_opts opts1" "i < length opts1" "o_name (opts1 ! i) = convert_dashes nm" "find_option opts1 nm = Some i"
    "opts1 = opts \<or> opts1 = opts @ [new_option (convert_dashes nm)] \<and> i = length opts \<and> find_option opts nm = None"
proof -
  show *: "opts1 = opts \<or> opts1 = opts @ [new_option (convert_dashes nm)] \<and> i = length opts \<and> find_option opts nm = None"
    using assms(3) by (auto simp: add_option_def split: option.splits)
  show wf: "wf_opts opts1"
    using * assms(1,2) find_option_wf [OF assms(1,2)]
    by (auto simp: wf_opts_def new_option_def find_index_None) blast
  show f: "find_option opts1 nm = Some i"
    using assms(3) find_option_wf [OF wf assms(2)] find_option_wf [OF assms(1,2)]
    by (auto simp: add_option_def find_index_append new_option_def split: option.splits)
  then show "i < length opts1" "o_name (opts1 ! i) = convert_dashes nm"
    using find_option_wf [OF wf assms(2)] find_index_Some by fastforce+
qed

text \<open>Finding and changing the values of an option.\<close>

lemma put_values_names [simp]: "map o_name (put_values i vs opts) = map o_name opts"
  unfolding put_values_def by (rule names_update) simp

lemma set_upd_names [simp]: "map o_name (opts[i := (opts ! i)\<lparr>o_values := vs, o_type := ty\<rparr>]) = map o_name opts"
  "map o_name (opts[i := (opts ! i)\<lparr>o_validate := v\<rparr>]) = map o_name opts"
  by (simp_all add: names_update)

lemma length_put_values [simp]: "length (put_values i vs opts) = length opts"
  by (simp add: put_values_def)

lemma config_line_wf:
  assumes "wf_opts opts" "proper buf"
  shows "wf_opts (snd (config_line buf opts))"
proof -
  let ?key = "takeWhile (\<lambda>c. c \<noteq> CHR ''='') buf"
  have "proper ?key" using assms(2) by (auto simp: proper_def dest: set_takeWhileD)
  moreover obtain i o1 where a: "add_option opts ?key = (i, o1)" by fastforce
  ultimately have "wf_opts o1" using add_option_result(1) [OF assms(1)] by blast
  then have "wf_opts (put_values i vs o1)" for vs using wf_names [of "put_values i vs o1" o1] by simp
  then show ?thesis using assms(1) a by (simp add: config_line_def Let_def case_prod_unfold)
qed

lemma fgets_append: "fst (fgets n s) @ snd (fgets n s) = s"
  by (induction n s rule: fgets.induct) (auto simp: case_prod_unfold Let_def)

lemma read_config_wf: "wf_opts opts \<Longrightarrow> proper content \<Longrightarrow> wf_opts (snd (read_config content opts))"
proof (induction content opts rule: read_config.induct)
  case (1 content opts)
  obtain buf rest where f: "fgets 255 content = (buf, rest)" by fastforce
  obtain ok o1 where c: "config_line buf opts = (ok, o1)" by fastforce
  have "content = buf @ rest" using fgets_append [of 255 content] f by simp
  then have p: "proper buf" "proper rest" using 1(3) by (auto simp: proper_def)
  have "wf_opts o1" using config_line_wf [OF 1(2) p(1)] c by simp
  then show ?case using 1 p f c by (subst read_config.simps) simp
qed

lemma set_option_wf:
  assumes "wf_opts opts" "proper nm" "\<forall>f s. fs f = Some s \<longrightarrow> proper s"
  shows "wf_opts (snd (set_option fs nm value ty opts))"
proof -
  obtain i o1 where a: "add_option opts nm = (i, o1)" by fastforce
  define o2 where "o2 = o1[i := (o1 ! i)\<lparr>o_values := [], o_type := ty\<rparr>]"
  have "wf_opts o1" using add_option_result(1) [OF assms(1,2) a] .
  then have o2: "wf_opts o2" using wf_names [of o2 o1] by (simp add: o2_def)
  then have p: "wf_opts (put_values i vs o2)" for vs using wf_names [of "put_values i vs o2" o2] by simp
  have "wf_opts (read_config_file fs f o2)" for f
    using o2 assms(3) read_config_wf [OF o2] by (auto simp: read_config_file_def split: option.splits)
  then have "wf_opts (snd (store_value fs i value ty o2))"
    using o2 p by (auto simp: store_value_def Let_def split: sb_arg_type.splits)
  then show ?thesis
    using o2 unfolding set_option_def a by (simp add: Let_def o2_def [symmetric] split: option.splits)
qed

text \<open>The values that a setting of a type leaves behind.\<close>

fun stored :: "sb_arg_type \<Rightarrow> string option \<Rightarrow> string list" where
  "stored TYPE_BOOL value = (if value \<in> {None, Some ''on'', Some ''true'', Some ''1''} then [''on''] else [])"
| "stored TYPE_LIST (Some s) = comma_tokens s"
| "stored TYPE_LIST None = []"
| "stored ty value = (if value \<in> {None, Some []} then [] else [the value])"

lemma comma_tokens_Nil: "comma_tokens [] = []"
  by (subst comma_tokens.simps) simp

lemma foldl_add_value: "foldl add_value vs ss = vs @ map new_value ss"
  by (induction ss arbitrary: vs) (simp_all add: add_value_def)

definition accepts :: "option_t list \<Rightarrow> string \<Rightarrow> string option \<Rightarrow> bool" where
  "accepts opts nm value \<longleftrightarrow>
     (case find_option opts nm of None \<Rightarrow> True
      | Some i \<Rightarrow> (case o_validate (opts ! i) of None \<Rightarrow> True | Some f \<Rightarrow> f nm value))"

definition bool_ok :: "sb_arg_type \<Rightarrow> string option \<Rightarrow> bool" where
  "bool_ok ty value \<longleftrightarrow> (ty = TYPE_BOOL \<longrightarrow>
     value \<in> {None, Some ''on'', Some ''true'', Some ''1'', Some ''off'', Some ''false'', Some ''0''})"

lemma set_option_values:
  assumes wf: "wf_opts opts" "proper nm" and ty: "ty \<in> {TYPE_BOOL, TYPE_INT, TYPE_SIZE, TYPE_DOUBLE, TYPE_STRING, TYPE_LIST}"
    and ok: "accepts opts nm value" "bool_ok ty value"
  shows "\<exists>i opts'. set_option fs nm value ty opts = (Some i, opts') \<and> find_option opts' nm = Some i \<and> i < length opts' \<and>
      o_values (opts' ! i) = map new_value (stored ty value) \<and> o_type (opts' ! i) = ty \<and>
      (\<forall>other. proper other \<longrightarrow> convert_dashes other \<noteq> convert_dashes nm \<longrightarrow>
        find_option opts' other = find_option opts other \<and>
        (\<forall>j. find_option opts other = Some j \<longrightarrow> opts' ! j = opts ! j))"
proof -
  obtain i o1 where a: "add_option opts nm = (i, o1)" by fastforce
  note A = add_option_result [OF wf a]
  define o2 where "o2 = o1[i := (o1 ! i)\<lparr>o_values := [], o_type := ty\<rparr>]"
  define o3 where "o3 = put_values i (map new_value (stored ty value)) o2"
  have valid: "case o_validate (o2 ! i) of None \<Rightarrow> True | Some f \<Rightarrow> f nm value"
    using ok(1) A(2,4,5) by (auto simp: o2_def accepts_def new_option_def nth_append split: option.splits)
  have v: "o_values (o2 ! i) = []" using A(2) by (simp add: o2_def)
  then have "(o2 ! i)\<lparr>o_values := []\<rparr> = o2 ! i" by (cases "o2 ! i") simp
  then have e: "put_values i [] o2 = o2" by (simp add: put_values_def)
  have "store_value fs i value ty o2 = (Some i, o3)"
    using ty ok(2) unfolding o3_def bool_ok_def store_value_def Let_def v foldl_add_value
    by (cases ty; cases "value") (simp_all add: e comma_tokens_Nil, blast)
  then have set: "set_option fs nm value ty opts = (Some i, o3)"
    using valid unfolding set_option_def a by (auto simp: Let_def o2_def [symmetric] split: option.splits)
  have n3: "map o_name o3 = map o_name o1" by (simp add: o3_def o2_def)
  have other: "find_option o3 x = find_option opts x \<and> (\<forall>j. find_option opts x = Some j \<longrightarrow> o3 ! j = opts ! j)"
    if "proper x" "convert_dashes x \<noteq> convert_dashes nm" for x
  proof -
    have f: "find_option o3 x = find_option opts x"
      using A(5) that find_option_wf [OF A(1) that(1)] find_option_wf [OF wf(1) that(1)]
      unfolding find_option_names [OF n3] by (auto simp: find_index_append new_option_def split: option.splits)
    have "o3 ! j = opts ! j" if j: "find_option opts x = Some j" for j
    proof -
      have nj: "j < length opts" "o_name (opts ! j) = convert_dashes x"
        using j find_option_wf [OF wf(1) \<open>proper x\<close>] find_index_Some by fastforce+
      then have "o1 ! j = opts ! j" using A(5) by (auto simp: nth_append)
      moreover from this have "j \<noteq> i" using nj(2) A(3) \<open>convert_dashes x \<noteq> convert_dashes nm\<close> by auto
      ultimately show ?thesis by (simp add: o3_def put_values_def o2_def)
    qed
    then show ?thesis using f by blast
  qed
  show ?thesis
    using set other A(2,4) find_option_names [OF n3] by (auto simp: o3_def put_values_def o2_def)
qed

section \<open>Properties\<close>

text \<open>
  C21 (round trip).  A value that is set can be read back under every spelling of the name, with dashes or
  underscores, as the list of values its type stores; all other options keep their values.
\<close>

theorem set_get_option:
  assumes "wf_opts opts" "proper nm" "proper nm'" "convert_dashes nm' = convert_dashes nm"
    and "ty \<in> {TYPE_BOOL, TYPE_INT, TYPE_SIZE, TYPE_DOUBLE, TYPE_STRING, TYPE_LIST}"
    and "accepts opts nm value" "bool_ok ty value"
  shows "\<exists>i opts'. set_option fs nm value ty opts = (Some i, opts') \<and>
      sb_get_value_list opts' nm' = Some (map new_value (stored ty value)) \<and>
      (\<forall>other. proper other \<longrightarrow> convert_dashes other \<noteq> convert_dashes nm \<longrightarrow>
         sb_get_value_list opts' other = sb_get_value_list opts other)"
proof -
  obtain i o1 where s: "set_option fs nm value ty opts = (Some i, o1)" "find_option o1 nm = Some i"
      "o_values (o1 ! i) = map new_value (stored ty value)"
    and other: "\<forall>x. proper x \<longrightarrow> convert_dashes x \<noteq> convert_dashes nm \<longrightarrow>
        find_option o1 x = find_option opts x \<and> (\<forall>j. find_option opts x = Some j \<longrightarrow> o1 ! j = opts ! j)"
    using set_option_values [OF assms(1,2,5,6,7), of fs] by blast
  have f: "opt_name_cmp (o_name x) nm' = 0 \<longleftrightarrow> opt_name_cmp (o_name x) nm = 0" if "proper (o_name x)" for x :: option_t
    using that assms(2-4) by (simp add: opt_name_cmp_0)
  have "find_index (\<lambda>x. opt_name_cmp (o_name x) nm' = 0) xs = find_index (\<lambda>x. opt_name_cmp (o_name x) nm = 0) xs"
    if "\<forall>x \<in> set xs. proper (o_name x)" for xs :: "option_t list"
    using that by (induction xs) (simp_all add: f)
  moreover have "wf_opts o1"
  proof -
    have "ty \<noteq> TYPE_FILE" using assms(5) by auto
    then have "set_option fs nm value ty opts = set_option (\<lambda>_. None) nm value ty opts"
      by (simp add: set_option_def store_value_def Let_def case_prod_unfold split: sb_arg_type.split option.split)
    then show ?thesis using set_option_wf [OF assms(1,2), of "\<lambda>_. None" "value" ty] s(1) by (metis (no_types, lifting) option.distinct(1) snd_conv)
  qed
  ultimately have "find_option o1 nm' = Some i" using s(2) by (auto simp: find_option_def wf_opts_def)
  then show ?thesis
    using s other by (auto simp: sb_get_value_list_def get_with_def split: option.splits)
qed

text \<open>
  Remark (invariant).  Whatever options are set, copied, removed or read from files, no two of them share a name
  up to dashes.
\<close>

datatype opt_cmd = SetOpt string "string option" sb_arg_type | CopyOpt string string | RemoveOpt string
  | ReadFile string | Register "sb_arg_t list"

fun opt_step :: "files \<Rightarrow> opt_cmd \<Rightarrow> option_t list \<Rightarrow> option_t list option" where
  "opt_step fs (SetOpt nm v ty) opts = Some (snd (set_option fs nm v ty opts))"
| "opt_step fs (CopyOpt to from) opts = map_option snd (sb_opt_copy fs to from opts)"
| "opt_step fs (RemoveOpt nm) opts = Some (snd (remove_option opts nm))"
| "opt_step fs (ReadFile f) opts = Some (read_config_file fs f opts)"
| "opt_step fs (Register xs) opts = Some (snd (sb_register_arg_set fs xs opts))"

fun opt_cmd_ok :: "opt_cmd \<Rightarrow> bool" where
  "opt_cmd_ok (SetOpt nm v ty) = proper nm"
| "opt_cmd_ok (CopyOpt to from) = proper to"
| "opt_cmd_ok (RemoveOpt nm) = True"
| "opt_cmd_ok (ReadFile f) = True"
| "opt_cmd_ok (Register xs) = (\<forall>x \<in> set xs. proper (a_name x))"

lemma register_wf:
  "wf_opts opts \<Longrightarrow> \<forall>x \<in> set xs. proper (a_name x) \<Longrightarrow> \<forall>f s. fs f = Some s \<longrightarrow> proper s \<Longrightarrow>
    wf_opts (snd (register_args fs v xs opts))"
proof (induction xs arbitrary: opts)
  case (Cons x xs)
  obtain r o1 where s: "set_option fs (a_name x) (a_value x) (a_type x) opts = (r, o1)" by fastforce
  then have "wf_opts o1" using set_option_wf [OF Cons.prems(1) _ Cons.prems(3), of "a_name x" "a_value x" "a_type x"] Cons.prems(2) by simp
  moreover from this have "wf_opts (o1[i := (o1 ! i)\<lparr>o_validate := v\<rparr>])" for i
    using wf_names [of "o1[i := (o1 ! i)\<lparr>o_validate := v\<rparr>]" o1] by simp
  ultimately show ?case using Cons s by (cases r) simp_all
qed simp

lemma cut_subset: "set (take i xs @ drop (Suc i) xs) \<subseteq> set xs"
  by (auto dest: in_set_takeD in_set_dropD)

lemma cut_distinct: "distinct xs \<Longrightarrow> distinct (take i xs @ drop (Suc i) xs)"
proof (induction xs arbitrary: i)
  case (Cons x xs)
  then show ?case using cut_subset [of "i - 1" xs] by (cases i) auto
qed simp

lemma opt_step_wf:
  assumes "wf_opts opts" "opt_cmd_ok c" "\<forall>f s. fs f = Some s \<longrightarrow> proper s" "opt_step fs c opts = Some opts'"
  shows "wf_opts opts'"
proof (cases c)
  case (RemoveOpt nm)
  have "map o_name (take i opts @ drop (Suc i) opts) = take i (map o_name opts) @ drop (Suc i) (map o_name opts)" for i
    by (simp add: take_map drop_map)
  then have "wf_opts (take i opts @ drop (Suc i) opts)" for i
    using assms(1) cut_distinct [of "map o_name opts" i] cut_subset [of i "map o_name opts"] unfolding wf_opts_def by fastforce
  then show ?thesis using assms RemoveOpt by (auto simp: remove_option_def split: option.splits)
qed (use assms set_option_wf register_wf read_config_wf in
    \<open>auto simp: sb_opt_copy_def read_config_file_def sb_register_arg_set_def split: option.splits if_splits\<close>)

interpretation opm: machine "opt_step fs" "\<lambda>opts. wf_opts opts \<and> (\<forall>f s. fs f = Some s \<longrightarrow> proper s)" opt_cmd_ok for fs
  by unfold_locales (blast intro: opt_step_wf)

theorem options_stay_wf:
  assumes "\<forall>f s. fs f = Some s \<longrightarrow> proper s" "\<forall>c \<in> set cs. opt_cmd_ok c" "run_steps (opt_step fs) cs [] = Some opts"
  shows "wf_opts opts"
  using opm.run_inv [of "[]" fs cs opts] assms by (simp add: wf_opts_def)

section \<open>Numbers\<close>

lemma dec_value_Cons: "foldl (\<lambda>n c. 10 * n + digit_value c) a s = a * 10 ^ length s + dec_value s"
proof (induction s arbitrary: a)
  case (Cons c s)
  show ?case
    using Cons.IH [of "10 * a + digit_value c"] Cons.IH [of "digit_value c"] by (simp add: dec_value_def algebra_simps)
qed (simp add: dec_value_def)

lemma digit_word: "isdigit c \<Longrightarrow> (of_char c :: u64) - of_char (CHR ''0'') = of_nat (digit_value c)"
proof -
  assume c: "isdigit c"
  have "(of_char c :: u64) = of_nat (of_char c)" for c by (simp add: of_char_def)
  then show ?thesis using c by (simp add: digit_value_def isdigit_def of_nat_diff)
qed

lemma scan_digits:
  "\<forall>c \<in> set s. isdigit c \<Longrightarrow>
    scan_size r seen (s @ t) = scan_size (r * 10 ^ length s + of_nat (dec_value s)) (seen \<or> s \<noteq> []) t"
proof (induction s arbitrary: r seen)
  case Nil
  then show ?case by (simp add: dec_value_def)
next
  case (Cons c s)
  have "(r * 10 + of_char c - of_char (CHR ''0'')) = r * 10 + of_nat (digit_value c)"
    using digit_word [of c] Cons.prems by (simp add: algebra_simps)
  moreover have "dec_value (c # s) = digit_value c * 10 ^ length s + dec_value s"
    using dec_value_Cons [of "digit_value c" s] by (simp add: dec_value_def)
  ultimately show ?case using Cons by (simp add: algebra_simps)
qed

text \<open>
  Remark (bounds).  The number of a size option is its decimal value times the power of 1024 of its modifier, in
  either case of the letter, cut to 64 bits; an unknown modifier gives zero.
\<close>

theorem size_value:
  assumes "o_values x = v # vs" "v_data v = s @ t" "s \<noteq> []" "\<forall>c \<in> set s. isdigit c"
    and "t = [] \<or> t = c # u \<and> \<not> isdigit c"
  shows "unat (sb_opt_to_size x) =
    (if t = [] then dec_value s
     else case find_index ((=) (toupper c)) sizemods of None \<Rightarrow> 0 | Some k \<Rightarrow> dec_value s * 1024 ^ (k + 1)) mod 2 ^ 64"
proof -
  have n: "unat (of_nat n :: u64) = n mod 2 ^ 64" for n by (simp only: unat_of_nat) simp
  show ?thesis
  proof (cases "t = []")
    case True
    then have "sb_opt_to_size x = of_nat (dec_value s)"
      using assms scan_digits [of s 0 False "[]"] by (simp add: sb_opt_to_size_def)
    then show ?thesis using True n by simp
  next
    case False
    then have t: "scan_size 0 False (v_data v) = (of_nat (dec_value s), Some c)"
      using assms scan_digits [of s 0 False t] by auto
    show ?thesis
    proof (cases "find_index ((=) (toupper c)) sizemods")
      case None
      then show ?thesis using False t assms(1) by (simp add: sb_opt_to_size_def)
    next
      case (Some k)
      have "(of_nat (dec_value s) :: u64) * 1024 ^ (k + 1) = of_nat (dec_value s * 1024 ^ (k + 1))" by simp
      then have "sb_opt_to_size x = of_nat (dec_value s * 1024 ^ (k + 1))"
        using Some t assms(1) by (simp add: sb_opt_to_size_def)
      then show ?thesis using Some False by (simp only: n) simp
    qed
  qed
qed

lemma strtol_digits:
  assumes "s \<noteq> []" "\<forall>c \<in> set s. isdigit c"
  shows "strtol10 s = (min (2 ^ 63 - 1) (int (dec_value s)), [])"
    and "strtol10 (CHR ''-'' # s) = (max (- (2 ^ 63)) (- int (dec_value s)), [])"
proof -
  obtain c u where s: "s = c # u" "isdigit c" using assms by (cases s) auto
  have sp: "\<not> isspace c" "c \<noteq> CHR ''-''" "c \<noteq> CHR ''+''" using s(2) by (auto simp: isdigit_def isspace_def)
  have tw: "takeWhile isdigit s = s" "dropWhile isdigit s = []" using assms(2) by simp_all
  have "at s = c" "dropWhile isspace s = s" using s sp by (simp_all add: at_def)
  then show "strtol10 s = (min (2 ^ 63 - 1) (int (dec_value s)), [])"
    using sp assms(1) by (simp add: strtol10_def Let_def tw)
  show "strtol10 (CHR ''-'' # s) = (max (- (2 ^ 63)) (- int (dec_value s)), [])"
    using assms(1) by (simp add: strtol10_def Let_def at_def isspace_def tw)
qed

section \<open>Configuration files\<close>

definition simple_char :: "char \<Rightarrow> bool" where
  "simple_char c \<longleftrightarrow> unquoted c \<and> c \<noteq> CHR ''#'' \<and> c \<noteq> CHR 0x27 \<and> c \<noteq> CHR 0x22 \<and> c \<noteq> CHR 0x00 \<and> c \<noteq> CHR ''=''"

definition simple :: "string \<Rightarrow> bool" where
  "simple s \<longleftrightarrow> s \<noteq> [] \<and> (\<forall>c \<in> set s. simple_char c)"

lemma simple_word:
  assumes "simple s" "t = [] \<or> \<not> unquoted (hd t)"
  shows "parse_values (s @ t) vs = parse_values (tl t) (add_value vs s)"
proof -
  obtain c u where s: "s = c # u" "simple_char c" using assms(1) by (cases s) (auto simp: simple_def)
  have all: "\<forall>c \<in> set s. unquoted c" using assms(1) by (auto simp: simple_def simple_char_def)
  have "takeWhile unquoted (s @ t) = s" "dropWhile unquoted (s @ t) = t"
    using all assms(2) by (auto simp: takeWhile_append2 dropWhile_append2 takeWhile_eq_Nil_iff dropWhile_eq_self_iff)
  then show ?thesis
    using s by (subst parse_values.simps) (simp add: simple_char_def unquoted_def)
qed

lemma parse_blank: "isspace c \<Longrightarrow> parse_values (c # s) vs = parse_values s vs"
  by (subst parse_values.simps) simp

lemma parse_Nil: "parse_values [] vs = (True, vs)"
  by (subst parse_values.simps) simp

lemma parse_written:
  "\<forall>v \<in> set vs. simple (v_data v) \<and> \<not> v_ignore v \<Longrightarrow>
    parse_values (write_values vs @ [CHR 0x0A]) acc = (True, acc @ map (\<lambda>v. new_value (v_data v)) vs)"
proof (induction vs arbitrary: acc rule: write_values.induct)
  case 1
  then show ?case by (simp add: parse_blank parse_Nil isspace_def)
next
  case (2 v)
  then show ?case
    using simple_word [of "v_data v" "[CHR 0x0A]" acc]
    by (simp add: parse_Nil unquoted_def isspace_def add_value_def)
next
  case (3 v w vs)
  then show ?case
    using simple_word [of "v_data v" "'', '' @ write_values (w # vs) @ [CHR 0x0A]" acc]
    by (simp add: parse_blank unquoted_def isspace_def add_value_def)
qed

lemma fgets_line:
  "CHR 0x0A \<notin> set l \<Longrightarrow> length l < n \<Longrightarrow> fgets n (l @ CHR 0x0A # rest) = (l @ [CHR 0x0A], rest)"
proof (induction l arbitrary: n)
  case Nil
  then show ?case by (cases n) simp_all
next
  case (Cons c l)
  then show ?case by (cases n) auto
qed

text \<open>What is left of an option when it has been written and read again.\<close>

definition reread :: "option_t \<Rightarrow> option_t" where
  "reread x = \<lparr>o_name = o_name x @ '' '', o_type = TYPE_NULL, o_values = map (\<lambda>v. new_value (v_data v)) (o_values x),
     o_ignore = False, o_validate = None\<rparr>"

definition simple_option :: "option_t \<Rightarrow> bool" where
  "simple_option x \<longleftrightarrow> simple (o_name x) \<and> \<not> o_ignore x \<and> (\<forall>v \<in> set (o_values x). simple (v_data v) \<and> \<not> v_ignore v) \<and>
     length (o_name x) + length (write_values (o_values x)) < 252"

lemma simple_chars: "simple s \<Longrightarrow> CHR 0x0A \<notin> set s \<and> CHR ''='' \<notin> set s \<and> CHR '' '' \<notin> set s \<and> proper s"
  by (auto simp: simple_def simple_char_def unquoted_def isspace_def proper_def)

lemma write_values_newline:
  "\<forall>v \<in> set vs. simple (v_data v) \<and> \<not> v_ignore v \<Longrightarrow> CHR 0x0A \<notin> set (write_values vs)"
  by (induction vs rule: write_values.induct) (auto dest: simple_chars)

lemma config_line_written:
  assumes x: "simple_option x" and new: "find_option acc (o_name x @ '' '') = None" and nm: "convert_dashes (o_name x) = o_name x"
  shows "config_line (o_name x @ '' = '' @ write_values (o_values x) @ [CHR 0x0A]) acc = (True, acc @ [reread x])"
proof -
  let ?rest = "'' = '' @ write_values (o_values x) @ [CHR 0x0A]"
  have "\<forall>c \<in> set (o_name x). c \<noteq> CHR ''=''" using x simple_chars by (auto simp: simple_option_def)
  then have k: "takeWhile (\<lambda>c. c \<noteq> CHR ''='') (o_name x @ ?rest) = o_name x @ '' ''"
      "dropWhile (\<lambda>c. c \<noteq> CHR ''='') (o_name x @ ?rest) = ''= '' @ write_values (o_values x) @ [CHR 0x0A]"
    by (simp_all add: takeWhile_append2 dropWhile_append2)
  have a: "add_option acc (o_name x @ '' '') = (length acc, acc @ [new_option (o_name x @ '' '')])"
    using new nm by (simp add: add_option_def convert_eq_map)
  have p: "parse_values ('' '' @ write_values (o_values x) @ [CHR 0x0A]) [] = (True, map (\<lambda>v. new_value (v_data v)) (o_values x))"
    using x parse_written [of "o_values x" "[]"] by (simp add: parse_blank isspace_def simple_option_def)
  show ?thesis
    unfolding config_line_def k using a p by (simp add: put_values_def new_option_def reread_def)
qed

lemma reread_all:
  assumes "\<forall>x \<in> set opts. simple_option x" "wf_opts (acc @ map reread opts)"
  shows "read_config (fst (write_config opts)) acc = (True, acc @ map reread opts)"
  using assms
proof (induction opts arbitrary: acc)
  case Nil
  then show ?case by (simp add: read_config.simps)
next
  case (Cons x opts)
  let ?line = "o_name x @ '' = '' @ write_values (o_values x)"
  have x: "simple_option x" using Cons.prems by simp
  have nl: "CHR 0x0A \<notin> set ?line" "length ?line < 255"
    using x simple_chars [of "o_name x"] write_values_newline [of "o_values x"] by (auto simp: simple_option_def)
  have pn: "proper (o_name x @ '' '')" using x simple_chars by (auto simp: simple_option_def proper_def)
  have cn: "convert_dashes (o_name x @ '' '') = o_name x @ '' ''" "wf_opts acc"
      "o_name x @ '' '' \<notin> set (map o_name acc)"
    using Cons.prems(2) by (auto simp: wf_opts_def reread_def)
  have "find_option acc (o_name x @ '' '') = None"
    using cn by (simp add: find_option_wf [OF cn(2) pn] find_index_None) (metis image_eqI)
  moreover have "convert_dashes (o_name x) = o_name x" using cn(1) by (simp add: convert_eq_map)
  ultimately have l: "config_line (?line @ [CHR 0x0A]) acc = (True, acc @ [reread x])"
    using config_line_written [OF x] by simp
  have w: "fst (write_config (x # opts)) = ?line @ CHR 0x0A # fst (write_config opts)"
    using x by (simp add: simple_option_def case_prod_unfold Let_def)
  have "read_config (fst (write_config (x # opts))) acc = read_config (fst (write_config opts)) (acc @ [reread x])"
    unfolding w using fgets_line [OF nl, of "fst (write_config opts)"] l
    by (subst read_config.simps) (simp add: Let_def)
  also have "\<dots> = (True, acc @ map reread (x # opts))"
    using Cons.IH [of "acc @ [reread x]"] Cons.prems by simp
  finally show ?case .
qed

lemma reread_wf:
  assumes "\<forall>x \<in> set opts. simple_option x" "wf_opts opts"
  shows "wf_opts (map reread opts)"
proof -
  have m: "map o_name (map reread opts) = map (\<lambda>n. n @ '' '') (map o_name opts)"
    by (simp add: reread_def)
  have "inj_on (\<lambda>n. n @ '' '') A" for A :: "string set" by (simp add: inj_on_def)
  then have "distinct (map (\<lambda>n. n @ '' '') (map o_name opts))" using assms(2) by (simp only: distinct_map wf_opts_def)
  then show ?thesis
    using assms unfolding wf_opts_def m by (auto simp: convert_eq_map proper_def)
qed

text \<open>
  Remark (round trip).  Reading a file that \<open>write_config\<close> has written succeeds and gives every option with
  exactly its values, but with a blank at the end of its name: none of the options is found under its
  own name afterwards.
\<close>

theorem config_reread:
  assumes "wf_opts opts" "\<forall>x \<in> set opts. simple_option x" "x \<in> set opts"
  shows "\<exists>opts'. read_config (fst (write_config opts)) [] = (True, opts') \<and>
      map o_name opts' = map (\<lambda>x. o_name x @ '' '') opts \<and>
      map (\<lambda>x. map v_data (o_values x)) opts' = map (\<lambda>x. map v_data (o_values x)) opts \<and>
      find_option opts' (o_name x) = None"
proof -
  have wf: "wf_opts (map reread opts)" by (rule reread_wf [OF assms(2,1)])
  have r: "read_config (fst (write_config opts)) [] = (True, map reread opts)"
    using reread_all [OF assms(2), of "[]"] wf by simp
  have b: "proper (o_name x)" "convert_dashes (o_name x) = o_name x" "CHR '' '' \<notin> set (o_name x)"
    using assms simple_chars [of "o_name x"] by (auto simp: wf_opts_def simple_option_def)
  have "o_name y @ '' '' \<noteq> o_name x" for y :: option_t using b(3) by (metis in_set_conv_decomp)
  then have "find_option (map reread opts) (o_name x) = None"
    using b(2) by (simp add: find_option_wf [OF wf b(1)] find_index_None reread_def)
  then show ?thesis using r by (simp add: reread_def new_value_def comp_def)
qed

text \<open>
  Remark (error).  Copying a switch that is off switches the target on, because a missing string means \<open>on\<close>;
  copying an option with a value onto itself reads freed memory; and a set of options is checked
  with the validator of its first entry only.
\<close>

theorem copy_switches_on:
  assumes "wf_opts opts" "proper to" "proper from" "find_option opts from = Some i"
    and "o_type (opts ! i) = TYPE_BOOL" "o_values (opts ! i) = []" "accepts opts to None"
  shows "\<exists>opts'. sb_opt_copy fs to from opts = Some (True, opts') \<and> \<not> sb_get_value_flag opts from \<and> sb_get_value_flag opts' to"
proof -
  have "TYPE_BOOL \<in> {TYPE_BOOL, TYPE_INT, TYPE_SIZE, TYPE_DOUBLE, TYPE_STRING, TYPE_LIST}" "bool_ok TYPE_BOOL None"
    by (simp_all add: bool_ok_def)
  then obtain j o1 where "set_option fs to None TYPE_BOOL opts = (Some j, o1)" "find_option o1 to = Some j"
      "o_values (o1 ! j) = map new_value (stored TYPE_BOOL None)"
    using set_option_values [OF assms(1,2) _ assms(7), of TYPE_BOOL fs] by blast
  then show ?thesis
    using assms by (simp add: sb_opt_copy_def sb_opt_to_string_def sb_get_value_flag_def get_with_def sb_opt_to_flag_def)
qed

text \<open>Remark.  Values of \<open>1024\<^sup>5\<close> and more are printed with a zero character as modifier.\<close>

lemma size_modifier_zero: "1024 ^ 5 \<le> n \<Longrightarrow> print_size_modifier n = Some (CHR 0x00)"
proof -
  assume n: "1024 ^ 5 \<le> n"
  have "1024 ^ k \<le> n" if "k \<le> 5" for k using power_increasing [OF that, of "1024 :: nat"] n by simp
  from this [of 1] this [of 2] this [of 3] this [of 4] this [of 5]
  have "size_steps n 0 (Suc (Suc (Suc (Suc (Suc 0))))) = 5" by simp
  then show ?thesis by (simp add: print_size_modifier_def sizemods_def numeral_eq_Suc)
qed

text \<open>Remark.  All options of a set get the validator of the first entry.\<close>

lemma register_first_validator:
  assumes "a_value x = Some v" "a_value y = Some w" "a_type x = TYPE_STRING" "a_type y = TYPE_STRING"
    and "convert_dashes (a_name x) \<noteq> convert_dashes (a_name y)" "proper (a_name x)" "proper (a_name y)"
  shows "map o_validate (snd (sb_register_arg_set fs [x, y] [])) = [a_validate x, a_validate x]"
proof -
  have n: "opt_name_cmp (convert_dashes (a_name x)) (a_name y) \<noteq> 0"
    using assms opt_name_cmp_0 [of "convert_dashes (a_name x)" "a_name y"] by simp
  show ?thesis
    using n assms by (auto simp: sb_register_arg_set_def set_option_def store_value_def add_option_def find_option_def
        new_option_def put_values_def Let_def)
qed

section \<open>Witnesses\<close>

definition demoO :: "option_t list" where
  "demoO = [\<lparr>o_name = ''time'', o_type = TYPE_INT, o_values = [new_value ''10''], o_ignore = False, o_validate = None\<rparr>,
     \<lparr>o_name = ''on_off'', o_type = TYPE_BOOL, o_values = [], o_ignore = False, o_validate = None\<rparr>]"

lemma demoO_wf: "wf_opts demoO"
  by (simp add: wf_opts_def demoO_def proper_def)

lemma demoO_simple: "\<forall>x \<in> set demoO. simple_option x"
  by (simp add: demoO_def simple_option_def simple_def simple_char_def unquoted_def isspace_def new_value_def)

theorem set_get_option_witness:
  "\<exists>i opts'. set_option (\<lambda>_. None) ''report-list'' (Some ''a,,b'') TYPE_LIST demoO = (Some i, opts') \<and>
     sb_get_value_list opts' ''report_list'' = Some (map new_value (comma_tokens ''a,,b''))"
proof -
  have "accepts demoO ''report-list'' (Some ''a,,b'')"
    by (simp add: accepts_def find_option_def demoO_def at_def dash_def)
  then show ?thesis
    using set_get_option [OF demoO_wf, of "''report-list''" "''report_list''" TYPE_LIST "Some ''a,,b''" "\<lambda>_. None"]
    by (auto simp: proper_def bool_ok_def)
qed

theorem options_stay_wf_witness:
  "\<exists>opts. run_steps (opt_step (\<lambda>_. None)) [SetOpt ''a-b'' (Some ''1'') TYPE_INT, SetOpt ''a_b'' None TYPE_BOOL, RemoveOpt ''c''] [] = Some opts \<and> wf_opts opts"
proof -
  obtain opts where r: "run_steps (opt_step (\<lambda>_. None)) [SetOpt ''a-b'' (Some ''1'') TYPE_INT, SetOpt ''a_b'' None TYPE_BOOL, RemoveOpt ''c''] [] = Some opts"
    by simp
  then show ?thesis using options_stay_wf [of "\<lambda>_. None", OF _ _ r] by (auto simp: proper_def)
qed

lemma toupper_k: "toupper (CHR ''k'') = CHR ''K''"
  by code_simp

theorem size_value_witness:
  "unat (sb_opt_to_size (new_option ''s''\<lparr>o_values := [new_value ''16k'']\<rparr>)) = 16384"
  using size_value [of "new_option ''s''\<lparr>o_values := [new_value ''16k'']\<rparr>" "new_value ''16k''" "[]" "''16''" "''k''" "CHR ''k''" "[]"]
  by (simp add: new_value_def isdigit_def toupper_k sizemods_def dec_value_def digit_value_def)

theorem config_reread_witness:
  "\<exists>opts'. read_config (fst (write_config demoO)) [] = (True, opts') \<and> map o_name opts' = [''time '', ''on_off ''] \<and>
     find_option opts' ''time'' = None"
  using config_reread [OF demoO_wf demoO_simple, of "hd demoO"] by (auto simp: demoO_def)

theorem copy_switches_on_witness:
  "\<exists>opts'. sb_opt_copy (\<lambda>_. None) ''verbose'' ''on-off'' demoO = Some (True, opts') \<and> sb_get_value_flag opts' ''verbose''"
proof -
  have "find_option demoO ''on-off'' = Some 1" "accepts demoO ''verbose'' None"
    by (simp_all add: accepts_def find_option_def demoO_def at_def dash_def)
  then show ?thesis
    using copy_switches_on [OF demoO_wf, of "''verbose''" "''on-off''" 1 "\<lambda>_. None"] by (auto simp: proper_def demoO_def)
qed

end
