(* ===== verification/SbRun.thy ===== *)
theory SbRun
  imports SbStats SbOptions
begin

text \<open>
  Running a benchmark (\<^verbatim>\<open>sysbench.c\<close>): events and their statistics, the limits of the run, reports and
  the forced shutdown, the barrier at which the threads start (\<^verbatim>\<open>sb_barrier.c\<close>), and the prime
  number test (\<^verbatim>\<open>tests/cpu/sb_cpu.c\<close>).
\<close>

section \<open>Events and reports\<close>

record bench =
  timers :: "sb_timer list"
  timers_copy :: "sb_timer list"
  stat_counters :: counter_state
  latency_histogram :: histogram
  rng_state :: "rng list"
  percentile :: nat
  tx_rate :: nat
  concurrency :: int
  bench_running :: u32
  exec_timer :: sb_timer
  intermediate_timer :: sb_timer
  checkpoint_timer :: sb_timer

definition sb_event_start :: "timespec \<Rightarrow> nat \<Rightarrow> bench \<Rightarrow> bench option" where
  "sb_event_start now thread_id b =
     (if thread_id < length (timers b)
      then Some (b\<lparr>timers := (timers b)[thread_id := sb_timer_start now (timers b ! thread_id)]\<rparr>) else None)"

text \<open>The value is converted to a signed number before it is divided.\<close>

definition update_latency :: "(int \<Rightarrow> int) \<Rightarrow> u64 \<Rightarrow> nat \<Rightarrow> bench \<Rightarrow> bench option" where
  "update_latency bucket val thread_id b =
     (if percentile b > 0
      then do {
        (h, s) \<leftarrow> sb_histogram_update bucket (sint val) (rng_state b ! thread_id) (latency_histogram b);
        Some (b\<lparr>latency_histogram := h, rng_state := (rng_state b)[thread_id := s]\<rparr>)
      }
      else Some b)"

definition sb_event_stop :: "(int \<Rightarrow> int) \<Rightarrow> timespec \<Rightarrow> nat \<Rightarrow> bench \<Rightarrow> bench option" where
  "sb_event_stop bucket now thread_id b =
     (if thread_id < length (timers b)
      then do {
        let (val, t) = sb_timer_stop now (timers b ! thread_id);
        b1 \<leftarrow> update_latency bucket val thread_id (b\<lparr>timers := (timers b)[thread_id := t]\<rparr>);
        c \<leftarrow> sb_counter_inc thread_id SB_CNT_EVENT (stat_counters b1);
        let b2 = b1\<lparr>stat_counters := c\<rparr>;
        Some (if tx_rate b2 > 0 then b2\<lparr>concurrency := concurrency b2 - 1\<rparr> else b2)
      }
      else None)"

text \<open>
  The statistics of a report.  Times are in nanoseconds; the divisions that show them in seconds and
  the subtraction of the warm-up time are not modelled, and the percentile is the index of its bucket.
  \<open>now1\<close> and \<open>now2\<close> are the clock at the two calls that read it.
\<close>

record sb_stat =
  threads_running :: u32
  time_interval :: u64
  time_total :: u64
  latency_pct :: nat
  latency_min :: u64
  latency_max :: u64
  latency_avg :: u64
  latency_sum :: u64
  stat_counts :: counters
  queue_length :: nat
  stat_concurrency :: int

definition report_get_common_stat :: "timespec \<Rightarrow> bench \<Rightarrow> counters \<Rightarrow> sb_stat" where
  "report_get_common_stat now b cnt =
     \<lparr>threads_running = bench_running b, time_interval = 0, time_total = sb_timer_value now (exec_timer b),
      latency_pct = 0, latency_min = 0, latency_max = 0, latency_avg = 0, latency_sum = 0,
      stat_counts = cnt, queue_length = 0, stat_concurrency = 0\<rparr>"

definition checkpoint ::
  "timespec \<Rightarrow> timespec \<Rightarrow> schedule \<Rightarrow> (u64 \<Rightarrow> u64) \<Rightarrow> bench \<Rightarrow> (sb_stat \<times> bench) option"
where
  "checkpoint now1 now2 env rank b =
     do {
       let (cnt, c) = sb_counters_agg_cumulative (stat_counters b);
       let stat = report_get_common_stat now1 b cnt;
       let (interval, ct) = sb_timer_current now2 (checkpoint_timer b);
       (pct, h) \<leftarrow> sb_histogram_get_pct_checkpoint env rank (latency_histogram b);
       let ts = map sb_timer_checkpoint (timers b);
       Some (stat\<lparr>time_interval := interval, latency_pct := pct\<rparr>,
             b\<lparr>stat_counters := c, checkpoint_timer := ct, latency_histogram := h,
               timers := map snd ts, timers_copy := map fst ts\<rparr>)
     }"

definition uninitialised_timer :: sb_timer where
  "uninitialised_timer =
     \<lparr>time_start = zero_time, time_end = zero_time, events = 0, queue_time = 0, min_time = 0, max_time = 0, sum_time = 0\<rparr>"

definition merge_timers :: "sb_timer list \<Rightarrow> sb_timer" where
  "merge_timers ts = fold (\<lambda>t acc. sb_timer_merge acc t) ts (sb_timer_init uninitialised_timer)"

definition report_cumulative ::
  "timespec \<Rightarrow> timespec \<Rightarrow> schedule \<Rightarrow> (u64 \<Rightarrow> u64) \<Rightarrow> bench \<Rightarrow> (sb_stat \<times> bench) option"
where
  "report_cumulative now1 now2 env rank b =
     do {
       (stat, b1) \<leftarrow> checkpoint now1 now2 env rank b;
       let t = merge_timers (timers_copy b1);
       Some (stat\<lparr>latency_min := sb_timer_min t, latency_max := sb_timer_max t,
                  latency_avg := sb_timer_avg t, latency_sum := sb_timer_sum t\<rparr>, b1)
     }"

text \<open>\<open>qlen\<close> is the size of the queue, which belongs to the concurrency kit.\<close>

definition report_intermediate ::
  "timespec \<Rightarrow> timespec \<Rightarrow> nat \<Rightarrow> nat \<Rightarrow> schedule \<Rightarrow> (u64 \<Rightarrow> u64) \<Rightarrow> bench \<Rightarrow> (sb_stat option \<times> bench) option"
where
  "report_intermediate now1 now2 qlen report_interval env rank b =
     (if report_interval = 0 then Some (None, b)
      else do {
        let (cnt, c) = sb_counters_agg_intermediate (stat_counters b);
        let stat = report_get_common_stat now1 b cnt;
        (pct, h) \<leftarrow> sb_histogram_get_pct_intermediate env rank (latency_histogram b);
        let (interval, it) = sb_timer_current now2 (intermediate_timer b);
        let stat1 = stat\<lparr>latency_pct := pct, time_interval := interval\<rparr>;
        let stat2 = (if tx_rate b > 0 then stat1\<lparr>queue_length := qlen, stat_concurrency := concurrency b\<rparr> else stat1);
        Some (Some stat2, b\<lparr>stat_counters := c, latency_histogram := h, intermediate_timer := it\<rparr>)
      })"

text \<open>The first part of a cumulative report on a forced shutdown: the number of unfinished events.\<close>

definition stop_unfinished :: "timespec \<Rightarrow> sb_timer list \<Rightarrow> nat \<times> sb_timer list" where
  "stop_unfinished now ts =
     (length (filter sb_timer_running ts),
      map (\<lambda>t. if sb_timer_running t then snd (sb_timer_stop now t) else t) ts)"

section \<open>The limits of a run\<close>

record globals =
  error_flag :: bool
  max_time_ns :: u64
  max_events :: u64
  nevents :: u64
  g_tx_rate :: nat
  g_concurrency :: int

text \<open>
  What a thread sees when it takes an event from the queue: the address taken, if any; the error flag
  when the condition of the loop is evaluated; and, after it has waited, the error flag and the time.
\<close>

record queue_view =
  taken :: "u64 option"
  error_now :: bool
  error_after :: bool
  time_after :: u64

text \<open>The result: whether there are more events, with the time in the queue; reading through the null pointer crashes.\<close>

datatype more = NoMore | More "u64 option" | NullRead

fun take_event :: "globals \<Rightarrow> u64 \<Rightarrow> queue_view list \<Rightarrow> more option" where
  "take_event g now [] = None"
| "take_event g now (v # vs) =
     (case taken v of
        Some q \<Rightarrow> Some (More (Some (now - q)))
      | None \<Rightarrow>
          if error_now v then Some NullRead
          else if error_after v then Some NoMore
          else if max_time_ns g > 0 \<and> time_after v \<ge> max_time_ns g then Some NoMore
          else take_event g now vs)"

definition count_taken :: "more \<Rightarrow> globals \<Rightarrow> globals" where
  "count_taken m g = (if m = NoMore then g else g\<lparr>g_concurrency := g_concurrency g + 1\<rparr>)"

text \<open>\<open>t\<close> is the value of the timer of the run at the first check and \<open>now\<close> its value at the end.\<close>

definition sb_more_events :: "u64 \<Rightarrow> u64 \<Rightarrow> queue_view list \<Rightarrow> globals \<Rightarrow> (more \<times> globals) option" where
  "sb_more_events t now views g =
     (if error_flag g then Some (NoMore, g)
      else if max_time_ns g > 0 \<and> t \<ge> max_time_ns g then Some (NoMore, g)
      else
        let limited = max_events g > 0;
            g1 = (if limited then g\<lparr>nevents := nevents g + 1\<rparr> else g)
        in if limited \<and> nevents g \<ge> max_events g then Some (NoMore, g1)
           else if g_tx_rate g > 0 then map_option (\<lambda>m. (m, count_taken m g1)) (take_event g now views)
           else Some (More None, g1))"

section \<open>The barrier\<close>

record sb_barrier =
  count :: u32
  init_count :: u32
  serial :: u32
  barrier_error :: bool

definition sb_barrier_init :: "u32 \<Rightarrow> bool \<Rightarrow> sb_barrier option" where
  "sb_barrier_init n ok =
     (if n = 0 then None
      else if \<not> ok then None
      else Some \<lparr>count = n, init_count = n, serial = 0, barrier_error = False\<rparr>)"

definition SB_BARRIER_SERIAL_THREAD :: int where
  "SB_BARRIER_SERIAL_THREAD = 1"

text \<open>
  The code under the mutex up to the return or to the wait: \<open>fails\<close> tells whether there is a callback that
  returns a number other than zero.  The first component is the result, if the thread returns.
\<close>

definition barrier_arrive :: "bool \<Rightarrow> sb_barrier \<Rightarrow> int option \<times> sb_barrier" where
  "barrier_arrive fails b =
     (let b1 = b\<lparr>count := count b - 1\<rparr>
      in if count b1 = 0
         then let b2 = b1\<lparr>serial := serial b1 + 1, count := init_count b1\<rparr>
              in if fails then (Some (- 1), b2\<lparr>barrier_error := True\<rparr>) else (Some SB_BARRIER_SERIAL_THREAD, b2)
         else (None, b1))"

text \<open>The code after a wake-up: it waits again if the serial number is the same.\<close>

definition barrier_wake :: "u32 \<Rightarrow> sb_barrier \<Rightarrow> int option" where
  "barrier_wake s b = (if s = serial b then None else Some (if barrier_error b then - 1 else 0))"

section \<open>The prime number test\<close>

text \<open>The result and the new limit; an invalid number ends the process.\<close>

definition cpu_init :: "option_t list \<Rightarrow> int \<Rightarrow> (int \<times> int) option" where
  "cpu_init opts max_prime =
     do {
       prime_option \<leftarrow> sb_get_value_int opts ''cpu-max-prime'';
       Some (if prime_option \<le> 0 then (1, max_prime) else (0, prime_option))
     }"

text \<open>
  The square root of a number below \<open>2\<^sup>3\<^sup>2\<close> is rounded to a \<open>double\<close>, which does not cross an integer:
  \<open>l \<le> t\<close> is \<open>l\<^sup>2 \<le> c\<close>.
\<close>

function divisor_loop :: "nat \<Rightarrow> nat \<Rightarrow> nat" where
  "divisor_loop c l = (if l * l \<le> c then if c mod l = 0 then l else divisor_loop c (l + 1) else l)"
  by pat_completeness auto

termination
proof (relation "measure (\<lambda>(c, l). Suc c - l)")
  fix c l :: nat
  assume "l * l \<le> c"
  moreover have "l \<le> l * l" by (cases l) auto
  ultimately have "l \<le> c" by (rule le_trans [rotated])
  then show "((c, l + 1), (c, l)) \<in> measure (\<lambda>(c, l). Suc c - l)" by simp
qed simp

declare divisor_loop.simps [simp del]

text \<open>The number that the loop counts, and the result.\<close>

definition cpu_execute_event :: "nat \<Rightarrow> nat \<times> int" where
  "cpu_execute_event max_prime =
     (fold (\<lambda>c n. let l = divisor_loop c 2 in if l * l > c then n + 1 else n) [3..<max_prime] 0, 0)"

section \<open>The barrier as a state machine\<close>

text \<open>
  Every thread is outside of the barrier, waits in it, or is returning.  The number that a thread
  gets when it arrives, the number of arrivals and the results of the callbacks are history: the
  code does not have them.
\<close>

datatype tstate = Outside | Waiting u32 nat | Returning int nat

record bstate =
  bar :: sb_barrier
  threads :: "nat \<Rightarrow> tstate"
  arrivals :: nat
  outcomes :: "bool list"

text \<open>A wake-up may come at any time.\<close>

inductive bstep :: "bstate \<Rightarrow> bstate \<Rightarrow> bool" where
  last: "threads s i = Outside \<Longrightarrow> barrier_arrive fails (bar s) = (Some r, b') \<Longrightarrow>
    bstep s \<lparr>bar = b', threads = (threads s)(i := Returning r (arrivals s)), arrivals = arrivals s + 1, outcomes = outcomes s @ [fails]\<rparr>"
| wait: "threads s i = Outside \<Longrightarrow> barrier_arrive fails (bar s) = (None, b') \<Longrightarrow>
    bstep s \<lparr>bar = b', threads = (threads s)(i := Waiting (serial b') (arrivals s)), arrivals = arrivals s + 1, outcomes = outcomes s\<rparr>"
| wake: "threads s i = Waiting sn k \<Longrightarrow> barrier_wake sn (bar s) = Some r \<Longrightarrow>
    bstep s (s\<lparr>threads := (threads s)(i := Returning r k)\<rparr>)"
| again: "threads s i = Waiting sn k \<Longrightarrow> barrier_wake sn (bar s) = None \<Longrightarrow> bstep s s"
| leave: "threads s i = Returning r k \<Longrightarrow> bstep s (s\<lparr>threads := (threads s)(i := Outside)\<rparr>)"

definition bstart :: "sb_barrier \<Rightarrow> bstate" where
  "bstart b = \<lparr>bar = b, threads = (\<lambda>i. Outside), arrivals = 0, outcomes = []\<rparr>"

definition returned_ok :: "nat \<Rightarrow> bstate \<Rightarrow> int \<Rightarrow> nat \<Rightarrow> bool" where
  "returned_ok n s r k \<longleftrightarrow>
     (k div n + 1) * n \<le> arrivals s
       \<and> (outcomes s ! (k div n) \<longrightarrow> r = - 1)
       \<and> (True \<notin> set (outcomes s) \<longrightarrow> r = (if Suc k mod n = 0 then SB_BARRIER_SERIAL_THREAD else 0))"

definition binv :: "nat \<Rightarrow> bstate \<Rightarrow> bool" where
  "binv n s \<longleftrightarrow>
     init_count (bar s) = of_nat n
       \<and> count (bar s) = of_nat (n - arrivals s mod n)
       \<and> serial (bar s) = of_nat (arrivals s div n)
       \<and> length (outcomes s) = arrivals s div n
       \<and> (barrier_error (bar s) \<longleftrightarrow> True \<in> set (outcomes s))
       \<and> (\<forall>i sn k. threads s i = Waiting sn k \<longrightarrow> sn = of_nat (k div n) \<and> k < arrivals s \<and> Suc k mod n \<noteq> 0)
       \<and> (\<forall>i r k. threads s i = Returning r k \<longrightarrow> returned_ok n s r k)"

lemma binvD:
  assumes "binv n s"
  shows "init_count (bar s) = of_nat n" "count (bar s) = of_nat (n - arrivals s mod n)"
    "serial (bar s) = of_nat (arrivals s div n)" "length (outcomes s) = arrivals s div n"
    "barrier_error (bar s) \<longleftrightarrow> True \<in> set (outcomes s)"
    "threads s i = Waiting sn k \<Longrightarrow> sn = of_nat (k div n) \<and> k < arrivals s \<and> Suc k mod n \<noteq> 0"
    "threads s i = Returning r k \<Longrightarrow> returned_ok n s r k"
  using assms unfolding binv_def by blast+

lemma binv_start: "0 < n \<Longrightarrow> sb_barrier_init (of_nat n) ok = Some b \<Longrightarrow> binv n (bstart b)"
  by (auto simp: binv_def bstart_def sb_barrier_init_def split: if_splits)

lemma of_nat_u32_1: "0 < m \<Longrightarrow> m < 2 ^ 32 \<Longrightarrow> (of_nat m :: u32) - 1 = 0 \<longleftrightarrow> m = 1"
proof -
  assume m: "0 < m" "m < 2 ^ 32"
  have u: "unat (of_nat m :: u32) = m" using m(2) by (simp only: unat_of_nat) simp
  show ?thesis
  proof
    assume "(of_nat m :: u32) - 1 = 0"
    then have "unat (of_nat m :: u32) = unat (1 :: u32)" by simp
    then show "m = 1" using u by simp
  qed simp
qed

text \<open>Arriving, in numbers: the last of \<open>n\<close> threads completes the round.\<close>

lemma arrive_numbers:
  assumes "binv n s" "0 < n" "n < 2 ^ 32" "barrier_arrive fails (bar s) = (res, b')"
  shows "if Suc (arrivals s) mod n = 0
    then res = Some (if fails then - 1 else SB_BARRIER_SERIAL_THREAD) \<and> count b' = of_nat n
      \<and> serial b' = serial (bar s) + 1 \<and> (barrier_error b' \<longleftrightarrow> fails \<or> barrier_error (bar s))
      \<and> init_count b' = init_count (bar s)
    else res = None \<and> b' = (bar s)\<lparr>count := of_nat (n - Suc (arrivals s) mod n)\<rparr>"
proof -
  define m where "m = n - arrivals s mod n"
  have lt: "arrivals s mod n < n" using assms(2) by simp
  have m: "0 < m" "m < 2 ^ 32" using lt assms(3) unfolding m_def by linarith+
  have c: "count (bar s) = of_nat m" using binvD(2) [OF assms(1)] by (simp add: m_def)
  have one: "m = 1 \<longleftrightarrow> Suc (arrivals s) mod n = 0" using lt by (auto simp: m_def mod_Suc)
  have dec: "n - Suc (arrivals s) mod n = m - 1" if "m \<noteq> 1" using lt that by (auto simp: m_def mod_Suc)
  show ?thesis
    using assms(4) binvD(1) [OF assms(1)] of_nat_u32_1 [OF m] one dec m(1)
    by (auto simp: barrier_arrive_def c Let_def of_nat_diff split: if_splits)
qed

lemma returned_ok_mono:
  "returned_ok n s r k \<Longrightarrow> 0 < n \<Longrightarrow> length (outcomes s) = arrivals s div n \<Longrightarrow>
     returned_ok n \<lparr>bar = b, threads = t, arrivals = arrivals s + 1, outcomes = outcomes s @ os\<rparr> r k"
proof -
  assume a: "returned_ok n s r k" "0 < n" "length (outcomes s) = arrivals s div n"
  have "(k div n + 1) * n \<le> arrivals s" using a(1) by (simp add: returned_ok_def)
  then have "k div n + 1 \<le> arrivals s div n" using a(2) by (metis div_le_mono div_mult_self_is_m)
  then show ?thesis using a by (auto simp: returned_ok_def nth_append)
qed

lemma binv_arrive:
  assumes "binv n s" "0 < n" "n < 2 ^ 32" "threads s i = Outside" "barrier_arrive fails (bar s) = (res, b')"
  shows "binv n \<lparr>bar = b', threads = (threads s)(i := (case res of Some r \<Rightarrow> Returning r (arrivals s) | None \<Rightarrow> Waiting (serial b') (arrivals s))),
    arrivals = arrivals s + 1, outcomes = outcomes s @ (case res of Some r \<Rightarrow> [fails] | None \<Rightarrow> [])\<rparr>" (is "binv n ?s")
proof -
  let ?A = "arrivals s"
  note d = binvD [OF assms(1)]
  have others: "returned_ok n \<lparr>bar = b, threads = t, arrivals = ?A + 1, outcomes = outcomes s @ os\<rparr> r k"
    if "threads s j = Returning r k" for b t os j r k
    using returned_ok_mono [OF d(7) [OF that] assms(2) d(4)] .
  show ?thesis
  proof (cases "Suc ?A mod n = 0")
    case True
    then have r: "res = Some (if fails then - 1 else SB_BARRIER_SERIAL_THREAD)" "count b' = of_nat n"
      "serial b' = serial (bar s) + 1" "barrier_error b' \<longleftrightarrow> fails \<or> barrier_error (bar s)" "init_count b' = init_count (bar s)"
      using arrive_numbers [OF assms(1-3,5)] by simp_all
    have div: "Suc ?A div n = Suc (?A div n)" using True by (simp add: div_Suc)
    have full: "n + ?A div n * n = Suc ?A" using True div by (metis add.commute div_mult_mod_eq add_0_right mult_Suc)
    have own: "returned_ok n ?s (if fails then - 1 else SB_BARRIER_SERIAL_THREAD) ?A"
      using r(1) True full d(4) by (simp add: returned_ok_def nth_append)
    show ?thesis
      unfolding binv_def
      using r d(1-5) True div own others d(6) by (auto simp: less_Suc_eq)
  next
    case False
    then have r: "res = None" "b' = (bar s)\<lparr>count := of_nat (n - Suc ?A mod n)\<rparr>"
      using arrive_numbers [OF assms(1-3,5)] by simp_all
    have div: "Suc ?A div n = ?A div n" using False by (simp add: div_Suc)
    show ?thesis
      unfolding binv_def
      using r d(1-5) False div others [where os = "[]"] d(6) by (auto simp: less_Suc_eq)
  qed
qed

lemma binv_wake:
  assumes "binv n s" "0 < n" "threads s i = Waiting sn k" "barrier_wake sn (bar s) = Some r"
  shows "binv n (s\<lparr>threads := (threads s)(i := Returning r k)\<rparr>)"
proof -
  note d = binvD [OF assms(1)]
  have k: "sn = of_nat (k div n)" "k < arrivals s" "Suc k mod n \<noteq> 0" using d(6) [OF assms(3)] by simp_all
  have r: "sn \<noteq> serial (bar s)" "r = (if barrier_error (bar s) then - 1 else 0)"
    using assms(4) by (auto simp: barrier_wake_def split: if_splits)
  have "k div n \<noteq> arrivals s div n" using r(1) k(1) d(3) by auto
  moreover have "k div n \<le> arrivals s div n" using k(2) by (intro div_le_mono) simp
  ultimately have lt: "k div n < arrivals s div n" by simp
  then have "(k div n + 1) * n \<le> arrivals s div n * n" by (intro mult_right_mono) auto
  also have "\<dots> \<le> arrivals s" by simp
  finally have full: "(k div n + 1) * n \<le> arrivals s" .
  have "outcomes s ! (k div n) \<Longrightarrow> barrier_error (bar s)" using lt d(4,5) by (metis nth_mem)
  then have own: "returned_ok n s r k" using full r(2) k(3) d(5) by (auto simp: returned_ok_def)
  have eq: "returned_ok n (s\<lparr>threads := t\<rparr>) r' k' = returned_ok n s r' k'" for t r' k' by (simp add: returned_ok_def)
  show ?thesis
    unfolding binv_def using d own by (auto simp: eq)
qed

lemma binv_step: "bstep s s' \<Longrightarrow> 0 < n \<Longrightarrow> n < 2 ^ 32 \<Longrightarrow> binv n s \<Longrightarrow> binv n s'"
proof (induction rule: bstep.induct)
  case (last s i fails r b')
  then show ?case using binv_arrive [of n s i fails "Some r" b'] by simp
next
  case (wait s i fails b')
  then show ?case using binv_arrive [of n s i fails None b'] by simp
next
  case (wake s i sn k r)
  then show ?case by (intro binv_wake)
next
  case (leave s i r k)
  have eq: "returned_ok n (s\<lparr>threads := t\<rparr>) r' k' = returned_ok n s r' k'" for t r' k' by (simp add: returned_ok_def)
  show ?case using binvD [OF leave(4)] unfolding binv_def by (auto simp: eq)
qed

lemma binv_reach: "bstep\<^sup>*\<^sup>* s s' \<Longrightarrow> 0 < n \<Longrightarrow> n < 2 ^ 32 \<Longrightarrow> binv n s \<Longrightarrow> binv n s'"
  by (induction rule: rtranclp_induct) (auto intro: binv_step)

lemma of_nat_u32_neq:
  assumes "a < b" "b - a < 2 ^ 32"
  shows "(of_nat a :: u32) \<noteq> of_nat b"
proof
  assume "(of_nat a :: u32) = of_nat b"
  then have "(of_nat (b - a) :: u32) = 0" using assms(1) by (simp add: of_nat_diff)
  then have "unat (of_nat (b - a) :: u32) = 0" by simp
  then show False using assms unfolding unat_of_nat by simp
qed

text \<open>
  C6 (safety and liveness).  For a barrier of \<open>n\<close> threads, whatever the order of arrivals and wake-ups: a thread that
  returns was among the \<open>n\<close> arrivals of a complete round; if the callback of its round has failed, it
  gets \<open>-1\<close>; if none has failed so far, the last of its round gets 1 and the others get 0.  A waiting
  thread whose round is complete returns at its next wake-up, unless it has slept for \<open>2\<^sup>3\<^sup>2\<close> rounds.
\<close>

theorem barrier_rounds:
  assumes "sb_barrier_init (of_nat n) ok = Some b" "0 < n" "n < 2 ^ 32" "bstep\<^sup>*\<^sup>* (bstart b) s"
  shows "(\<forall>i r k. threads s i = Returning r k \<longrightarrow>
      (k div n + 1) * n \<le> arrivals s
        \<and> (outcomes s ! (k div n) \<longrightarrow> r = - 1)
        \<and> (True \<notin> set (outcomes s) \<longrightarrow> r = (if Suc k mod n = 0 then SB_BARRIER_SERIAL_THREAD else 0)))
    \<and> (\<forall>i sn k. threads s i = Waiting sn k \<and> (k div n + 1) * n \<le> arrivals s \<and> arrivals s div n - k div n < 2 ^ 32 \<longrightarrow>
        barrier_wake sn (bar s) \<noteq> None)"
proof -
  have inv: "binv n s" by (rule binv_reach [OF assms(4,2,3) binv_start [OF assms(2,1)]])
  have "barrier_wake sn (bar s) \<noteq> None"
    if w: "threads s i = Waiting sn k" and full: "(k div n + 1) * n \<le> arrivals s" and near: "arrivals s div n - k div n < 2 ^ 32" for i sn k
  proof -
    have "k div n + 1 \<le> arrivals s div n" using full assms(2) by (metis div_le_mono div_mult_self_is_m)
    then have "(of_nat (k div n) :: u32) \<noteq> of_nat (arrivals s div n)" using of_nat_u32_neq near by simp
    then show ?thesis using binvD(3,6) [OF inv] w by (auto simp: barrier_wake_def)
  qed
  then show ?thesis using binvD(7) [OF inv] by (auto simp: returned_ok_def)
qed

text \<open>Two threads: the first waits, the second completes the round, the first wakes up.\<close>

theorem barrier_rounds_witness:
  "\<exists>b s. sb_barrier_init (of_nat 2) True = Some b \<and> bstep\<^sup>*\<^sup>* (bstart b) s
     \<and> threads s 0 = Returning 0 0 \<and> (0 div 2 + 1) * 2 \<le> arrivals s
     \<and> 0 = (if Suc 0 mod 2 = 0 then SB_BARRIER_SERIAL_THREAD else 0)"
proof -
  define b :: sb_barrier where "b = \<lparr>count = 2, init_count = 2, serial = 0, barrier_error = False\<rparr>"
  define b1 where "b1 = b\<lparr>count := 1\<rparr>"
  define b2 where "b2 = b\<lparr>serial := 1\<rparr>"
  let ?t1 = "(\<lambda>i. Outside)(0 := Waiting 0 0)"
  let ?s1 = "\<lparr>bar = b1, threads = ?t1, arrivals = 1, outcomes = []\<rparr>"
  let ?s2 = "\<lparr>bar = b2, threads = ?t1(1 := Returning 1 1), arrivals = 2, outcomes = [False]\<rparr>"
  let ?s3 = "?s2\<lparr>threads := (threads ?s2)(0 := Returning 0 0)\<rparr>"
  have i: "sb_barrier_init (of_nat 2) True = Some b" by (simp add: sb_barrier_init_def b_def)
  have "bstep (bstart b) ?s1"
    using bstep.wait [of "bstart b" 0 False b1] by (simp add: bstart_def barrier_arrive_def b_def b1_def)
  moreover have "bstep ?s1 ?s2"
    using bstep.last [of ?s1 1 False 1 b2]
    by (simp add: barrier_arrive_def b_def b1_def b2_def SB_BARRIER_SERIAL_THREAD_def numeral_2_eq_2 Let_def)
  moreover have "bstep ?s2 ?s3"
    using bstep.wake [of ?s2 0 0 0 0] by (simp add: barrier_wake_def b_def b2_def)
  ultimately have r: "bstep\<^sup>*\<^sup>* (bstart b) ?s3" by (meson rtranclp.rtrancl_into_rtrancl rtranclp.rtrancl_refl)
  have t: "threads ?s3 0 = Returning 0 0" by simp
  have n: "(2 :: nat) < 2 ^ 32" by simp
  have "(0 div 2 + 1) * 2 \<le> arrivals ?s3
      \<and> (True \<notin> set (outcomes ?s3) \<longrightarrow> 0 = (if Suc 0 mod 2 = 0 then SB_BARRIER_SERIAL_THREAD else 0))"
    using barrier_rounds [OF i zero_less_numeral n r] t by blast
  then have "(0 div 2 + 1) * 2 \<le> arrivals ?s3 \<and> 0 = (if Suc 0 mod 2 = 0 then SB_BARRIER_SERIAL_THREAD else 0)" by simp
  then show ?thesis using i r t by blast
qed

text \<open>
  Remark.  The error of a round is never cleared: in a later round whose callback succeeds, the last
  thread gets 1 and the others \<open>-1\<close>.
\<close>

lemma barrier_error_sticks:
  assumes "barrier_error b" "barrier_arrive False b = (Some r, b')" "s \<noteq> serial b'"
  shows "r = SB_BARRIER_SERIAL_THREAD \<and> barrier_wake s b' = Some (- 1)"
  using assms by (auto simp: barrier_arrive_def barrier_wake_def Let_def split: if_splits)

section \<open>The prime number test counts the primes\<close>

lemma divisor_loop_prime:
  "2 \<le> l \<Longrightarrow> l \<le> c \<Longrightarrow> (\<forall>d. 2 \<le> d \<and> d < l \<longrightarrow> \<not> d dvd c) \<Longrightarrow>
     (let r = divisor_loop c l in c < r * r) \<longleftrightarrow> is_prime c"
proof (induction c l rule: divisor_loop.induct)
  case (1 c l)
  show ?case
  proof (cases "l * l \<le> c")
    case le: True
    show ?thesis
    proof (cases "c mod l = 0")
      case True
      then have "l dvd c" "l \<noteq> c" using le 1(2) by (auto simp: dvd_eq_mod_eq_0)
      then have "\<not> is_prime c" using 1(2) by (auto simp: is_prime_def)
      then show ?thesis using le True by (subst divisor_loop.simps) simp
    next
      case False
      have "l \<noteq> c" using le 1(2) by auto
      moreover have "\<forall>d. 2 \<le> d \<and> d < l + 1 \<longrightarrow> \<not> d dvd c"
        using 1(4) False by (auto simp: less_Suc_eq dvd_eq_mod_eq_0)
      ultimately have "(let r = divisor_loop c (l + 1) in c < r * r) \<longleftrightarrow> is_prime c"
        using 1(1) [OF le False] 1(2,3) by simp
      then show ?thesis using le False by (subst divisor_loop.simps) simp
    qed
  next
    case False
    have "is_prime c"
    proof (rule ccontr)
      assume "\<not> is_prime c"
      moreover have "1 < c" using 1(2,3) by simp
      ultimately obtain r where r: "is_prime r" "r dvd c" "r * r \<le> c" using least_divisor by blast
      then have "l \<le> r" using 1(4) by (auto simp: is_prime_def not_less [symmetric])
      then have "l * l \<le> r * r" by (intro mult_le_mono)
      then show False using r(3) False by simp
    qed
    then show ?thesis using False by (subst divisor_loop.simps) simp
  qed
qed

text \<open>
  Remark (functional).  An event of the test ends for every limit, and it counts the primes from 3 up to and
  without the limit.
\<close>

theorem cpu_counts_primes:
  "cpu_execute_event max_prime = (card {p. is_prime p \<and> 3 \<le> p \<and> p < max_prime}, 0)"
proof -
  define f :: "nat \<Rightarrow> nat \<Rightarrow> nat" where "f = (\<lambda>c n. let l = divisor_loop c 2 in if l * l > c then n + 1 else n)"
  have f: "f c n = (if is_prime c then n + 1 else n)" if "3 \<le> c" for c n
  proof -
    have "\<forall>d. 2 \<le> d \<and> d < 2 \<longrightarrow> \<not> d dvd c" by linarith
    then show ?thesis using divisor_loop_prime [of 2 c] that by (simp add: f_def Let_def)
  qed
  have "fold f [3..<m] 0 = card {p. is_prime p \<and> 3 \<le> p \<and> p < m}" for m
  proof (induction m)
    case (Suc m)
    have s: "{p. is_prime p \<and> 3 \<le> p \<and> p < Suc m}
        = (if is_prime m \<and> 3 \<le> m then insert m {p. is_prime p \<and> 3 \<le> p \<and> p < m} else {p. is_prime p \<and> 3 \<le> p \<and> p < m})"
      by (auto simp: less_Suc_eq)
    show ?case using Suc f [of m] unfolding s by (cases "3 \<le> m") (auto simp: not_le)
  qed simp
  from this [of max_prime, unfolded f_def]
  show ?thesis by (simp add: cpu_execute_event_def)
qed

section \<open>The limit on the number of events\<close>

text \<open>The calls of all threads in the order of their atomic increments.\<close>

fun more_run :: "(u64 \<times> u64) list \<Rightarrow> globals \<Rightarrow> (more list \<times> globals) option" where
  "more_run [] g = Some ([], g)"
| "more_run ((t, now) # calls) g =
     do {
       (m, g1) \<leftarrow> sb_more_events t now [] g;
       (ms, g2) \<leftarrow> more_run calls g1;
       Some (m # ms, g2)
     }"

lemma more_run_limit:
  assumes "\<not> error_flag g" "max_time_ns g = 0" "g_tx_rate g = 0" "0 < max_events g"
    and "unat (nevents g) + length calls < 2 ^ 64"
  shows "\<exists>g'. more_run calls g = Some
    (map (\<lambda>i. if unat (nevents g) + i < unat (max_events g) then More None else NoMore) [0..<length calls], g')"
  using assms
proof (induction calls arbitrary: g)
  case (Cons c calls)
  obtain t now where c: "c = (t, now)" by (cases c)
  let ?g = "g\<lparr>nevents := nevents g + 1\<rparr>"
  have u: "unat (nevents g + 1) = Suc (unat (nevents g))"
    using Cons.prems(5) unat_add_lem [of "nevents g" "1 :: u64"] by simp
  obtain g' where r: "more_run calls ?g = Some
    (map (\<lambda>i. if unat (nevents ?g) + i < unat (max_events g) then More None else NoMore) [0..<length calls], g')"
    using Cons.IH [of ?g] Cons.prems u by auto
  have m: "sb_more_events t now [] g = Some (if unat (nevents g) < unat (max_events g) then More None else NoMore, ?g)"
    using Cons.prems by (auto simp: sb_more_events_def Let_def word_le_nat_alt)
  have "[0..<Suc (length calls)] = 0 # map Suc [0..<length calls]"
    by (simp add: map_Suc_upt upt_conv_Cons del: upt_Suc)
  then show ?case using m r u by (simp add: c del: upt_Suc)
qed simp

text \<open>
  Remark (bounds).  With a limit of \<open>m\<close> events, of all calls that the threads make exactly the first \<open>m\<close> get an event,
  in whatever order the threads make them.
\<close>

theorem event_limit:
  assumes "\<not> error_flag g" "max_time_ns g = 0" "g_tx_rate g = 0" "0 < max_events g" "nevents g = 0"
    and "length calls < 2 ^ 64"
  shows "\<exists>ms g'. more_run calls g = Some (ms, g')
    \<and> length (filter (\<lambda>m. m = More None) ms) = min (length calls) (unat (max_events g))"
proof -
  obtain g' where r: "more_run calls g = Some
      (map (\<lambda>i. if i < unat (max_events g) then More None else NoMore) [0..<length calls], g')"
    using more_run_limit [of g calls] assms by auto
  have "filter (\<lambda>i. i < k) [0..<m] = [0..<min m k]" for k m :: nat
  proof (induction m)
    case (Suc m)
    show ?case
    proof (cases "m < k")
      case True
      then show ?thesis using Suc by (simp add: min_def)
    next
      case False
      then have "min (Suc m) k = min m k" by simp
      then show ?thesis using Suc False by simp
    qed
  qed simp
  then have "length (filter (\<lambda>m. m = More None) (map (\<lambda>i. if i < unat (max_events g) then More None else NoMore) [0..<length calls]))
      = min (length calls) (unat (max_events g))"
    by (simp add: filter_map o_def if_distrib [of "\<lambda>x. x = More None"] cong: if_cong)
  then show ?thesis using r by blast
qed

theorem event_limit_witness:
  "\<exists>ms g'. more_run [(0, 0), (5, 5), (6, 7)]
       \<lparr>error_flag = False, max_time_ns = 0, max_events = 2, nevents = 0, g_tx_rate = 0, g_concurrency = 0\<rparr> = Some (ms, g')
     \<and> length (filter (\<lambda>m. m = More None) ms) = 2"
proof -
  let ?g = "\<lparr>error_flag = False, max_time_ns = 0, max_events = 2, nevents = 0, g_tx_rate = 0, g_concurrency = 0\<rparr>"
  let ?calls = "[(0, 0), (5, 5), (6, 7)] :: (u64 \<times> u64) list"
  have "min (length ?calls) (unat (max_events ?g)) = 2" by simp
  moreover have "\<exists>ms g'. more_run ?calls ?g = Some (ms, g')
      \<and> length (filter (\<lambda>m. m = More None) ms) = min (length ?calls) (unat (max_events ?g))"
    by (rule event_limit) simp_all
  ultimately show ?thesis by (simp only:)
qed

text \<open>
  Remark.  A thread that finds the queue empty while another thread has just set the error flag leaves the loop
  with a null pointer and reads through it.
\<close>

lemma empty_queue_null_read:
  assumes "\<not> error_flag g" "max_time_ns g = 0" "max_events g = 0" "0 < g_tx_rate g" "taken v = None" "error_now v"
  shows "sb_more_events t now (v # vs) g = Some (NullRead, count_taken NullRead g)"
  using assms by (simp add: sb_more_events_def)

section \<open>Reports tell what happened\<close>

datatype bench_op = BStart nat timespec | BQueue nat u64 | BStop nat timespec

primrec op_thread :: "bench_op \<Rightarrow> nat" where
  "op_thread (BStart i now) = i"
| "op_thread (BQueue i q) = i"
| "op_thread (BStop i now) = i"

text \<open>\<open>BQueue\<close> is the time that a thread stores when it takes an event from the queue.\<close>

primrec bench_step :: "(int \<Rightarrow> int) \<Rightarrow> bench_op \<Rightarrow> bench \<Rightarrow> bench option" where
  "bench_step bucket (BStart i now) b = sb_event_start now i b"
| "bench_step bucket (BQueue i q) b =
     (if i < length (timers b) then Some (b\<lparr>timers := (timers b)[i := (timers b ! i)\<lparr>queue_time := q\<rparr>]\<rparr>) else None)"
| "bench_step bucket (BStop i now) b = sb_event_stop bucket now i b"

text \<open>The abstract run: for every thread the last start, the time in the queue and the times of its events.\<close>

record trace =
  started :: "nat \<Rightarrow> timespec"
  queued :: "nat \<Rightarrow> u64"
  durations :: "nat \<Rightarrow> u64 list"

primrec trace_step :: "bench_op \<Rightarrow> trace \<Rightarrow> trace" where
  "trace_step (BStart i now) a = a\<lparr>started := (started a)(i := now)\<rparr>"
| "trace_step (BQueue i q) a = a\<lparr>queued := (queued a)(i := q)\<rparr>"
| "trace_step (BStop i now) a =
     a\<lparr>durations := (durations a)(i := durations a i @ [TIMESPEC_DIFF now (started a i) + queued a i])\<rparr>"

definition all_durations :: "nat \<Rightarrow> trace \<Rightarrow> u64 list" where
  "all_durations n a = concat (map (durations a) [0..<n])"

definition events_held :: "bench \<Rightarrow> u64" where
  "events_held b = sum_list (map (held (latency_histogram b)) [0..<array_size (latency_histogram b)])"

definition new_events :: "bench \<Rightarrow> u64" where
  "new_events b =
     sb_counters_merge (stat_counters b) (\<lambda>t. 0) SB_CNT_EVENT - last_cumulative_counters (stat_counters b) SB_CNT_EVENT"

definition bench_wf :: "nat \<Rightarrow> bench \<Rightarrow> bool" where
  "bench_wf n b \<longleftrightarrow>
     length (timers b) = n \<and> length (sb_counters (stat_counters b)) = n \<and> 0 < array_size (latency_histogram b)
       \<and> hist_ok (array_size (latency_histogram b)) (latency_histogram b) \<and> \<not> lock (latency_histogram b)"

text \<open>\<open>e0\<close> is the number of events that the histogram held at the start.\<close>

definition bench_rel :: "nat \<Rightarrow> u64 \<Rightarrow> bench \<Rightarrow> trace \<Rightarrow> bool" where
  "bench_rel n e0 b a \<longleftrightarrow>
     bench_wf n b
       \<and> (\<forall>i < n. time_start (timers b ! i) = started a i \<and> queue_time (timers b ! i) = queued a i
                   \<and> timer_holds (timers b ! i) (durations a i))
       \<and> new_events b = of_nat (length (all_durations n a))
       \<and> (percentile b > 0 \<longrightarrow> events_held b = e0 + of_nat (length (all_durations n a)))"

lemma length_all_durations_snoc:
  "i < n \<Longrightarrow> length (all_durations n (a\<lparr>durations := (durations a)(i := durations a i @ [x])\<rparr>)) = Suc (length (all_durations n a))"
proof (induction n)
  case (Suc n)
  have "all_durations (Suc n) c = all_durations n c @ durations c n" for c by (simp add: all_durations_def)
  moreover have "all_durations n (a\<lparr>durations := (durations a)(n := y)\<rparr>) = all_durations n a" for y
    unfolding all_durations_def by (intro arg_cong [of _ _ concat] map_cong) auto
  ultimately show ?case using Suc by (cases "i = n") (simp_all del: fun_upd_apply, simp_all)
qed simp

lemma sum_one: "k < sz \<Longrightarrow> sum_list (map (\<lambda>j. of_nat (count_list [k] j)) [0..<sz]) = (1 :: u64)"
proof (induction sz)
  case (Suc sz)
  show ?case
  proof (cases "k = sz")
    case True
    have "sum_list (map (\<lambda>j. of_nat (count_list [k] j)) [0..<sz]) = sum_list (map (\<lambda>j. 0 :: u64) [0..<sz])"
      using True by (intro arg_cong [of _ _ sum_list] map_cong) auto
    then show ?thesis using True by simp
  next
    case False
    then show ?thesis using Suc by simp
  qed
qed simp

text \<open>The end of an event reaches the histogram, unless percentiles are off.\<close>

lemma update_latency_ok:
  assumes "bench_wf n b"
  obtains b' where "update_latency bucket x i b = Some b'" "bench_wf n b'" "timers b' = timers b"
    "stat_counters b' = stat_counters b" "percentile b' = percentile b" "tx_rate b' = tx_rate b"
    "percentile b > 0 \<Longrightarrow> events_held b' = events_held b + 1"
proof (cases "percentile b > 0")
  case False
  then have "update_latency bucket x i b = Some b" by (simp add: update_latency_def)
  then show thesis by (rule that) (use assms False in simp_all)
next
  case True
  define h where "h = latency_histogram b"
  define sz where "sz = array_size h"
  have h: "hist_ok sz h" "0 < sz" "\<not> lock h" using assms by (simp_all add: bench_wf_def h_def sz_def)
  obtain h' s' where u: "sb_histogram_update bucket (sint x) (rng_state b ! i) h = Some (h', s')" "hist_ok sz h'" "lock h' = lock h"
    "\<And>j. j < sz \<Longrightarrow> held h' j = held h j + of_nat (count_list [nat (clamp sz (bucket (sint x)))] j)"
    using update_ok [OF h(1,2), of bucket "sint x" "rng_state b ! i"] by metis
  have sz': "array_size h' = sz" using u(2) by (simp add: hist_ok_def)
  have "nat (clamp sz (bucket (sint x))) < sz" using clamp_bounds [OF h(2), of "bucket (sint x)"] by linarith
  note one = sum_one [OF this]
  have "sum_list (map (held h') [0..<sz])
      = sum_list (map (\<lambda>j. held h j + of_nat (count_list [nat (clamp sz (bucket (sint x)))] j)) [0..<sz])"
    using u(4) by (intro arg_cong [of _ _ sum_list] map_cong) auto
  then have held: "sum_list (map (held h') [0..<sz]) = sum_list (map (held h) [0..<sz]) + 1"
    using one by (simp add: sum_list_addf)
  let ?b = "b\<lparr>latency_histogram := h', rng_state := (rng_state b)[i := s']\<rparr>"
  have "update_latency bucket x i b = Some ?b" using u(1) True by (simp add: update_latency_def h_def)
  then show thesis
    by (rule that) (use assms h u(2,3) sz' held in \<open>simp_all add: bench_wf_def events_held_def h_def sz_def\<close>)
qed

lemma bench_rel_timer:
  assumes "bench_rel n e0 b a" "i < n"
    and "time_start t = started a' i" "queue_time t = queued a' i" "timer_holds t (durations a' i)"
    and "\<And>j. j \<noteq> i \<Longrightarrow> started a' j = started a j \<and> queued a' j = queued a j \<and> durations a' j = durations a j"
    and "timers b' = (timers b)[i := t]" "bench_wf n b'"
    and "new_events b' = of_nat (length (all_durations n a'))"
    and "percentile b' > 0 \<Longrightarrow> events_held b' = e0 + of_nat (length (all_durations n a'))"
  shows "bench_rel n e0 b' a'"
  using assms unfolding bench_rel_def by (auto simp: nth_list_update bench_wf_def)

lemma sb_counter_inc_ok:
  assumes "i < length (sb_counters c)"
  obtains c' where "sb_counter_inc i SB_CNT_EVENT c = Some c'" "length (sb_counters c') = length (sb_counters c)"
    "last_cumulative_counters c' = last_cumulative_counters c"
    "sb_counters_merge c' (\<lambda>t. 0) SB_CNT_EVENT = sb_counters_merge c (\<lambda>t. 0) SB_CNT_EVENT + 1"
proof -
  obtain c' where c': "sb_counter_inc i SB_CNT_EVENT c = Some c'"
    using assms by (simp add: sb_counter_inc_def sb_counter_add_def sb_counter_val_def)
  show thesis
    by (rule that [OF c']) (use c' merge_add [of i SB_CNT_EVENT 1 c c' SB_CNT_EVENT] in
        \<open>auto simp: sb_counter_inc_def sb_counter_add_def split: Option.bind_splits\<close>)
qed

lemma bench_stop_ok:
  assumes "bench_rel n e0 b a" "i < n"
  shows "\<exists>b'. sb_event_stop bucket now i b = Some b' \<and> bench_rel n e0 b' (trace_step (BStop i now) a)"
proof -
  have wf: "bench_wf n b" using assms(1) by (simp add: bench_rel_def)
  have ti: "time_start (timers b ! i) = started a i" "queue_time (timers b ! i) = queued a i" "timer_holds (timers b ! i) (durations a i)"
    using assms by (simp_all add: bench_rel_def)
  obtain x t where xt: "sb_timer_stop now (timers b ! i) = (x, t)" by (cases "sb_timer_stop now (timers b ! i)")
  have x: "x = TIMESPEC_DIFF now (started a i) + queued a i" using timer_elapsed [of now "timers b ! i"] xt ti by simp
  have t: "time_start t = started a i" "queue_time t = queued a i" "timer_holds t (durations a i @ [x])"
    using xt ti timer_holds_stop [OF ti(3), of now] by (auto simp: sb_timer_stop_def Let_def split: if_splits)
  define b0 where "b0 = b\<lparr>timers := (timers b)[i := t]\<rparr>"
  have wf0: "bench_wf n b0" using wf by (simp add: bench_wf_def b0_def)
  obtain b1 where b1: "update_latency bucket x i b0 = Some b1" "bench_wf n b1" "timers b1 = timers b0"
    "stat_counters b1 = stat_counters b0" "percentile b1 = percentile b0" "tx_rate b1 = tx_rate b0"
    "percentile b0 > 0 \<Longrightarrow> events_held b1 = events_held b0 + 1"
    using update_latency_ok [OF wf0, of bucket x i] by metis
  have "i < length (sb_counters (stat_counters b1))" using b1(2) assms(2) by (simp add: bench_wf_def)
  then obtain c where c: "sb_counter_inc i SB_CNT_EVENT (stat_counters b1) = Some c"
    "length (sb_counters c) = length (sb_counters (stat_counters b1))"
    "last_cumulative_counters c = last_cumulative_counters (stat_counters b1)"
    "sb_counters_merge c (\<lambda>t. 0) SB_CNT_EVENT = sb_counters_merge (stat_counters b1) (\<lambda>t. 0) SB_CNT_EVENT + 1"
    using sb_counter_inc_ok by metis
  define b2 where "b2 = b1\<lparr>stat_counters := c\<rparr>"
  define b' where "b' = (if tx_rate b2 > 0 then b2\<lparr>concurrency := concurrency b2 - 1\<rparr> else b2)"
  have "sb_event_stop bucket now i b = Some b'"
    using xt b1(1) c(1) wf assms(2) by (simp add: sb_event_stop_def b0_def b2_def b'_def bench_wf_def Let_def)
  moreover have "bench_rel n e0 b' (trace_step (BStop i now) a)"
  proof (rule bench_rel_timer [OF assms])
    show "timers b' = (timers b)[i := t]" by (simp add: b'_def b2_def b1(3) b0_def)
    show "bench_wf n b'" using b1(2) c(2) by (simp add: b'_def b2_def bench_wf_def)
    have "new_events b' = new_events b + 1"
      using c(3,4) b1(4) by (simp add: new_events_def b'_def b2_def b0_def)
    then show "new_events b' = of_nat (length (all_durations n (trace_step (BStop i now) a)))"
      using assms(1) length_all_durations_snoc [OF assms(2), of a] by (simp add: bench_rel_def)
    show "events_held b' = e0 + of_nat (length (all_durations n (trace_step (BStop i now) a)))" if "percentile b' > 0"
    proof -
      have p: "percentile b0 > 0" "percentile b > 0" using that b1(5) by (auto simp: b'_def b2_def b0_def split: if_splits)
      have "events_held b' = events_held b + 1"
        using b1(7) [OF p(1)] by (simp add: b'_def b2_def b0_def events_held_def)
      then show ?thesis using assms(1) p(2) length_all_durations_snoc [OF assms(2), of a] by (simp add: bench_rel_def)
    qed
  qed (use t x in simp_all)
  ultimately show ?thesis by blast
qed

lemma bench_step_ok:
  assumes "bench_rel n e0 b a" "op_thread op < n"
  shows "\<exists>b'. bench_step bucket op b = Some b' \<and> bench_rel n e0 b' (trace_step op a)"
proof (cases op)
  case (BStop i now)
  then show ?thesis using bench_stop_ok assms by simp
next
  case (BStart i now)
  have ti: "queue_time (timers b ! i) = queued a i" "timer_holds (timers b ! i) (durations a i)"
    using assms BStart by (simp_all add: bench_rel_def)
  let ?b = "b\<lparr>timers := (timers b)[i := sb_timer_start now (timers b ! i)]\<rparr>"
  have "bench_rel n e0 ?b (trace_step op a)"
    by (rule bench_rel_timer [OF assms(1), of i "sb_timer_start now (timers b ! i)"])
      (use assms BStart ti timer_holds_start [OF ti(2)] in
        \<open>simp_all add: sb_timer_start_def bench_rel_def bench_wf_def all_durations_def new_events_def events_held_def\<close>)
  then show ?thesis using assms BStart by (simp add: sb_event_start_def bench_rel_def bench_wf_def)
next
  case (BQueue i q)
  have ti: "time_start (timers b ! i) = started a i" "timer_holds (timers b ! i) (durations a i)"
    using assms BQueue by (simp_all add: bench_rel_def)
  let ?b = "b\<lparr>timers := (timers b)[i := (timers b ! i)\<lparr>queue_time := q\<rparr>]\<rparr>"
  have "bench_rel n e0 ?b (trace_step op a)"
    by (rule bench_rel_timer [OF assms(1), of i "(timers b ! i)\<lparr>queue_time := q\<rparr>"])
      (use assms BQueue ti in \<open>simp_all add: timer_holds_def bench_rel_def bench_wf_def all_durations_def new_events_def events_held_def\<close>)
  then show ?thesis using assms BQueue by (simp add: bench_rel_def bench_wf_def)
qed

text \<open>The benchmark beside its trace is a machine that keeps the relation and never fails.\<close>

definition joint_step :: "(int \<Rightarrow> int) \<Rightarrow> bench_op \<Rightarrow> bench \<times> trace \<Rightarrow> (bench \<times> trace) option" where
  "joint_step bucket op s = map_option (\<lambda>b. (b, trace_step op (snd s))) (bench_step bucket op (fst s))"

interpretation bm: total_machine "joint_step bucket" "\<lambda>s. bench_rel n e0 (fst s) (snd s)" "\<lambda>op. op_thread op < n" for bucket n e0
proof unfold_locales
  show "bench_rel n e0 (fst s') (snd s')"
    if "bench_rel n e0 (fst s) (snd s)" "op_thread op < n" "joint_step bucket op s = Some s'" for s op s'
    using that bench_step_ok [OF that(1,2), of bucket] by (auto simp: joint_step_def)
  show "joint_step bucket op s \<noteq> None" if "bench_rel n e0 (fst s) (snd s)" "op_thread op < n" for s op
    using that bench_step_ok [OF that, of bucket] by (auto simp: joint_step_def)
qed

lemma joint_run:
  "run_steps (joint_step bucket) ops (b, a) = map_option (\<lambda>b'. (b', fold trace_step ops a)) (run_steps (bench_step bucket) ops b)"
proof (induction ops arbitrary: b a)
  case (Cons op ops)
  then show ?case by (cases "bench_step bucket op b") (simp_all add: joint_step_def)
qed simp

definition trace0 :: "bench \<Rightarrow> trace" where
  "trace0 b = \<lparr>started = (\<lambda>i. time_start (timers b ! i)), queued = (\<lambda>i. queue_time (timers b ! i)), durations = (\<lambda>i. [])\<rparr>"

text \<open>A benchmark whose timers and counters have nothing to report.\<close>

definition fresh :: "nat \<Rightarrow> bench \<Rightarrow> bool" where
  "fresh n b \<longleftrightarrow> bench_wf n b \<and> (\<forall>t \<in> set (timers b). timer_holds t []) \<and> new_events b = 0"

lemma fresh_rel: "fresh n b \<Longrightarrow> bench_rel n (events_held b) b (trace0 b)"
proof -
  have "concat (map (\<lambda>i. []) [0..<n]) = ([] :: u64 list)" by simp
  then show "fresh n b \<Longrightarrow> bench_rel n (events_held b) b (trace0 b)"
    by (auto simp: fresh_def bench_rel_def trace0_def all_durations_def bench_wf_def simp del: concat_eq_Nil_conv)
qed

text \<open>No update by another thread falls into the report.\<close>

definition no_updates :: schedule where
  "no_updates s i = []"

lemma checkpoint_report:
  assumes "bench_wf n b"
  obtains stat b' where "checkpoint now1 now2 no_updates rank b = Some (stat, b')" "fresh n b'" "timers_copy b' = timers b"
    "stat_counts stat SB_CNT_EVENT = new_events b"
proof -
  let ?h = "latency_histogram b"
  have h: "hist_ok (array_size ?h) ?h" "0 < array_size ?h" "\<not> lock ?h" using assms by (simp_all add: bench_wf_def)
  have q: "env_ok (array_size ?h) no_updates" by (simp add: env_ok_def no_updates_def)
  obtain r h' where p: "sb_histogram_get_pct_checkpoint no_updates rank ?h = Some (r, h')" "hist_ok (array_size ?h) h'" "\<not> lock h'"
    using checkpoint_ok [OF h(1) q h(3) refl, of rank] by metis
  obtain cnt c where c: "sb_counters_agg_cumulative (stat_counters b) = (cnt, c)" by (cases "sb_counters_agg_cumulative (stat_counters b)")
  let ?ts = "map sb_timer_checkpoint (timers b)"
  obtain iv ct where t: "sb_timer_current now2 (checkpoint_timer b) = (iv, ct)" by (cases "sb_timer_current now2 (checkpoint_timer b)")
  let ?b = "b\<lparr>stat_counters := c, checkpoint_timer := ct, latency_histogram := h', timers := map snd ?ts, timers_copy := map fst ?ts\<rparr>"
  have "checkpoint now1 now2 no_updates rank b = Some ((report_get_common_stat now1 b cnt)\<lparr>time_interval := iv, latency_pct := r\<rparr>, ?b)"
    using p(1) c t by (simp add: checkpoint_def Let_def)
  moreover have "new_events ?b = 0" "length (sb_counters c) = n" "cnt SB_CNT_EVENT = new_events b"
    using c assms by (auto simp: new_events_def sb_counters_agg_cumulative_def sb_counters_checkpoint_def sb_counters_merge_def bench_wf_def Let_def)
  moreover have "array_size h' = array_size ?h" using p(2) by (simp add: hist_ok_def)
  ultimately show thesis
    by (intro that [of _ ?b]) (use assms h p in
        \<open>auto simp: fresh_def bench_wf_def sb_timer_checkpoint_def timer_holds_reset report_get_common_stat_def o_def\<close>)
qed

text \<open>
  C4 (refinement).  Let \<open>n\<close> threads start and end events in any order, from a benchmark with nothing to report.  The
  run does not fail, and the cumulative report at its end tells the number of events that ended, and
  the least, the largest, the average and the sum of their times, taken over all threads; the histogram
  has counted the same number of events; and after the report there is nothing to report any more.
\<close>

theorem report_true:
  assumes "fresh n b" "\<forall>op \<in> set ops. op_thread op < n"
    and "xs = all_durations n (fold trace_step ops (trace0 b))"
  shows "\<exists>b1 stat b2. run_steps (bench_step bucket) ops b = Some b1
    \<and> report_cumulative now1 now2 no_updates rank b1 = Some (stat, b2) \<and> fresh n b2
    \<and> stat_counts stat SB_CNT_EVENT = of_nat (length xs)
    \<and> (percentile b1 > 0 \<longrightarrow> events_held b1 = events_held b + of_nat (length xs))
    \<and> (xs \<noteq> [] \<and> length xs < 2 ^ 64 \<longrightarrow>
          latency_min stat = Min (set xs) \<and> latency_max stat = Max (set xs)
          \<and> latency_sum stat = sum_list xs \<and> latency_avg stat = sum_list xs div of_nat (length xs))"
proof -
  define a where "a = fold trace_step ops (trace0 b)"
  obtain s where s: "run_steps (joint_step bucket) ops (b, trace0 b) = Some s" "bench_rel n (events_held b) (fst s) (snd s)"
    using bm.run_total [of n "events_held b" "(b, trace0 b)" ops bucket] fresh_rel [OF assms(1)] assms(2) by auto
  then obtain b1 where b1: "run_steps (bench_step bucket) ops b = Some b1" "s = (b1, a)"
    unfolding joint_run a_def by auto
  have rel: "bench_rel n (events_held b) b1 a" using s(2) b1(2) by simp
  then have wf: "bench_wf n b1" by (simp add: bench_rel_def)
  obtain stat b2 where c: "checkpoint now1 now2 no_updates rank b1 = Some (stat, b2)" "fresh n b2" "timers_copy b2 = timers b1"
    "stat_counts stat SB_CNT_EVENT = new_events b1"
    using checkpoint_report [OF wf] by metis
  define t where "t = merge_timers (timers b1)"
  let ?stat = "stat\<lparr>latency_min := sb_timer_min t, latency_max := sb_timer_max t, latency_avg := sb_timer_avg t, latency_sum := sb_timer_sum t\<rparr>"
  have r: "report_cumulative now1 now2 no_updates rank b1 = Some (?stat, b2)" using c(1,3) by (simp add: report_cumulative_def t_def Let_def)
  have "list_all2 timer_holds (timers b1) (map (durations a) [0..<n])"
    using rel wf by (simp add: list_all2_conv_all_nth bench_rel_def bench_wf_def)
  then have t: "timer_holds t xs"
    using tm.merge_all [of "timers b1" _ uninitialised_timer] by (simp add: t_def merge_timers_def assms(3) a_def all_durations_def)
  have n: "new_events b1 = of_nat (length xs)" "percentile b1 > 0 \<longrightarrow> events_held b1 = events_held b + of_nat (length xs)"
    using rel by (simp_all add: bench_rel_def assms(3) a_def)
  show ?thesis
    using b1(1) r c(2,4) n timer_report [OF t] by (intro exI [of _ b1] exI [of _ ?stat] exI [of _ b2]) auto
qed

text \<open>One thread and one event of five nanoseconds.\<close>

definition one_thread :: bench where
  "one_thread =
     \<lparr>timers = [sb_timer_init uninitialised_timer], timers_copy = [], stat_counters = sb_counters_init 1,
      latency_histogram = snd (sb_histogram_init True True 1 \<lparr>cumulative_array = [], cumulative_nevents = 0, temp_array = [],
          interm_slots = [], array_size = 0, lock = True\<rparr>),
      rng_state = [(1, 2)], percentile = 95, tx_rate = 0, concurrency = 0, bench_running = 1,
      exec_timer = uninitialised_timer, intermediate_timer = uninitialised_timer, checkpoint_timer = uninitialised_timer\<rparr>"

theorem report_true_witness:
  "\<exists>b1 stat b2. run_steps (bench_step (\<lambda>v. v)) [BStart 0 \<lparr>tv_sec = 1, tv_nsec = 0\<rparr>, BStop 0 \<lparr>tv_sec = 1, tv_nsec = 5\<rparr>] one_thread = Some b1
    \<and> report_cumulative zero_time zero_time no_updates (\<lambda>n. n) b1 = Some (stat, b2) \<and> fresh 1 b2
    \<and> stat_counts stat SB_CNT_EVENT = 1 \<and> latency_max stat = 5"
proof -
  let ?ops = "[BStart 0 \<lparr>tv_sec = 1, tv_nsec = 0\<rparr>, BStop 0 \<lparr>tv_sec = 1, tv_nsec = 5\<rparr>]"
  let ?xs = "all_durations 1 (fold trace_step ?ops (trace0 one_thread))"
  have f: "fresh 1 one_thread"
    using init_ok(1,2) [OF _ refl, of "\<lparr>cumulative_array = [], cumulative_nevents = 0, temp_array = [],
          interm_slots = [], array_size = 0, lock = True\<rparr>" 1]
    by (simp add: fresh_def one_thread_def bench_wf_def timer_holds_init new_events_def merge_eq_sum sb_counters_init_def)
      (simp add: sb_histogram_init_def)
  have xs: "?xs = [5]"
    by (simp add: all_durations_def trace0_def one_thread_def sb_timer_init_def sb_timer_reset_def TIMESPEC_DIFF_def SEC2NS_def)
  obtain b1 stat b2 where "run_steps (bench_step (\<lambda>v. v)) ?ops one_thread = Some b1"
    "report_cumulative zero_time zero_time no_updates (\<lambda>n. n) b1 = Some (stat, b2)" "fresh 1 b2"
    "stat_counts stat SB_CNT_EVENT = of_nat (length ?xs)"
    "?xs \<noteq> [] \<and> length ?xs < 2 ^ 64 \<longrightarrow>
          latency_min stat = Min (set ?xs) \<and> latency_max stat = Max (set ?xs)
          \<and> latency_sum stat = sum_list ?xs \<and> latency_avg stat = sum_list ?xs div of_nat (length ?xs)"
    using report_true [OF f _ refl, of ?ops "\<lambda>v. v" zero_time zero_time "\<lambda>n. n"] by auto
  then show ?thesis unfolding xs by (intro exI [of _ b1] exI [of _ stat] exI [of _ b2]) simp
qed

text \<open>
  Remark.  On a forced shutdown every timer whose last event took time counts as an unfinished event, and is stopped a
  second time.
\<close>

lemma finished_counts_unfinished:
  assumes "a = (tv_sec now - tv_sec (time_start t)) * 1000000000 + (tv_nsec now - tv_nsec (time_start t))" "0 < a" "a < 2 ^ 64"
  shows "stop_unfinished now' [snd (sb_timer_stop now t)]
    = (1, [snd (sb_timer_stop now' (snd (sb_timer_stop now t)))])"
  using stopped_timer_running [OF assms] by (simp add: stop_unfinished_def)

end
