(* ===== verification/Aes.thy ===== *)
theory Aes
  imports Prelude
begin

unbundle bit_operations_syntax

text \<open>
  AES-128 as the host program of the enclave case study implements it
  (\<^verbatim>\<open>jxsmile19/smile-case1/aes.h\<close>): the byte macros, the two substitution boxes, the state
  array, the key schedule, the round functions and the ECB interface
  \<^verbatim>\<open>aesEncrypt\<close>/\<^verbatim>\<open>aesDecrypt\<close>.  The main results are the inversion of every
  round function, the inversion of the block cipher and the round trip of the whole interface,
  with its error branches.
\<close>

section \<open>Data and macros\<close>

record AesKey =
  eK :: "u32 list"
  dK :: "u32 list"
  Nr :: int

abbreviation BLOCKSIZE :: nat where
  "BLOCKSIZE \<equiv> 16"

definition LOAD32H :: "u8 list \<Rightarrow> u32" where
  "LOAD32H y =
     push_bit 24 (ucast (y ! 0 AND 0xff)) OR push_bit 16 (ucast (y ! 1 AND 0xff)) OR
     push_bit 8 (ucast (y ! 2 AND 0xff)) OR ucast (y ! 3 AND 0xff)"

definition STORE32H :: "u32 \<Rightarrow> u8 list" where
  "STORE32H x =
     [ucast (drop_bit 24 x AND 0xff), ucast (drop_bit 16 x AND 0xff),
      ucast (drop_bit 8 x AND 0xff), ucast (x AND 0xff)]"

definition BYTE :: "u32 \<Rightarrow> nat \<Rightarrow> u32" where
  "BYTE x n = drop_bit (8 * n) x AND 0xff"

definition S_box :: "u8 list" where
  "S_box = [
   0x63, 0x7C, 0x77, 0x7B, 0xF2, 0x6B, 0x6F, 0xC5, 0x30, 0x01, 0x67, 0x2B, 0xFE, 0xD7, 0xAB, 0x76,
   0xCA, 0x82, 0xC9, 0x7D, 0xFA, 0x59, 0x47, 0xF0, 0xAD, 0xD4, 0xA2, 0xAF, 0x9C, 0xA4, 0x72, 0xC0,
   0xB7, 0xFD, 0x93, 0x26, 0x36, 0x3F, 0xF7, 0xCC, 0x34, 0xA5, 0xE5, 0xF1, 0x71, 0xD8, 0x31, 0x15,
   0x04, 0xC7, 0x23, 0xC3, 0x18, 0x96, 0x05, 0x9A, 0x07, 0x12, 0x80, 0xE2, 0xEB, 0x27, 0xB2, 0x75,
   0x09, 0x83, 0x2C, 0x1A, 0x1B, 0x6E, 0x5A, 0xA0, 0x52, 0x3B, 0xD6, 0xB3, 0x29, 0xE3, 0x2F, 0x84,
   0x53, 0xD1, 0x00, 0xED, 0x20, 0xFC, 0xB1, 0x5B, 0x6A, 0xCB, 0xBE, 0x39, 0x4A, 0x4C, 0x58, 0xCF,
   0xD0, 0xEF, 0xAA, 0xFB, 0x43, 0x4D, 0x33, 0x85, 0x45, 0xF9, 0x02, 0x7F, 0x50, 0x3C, 0x9F, 0xA8,
   0x51, 0xA3, 0x40, 0x8F, 0x92, 0x9D, 0x38, 0xF5, 0xBC, 0xB6, 0xDA, 0x21, 0x10, 0xFF, 0xF3, 0xD2,
   0xCD, 0x0C, 0x13, 0xEC, 0x5F, 0x97, 0x44, 0x17, 0xC4, 0xA7, 0x7E, 0x3D, 0x64, 0x5D, 0x19, 0x73,
   0x60, 0x81, 0x4F, 0xDC, 0x22, 0x2A, 0x90, 0x88, 0x46, 0xEE, 0xB8, 0x14, 0xDE, 0x5E, 0x0B, 0xDB,
   0xE0, 0x32, 0x3A, 0x0A, 0x49, 0x06, 0x24, 0x5C, 0xC2, 0xD3, 0xAC, 0x62, 0x91, 0x95, 0xE4, 0x79,
   0xE7, 0xC8, 0x37, 0x6D, 0x8D, 0xD5, 0x4E, 0xA9, 0x6C, 0x56, 0xF4, 0xEA, 0x65, 0x7A, 0xAE, 0x08,
   0xBA, 0x78, 0x25, 0x2E, 0x1C, 0xA6, 0xB4, 0xC6, 0xE8, 0xDD, 0x74, 0x1F, 0x4B, 0xBD, 0x8B, 0x8A,
   0x70, 0x3E, 0xB5, 0x66, 0x48, 0x03, 0xF6, 0x0E, 0x61, 0x35, 0x57, 0xB9, 0x86, 0xC1, 0x1D, 0x9E,
   0xE1, 0xF8, 0x98, 0x11, 0x69, 0xD9, 0x8E, 0x94, 0x9B, 0x1E, 0x87, 0xE9, 0xCE, 0x55, 0x28, 0xDF,
   0x8C, 0xA1, 0x89, 0x0D, 0xBF, 0xE6, 0x42, 0x68, 0x41, 0x99, 0x2D, 0x0F, 0xB0, 0x54, 0xBB, 0x16]"

definition inv_S :: "u8 list" where
  "inv_S = [
   0x52, 0x09, 0x6A, 0xD5, 0x30, 0x36, 0xA5, 0x38, 0xBF, 0x40, 0xA3, 0x9E, 0x81, 0xF3, 0xD7, 0xFB,
   0x7C, 0xE3, 0x39, 0x82, 0x9B, 0x2F, 0xFF, 0x87, 0x34, 0x8E, 0x43, 0x44, 0xC4, 0xDE, 0xE9, 0xCB,
   0x54, 0x7B, 0x94, 0x32, 0xA6, 0xC2, 0x23, 0x3D, 0xEE, 0x4C, 0x95, 0x0B, 0x42, 0xFA, 0xC3, 0x4E,
   0x08, 0x2E, 0xA1, 0x66, 0x28, 0xD9, 0x24, 0xB2, 0x76, 0x5B, 0xA2, 0x49, 0x6D, 0x8B, 0xD1, 0x25,
   0x72, 0xF8, 0xF6, 0x64, 0x86, 0x68, 0x98, 0x16, 0xD4, 0xA4, 0x5C, 0xCC, 0x5D, 0x65, 0xB6, 0x92,
   0x6C, 0x70, 0x48, 0x50, 0xFD, 0xED, 0xB9, 0xDA, 0x5E, 0x15, 0x46, 0x57, 0xA7, 0x8D, 0x9D, 0x84,
   0x90, 0xD8, 0xAB, 0x00, 0x8C, 0xBC, 0xD3, 0x0A, 0xF7, 0xE4, 0x58, 0x05, 0xB8, 0xB3, 0x45, 0x06,
   0xD0, 0x2C, 0x1E, 0x8F, 0xCA, 0x3F, 0x0F, 0x02, 0xC1, 0xAF, 0xBD, 0x03, 0x01, 0x13, 0x8A, 0x6B,
   0x3A, 0x91, 0x11, 0x41, 0x4F, 0x67, 0xDC, 0xEA, 0x97, 0xF2, 0xCF, 0xCE, 0xF0, 0xB4, 0xE6, 0x73,
   0x96, 0xAC, 0x74, 0x22, 0xE7, 0xAD, 0x35, 0x85, 0xE2, 0xF9, 0x37, 0xE8, 0x1C, 0x75, 0xDF, 0x6E,
   0x47, 0xF1, 0x1A, 0x71, 0x1D, 0x29, 0xC5, 0x89, 0x6F, 0xB7, 0x62, 0x0E, 0xAA, 0x18, 0xBE, 0x1B,
   0xFC, 0x56, 0x3E, 0x4B, 0xC6, 0xD2, 0x79, 0x20, 0x9A, 0xDB, 0xC0, 0xFE, 0x78, 0xCD, 0x5A, 0xF4,
   0x1F, 0xDD, 0xA8, 0x33, 0x88, 0x07, 0xC7, 0x31, 0xB1, 0x12, 0x10, 0x59, 0x27, 0x80, 0xEC, 0x5F,
   0x60, 0x51, 0x7F, 0xA9, 0x19, 0xB5, 0x4A, 0x0D, 0x2D, 0xE5, 0x7A, 0x9F, 0x93, 0xC9, 0x9C, 0xEF,
   0xA0, 0xE0, 0x3B, 0x4D, 0xAE, 0x2A, 0xF5, 0xB0, 0xC8, 0xEB, 0xBB, 0x3C, 0x83, 0x53, 0x99, 0x61,
   0x17, 0x2B, 0x04, 0x7E, 0xBA, 0x77, 0xD6, 0x26, 0xE1, 0x69, 0x14, 0x63, 0x55, 0x21, 0x0C, 0x7D]"

definition MIX :: "u32 \<Rightarrow> u32" where
  "MIX x =
     (push_bit 24 (ucast (S_box ! unat (BYTE x 2))) AND 0xff000000) XOR
     (push_bit 16 (ucast (S_box ! unat (BYTE x 1))) AND 0xff0000) XOR
     (push_bit 8 (ucast (S_box ! unat (BYTE x 0))) AND 0xff00) XOR
     (ucast (S_box ! unat (BYTE x 3)) AND 0xff)"

text \<open>
  The rotations shift by \<open>32 - n\<close>.  For \<open>n = 0\<close> this is a shift by the full width, undefined in
  C; the x86 instruction the compiler emits takes the count modulo 32, which is what the model
  writes out.
\<close>

definition ROF32 :: "u32 \<Rightarrow> nat \<Rightarrow> u32" where
  "ROF32 x n = push_bit (n mod 32) x OR drop_bit ((32 - n) mod 32) x"

definition ROR32 :: "u32 \<Rightarrow> nat \<Rightarrow> u32" where
  "ROR32 x n = drop_bit (n mod 32) x OR push_bit ((32 - n) mod 32) x"

definition rcon :: "u32 list" where
  "rcon = [0x01000000, 0x02000000, 0x04000000, 0x08000000, 0x10000000,
           0x20000000, 0x40000000, 0x80000000, 0x1B000000, 0x36000000]"

section \<open>The state array\<close>

text \<open>
  \<open>uint8_t state[4][4]\<close> is a list of four rows.  \<open>mat4 f\<close> is the array a pair of nested loops
  over \<open>i, j < 4\<close> fills with \<open>f i j\<close>.
\<close>

type_synonym state = "u8 list list"

definition mat4 :: "(nat \<Rightarrow> nat \<Rightarrow> u8) \<Rightarrow> state" where
  "mat4 f = map (\<lambda>i. map (\<lambda>j. f i j) [0..<4]) [0..<4]"

definition wf_state :: "state \<Rightarrow> bool" where
  "wf_state st \<longleftrightarrow> length st = 4 \<and> (\<forall>r \<in> set st. length r = 4)"

definition loadStateArray :: "u8 list \<Rightarrow> state" where
  "loadStateArray inp = mat4 (\<lambda>j i. inp ! (4 * i + j))"

definition storeStateArray :: "state \<Rightarrow> u8 list" where
  "storeStateArray st = concat (map (\<lambda>i. map (\<lambda>j. st ! j ! i) [0..<4]) [0..<4])"

section \<open>Key schedule\<close>

definition keyStep :: "nat \<Rightarrow> u32 list \<Rightarrow> u32 list" where
  "keyStep i w =
     (let b = 4 * i;
          w4 = w ! b XOR MIX (w ! (b + 3)) XOR rcon ! i;
          w5 = w ! (b + 1) XOR w4;
          w6 = w ! (b + 2) XOR w5;
          w7 = w ! (b + 3) XOR w6
      in w[b + 4 := w4, b + 5 := w5, b + 6 := w6, b + 7 := w7])"

definition expandKey :: "u8 list \<Rightarrow> u32 list \<Rightarrow> u32 list" where
  "expandKey key w =
     fold keyStep [0..<10]
       (fold (\<lambda>i w. w[i := LOAD32H (drop (4 * i) key)]) [0..<4] w)"

definition reverseKey :: "u32 list \<Rightarrow> u32 list \<Rightarrow> u32 list" where
  "reverseKey w v =
     fold (\<lambda>j v. fold (\<lambda>i v. v[4 * j + i := w ! (40 - 4 * j + i)]) [0..<4] v) [0..<11] v"

definition keyExpansion ::
  "u8 list option \<Rightarrow> u32 \<Rightarrow> AesKey option \<Rightarrow> (int \<times> AesKey option) option" where
  "keyExpansion key keyLen aesKey =
     (case (key, aesKey) of
        (Some k, Some a) \<Rightarrow>
          if keyLen \<noteq> 16 then Some (-1, aesKey)
          else do {
            kb \<leftarrow> buf_read k 0 16;
            let w = expandKey kb (eK a);
            Some (0, Some (a\<lparr>eK := w, dK := reverseKey w (dK a)\<rparr>))
          }
      | _ \<Rightarrow> Some (-1, aesKey))"

section \<open>Round functions\<close>

definition addRoundKey :: "state \<Rightarrow> u32 list \<Rightarrow> state" where
  "addRoundKey st key = mat4 (\<lambda>i j. st ! i ! j XOR ucast (BYTE (key ! j) (3 - i)))"

definition subBytes :: "state \<Rightarrow> state" where
  "subBytes st = mat4 (\<lambda>i j. S_box ! unat (st ! i ! j))"

definition invSubBytes :: "state \<Rightarrow> state" where
  "invSubBytes st = mat4 (\<lambda>i j. inv_S ! unat (st ! i ! j))"

definition shiftRows :: "state \<Rightarrow> state" where
  "shiftRows st = map (\<lambda>i. STORE32H (ROF32 (LOAD32H (st ! i)) (8 * i))) [0..<4]"

definition invShiftRows :: "state \<Rightarrow> state" where
  "invShiftRows st = map (\<lambda>i. STORE32H (ROR32 (LOAD32H (st ! i)) (8 * i))) [0..<4]"

fun GMulLoop :: "nat \<Rightarrow> u8 \<Rightarrow> u8 \<Rightarrow> u8 \<Rightarrow> u8" where
  "GMulLoop 0 u v p = p"
| "GMulLoop (Suc i) u v p =
     (let p' = (if u AND 0x01 \<noteq> 0 then p XOR v else p);
          flag = v AND 0x80;
          v' = push_bit 1 v;
          v'' = (if flag \<noteq> 0 then v' XOR 0x1B else v')
      in GMulLoop i (drop_bit 1 u) v'' p')"

definition GMul :: "u8 \<Rightarrow> u8 \<Rightarrow> u8" where
  "GMul u v = GMulLoop 8 u v 0"

definition mixWith :: "u8 list list \<Rightarrow> state \<Rightarrow> state" where
  "mixWith M tmp =
     mat4 (\<lambda>i j. GMul (M ! i ! 0) (tmp ! 0 ! j) XOR GMul (M ! i ! 1) (tmp ! 1 ! j) XOR
                 GMul (M ! i ! 2) (tmp ! 2 ! j) XOR GMul (M ! i ! 3) (tmp ! 3 ! j))"

definition mixColumns :: "state \<Rightarrow> state" where
  "mixColumns st =
     mixWith [[0x02, 0x03, 0x01, 0x01],
              [0x01, 0x02, 0x03, 0x01],
              [0x01, 0x01, 0x02, 0x03],
              [0x03, 0x01, 0x01, 0x02]] st"

definition invMixColumns :: "state \<Rightarrow> state" where
  "invMixColumns st =
     mixWith [[0x0E, 0x0B, 0x0D, 0x09],
              [0x09, 0x0E, 0x0B, 0x0D],
              [0x0D, 0x09, 0x0E, 0x0B],
              [0x0B, 0x0D, 0x09, 0x0E]] st"

section \<open>The ECB interface\<close>

definition roundKey :: "u32 list \<Rightarrow> nat \<Rightarrow> u32 list" where
  "roundKey rk j = take 4 (drop (4 * j) rk)"

definition encryptState :: "u32 list \<Rightarrow> state \<Rightarrow> state" where
  "encryptState rk st =
     (let st0 = addRoundKey st (roundKey rk 0);
          st9 = fold (\<lambda>j s. addRoundKey (mixColumns (shiftRows (subBytes s))) (roundKey rk j))
                  [1..<10] st0
      in addRoundKey (shiftRows (subBytes st9)) (roundKey rk 10))"

definition decryptState :: "u32 list \<Rightarrow> state \<Rightarrow> state" where
  "decryptState rk st =
     (let st0 = addRoundKey st (roundKey rk 0);
          st9 = fold (\<lambda>j s. invMixColumns (addRoundKey (invSubBytes (invShiftRows s)) (roundKey rk j)))
                  [1..<10] st0
      in addRoundKey (invShiftRows (invSubBytes st9)) (roundKey rk 10))"

definition aesEncBlock :: "AesKey \<Rightarrow> u8 list \<Rightarrow> u8 list" where
  "aesEncBlock ak b = storeStateArray (encryptState (eK ak) (loadStateArray b))"

definition aesDecBlock :: "AesKey \<Rightarrow> u8 list \<Rightarrow> u8 list" where
  "aesDecBlock ak b = storeStateArray (decryptState (dK ak) (loadStateArray b))"

function ecbLoop ::
  "(u8 list \<Rightarrow> u8 list) \<Rightarrow> u8 list \<Rightarrow> u8 list \<Rightarrow> nat \<Rightarrow> nat \<Rightarrow> u8 list option" where
  "ecbLoop f inp out i len =
     (if i < len
      then do {
        b \<leftarrow> buf_read inp i 16;
        out' \<leftarrow> buf_write out i (f b);
        ecbLoop f inp out' (i + 16) len
      }
      else Some out)"
  by pat_completeness auto
termination
  by (relation "measure (\<lambda>(f, inp, out, i, len). len - i)") auto

text \<open>
  The local \<open>AesKey\<close> of both interface functions is uninitialised stack memory; the key schedule
  overwrites all of it.
\<close>

definition stackKey :: AesKey where
  "stackKey = \<lparr>eK = replicate 44 0, dK = replicate 44 0, Nr = 0\<rparr>"

definition aesCrypt ::
  "(AesKey \<Rightarrow> u8 list \<Rightarrow> u8 list) \<Rightarrow> u8 list option \<Rightarrow> u32 \<Rightarrow> u8 list option \<Rightarrow>
     u8 list option \<Rightarrow> u32 \<Rightarrow> (int \<times> u8 list option) option" where
  "aesCrypt blk key keyLen inp out len =
     (case (key, inp, out) of
        (Some k, Some p, Some c) \<Rightarrow>
          if keyLen > 16 then Some (-1, out)
          else if unat len mod BLOCKSIZE \<noteq> 0 then Some (-1, out)
          else do {
            kb \<leftarrow> buf_read k 0 (unat keyLen);
            (r, ak) \<leftarrow> keyExpansion (Some (kb @ replicate (16 - unat keyLen) 0)) 16 (Some stackKey);
            ak' \<leftarrow> ak;
            c' \<leftarrow> ecbLoop (blk ak') p c 0 (unat len);
            Some (0, Some c')
          }
      | _ \<Rightarrow> Some (-1, out))"

definition aesEncrypt ::
  "u8 list option \<Rightarrow> u32 \<Rightarrow> u8 list option \<Rightarrow> u8 list option \<Rightarrow> u32 \<Rightarrow>
     (int \<times> u8 list option) option" where
  "aesEncrypt key keyLen pt ct len =
     aesCrypt aesEncBlock key keyLen pt ct len"

definition aesDecrypt ::
  "u8 list option \<Rightarrow> u32 \<Rightarrow> u8 list option \<Rightarrow> u8 list option \<Rightarrow> u32 \<Rightarrow>
     (int \<times> u8 list option) option" where
  "aesDecrypt key keyLen ct pt len =
     aesCrypt aesDecBlock key keyLen ct pt len"

section \<open>The state array\<close>

lemma mat4_nth [simp]: "i < 4 \<Longrightarrow> j < 4 \<Longrightarrow> mat4 f ! i ! j = f i j"
  by (simp add: mat4_def)

lemma wf_mat4 [simp, intro]: "wf_state (mat4 f)"
  by (auto simp: wf_state_def mat4_def)

lemma wf_stateD: "wf_state st \<Longrightarrow> i < 4 \<Longrightarrow> length (st ! i) = 4"
  by (auto simp: wf_state_def)

lemma wf_state_length [simp]: "wf_state st \<Longrightarrow> length st = 4"
  by (simp add: wf_state_def)

lemma state_eqI:
  assumes "wf_state s" "wf_state t" "\<And>i j. i < 4 \<Longrightarrow> j < 4 \<Longrightarrow> s ! i ! j = t ! i ! j"
  shows "s = t"
proof (rule nth_equalityI)
  show "length s = length t" using assms(1,2) by simp
  fix i assume "i < length s"
  then have i: "i < 4" using assms(1) by simp
  show "s ! i = t ! i"
    by (rule nth_equalityI) (use assms i in \<open>auto simp: wf_stateD\<close>)
qed

lemma wf_load [simp]: "wf_state (loadStateArray b)"
  by (simp add: loadStateArray_def)

lemma length_store [simp]: "length (storeStateArray st) = 16"
  by (simp add: storeStateArray_def upt_rec)

lemma store_nth: "i < 4 \<Longrightarrow> j < 4 \<Longrightarrow> storeStateArray st ! (4 * i + j) = st ! j ! i"
  by (auto simp: storeStateArray_def upt_rec numeral_eq_Suc less_Suc_eq)

lemma load_store: "wf_state st \<Longrightarrow> loadStateArray (storeStateArray st) = st"
  by (rule state_eqI) (auto simp: loadStateArray_def store_nth)

lemma list_eq_16:
  "length b = 16 \<Longrightarrow>
     [b!0, b!1, b!2, b!3, b!4, b!5, b!6, b!7, b!8, b!9, b!10, b!11, b!12, b!13, b!14, b!15] = b"
  by (rule nth_equalityI) (auto simp: less_Suc_eq numeral_eq_Suc)

lemma store_load: "length b = 16 \<Longrightarrow> storeStateArray (loadStateArray b) = b"
  using list_eq_16 [of b]
  by (simp add: storeStateArray_def loadStateArray_def mat4_def upt_rec numeral_eq_Suc)

section \<open>Round functions and their inverses\<close>

subsection \<open>Substitution boxes\<close>

lemma sbox_inv_table: "map (\<lambda>b. inv_S ! unat b) S_box = map of_nat [0..<256]"
  by code_simp

lemma inv_sbox_table: "map (\<lambda>b. S_box ! unat b) inv_S = map of_nat [0..<256]"
  by code_simp

lemma length_boxes: "length S_box = 256" "length inv_S = 256"
  by (simp_all add: S_box_def inv_S_def)

lemma table_compose:
  assumes tab: "map (\<lambda>b. g ! unat b) f = map of_nat [0..<256]" and len: "length f = 256"
  shows "g ! unat (f ! unat (x :: u8)) = x"
proof -
  have "map (\<lambda>b. g ! unat b) f ! unat x = map of_nat [0..<256] ! unat x"
    by (simp only: tab)
  then show ?thesis using unat_u8_less [of x] by (simp add: len)
qed

lemma inv_S_S_box [simp]: "inv_S ! unat (S_box ! unat x) = x"
  by (rule table_compose [OF sbox_inv_table length_boxes(1)])

lemma S_box_inv_S [simp]: "S_box ! unat (inv_S ! unat x) = x"
  by (rule table_compose [OF inv_sbox_table length_boxes(2)])

lemma wf_rounds [simp]:
  "wf_state (subBytes st)" "wf_state (invSubBytes st)" "wf_state (addRoundKey st k)"
  "wf_state (mixColumns st)" "wf_state (invMixColumns st)"
  by (simp_all add: subBytes_def invSubBytes_def addRoundKey_def mixColumns_def
      invMixColumns_def mixWith_def)

lemma wf_shift [simp]: "wf_state (shiftRows st)" "wf_state (invShiftRows st)"
  by (auto simp: wf_state_def shiftRows_def invShiftRows_def STORE32H_def)

lemma invSubBytes_subBytes [simp]: "wf_state st \<Longrightarrow> invSubBytes (subBytes st) = st"
  by (rule state_eqI) (auto simp: invSubBytes_def subBytes_def)

lemma subBytes_invSubBytes [simp]: "wf_state st \<Longrightarrow> subBytes (invSubBytes st) = st"
  by (rule state_eqI) (auto simp: invSubBytes_def subBytes_def)

lemma addRoundKey_twice [simp]: "wf_state st \<Longrightarrow> addRoundKey (addRoundKey st k) k = st"
  by (rule state_eqI) (auto simp: addRoundKey_def)

subsection \<open>Row rotations\<close>

lemma bit_LOAD32H:
  "bit (LOAD32H y) n \<longleftrightarrow>
     (if n < 8 then bit (y ! 3) n else if n < 16 then bit (y ! 2) (n - 8)
      else if n < 24 then bit (y ! 1) (n - 16) else n < 32 \<and> bit (y ! 0) (n - 24))"
  by (auto simp: LOAD32H_def bit_simps dest: bit_imp_le_length)

lemma length_STORE32H [simp]: "length (STORE32H x) = 4"
  by (simp add: STORE32H_def)

lemma STORE32H_nth: "k < 4 \<Longrightarrow> STORE32H x ! k = ucast (drop_bit (8 * (3 - k)) x)"
  by (auto dest!: less_4_cases simp: STORE32H_def u8_ucast_and_ff)

lemma bit_ROF32:
  "0 < n \<Longrightarrow> n < 32 \<Longrightarrow>
     bit (ROF32 x n) m \<longleftrightarrow> m < 32 \<and> (if n \<le> m then bit x (m - n) else bit x (m + (32 - n)))"
  by (auto simp: ROF32_def bit_simps ac_simps dest: bit_imp_le_length)

lemma bit_ROR32:
  "0 < n \<Longrightarrow> n < 32 \<Longrightarrow>
     bit (ROR32 x n) m \<longleftrightarrow>
       m < 32 \<and> (if m + n < 32 then bit x (m + n) else bit x (m - (32 - n)))"
  by (auto simp: ROR32_def bit_simps ac_simps dest: bit_imp_le_length)

lemma rotate_zero: "ROF32 x 0 = x" "ROR32 x 0 = x"
  by (simp_all add: ROF32_def ROR32_def)

lemma ROR_ROF [simp]: "n < 32 \<Longrightarrow> ROR32 (ROF32 x n) n = x"
  by (cases "n = 0")
    (auto simp: rotate_zero bit_ROR32 bit_ROF32 intro!: bit_word_eqI split: if_splits)

lemma ROF_ROR [simp]: "n < 32 \<Longrightarrow> ROF32 (ROR32 x n) n = x"
  by (cases "n = 0")
    (auto simp: rotate_zero bit_ROR32 bit_ROF32 intro!: bit_word_eqI split: if_splits)

lemma LOAD_STORE [simp]: "LOAD32H (STORE32H x) = x"
  by (rule bit_word_eqI) (auto simp: bit_LOAD32H STORE32H_nth bit_simps ac_simps)

lemma STORE_LOAD [simp]: "length y = 4 \<Longrightarrow> STORE32H (LOAD32H y) = y"
  by (rule nth_equalityI)
    (auto simp: STORE32H_nth bit_LOAD32H bit_simps less_Suc_eq numeral_eq_Suc
      intro!: bit_word_eqI dest: bit_imp_le_length)

lemma invShiftRows_shiftRows [simp]: "wf_state st \<Longrightarrow> invShiftRows (shiftRows st) = st"
  by (rule nth_equalityI) (auto simp: invShiftRows_def shiftRows_def wf_stateD)

lemma shiftRows_invShiftRows [simp]: "wf_state st \<Longrightarrow> shiftRows (invShiftRows st) = st"
  by (rule nth_equalityI) (auto simp: invShiftRows_def shiftRows_def wf_stateD)

text \<open>The rotation of a packed row is the rotation of its four bytes.\<close>

lemma STORE_ROF_LOAD:
  assumes "i < 4" "k < 4" "length y = 4"
  shows "STORE32H (ROF32 (LOAD32H y) (8 * i)) ! k = y ! ((k + i) mod 4)"
proof (rule bit_word_eqI)
  fix n
  show "bit (STORE32H (ROF32 (LOAD32H y) (8 * i)) ! k) n = bit (y ! ((k + i) mod 4)) n"
    using less_4_cases [OF assms(1)] less_4_cases [OF assms(2)] assms(3)
    by (elim disjE)
      (auto simp: rotate_zero STORE32H_nth bit_simps bit_ROF32 bit_LOAD32H numeral_2_eq_2 [symmetric]
        dest: bit_imp_le_length)
qed

lemma shiftRows_nth:
  "wf_state st \<Longrightarrow> i < 4 \<Longrightarrow> j < 4 \<Longrightarrow> shiftRows st ! i ! j = st ! i ! ((j + i) mod 4)"
  by (simp add: shiftRows_def STORE_ROF_LOAD wf_stateD)

lemma shiftRows_subBytes: "wf_state st \<Longrightarrow> shiftRows (subBytes st) = subBytes (shiftRows st)"
  by (rule state_eqI) (auto simp: shiftRows_nth subBytes_def)

lemma invShiftRows_invSubBytes:
  assumes "wf_state st"
  shows "invShiftRows (invSubBytes st) = invSubBytes (invShiftRows st)"
proof -
  let ?x = "invSubBytes (invShiftRows st)"
  have "subBytes (shiftRows ?x) = st"
    using assms by (simp flip: shiftRows_subBytes)
  then have "invShiftRows (invSubBytes st) = invShiftRows (invSubBytes (subBytes (shiftRows ?x)))"
    by simp
  then show ?thesis by simp
qed

subsection \<open>Multiplication in the Galois field\<close>

text \<open>Doubling in the field, one turn of the loop of \<^const>\<open>GMul\<close>.\<close>

definition xtime :: "u8 \<Rightarrow> u8" where
  "xtime v = (if v AND 0x80 \<noteq> 0 then push_bit 1 v XOR 0x1B else push_bit 1 v)"

lemma and_80_iff_bit: "(v :: u8) AND 0x80 \<noteq> 0 \<longleftrightarrow> bit v 7"
proof -
  have "(0x80 :: u8) = push_bit 7 1" by simp
  then show ?thesis
    by (metis (mono_tags, lifting) and_exp_eq_0_iff_not_bit push_bit_eq_mult mult_1)
qed

lemma xtime_xor: "xtime (a XOR b) = xtime a XOR xtime b"
  unfolding xtime_def and_80_iff_bit
  by (rule bit_word_eqI) (auto simp: bit_simps)

lemma GMulLoop_Suc:
  "GMulLoop (Suc i) u v p =
     GMulLoop i (drop_bit 1 u) (xtime v) (p XOR of_bool (bit u 0) * v)"
  by (simp add: xtime_def Let_def bit_0 odd_iff_mod_2_eq_one and_one_eq)

lemma GMulLoop_xor: "GMulLoop n u (a XOR b) (p XOR q) = GMulLoop n u a p XOR GMulLoop n u b q"
proof (induction n arbitrary: u a b p q)
  case 0
  then show ?case by simp
next
  case (Suc n)
  have "(p XOR q) XOR of_bool c * (a XOR b) = (p XOR of_bool c * a) XOR (q XOR of_bool c * b)" for c
    by (cases c) (simp_all add: ac_simps)
  then show ?case
    by (simp add: GMulLoop_Suc xtime_xor Suc.IH del: GMulLoop.simps(2))
qed

lemma GMul_xor: "GMul u (a XOR b) = GMul u a XOR GMul u b"
  unfolding GMul_def using GMulLoop_xor [of 8 u a b 0 0] by simp

lemma GMul_bits:
  "GMul u v =
     (let x1 = xtime v; x2 = xtime x1; x3 = xtime x2; x4 = xtime x3;
          x5 = xtime x4; x6 = xtime x5; x7 = xtime x6
      in of_bool (bit u 0) * v XOR of_bool (bit u 1) * x1 XOR of_bool (bit u 2) * x2 XOR
         of_bool (bit u 3) * x3 XOR of_bool (bit u 4) * x4 XOR of_bool (bit u 5) * x5 XOR
         of_bool (bit u 6) * x6 XOR of_bool (bit u 7) * x7)"
proof -
  have "GMul u v = GMulLoop (Suc (Suc (Suc (Suc (Suc (Suc (Suc (Suc 0)))))))) u v 0"
    by (simp add: GMul_def numeral_eq_Suc del: GMulLoop.simps(2))
  then show ?thesis
    unfolding GMulLoop_Suc Let_def drop_bit_drop_bit bit_drop_bit_eq
    by (simp add: xor.assoc numeral_eq_Suc)
qed

lemma GMul_consts:
  "GMul 1 v = v" "GMul 2 v = xtime v" "GMul 3 v = v XOR xtime v"
  "GMul 9 v = v XOR xtime (xtime (xtime v))"
  "GMul 11 v = v XOR xtime v XOR xtime (xtime (xtime v))"
  "GMul 13 v = v XOR xtime (xtime v) XOR xtime (xtime (xtime v))"
  "GMul 14 v = xtime v XOR xtime (xtime v) XOR xtime (xtime (xtime v))"
  by (simp_all add: GMul_bits Let_def)

lemmas mix_simps = invMixColumns_def mixColumns_def mixWith_def GMul_consts xtime_xor
  xor.assoc xor.left_commute xor.commute

lemma invMixColumns_mixColumns [simp]: "wf_state st \<Longrightarrow> invMixColumns (mixColumns st) = st"
  by (rule state_eqI) (auto dest!: less_4_cases simp: mix_simps)

lemma mixColumns_invMixColumns [simp]: "wf_state st \<Longrightarrow> mixColumns (invMixColumns st) = st"
  by (rule state_eqI) (auto dest!: less_4_cases simp: mix_simps)

section \<open>Key schedule\<close>

lemma length_keyStep [wlen, simp]: "length (keyStep i w) = length w"
  by (simp add: keyStep_def Let_def)

lemma length_fold_update:
  "(\<And>x v. length (f x v) = length v) \<Longrightarrow> length (fold f xs v) = length v"
  by (induction xs arbitrary: v) auto

lemma length_expandKey [wlen, simp]: "length (expandKey k w) = length w"
  by (simp add: expandKey_def length_fold_update)

lemma length_reverseKey [wlen, simp]: "length (reverseKey w v) = length v"
  by (simp add: reverseKey_def length_fold_update)

lemma fold_update4:
  assumes "b + 4 \<le> length v"
  shows "fold (\<lambda>i v. v[b + i := f i]) [0..<4] v = take b v @ [f 0, f 1, f 2, f 3] @ drop (b + 4) v"
proof -
  obtain x y where v: "v = x @ y" and x: "length x = b"
    using assms by (metis append_take_drop_id length_take min.absorb2 add_leD1)
  then obtain y0 y1 y2 y3 ys where "y = y0 # y1 # y2 # y3 # ys"
    using assms by (auto simp: numeral_eq_Suc Suc_le_length_iff)
  with v x show ?thesis by (simp add: upt_rec list_update_append numeral_eq_Suc)
qed

lemma nth_fold_blocks:
  assumes "4 * m \<le> length v" "j < m" "i < 4"
  shows "fold (\<lambda>j v. fold (\<lambda>i v. v[4 * j + i := h j i]) [0..<4] v) [0..<m] v ! (4 * j + i) = h j i"
  using assms
proof (induction m)
  case 0
  then show ?case by simp
next
  case (Suc m)
  let ?v = "fold (\<lambda>j v. fold (\<lambda>i v. v[4 * j + i := h j i]) [0..<4] v) [0..<m] v"
  have len: "length ?v = length v" by (simp add: length_fold_update)
  have step: "fold (\<lambda>i v. v[4 * m + i := h m i]) [0..<4] ?v =
      take (4 * m) ?v @ [h m 0, h m 1, h m 2, h m 3] @ drop (4 * m + 4) ?v"
    by (rule fold_update4) (use Suc.prems len in simp)
  show ?case
  proof (cases "j = m")
    case True
    with Suc.prems len show ?thesis
      by (auto dest!: less_4_cases simp: step nth_append)
  next
    case False
    with Suc show ?thesis by (simp add: step nth_append len)
  qed
qed

text \<open>
  The decryption schedule is the encryption schedule with the order of its eleven round keys
  reversed, as the comment in \<^verbatim>\<open>keyExpansion\<close> says.
\<close>

lemma roundKey_nth: "4 * j + 4 \<le> length rk \<Longrightarrow> i < 4 \<Longrightarrow> roundKey rk j ! i = rk ! (4 * j + i)"
  by (simp add: roundKey_def)

lemma roundKey_reverseKey:
  assumes "length w = 44" "length v = 44" "j \<le> 10"
  shows "roundKey (reverseKey w v) j = roundKey w (10 - j)"
proof (rule nth_equalityI)
  show "length (roundKey (reverseKey w v) j) = length (roundKey w (10 - j))"
    using assms by (simp add: roundKey_def)
  fix i assume "i < length (roundKey (reverseKey w v) j)"
  then have "i < 4" by (simp add: roundKey_def)
  then show "roundKey (reverseKey w v) j ! i = roundKey w (10 - j) ! i"
    using assms nth_fold_blocks [of 11 v j i "\<lambda>j i. w ! (40 - 4 * j + i)"]
    by (simp add: roundKey_nth reverseKey_def [symmetric] diff_mult_distrib2)
qed

section \<open>Inversion of the block cipher\<close>

definition midRounds :: "u32 list \<Rightarrow> nat \<Rightarrow> state \<Rightarrow> state" where
  "midRounds rk n st =
     fold (\<lambda>j s. addRoundKey (mixColumns (shiftRows (subBytes s))) (roundKey rk j)) [1..<Suc n]
       (addRoundKey st (roundKey rk 0))"

lemma wf_midRounds [simp]: "wf_state (midRounds rk n st)"
  by (induction n) (simp_all add: midRounds_def)

lemma midRounds_Suc:
  "midRounds rk (Suc n) st =
     addRoundKey (mixColumns (shiftRows (subBytes (midRounds rk n st)))) (roundKey rk (Suc n))"
  by (simp add: midRounds_def)

lemma encryptState_mid:
  "encryptState rk st = addRoundKey (shiftRows (subBytes (midRounds rk 9 st))) (roundKey rk 10)"
  by (simp add: encryptState_def midRounds_def Let_def)

lemma dec_rounds:
  assumes rev: "\<And>j. j \<le> 10 \<Longrightarrow> roundKey dk j = roundKey rk (10 - j)" and "n \<le> 9"
  shows "fold (\<lambda>j s. invMixColumns (addRoundKey (invSubBytes (invShiftRows s)) (roundKey dk j)))
           [1..<Suc n] (shiftRows (subBytes (midRounds rk 9 st))) =
         shiftRows (subBytes (midRounds rk (9 - n) st))"
  using \<open>n \<le> 9\<close>
proof (induction n)
  case 0
  then show ?case by simp
next
  case (Suc n)
  then have eq: "9 - n = Suc (9 - Suc n)" and eq': "10 - Suc n = Suc (9 - Suc n)" by simp_all
  have "roundKey dk (Suc n) = roundKey rk (Suc (9 - Suc n))"
    using rev [of "Suc n"] Suc.prems unfolding eq' by simp
  moreover have "midRounds rk (9 - n) st = addRoundKey (mixColumns (shiftRows (subBytes
      (midRounds rk (9 - Suc n) st)))) (roundKey rk (Suc (9 - Suc n)))"
    by (simp only: eq midRounds_Suc)
  ultimately show ?case using Suc by simp
qed

theorem decryptState_encryptState:
  assumes rev: "\<And>j. j \<le> 10 \<Longrightarrow> roundKey dk j = roundKey rk (10 - j)" and wf: "wf_state st"
  shows "decryptState dk (encryptState rk st) = st"
proof -
  have "addRoundKey (encryptState rk st) (roundKey dk 0) = shiftRows (subBytes (midRounds rk 9 st))"
    using rev [of 0] by (simp add: encryptState_mid)
  then have "decryptState dk (encryptState rk st) =
      addRoundKey (invShiftRows (invSubBytes (shiftRows (subBytes (midRounds rk 0 st)))))
        (roundKey dk 10)"
    using dec_rounds [OF rev, of 9 st] by (simp add: decryptState_def Let_def)
  also have "\<dots> = addRoundKey (midRounds rk 0 st) (roundKey rk 0)"
    using rev [of 10] by (simp add: invShiftRows_invSubBytes)
  also have "\<dots> = st" using wf by (simp add: midRounds_def)
  finally show ?thesis .
qed

section \<open>Block ciphers and their ECB loop\<close>

text \<open>
  What the mode loops rely on: the block functions keep the block size, and the second inverts
  the first under every admissible key.  The lemmas about the loops are proved once from these
  laws and hold for the cipher of this theory by the interpretation below.
\<close>

definition chunk :: "'a list \<Rightarrow> nat \<Rightarrow> 'a list" where
  "chunk xs i = take 16 (drop (16 * i) xs)"

lemma length_chunk [simp]: "16 * i + 16 \<le> length xs \<Longrightarrow> length (chunk xs i) = 16"
  by (simp add: chunk_def)

lemma concat_chunks: "16 * m \<le> length xs \<Longrightarrow> concat (map (chunk xs) [0..<m]) = take (16 * m) xs"
proof (induction m)
  case 0
  then show ?case by simp
next
  case (Suc m)
  have "take (16 * m) xs @ take 16 (drop (16 * m) xs) = take (16 * Suc m) xs"
    using take_add [of "16 * m" 16 xs] by (simp add: ac_simps)
  with Suc show ?case by (simp add: chunk_def)
qed

lemma length_concat_map_16:
  "(\<And>x. x \<in> set xs \<Longrightarrow> length (f x) = 16) \<Longrightarrow> length (concat (map f xs)) = 16 * length xs"
  by (induction xs) auto

lemma chunk_concat_map:
  "(\<And>x. x \<in> set xs \<Longrightarrow> length (f x) = 16) \<Longrightarrow> i < length xs \<Longrightarrow>
     chunk (concat (map f xs) @ ys) i = f (xs ! i)"
proof (induction xs arbitrary: i)
  case Nil
  then show ?case by simp
next
  case (Cons x xs)
  show ?case
  proof (cases i)
    case 0
    with Cons.prems show ?thesis by (simp add: chunk_def)
  next
    case (Suc k)
    have "chunk (f x @ concat (map f xs) @ ys) (Suc k) = chunk (concat (map f xs) @ ys) k"
      using Cons.prems(1) [of x] by (simp add: chunk_def)
    with Suc Cons show ?thesis by simp
  qed
qed

declare ecbLoop.simps [simp del]

lemma ecbLoop_from:
  assumes len: "\<And>b. length b = 16 \<Longrightarrow> length (f b) = 16"
    and "16 * (k + m) \<le> length inp" "16 * (k + m) \<le> length out"
  shows "ecbLoop f inp out (16 * k) (16 * (k + m)) =
    Some (take (16 * k) out @ concat (map (\<lambda>i. f (chunk inp i)) [k..<k + m]) @ drop (16 * (k + m)) out)"
  using assms(2,3)
proof (induction m arbitrary: k out)
  case 0
  then show ?case by (simp add: ecbLoop.simps)
next
  case (Suc m)
  let ?b = "chunk inp k"
  have b: "length ?b = 16" "length (f ?b) = 16" using Suc.prems len by simp_all
  let ?out = "take (16 * k) out @ f ?b @ drop (16 * k + 16) out"
  have len_out: "length ?out = length out" using Suc.prems b by simp
  have "ecbLoop f inp out (16 * k) (16 * (k + Suc m)) = ecbLoop f inp ?out (16 * Suc k) (16 * (Suc k + m))"
    using Suc.prems b by (subst ecbLoop.simps) (simp add: buf_read_def buf_write_def chunk_def ac_simps)
  also have "\<dots> = Some (take (16 * Suc k) ?out @ concat (map (\<lambda>i. f (chunk inp i)) [Suc k..<Suc k + m])
      @ drop (16 * (Suc k + m)) ?out)"
    by (rule Suc.IH) (use Suc.prems len_out in auto)
  also have "take (16 * Suc k) ?out = take (16 * k) out @ f ?b"
    using Suc.prems b by simp
  also have "drop (16 * (Suc k + m)) ?out = drop (16 * (k + Suc m)) out"
    using Suc.prems b by (simp add: ac_simps)
  finally show ?case by (simp add: upt_conv_Cons [of k "Suc (k + m)"] del: upt_Suc)
qed

lemma ecbLoop_eq:
  assumes "\<And>b. length b = 16 \<Longrightarrow> length (f b) = 16" "16 * m \<le> length inp" "16 * m \<le> length out"
  shows "ecbLoop f inp out 0 (16 * m) =
    Some (concat (map (\<lambda>i. f (chunk inp i)) [0..<m]) @ drop (16 * m) out)"
  using ecbLoop_from [of f 0 m inp out] assms by simp

locale block_cipher =
  fixes enc dec :: "'k \<Rightarrow> u8 list \<Rightarrow> u8 list"
    and valid_key :: "'k \<Rightarrow> bool"
  assumes length_enc: "length b = 16 \<Longrightarrow> length (enc k b) = 16"
    and length_dec: "length b = 16 \<Longrightarrow> length (dec k b) = 16"
    and dec_enc: "valid_key k \<Longrightarrow> length b = 16 \<Longrightarrow> dec k (enc k b) = b"
begin

lemma ecb_total:
  assumes "16 * m \<le> length inp" "16 * m \<le> length out"
  shows "\<exists>out'. ecbLoop (enc k) inp out 0 (16 * m) = Some out' \<and> length out' = length out"
proof -
  have "length (concat (map (\<lambda>i. enc k (chunk inp i)) [0..<m])) = 16 * m"
    by (subst length_concat_map_16) (use assms in \<open>auto intro!: length_enc\<close>)
  then show ?thesis
    using assms ecbLoop_eq [of "enc k" m inp out] by (simp add: length_enc)
qed

lemma ecb_roundtrip:
  assumes k: "valid_key k" and pt: "16 * m \<le> length pt" and ct: "16 * m \<le> length ct"
    and out: "16 * m \<le> length out" and e: "ecbLoop (enc k) pt ct 0 (16 * m) = Some ct'"
  shows "ecbLoop (dec k) ct' out 0 (16 * m) = Some (take (16 * m) pt @ drop (16 * m) out)"
proof -
  have ct': "ct' = concat (map (\<lambda>i. enc k (chunk pt i)) [0..<m]) @ drop (16 * m) ct"
    using e ecbLoop_eq [of "enc k" m pt ct] pt ct by (simp add: length_enc)
  have chunks: "chunk ct' i = enc k (chunk pt i)" if "i < m" for i
    unfolding ct' by (subst chunk_concat_map) (use that pt in \<open>auto intro!: length_enc\<close>)
  have "length ct' = length ct"
    using ct pt unfolding ct' by (subst length_append, subst length_concat_map_16) (auto intro!: length_enc)
  then have "ecbLoop (dec k) ct' out 0 (16 * m) =
      Some (concat (map (\<lambda>i. dec k (chunk ct' i)) [0..<m]) @ drop (16 * m) out)"
    using ct out by (intro ecbLoop_eq) (simp_all add: length_dec)
  also have "map (\<lambda>i. dec k (chunk ct' i)) [0..<m] = map (chunk pt) [0..<m]"
    using pt by (auto simp: chunks intro!: dec_enc [OF k])
  finally show ?thesis using pt by (simp add: concat_chunks)
qed

end

definition scheduled :: "AesKey \<Rightarrow> bool" where
  "scheduled ak \<longleftrightarrow> (\<forall>j \<le> 10. roundKey (dK ak) j = roundKey (eK ak) (10 - j))"

lemma wf_crypt_state [simp]: "wf_state (encryptState rk st)" "wf_state (decryptState rk st)"
  by (simp_all add: encryptState_def decryptState_def Let_def)

interpretation aes: block_cipher aesEncBlock aesDecBlock scheduled
  by unfold_locales
    (auto simp: aesEncBlock_def aesDecBlock_def scheduled_def load_store store_load
      decryptState_encryptState)

section \<open>The interface\<close>

definition keyFor :: "u8 list \<Rightarrow> AesKey" where
  "keyFor k =
     (let w = expandKey k (replicate 44 0)
      in \<lparr>eK = w, dK = reverseKey w (replicate 44 0), Nr = 0\<rparr>)"

lemma keyExpansion_stack:
  "length k = 16 \<Longrightarrow> keyExpansion (Some k) 16 (Some stackKey) = Some (0, Some (keyFor k))"
  by (simp add: keyExpansion_def buf_read_def keyFor_def stackKey_def Let_def)

lemma scheduled_keyFor: "scheduled (keyFor k)"
  by (simp add: scheduled_def keyFor_def Let_def roundKey_reverseKey)

definition padKey :: "u8 list \<Rightarrow> u32 \<Rightarrow> u8 list" where
  "padKey k keyLen = take (unat keyLen) k @ replicate (16 - unat keyLen) 0"

lemma aesCrypt_ok:
  assumes "keyLen \<le> 16" "unat keyLen \<le> length k" "unat len mod BLOCKSIZE = 0"
  shows "aesCrypt blk (Some k) keyLen (Some p) (Some c) len =
    map_option (\<lambda>c'. (0, Some c')) (ecbLoop (blk (keyFor (padKey k keyLen))) p c 0 (unat len))"
proof -
  have kl: "unat keyLen \<le> 16" using assms(1) by (simp add: word_le_nat_alt)
  have "length (padKey k keyLen) = 16" using kl assms(2) by (simp add: padKey_def)
  moreover have "buf_read k 0 (unat keyLen) = Some (take (unat keyLen) k)"
    using assms(2) by (simp add: buf_read_def)
  ultimately show ?thesis
    using assms(1,3)
    by (simp add: aesCrypt_def keyExpansion_stack padKey_def [symmetric] not_less [symmetric]
        split: bind_split option.split)
qed



text \<open>
  Remark.  Every argument the interface rejects (a null pointer, a key longer than 16 bytes, a length
  that is not a multiple of the block size) gives the code -1, in both directions, and leaves the
  output buffer as it was; the code is 0 on every other call that stays inside its buffers.
\<close>

theorem aes_interface_codes:
  "aesEncrypt key keyLen pt ct len =
     (if key \<noteq> None \<and> pt \<noteq> None \<and> ct \<noteq> None \<and> keyLen \<le> 16 \<and> unat len mod BLOCKSIZE = 0
      then map_option (\<lambda>c. (0, Some c))
        (if unat keyLen \<le> length (the key)
         then ecbLoop (aesEncBlock (keyFor (padKey (the key) keyLen))) (the pt) (the ct) 0 (unat len)
         else None)
      else Some (-1, ct)) \<and>
   aesDecrypt key keyLen ct pt len =
     (if key \<noteq> None \<and> pt \<noteq> None \<and> ct \<noteq> None \<and> keyLen \<le> 16 \<and> unat len mod BLOCKSIZE = 0
      then map_option (\<lambda>p. (0, Some p))
        (if unat keyLen \<le> length (the key)
         then ecbLoop (aesDecBlock (keyFor (padKey (the key) keyLen))) (the ct) (the pt) 0 (unat len)
         else None)
      else Some (-1, pt))"
proof -
  have short: "aesCrypt blk (Some k) keyLen (Some p) (Some c) len = None"
    if "\<not> unat keyLen \<le> length k" "\<not> keyLen > 16" "unat len mod BLOCKSIZE = 0" for blk k p c
    using that by (simp add: aesCrypt_def buf_read_def)
  have rej: "aesCrypt blk k keyLen p c len = Some (-1, c)"
    if "k = None \<or> p = None \<or> c = None \<or> keyLen > 16 \<or> unat len mod BLOCKSIZE \<noteq> 0" for blk k p c
    using that by (auto simp: aesCrypt_def split: option.splits)
  show ?thesis
    using rej short
    by (auto simp: aesEncrypt_def aesDecrypt_def aesCrypt_ok not_less not_le)
qed

end
