(* ===== verification/Enclave.thy ===== *)
theory Enclave
  imports Aes
begin

unbundle bit_operations_syntax

text \<open>
  The enclave of the first case study (\<^verbatim>\<open>Enclave/encl.c\<close>, \<^verbatim>\<open>Enclave/Crypto.c\<close>): the entry point that
  records which page is to be inspected, the worker that the anchor reaches and that hands the page
  out encrypted, key transport, messages, exception hooks and the return-oriented payload.
  The cryptographic calls, the report instruction and the memory of the process belong to the SDK
  and the processor: they are fields of the parameter \<open>sdk\<close>.  Failed allocations make the code write
  through a null pointer, which is undefined.  Line ends of printed texts are left out.
\<close>

section \<open>State\<close>

record enclave =
  flag_s :: nat
  datapoint :: u64
  e_data_page :: u64
  e_code_pt :: u64
  heap_free :: nat
  ocalls :: "string list"

record 'pk sdk =
  ctr_encrypt :: "u8 list \<Rightarrow> u8 list \<Rightarrow> u8 list \<Rightarrow> nat \<Rightarrow> u8 list"
  ctr_decrypt :: "u8 list \<Rightarrow> u8 list \<Rightarrow> u8 list \<Rightarrow> nat \<Rightarrow> u8 list"
  gcm_encrypt :: "u8 list \<Rightarrow> u8 list \<Rightarrow> u8 list \<Rightarrow> u8 list \<times> u8 list"
  gcm_decrypt :: "u8 list \<Rightarrow> u8 list \<Rightarrow> u8 list \<Rightarrow> u8 list \<Rightarrow> u8 list option"
  create_rsa_pub1_key :: "u8 list \<Rightarrow> u8 list \<Rightarrow> 'pk option"
  rsa_pub_encrypt :: "'pk option \<Rightarrow> u8 list \<Rightarrow> bool \<times> u8 list"
  ereport :: "u64 list \<Rightarrow> u64 list \<Rightarrow> nat \<times> u64 list"
  read_rand :: "nat \<Rightarrow> u8 list"
  emem :: "u64 \<Rightarrow> nat \<Rightarrow> u8 list option"
  array_addr :: u64
  datapoint_addr :: u64
  function_addr :: "string \<Rightarrow> u64"
  BUFSIZ :: nat
  register_limit :: nat

definition p_key :: "u8 list" where
  "p_key = [0, 7, 7, 8, 3, 1, 4, 4, 9, 8, 0, 0, 0, 0, 0, 0]"

definition aes_key :: "u8 list" where
  "aes_key = [0, 1, 2, 3, 4, 5, 6, 7, 8, 9, 10, 11, 12, 13, 14, 15]"

text \<open>The string literal with its terminating zero.\<close>

definition p_private1 :: "u8 list" where
  "p_private1 = map of_char
     (''30819f300d06092a864886f70d010101050003818d0030818902818100b66a25e6a9d5f68d4150841'' @
      ''af519149ae59276f1cc2444c7befbe8aa140f584bc2e8b8c67745866c7ed07ecfab131151c7aa9627'' @
      ''26bf5f29c30216240c0864802117d18ec92dff662d1cf1c68b4b7f83b0b763e7c75393c3a82a14181'' @
      ''3aca8b26388cb09df858e7cb2aaeee07bdcf55df336331aadf2d5f707fe203c6a5681710203010001'') @ [0]"

definition malloc :: "nat \<Rightarrow> enclave \<Rightarrow> enclave option" where
  "malloc n st = (if n \<le> heap_free st then Some (st\<lparr>heap_free := heap_free st - n\<rparr>) else None)"

definition mfree :: "nat \<Rightarrow> enclave \<Rightarrow> enclave" where
  "mfree n st = st\<lparr>heap_free := heap_free st + n\<rparr>"

definition ocall_print :: "string \<Rightarrow> enclave \<Rightarrow> enclave" where
  "ocall_print s st = st\<lparr>ocalls := ocalls st @ [s]\<rparr>"

section \<open>Addresses\<close>

definition encl_get_a_addr :: "'pk sdk \<Rightarrow> u64" where
  "encl_get_a_addr e = array_addr e + 100 * 4"

definition encl_get_code_addr :: "'pk sdk \<Rightarrow> u64" where
  "encl_get_code_addr e = function_addr e ''page_aligned_func''"

text \<open>The element \<open>array[100]\<close> of an array whose first element only is initialised.\<close>

definition enclave_dummy_call :: "int list \<Rightarrow> int option" where
  "enclave_dummy_call arr = map_option hd (buf_read arr 100 1)"

definition initial_array :: "int list" where
  "initial_array = 0xaa # replicate 4095 0"

section \<open>Exception hooks\<close>

datatype search = CONTINUE_SEARCH | CONTINUE_EXECUTION

definition exception_handler :: "nat \<Rightarrow> nat \<Rightarrow> search" where
  "exception_handler exc_type exc_vector = CONTINUE_SEARCH"

text \<open>
  \<open>left\<close> is the number of handlers that can still be registered.  Each successful registration calls
  the function again; the division at the end is undefined when it is executed.
\<close>

partial_function (option) create_exception :: "nat \<Rightarrow> nat \<Rightarrow> enclave \<Rightarrow> (nat \<times> enclave) option" where
  "create_exception flag left st =
     do {
       (left1, st1) \<leftarrow>
         (if 0 < left
          then let s = ocall_print ''sub first registered'' (st\<lparr>flag_s := flag_s st + 1\<rparr>)
               in create_exception (flag_s s) (left - 1) s
          else Some (left, ocall_print '' sub not registered'' st));
       (left2, st2) \<leftarrow>
         (if 0 < left1
          then let s = ocall_print ''sub last registered'' (st1\<lparr>flag_s := flag_s st1 + 1\<rparr>)
               in create_exception (flag_s s) (left1 - 1) s
          else Some (left1, ocall_print ''not registered'' st1));
       if flag < 20 then None else Some (left2, st2)
     }"

definition add_hooks_for_exception :: "'pk sdk \<Rightarrow> enclave \<Rightarrow> (nat \<times> enclave) option" where
  "add_hooks_for_exception e st =
     do {
       (left1, st1) \<leftarrow>
         (if 0 < register_limit e
          then let s = ocall_print ''first exception registered'' (st\<lparr>flag_s := flag_s st + 1\<rparr>)
               in create_exception (flag_s s) (register_limit e - 1) s
          else Some (register_limit e, ocall_print ''first exception not registered'' st));
       if 0 < left1
       then create_exception (flag_s st1) (left1 - 1) (ocall_print ''last registered'' st1)
       else Some (left1, ocall_print ''last not registered'' st1)
     }"

section \<open>Printing and raw memory\<close>

definition encl_printf :: "'pk sdk \<Rightarrow> string \<Rightarrow> enclave \<Rightarrow> int \<times> enclave" where
  "encl_printf e formatted st =
     (let buf = take (BUFSIZ e - 1) formatted
      in (int (length buf) + 1, ocall_print buf st))"

text \<open>
  The address of the save area is computed by adding an integer to a pointer to words.  The lock
  variable is read before it is set: \<open>lock0\<close> is the value it happens to have.
\<close>

definition ssa_address :: "u64 \<Rightarrow> u64" where
  "ssa_address tcs = 4096 + 8 * tcs"

definition redirect_mem_to_noepc ::
  "'pk sdk \<Rightarrow> u64 \<Rightarrow> u64 \<Rightarrow> u8 list \<Rightarrow> (u64 \<Rightarrow> u8 list) \<Rightarrow> (u8 list \<times> (u64 \<Rightarrow> u8 list)) option" where
  "redirect_mem_to_noepc e lock0 tcs dst blocks =
     do {
       src \<leftarrow> buf_read dst 0 3916;
       ssa \<leftarrow> buf_write (blocks (ssa_address tcs)) 0 src;
       let lock = lock0 + 516;
       if lock = 1
       then do {
         back \<leftarrow> buf_read ssa 0 3916;
         d1 \<leftarrow> buf_write dst 0 back;
         code \<leftarrow> emem e (function_addr e ''redirect_mem_to_noepc'' AND 0xFFFFFFFFFFFFF000) 4096;
         d2 \<leftarrow> buf_write d1 0 code;
         Some (d2, blocks(ssa_address tcs := ssa))
       }
       else Some (dst, blocks(ssa_address tcs := ssa))
     }"

definition print_data_from_v :: "'pk sdk \<Rightarrow> u64 list \<Rightarrow> enclave \<Rightarrow> u64 list option" where
  "print_data_from_v e adrs st = buf_write adrs 0 [datapoint_addr e, datapoint st]"

definition print_code_from_v :: "'pk sdk \<Rightarrow> (u64 \<Rightarrow> u64) \<Rightarrow> u64 list \<Rightarrow> u64 list option" where
  "print_code_from_v e word_at adrs =
     (let p = function_addr e ''print_data_from_v'' + 900 * 8 in buf_write adrs 0 [p, word_at p])"

section \<open>Key transport\<close>

definition htonl :: "u32 \<Rightarrow> u32" where
  "htonl x =
     push_bit 24 (x AND 0x000000ff) OR push_bit 8 (x AND 0x0000ff00) OR
     drop_bit 8 (x AND 0x00ff0000) OR drop_bit 24 (x AND 0xff000000)"

definition le_bytes :: "u32 \<Rightarrow> u8 list" where
  "le_bytes x = map (\<lambda>i. ucast (drop_bit (8 * i) x)) [0..<4]"

definition rsa_exponent :: "u8 \<Rightarrow> u32" where
  "rsa_exponent b = htonl (ucast b + 384)"

text \<open>The eight blocks that the code allocates and frees without using them are left out.\<close>

definition manage_rsa :: "'pk sdk \<Rightarrow> u8 list \<Rightarrow> u8 list \<Rightarrow> u8 list \<Rightarrow> u8 list option" where
  "manage_rsa e key p_key1 dst =
     do {
       first \<leftarrow> buf_read key 0 1;
       n \<leftarrow> buf_read key 0 384;
       let le_n = rev n;
       let pubkey = create_rsa_pub1_key e le_n (le_bytes (rsa_exponent (hd first)));
       dst1 \<leftarrow> (if pubkey = None then buf_write dst 0 (take 16 le_n) else Some dst);
       p_data \<leftarrow> buf_read p_key1 0 8;
       let (ok, enc) = rsa_pub_encrypt e pubkey p_data;
       p_out \<leftarrow> buf_write (1 # replicate 383 0) 0 enc;
       if \<not> ok then Option.bind (buf_read p_out 0 30) (buf_write dst1 0)
       else Option.bind (buf_read p_out 0 512) (buf_write dst1 0)
     }"

section \<open>Handing a page out\<close>

definition p_ctr :: "u8 list" where
  "p_ctr = [4, 3, 2, 1, 0, 0, 0, 0, 0, 0, 0, 0, 0, 0, 0, 0]"

definition create_secret1 :: "'pk sdk \<Rightarrow> u8 list \<Rightarrow> u8 list \<Rightarrow> u8 list \<Rightarrow> u8 list option" where
  "create_secret1 e src dst key =
     Option.bind (buf_read src 0 0x1000) (\<lambda>s. buf_write dst 0 (ctr_encrypt e key s p_ctr 16))"

definition create_secret :: "'pk sdk \<Rightarrow> u8 list \<Rightarrow> u8 list \<Rightarrow> u8 list option" where
  "create_secret e src dst =
     Option.bind (buf_read src 0 0x1000) (\<lambda>s. buf_write dst 0 (ctr_encrypt e p_key s p_ctr 16))"

definition process_secret :: "'pk sdk \<Rightarrow> u8 list \<Rightarrow> u8 list \<Rightarrow> u8 list option" where
  "process_secret e secret plaintxt =
     Option.bind (buf_read secret 0 0x1000) (\<lambda>s. buf_write plaintxt 0 (ctr_decrypt e p_key s p_ctr 16))"

text \<open>The copy of the code page is made and never used, and its block is never freed.\<close>

definition one_time_dump_memory :: "'pk sdk \<Rightarrow> nat \<Rightarrow> u8 list \<Rightarrow> enclave \<Rightarrow> (u8 list \<times> enclave) option" where
  "one_time_dump_memory e counter dst st =
     do {
       st1 \<leftarrow> malloc 0x1000 st;
       st2 \<leftarrow> malloc 0x1000 st1;
       data \<leftarrow> emem e (e_data_page st2) 0x1000;
       code \<leftarrow> emem e (e_code_pt st2) 0x1000;
       secret \<leftarrow> create_secret e data (replicate 0x10000 0);
       out \<leftarrow> buf_read secret 0 0x1000;
       dst' \<leftarrow> buf_write dst 0 out;
       Some (dst', mfree 0x1000 st2)
     }"

fun encl_worker_loop :: "'pk sdk \<Rightarrow> nat \<Rightarrow> nat \<Rightarrow> u8 list \<Rightarrow> enclave \<Rightarrow> (u8 list \<times> enclave) option" where
  "encl_worker_loop e i 0 dst st = Some (dst, st)"
| "encl_worker_loop e i (Suc n) dst st =
     Option.bind (one_time_dump_memory e i dst st) (\<lambda>(d, s). encl_worker_loop e (i + 1) n d s)"

definition encl_worker :: "'pk sdk \<Rightarrow> u8 list \<Rightarrow> enclave \<Rightarrow> (u8 list \<times> enclave) option" where
  "encl_worker e dst st = encl_worker_loop e 0 1 dst st"

section \<open>Reports\<close>

definition sgx_create_report_define :: "'pk sdk \<Rightarrow> u64 list \<Rightarrow> (bool \<times> u64 list) option" where
  "sgx_create_report_define e report =
     (let (failed, tmp) = ereport e (replicate 64 0) (replicate 16 0)
      in if failed = 0
         then Option.bind (buf_read tmp 0 (432 div 8)) (\<lambda>ws. map_option (Pair True) (buf_write report 0 ws))
         else Some (False, report))"

text \<open>The two time stamps are never set: \<open>t1\<close> and \<open>t2\<close> are the values they happen to have.\<close>

definition report_id :: "u64 \<Rightarrow> u64 \<Rightarrow> u64" where
  "report_id t1 t2 = (t2 - t1) div 3"

text \<open>The report is made and dropped; \<open>dst\<close> is not written.\<close>

definition encl_addint :: "u64 \<Rightarrow> u64 \<Rightarrow> u64 list \<Rightarrow> enclave \<Rightarrow> int \<times> u64 list \<times> enclave" where
  "encl_addint c b dst st = (sint (ucast (c + b) :: u32), dst, st\<lparr>e_data_page := c, e_code_pt := b\<rparr>)"

section \<open>Messages\<close>

definition decryptMessage :: "'pk sdk \<Rightarrow> u8 list \<Rightarrow> u8 list \<Rightarrow> nat \<Rightarrow> u8 list option" where
  "decryptMessage e encMessageIn decMessageOut lenOut =
     do {
       tag \<leftarrow> buf_read encMessageIn 0 16;
       iv \<leftarrow> buf_read encMessageIn 16 12;
       ct \<leftarrow> buf_read encMessageIn 28 lenOut;
       p_dst \<leftarrow> (case gcm_decrypt e aes_key iv ct tag of
                  None \<Rightarrow> Some (replicate 2048 0)
                | Some pt \<Rightarrow> buf_write (replicate 2048 0) 0 pt);
       out \<leftarrow> buf_read p_dst 0 lenOut;
       buf_write decMessageOut 0 out
     }"

definition encryptMessage :: "'pk sdk \<Rightarrow> u8 list \<Rightarrow> nat \<Rightarrow> u8 list \<Rightarrow> nat \<Rightarrow> u8 list option" where
  "encryptMessage e decMessageIn len encMessageOut lenOut =
     do {
       p1 \<leftarrow> buf_write (replicate 2048 0) 16 (read_rand e 12);
       msg \<leftarrow> buf_read decMessageIn 0 len;
       iv \<leftarrow> buf_read p1 16 12;
       let (ct, tag) = gcm_encrypt e aes_key iv msg;
       p2 \<leftarrow> buf_write p1 28 ct;
       p3 \<leftarrow> buf_write p2 0 tag;
       Some encMessageOut
     }"

section \<open>The return-oriented payload\<close>

datatype reg = RAX | RBX | RDI

datatype insn = POP reg | ADDI reg u64 | LOAD reg reg | RET | ENCLU

definition gadget1 :: "insn list" where
  "gadget1 = [POP RAX, ADDI RAX 5, RET]"

definition gadget2 :: "insn list" where
  "gadget2 = [LOAD RBX RDI, POP RBX, RET]"

definition gadget3 :: "insn list" where
  "gadget3 = [ENCLU]"

definition rop_payload :: "'pk sdk \<Rightarrow> u64 list" where
  "rop_payload e =
     [function_addr e ''gadget1'', 0xFFFFFFFFFFFFFFFF, function_addr e ''gadget2'',
      function_addr e ''attacked'', function_addr e ''gadget3'']"

definition do_eexit_by_rop :: "'pk sdk \<Rightarrow> (u64 list \<Rightarrow> string) \<Rightarrow> enclave \<Rightarrow> enclave" where
  "do_eexit_by_rop e fmt st = snd (encl_printf e (fmt (rop_payload e)) st)"

definition enclave_main :: "'pk sdk \<Rightarrow> (u64 list \<Rightarrow> string) \<Rightarrow> enclave \<Rightarrow> enclave" where
  "enclave_main e fmt st = do_eexit_by_rop e fmt st"

text \<open>
  What the processor does with the gadgets when they are entered at their first instruction: \<open>RET\<close>
  continues at the address on the stack, \<open>ENCLU\<close> leaves the enclave for the address in \<open>RBX\<close> when
  \<open>RAX\<close> is \<open>4\<close> (\<open>EEXIT\<close>).
\<close>

datatype outcome = Exited u64 "reg \<Rightarrow> u64" | Stuck

function exec :: "(u64 \<Rightarrow> insn list option) \<Rightarrow> (u64 \<Rightarrow> u64) \<Rightarrow> insn list \<Rightarrow> u64 list \<Rightarrow> (reg \<Rightarrow> u64) \<Rightarrow> outcome" where
  "exec code m [] stk r = Stuck"
| "exec code m (POP x # ins) stk r =
     (case stk of [] \<Rightarrow> Stuck | v # s \<Rightarrow> exec code m ins s (r(x := v)))"
| "exec code m (ADDI x v # ins) stk r = exec code m ins stk (r(x := r x + v))"
| "exec code m (LOAD x y # ins) stk r = exec code m ins stk (r(y := m (r x)))"
| "exec code m (RET # ins) stk r =
     (case stk of [] \<Rightarrow> Stuck
      | v # s \<Rightarrow> (case code v of None \<Rightarrow> Stuck | Some ins' \<Rightarrow> exec code m ins' s r))"
| "exec code m (ENCLU # ins) stk r = (if r RAX = 4 then Exited (r RBX) r else Stuck)"
  by pat_completeness auto

termination
  by (relation "measures [\<lambda>(_, _, _, stk, _). length stk, \<lambda>(_, _, ins, _, _). length ins]") auto

definition gadget_code :: "'pk sdk \<Rightarrow> u64 \<Rightarrow> insn list option" where
  "gadget_code e a =
     (if a = function_addr e ''gadget1'' then Some gadget1
      else if a = function_addr e ''gadget2'' then Some gadget2
      else if a = function_addr e ''gadget3'' then Some gadget3 else None)"

section \<open>Counter mode\<close>

text \<open>
  What the SDK documents of its counter mode: both directions add a key stream that depends on the
  key, the initial counter, the width of the counter and the length.
\<close>

locale ctr_cipher =
  fixes enc :: "u8 list \<Rightarrow> u8 list \<Rightarrow> u8 list \<Rightarrow> nat \<Rightarrow> u8 list"
    and dec :: "u8 list \<Rightarrow> u8 list \<Rightarrow> u8 list \<Rightarrow> nat \<Rightarrow> u8 list"
    and stream :: "u8 list \<Rightarrow> u8 list \<Rightarrow> nat \<Rightarrow> nat \<Rightarrow> u8 list"
  assumes stream_length: "length (stream k c b n) = n"
    and enc_stream: "enc k src c b = map2 (XOR) src (stream k c b (length src))"
    and dec_stream: "dec k src c b = map2 (XOR) src (stream k c b (length src))"
begin

lemma enc_length [simp]: "length (enc k src c b) = length src"
  by (simp add: enc_stream stream_length)

lemma dec_of_enc: "dec k (enc k src c b) c b = src"
  by (rule nth_equalityI) (simp_all add: enc_stream dec_stream stream_length)

lemma same_stream:
  assumes "length x = length y"
  shows "map2 (XOR) (enc k x c b) (enc k y c b) = map2 (XOR) x y"
proof (rule nth_equalityI)
  fix i assume "i < length (map2 (XOR) (enc k x c b) (enc k y c b))"
  then have "i < length x" "i < length y" using assms by simp_all
  then show "map2 (XOR) (enc k x c b) (enc k y c b) ! i = map2 (XOR) x y ! i"
    using assms by (simp add: enc_stream stream_length ac_simps)
qed (simp add: assms enc_stream stream_length)

end

text \<open>Counter mode over the block cipher of this development; the counter is the last bytes of the block.\<close>

definition ctr_block :: "u8 list \<Rightarrow> nat \<Rightarrow> nat \<Rightarrow> u8 list" where
  "ctr_block c b i =
     (let v = foldl (\<lambda>a x. 256 * a + unat x) 0 c; v' = v - v mod 2 ^ b + (v + i) mod 2 ^ b
      in map (\<lambda>j. of_nat (v' div 256 ^ (15 - j))) [0..<16])"

definition aes_stream :: "u8 list \<Rightarrow> u8 list \<Rightarrow> nat \<Rightarrow> nat \<Rightarrow> u8 list" where
  "aes_stream k c b n = take n (concat (map (\<lambda>i. aesEncBlock (keyFor k) (ctr_block c b i)) [0..<n div 16 + 1]))"

definition aes_ctr :: "u8 list \<Rightarrow> u8 list \<Rightarrow> u8 list \<Rightarrow> nat \<Rightarrow> u8 list" where
  "aes_ctr k src c b = map2 (XOR) src (aes_stream k c b (length src))"

lemma aes_stream_length: "length (aes_stream k c b n) = n"
proof -
  have l: "length (concat (map (\<lambda>i. aesEncBlock (keyFor k) (ctr_block c b i)) [0..<m])) = 16 * m" for m
    by (induction m) (simp_all add: aesEncBlock_def)
  have "n \<le> 16 * (n div 16 + 1)" by presburger
  then show ?thesis unfolding aes_stream_def length_take l by simp
qed

interpretation ctr: ctr_cipher aes_ctr aes_ctr aes_stream
  by unfold_locales (simp_all add: aes_stream_length aes_ctr_def)

section \<open>Pages\<close>

text \<open>The pages of the process that the two recorded addresses name can be read.\<close>

definition readable :: "'pk sdk \<Rightarrow> enclave \<Rightarrow> u8 list \<Rightarrow> bool" where
  "readable e st page \<longleftrightarrow> emem e (e_data_page st) 0x1000 = Some page \<and> length page = 0x1000 \<and>
     (\<exists>code. emem e (e_code_pt st) 0x1000 = Some code)"

lemma length_zeros: "length (replicate 0x10000 (0 :: u8)) = 0x10000" "(0x1000 :: nat) \<le> 0x10000"
  by simp_all

lemma create_secret_eq:
  assumes "ctr_cipher (ctr_encrypt e) (ctr_decrypt e) stream" "length page = 0x1000"
  shows "\<exists>s. create_secret e page (replicate 0x10000 0) = Some s \<and>
    buf_read s 0 0x1000 = Some (ctr_encrypt e p_key page p_ctr 16)"
proof -
  have l: "length (ctr_encrypt e p_key page p_ctr 16) = 0x1000"
    using ctr_cipher.enc_length [OF assms(1)] assms(2) by simp
  obtain s where s: "buf_write (replicate 0x10000 0) 0 (ctr_encrypt e p_key page p_ctr 16) = Some s"
    unfolding buf_write_def using l by simp
  then show ?thesis
    using assms(2) buf_read_write_same [OF s l [symmetric]] by (simp add: create_secret_def buf_read_def)
qed

lemma dump_result:
  assumes ctr: "ctr_cipher (ctr_encrypt e) (ctr_decrypt e) stream" and r: "readable e st page"
    and dst: "0x1000 \<le> length dst"
  shows "one_time_dump_memory e i dst st =
     (if 0x2000 \<le> heap_free st
      then Some (ctr_encrypt e p_key page p_ctr 16 @ drop 0x1000 dst, st\<lparr>heap_free := heap_free st - 0x1000\<rparr>)
      else None)"
proof -
  obtain s where s: "create_secret e page (replicate 0x10000 0) = Some s"
      "buf_read s 0 0x1000 = Some (ctr_encrypt e p_key page p_ctr 16)"
    using create_secret_eq [OF ctr] r by (auto simp: readable_def)
  have l: "length (ctr_encrypt e p_key page p_ctr 16) = 0x1000"
    using ctr_cipher.enc_length [OF ctr] r by (simp add: readable_def)
  have w: "buf_write dst 0 (ctr_encrypt e p_key page p_ctr 16) =
      Some (ctr_encrypt e p_key page p_ctr 16 @ drop 0x1000 dst)"
    using dst l by (simp add: buf_write_def)
  obtain code where code: "emem e (e_code_pt st) 0x1000 = Some code" using r by (auto simp: readable_def)
  show ?thesis
    using r code w s by (auto simp: one_time_dump_memory_def malloc_def mfree_def readable_def)
qed

lemma dump_secret:
  assumes "ctr_cipher (ctr_encrypt e) (ctr_decrypt e) stream" "length page = 0x1000" "0x1000 \<le> length plain"
  shows "process_secret e (ctr_encrypt e p_key page p_ctr 16 @ rest) plain = Some (page @ drop 0x1000 plain)"
  using ctr_cipher.enc_length [OF assms(1)] ctr_cipher.dec_of_enc [OF assms(1)] assms(2,3)
  by (simp add: process_secret_def buf_read_def buf_write_def)

text \<open>
  C20 (round trip).  The entry point records the address of a page, the worker hands the page out encrypted,
  and \<open>process_secret\<close> recovers every byte of it; nothing else of the destination changes.
\<close>

theorem dump_roundtrip:
  assumes "ctr_cipher (ctr_encrypt e) (ctr_decrypt e) stream"
    and "encl_addint c b out st = (x, out', st1)"
    and "readable e st1 page" "0x2000 \<le> heap_free st" "0x1000 \<le> length dst" "0x1000 \<le> length plain"
  shows "\<exists>dst' st2. encl_worker e dst st1 = Some (dst', st2) \<and> length dst' = length dst \<and>
      drop 0x1000 dst' = drop 0x1000 dst \<and> emem e c 0x1000 = Some page \<and>
      process_secret e dst' plain = Some (page @ drop 0x1000 plain)"
proof -
  have st1: "st1 = st\<lparr>e_data_page := c, e_code_pt := b\<rparr>" using assms(2) by (simp add: encl_addint_def)
  have len: "length page = 0x1000" "emem e c 0x1000 = Some page" using assms(3) by (simp_all add: readable_def st1)
  have w: "encl_worker e dst st1 = Some (ctr_encrypt e p_key page p_ctr 16 @ drop 0x1000 dst, st1\<lparr>heap_free := heap_free st1 - 0x1000\<rparr>)"
    using dump_result [OF assms(1,3,5), of 0] assms(4) by (simp add: encl_worker_def st1)
  have l: "length (ctr_encrypt e p_key page p_ctr 16) = 0x1000"
    using ctr_cipher.enc_length [OF assms(1)] len by simp
  show ?thesis
    using w l len assms(5) dump_secret [OF assms(1) len(1) assms(6)] by simp
qed

text \<open>
  Remark (safety).  The key and the initial counter are constants, so all pages are encrypted with one key
  stream: whoever sees two dumps knows the sum of the two pages.
\<close>

theorem dumps_share_keystream:
  assumes "ctr_cipher (ctr_encrypt e) (ctr_decrypt e) stream"
    and "readable e st1 page1" "readable e st2 page2"
    and "encl_worker e dst1 st1 = Some (out1, st1')" "encl_worker e dst2 st2 = Some (out2, st2')"
    and "0x1000 \<le> length dst1" "0x1000 \<le> length dst2"
  shows "map2 (XOR) (take 0x1000 out1) (take 0x1000 out2) = map2 (XOR) page1 page2"
proof -
  have len: "length page1 = 0x1000" "length page2 = 0x1000" using assms(2,3) by (simp_all add: readable_def)
  have l: "length (ctr_encrypt e p_key p p_ctr 16) = length p" for p
    by (rule ctr_cipher.enc_length [OF assms(1)])
  have "out1 = ctr_encrypt e p_key page1 p_ctr 16 @ drop 0x1000 dst1" "out2 = ctr_encrypt e p_key page2 p_ctr 16 @ drop 0x1000 dst2"
    using assms(4,5) dump_result [OF assms(1,2,6), of 0] dump_result [OF assms(1,3,7), of 0]
    by (auto simp: encl_worker_def split: if_splits)
  then have "take 0x1000 out1 = ctr_encrypt e p_key page1 p_ctr 16" "take 0x1000 out2 = ctr_encrypt e p_key page2 p_ctr 16"
    using l len by simp_all
  then show ?thesis using ctr_cipher.same_stream [OF assms(1)] len by simp
qed

text \<open>
  Remark (bounds).  Every dump loses a page of the heap, so a heap of \<open>H\<close> bytes allows exactly
  \<open>H / 4096 - 1\<close> dumps; the next one writes through a null pointer.
\<close>

definition dumps :: "'pk sdk \<Rightarrow> u8 list \<Rightarrow> nat \<Rightarrow> enclave \<Rightarrow> (u8 list \<times> enclave) option" where
  "dumps e dst n st = ((\<lambda>r. Option.bind r (\<lambda>(d, s). encl_worker e d s)) ^^ n) (Some (dst, st))"

lemma dumps_Suc: "dumps e dst (Suc n) st = Option.bind (dumps e dst n st) (\<lambda>(d, s). encl_worker e d s)"
  by (simp add: dumps_def)

lemma dumps_heap:
  assumes "ctr_cipher (ctr_encrypt e) (ctr_decrypt e) stream" "readable e st page" "0x1000 \<le> length dst"
    and "n = 0 \<or> (n + 1) * 0x1000 \<le> heap_free st"
  shows "\<exists>d. dumps e dst n st = Some (d, st\<lparr>heap_free := heap_free st - n * 0x1000\<rparr>) \<and> 0x1000 \<le> length d"
  using assms(4)
proof (induction n)
  case 0
  then show ?case using assms(3) by (simp add: dumps_def)
next
  case (Suc n)
  then obtain d where d: "dumps e dst n st = Some (d, st\<lparr>heap_free := heap_free st - n * 0x1000\<rparr>)" "0x1000 \<le> length d"
    by auto
  have "readable e (st\<lparr>heap_free := heap_free st - n * 0x1000\<rparr>) page" using assms(2) by (simp add: readable_def)
  from dump_result [OF assms(1) this d(2), of 0] Suc.prems show ?case
    using ctr_cipher.enc_length [OF assms(1)] assms(2) d(2)
    by (simp add: dumps_Suc d encl_worker_def readable_def algebra_simps)
qed

theorem dumps_exhaust_heap:
  assumes "ctr_cipher (ctr_encrypt e) (ctr_decrypt e) stream" "readable e st page" "0x1000 \<le> length dst"
  shows "dumps e dst n st \<noteq> None \<longleftrightarrow> n = 0 \<or> (n + 1) * 0x1000 \<le> heap_free st"
proof (induction n)
  case 0
  then show ?case by (simp add: dumps_def)
next
  case (Suc n)
  show ?case
  proof (cases "n = 0 \<or> (n + 1) * 0x1000 \<le> heap_free st")
    case True
    then obtain d where d: "dumps e dst n st = Some (d, st\<lparr>heap_free := heap_free st - n * 0x1000\<rparr>)" "0x1000 \<le> length d"
      using dumps_heap [OF assms] by blast
    have "readable e (st\<lparr>heap_free := heap_free st - n * 0x1000\<rparr>) page" using assms(2) by (simp add: readable_def)
    from dump_result [OF assms(1) this d(2), of 0] show ?thesis
      using True by (auto simp: dumps_Suc d encl_worker_def split: if_splits)
  next
    case False
    then have "dumps e dst n st = None" using Suc.IH by blast
    then show ?thesis using False by (simp add: dumps_Suc)
  qed
qed

section \<open>Defects of the other operations\<close>

lemma create_exception_faults: "flag < 20 \<Longrightarrow> create_exception flag left st = None"
  by (subst create_exception.simps) (auto split: bind_splits)

lemma p_private1_length: "length p_private1 = 325"
  by (simp add: p_private1_def)

text \<open>
  Remark (error).  \<open>manage_rsa\<close> reads 384 bytes of a key constant that has 325, and even with a long key it
  copies 512 bytes out of a buffer of 384 when the encryption succeeds; it never returns a
  ciphertext.  The exponent it builds from the first byte of the key is a multiple of
  65536, so it is even and no private exponent belongs to it.
\<close>

lemma high_bits_zero:
  fixes y :: u32
  assumes "unat y < 2 ^ 16" "16 \<le> m"
  shows "\<not> bit y m"
proof -
  have "take_bit 16 (unat y) = unat y" using assms(1) by (rule take_bit_nat_eq_self)
  then have "\<not> bit (unat y) m" using assms(2) by (metis bit_take_bit_iff not_le)
  then show ?thesis by (auto simp: bit_unsigned_iff dest: bit_imp_le_length)
qed

lemma htonl_bits: "n < 16 \<Longrightarrow> bit (htonl y) n \<longleftrightarrow> (if n < 8 then bit y (24 + n) else bit y (8 + n))"
proof -
  have m: "(0x000000ff :: u32) = mask 8" "(0x0000ff00 :: u32) = push_bit 8 (mask 8)"
    "(0x00ff0000 :: u32) = push_bit 16 (mask 8)" "(0xff000000 :: u32) = push_bit 24 (mask 8)"
    by (simp_all add: mask_eq_exp_minus_1)
  show "n < 16 \<Longrightarrow> ?thesis"
    unfolding htonl_def m by (auto simp: bit_simps)
qed

lemma rsa_exponent_even: "take_bit 16 (rsa_exponent b) = 0"
proof (rule bit_word_eqI)
  fix n
  have "unat (ucast b + 384 :: u32) < 2 ^ 16"
    using unat_u8_less [of b] by (simp add: unat_word_ariths unsigned_ucast_eq take_bit_nat_eq_self)
  then show "bit (take_bit 16 (rsa_exponent b)) n = bit (0 :: u32) n"
    by (simp add: bit_take_bit_iff rsa_exponent_def htonl_bits high_bits_zero)
qed

lemma manage_rsa_short: "length key < 384 \<Longrightarrow> manage_rsa e key p_key1 dst = None"
  by (simp add: manage_rsa_def buf_read_def)

lemma bind_None_all: "(\<And>x. f x = None) \<Longrightarrow> Option.bind a f = None"
  by (cases a) simp_all

lemma manage_rsa_success:
  assumes "\<forall>pk x. fst (rsa_pub_encrypt e pk x)"
  shows "manage_rsa e key p_key1 dst = None"
proof -
  have over: "Option.bind (buf_write (1 # replicate 383 0) 0 enc) (\<lambda>p. Option.bind (buf_read p 0 512) f) = None"
    for enc and f :: "u8 list \<Rightarrow> u8 list option"
    using length_buf_write [of "1 # replicate 383 0" 0 enc]
    by (cases "buf_write (1 # replicate 383 0) 0 enc") (auto simp: buf_read_def)
  have ok: "rsa_pub_encrypt e pk x = (True, snd (rsa_pub_encrypt e pk x))" for pk x
    using assms by (metis prod.collapse)
  show ?thesis
    unfolding manage_rsa_def Let_def by (intro bind_None_all) (subst ok, simp add: over)
qed

theorem rsa_never_encrypts:
  "manage_rsa e p_private1 p_key1 dst = None \<and>
   (\<forall>key. (\<forall>pk x. fst (rsa_pub_encrypt e pk x)) \<longrightarrow> manage_rsa e key p_key1 dst = None) \<and>
   65536 dvd unat (rsa_exponent (hd p_private1))"
proof (intro conjI allI impI)
  show "manage_rsa e p_private1 p_key1 dst = None"
    by (rule manage_rsa_short) (simp add: p_private1_length)
  have "unat (rsa_exponent (hd p_private1)) mod 65536 = unat (take_bit 16 (rsa_exponent (hd p_private1)))"
    unfolding unsigned_take_bit_eq by (simp add: take_bit_eq_mod)
  then show "65536 dvd unat (rsa_exponent (hd p_private1))" by (simp add: rsa_exponent_even dvd_eq_mod_eq_0)
qed (rule manage_rsa_success)

text \<open>
  Remark (error).  \<open>encryptMessage\<close> drops its ciphertext: whenever it returns, the output buffer is as it was.
  \<open>decryptMessage\<close> does not look at the result of the authentication: a forged message is accepted
  as a message of zero bytes.
\<close>

theorem messages_unprotected:
  "(encryptMessage e msg len out n = Some out' \<longrightarrow> out' = out) \<and>
   (length inp = 28 + n \<and> n \<le> 2048 \<and> length out = n \<and>
      gcm_decrypt e aes_key (take 12 (drop 16 inp)) (take n (drop 28 inp)) (take 16 inp) = None \<longrightarrow>
    decryptMessage e inp out n = Some (replicate n 0))"
proof (intro conjI impI)
  show "out' = out" if "encryptMessage e msg len out n = Some out'"
    using that by (auto simp: encryptMessage_def split: bind_splits prod.splits)
  show "decryptMessage e inp out n = Some (replicate n 0)"
    if "length inp = 28 + n \<and> n \<le> 2048 \<and> length out = n \<and>
      gcm_decrypt e aes_key (take 12 (drop 16 inp)) (take n (drop 28 inp)) (take 16 inp) = None"
    using that by (auto simp: decryptMessage_def buf_read_def buf_write_def min_def)
qed

text \<open>
  Remark (functional).  The payload does what the comment says: entered by a return, its gadgets load \<open>4\<close> into \<open>RAX\<close>,
  the word \<open>RBX\<close> points at into \<open>RDI\<close> and the address of the target into \<open>RBX\<close>, and leave the
  enclave there.
\<close>

theorem rop_exits:
  assumes "distinct [function_addr e ''gadget1'', function_addr e ''gadget2'', function_addr e ''gadget3'']"
  shows "exec (gadget_code e) m [RET] (rop_payload e) r =
    Exited (function_addr e ''attacked'') (r(RAX := 4, RDI := m (r RBX), RBX := function_addr e ''attacked''))"
  using assms by (auto simp: rop_payload_def gadget_code_def gadget1_def gadget2_def gadget3_def)

text \<open>Remark.  The address of the save area is scaled by the size of a word.\<close>

lemma ssa_address_scaled: "ssa_address tcs = tcs + 4096 \<longleftrightarrow> 7 * tcs = 0"
proof -
  have "ssa_address tcs = tcs + 4096 \<longleftrightarrow> ssa_address tcs - (tcs + 4096) = 0" by simp
  also have "ssa_address tcs - (tcs + 4096) = 7 * tcs" by (simp add: ssa_address_def algebra_simps)
  finally show ?thesis .
qed

section \<open>Witnesses\<close>

text \<open>The heap of the enclave configuration has \<open>0x100000\<close> bytes.\<close>

definition demoE :: "unit sdk" where
  "demoE = \<lparr>ctr_encrypt = aes_ctr, ctr_decrypt = aes_ctr, gcm_encrypt = (\<lambda>k iv x. (x, replicate 16 0)),
     gcm_decrypt = (\<lambda>k iv x t. None), create_rsa_pub1_key = (\<lambda>n x. Some ()),
     rsa_pub_encrypt = (\<lambda>k x. (True, x)), ereport = (\<lambda>t d. (0, replicate 64 0)),
     read_rand = (\<lambda>n. replicate n 0), emem = (\<lambda>a n. Some (replicate n (ucast a))), array_addr = 0x10000,
     datapoint_addr = 0x20000,
     function_addr = (\<lambda>s. if s = ''gadget1'' then 1 else if s = ''gadget2'' then 2 else if s = ''gadget3'' then 3 else 4),
     BUFSIZ = 8192, register_limit = 3\<rparr>"

definition freshE :: enclave where
  "freshE = \<lparr>flag_s = 0, datapoint = 0xccc, e_data_page = 0, e_code_pt = 0, heap_free = 0x100000, ocalls = []\<rparr>"

lemma demoE_ctr: "ctr_cipher (ctr_encrypt demoE) (ctr_decrypt demoE) aes_stream"
  using ctr.ctr_cipher_axioms by (simp add: demoE_def)

lemma demoE_readable: "readable demoE st (replicate 0x1000 (ucast (e_data_page st)))"
  by (simp add: readable_def demoE_def)

theorem dump_roundtrip_witness:
  "\<exists>dst' st2. encl_worker demoE (replicate 0x1000 0) (freshE\<lparr>e_data_page := 7, e_code_pt := 9\<rparr>) = Some (dst', st2) \<and>
     process_secret demoE dst' (replicate 0x1000 0) = Some (replicate 0x1000 7)"
proof -
  let ?st = "freshE\<lparr>e_data_page := 7, e_code_pt := 9\<rparr>"
  have "encl_addint 7 9 [] freshE = (16, [], ?st)" by (simp add: encl_addint_def)
  from dump_roundtrip [OF demoE_ctr this demoE_readable, of "replicate 0x1000 0" "replicate 0x1000 0"]
  show ?thesis by (auto simp: freshE_def)
qed

theorem dumps_share_keystream_witness:
  "\<exists>out1 out2 s1 s2. encl_worker demoE (replicate 0x1000 0) (freshE\<lparr>e_data_page := 7\<rparr>) = Some (out1, s1) \<and>
     encl_worker demoE (replicate 0x1000 0) (freshE\<lparr>e_data_page := 9\<rparr>) = Some (out2, s2) \<and>
     map2 (XOR) (take 0x1000 out1) (take 0x1000 out2) = replicate 0x1000 14"
proof -
  let ?f = "\<lambda>a. freshE\<lparr>e_data_page := a\<rparr>"
  obtain out1 s1 where 1: "encl_worker demoE (replicate 0x1000 0) (?f 7) = Some (out1, s1)"
    using dump_result [OF demoE_ctr demoE_readable [of "?f 7"], of "replicate 0x1000 0" 0]
    by (simp add: encl_worker_def freshE_def)
  obtain out2 s2 where 2: "encl_worker demoE (replicate 0x1000 0) (?f 9) = Some (out2, s2)"
    using dump_result [OF demoE_ctr demoE_readable [of "?f 9"], of "replicate 0x1000 0" 0]
    by (simp add: encl_worker_def freshE_def)
  have "map2 (XOR) (take 0x1000 out1) (take 0x1000 out2) = map2 (XOR) (replicate 0x1000 (7 :: u8)) (replicate 0x1000 9)"
    using dumps_share_keystream [OF demoE_ctr demoE_readable demoE_readable 1 2] by simp
  also have "\<dots> = replicate 0x1000 14" by (simp add: zip_replicate)
  finally show ?thesis using 1 2 by blast
qed

theorem dumps_exhaust_heap_witness:
  "dumps demoE (replicate 0x1000 0) 255 freshE \<noteq> None \<and> dumps demoE (replicate 0x1000 0) 256 freshE = None"
  using dumps_exhaust_heap [OF demoE_ctr demoE_readable, of "replicate 0x1000 0" 255 freshE]
    dumps_exhaust_heap [OF demoE_ctr demoE_readable, of "replicate 0x1000 0" 256 freshE]
  by (simp add: freshE_def del: not_None_eq)

theorem rsa_never_encrypts_witness:
  "manage_rsa demoE p_private1 (replicate 8 0) (replicate 600 0) = None \<and>
   manage_rsa demoE (replicate 400 1) (replicate 8 0) (replicate 600 0) = None"
proof -
  have "fst (rsa_pub_encrypt demoE pk x)" for pk x by (simp add: demoE_def)
  then show ?thesis using rsa_never_encrypts [of demoE "replicate 8 0" "replicate 600 0"] by blast
qed

theorem messages_unprotected_witness:
  "decryptMessage demoE (replicate 30 7) [0xff, 0xff] 2 = Some [0, 0] \<and>
   encryptMessage demoE [1, 2] 2 [5, 6] 2 = Some [5, 6]"
proof -
  obtain y where "encryptMessage demoE [1, 2] 2 [5, 6] 2 = Some y"
    by (simp add: encryptMessage_def demoE_def buf_read_def buf_write_def)
  then show ?thesis
    using messages_unprotected [of demoE "[1, 2]" 2 "[5, 6]" 2 y "replicate 30 7"]
      messages_unprotected [of demoE "[1, 2]" 2 "[0xff, 0xff]" 2 y "replicate 30 7"]
    by (simp add: demoE_def numeral_eq_Suc)
qed

theorem rop_exits_witness:
  "exec (gadget_code demoE) (\<lambda>a. 0x123456789) [RET] (rop_payload demoE) (\<lambda>_. 0) =
     Exited 4 (\<lambda>x. case x of RAX \<Rightarrow> 4 | RDI \<Rightarrow> 0x123456789 | RBX \<Rightarrow> 4)"
proof -
  have "distinct [function_addr demoE ''gadget1'', function_addr demoE ''gadget2'', function_addr demoE ''gadget3'']"
    by (simp add: demoE_def)
  from rop_exits [OF this, of "\<lambda>a. 0x123456789" "\<lambda>_. 0"] show ?thesis
    by (auto simp: demoE_def fun_eq_iff split: reg.splits)
qed

end
