(* ===== verification/AesModes.thy ===== *)
theory AesModes
  imports Aes "HOL-Library.Signed_Division"
begin

unbundle bit_operations_syntax

text \<open>
  The stand-alone AES program of the test directory (\<^verbatim>\<open>AES128-with-C-master\<close>): PKCS7 padding,
  the padded ECB interface and the CBC mode of \<^verbatim>\<open>AES128.c\<close>, the length helpers of \<^verbatim>\<open>utils.c\<close>
  and the two demonstration runs of \<^verbatim>\<open>main.c\<close>.  Its block cipher is textually the one of theory
  Aes.  Printing is left out; everything that decides a returned or displayed value is modelled.
\<close>

section \<open>Lengths and padding\<close>

definition findTrueLen :: "int \<Rightarrow> int" where
  "findTrueLen curlen =
     (if curlen \<le> 0 then -1
      else if curlen smod 16 = 0 then curlen
      else (curlen sdiv 16 + 1) * 16)"

definition getCiphertextLen :: "int \<Rightarrow> int" where
  "getCiphertextLen plainTextLen =
     (let CiphertextLen = (if plainTextLen smod 16 = 0 then plainTextLen + 16 else plainTextLen)
      in findTrueLen CiphertextLen)"

text \<open>
  The first loop copies \<open>inputLen\<close> bytes, the second fills up to \<open>CiphertextLen\<close> from where the
  first stopped; a negative bound makes a loop run zero times.
\<close>

definition PKCS7Padding ::
  "u8 list \<Rightarrow> int \<Rightarrow> u8 list \<Rightarrow> int \<Rightarrow> int \<Rightarrow> u8 list option" where
  "PKCS7Padding input inputLen plaintext CiphertextLen numOfPadding =
     do {
       src \<leftarrow> buf_read input 0 (nat inputLen);
       p \<leftarrow> buf_write plaintext 0 src;
       buf_write p (nat inputLen)
         (replicate (nat CiphertextLen - nat inputLen) (word_of_int numOfPadding))
     }"

text \<open>
  \<open>getNumOfPadding\<close> inspects the sixteen bytes \<^emph>\<open>below\<close> the buffer (\<open>plaintextFull - BLOCKSIZE\<close>);
  what lies there is not part of the array, so the model takes it as the argument \<open>below\<close>.
\<close>

definition getNumOfPadding :: "(nat \<Rightarrow> u8) \<Rightarrow> u8 list \<Rightarrow> int \<Rightarrow> int option" where
  "getNumOfPadding below plaintextFull CiphertextLen =
     (if \<forall>i \<in> set [0..<16]. below i = 16 then Some 16
      else if 1 \<le> CiphertextLen \<and> nat CiphertextLen \<le> length plaintextFull
           then Some (uint (plaintextFull ! (nat CiphertextLen - 1)))
           else None)"

section \<open>ECB with padding\<close>

definition aesECBEncrypt ::
  "u8 list option \<Rightarrow> u32 \<Rightarrow> u8 list option \<Rightarrow> int \<Rightarrow> u8 list option \<Rightarrow> u32 \<Rightarrow>
     (int \<times> u8 list option) option" where
  "aesECBEncrypt key keyLen pt ptLen ct ctlen =
     (case (key, ct, pt) of
        (Some k, Some c, Some p) \<Rightarrow>
          if keyLen > 16 then Some (-1, ct)
          else do {
            let numOfPadding = sint (ctlen - word_of_int ptLen);
            ptWithPadding \<leftarrow>
              PKCS7Padding p ptLen (replicate (unat ctlen) 0) (sint ctlen) numOfPadding;
            kb \<leftarrow> buf_read k 0 (unat keyLen);
            (r, ak) \<leftarrow> keyExpansion (Some (kb @ replicate (16 - unat keyLen) 0)) 16 (Some stackKey);
            ak' \<leftarrow> ak;
            c' \<leftarrow> ecbLoop (aesEncBlock ak') ptWithPadding c 0 (unat ctlen);
            Some (0, Some c')
          }
      | _ \<Rightarrow> Some (-1, ct))"

definition aesECBDecrypt ::
  "u8 list option \<Rightarrow> u32 \<Rightarrow> u8 list option \<Rightarrow> u8 list option \<Rightarrow> u32 \<Rightarrow>
     (int \<times> u8 list option) option" where
  "aesECBDecrypt key keyLen ct pt len = aesCrypt aesDecBlock key keyLen ct pt len"

section \<open>CBC\<close>

definition xoriv :: "state \<Rightarrow> state \<Rightarrow> state" where
  "xoriv st iv = mat4 (\<lambda>i j. st ! i ! j XOR iv ! i ! j)"

text \<open>
  The initialisation vector is read row by row (\<open>iv[4 * i + j]\<close>), the blocks column by column
  (\<^const>\<open>loadStateArray\<close>).
\<close>

definition ivMatrix :: "u8 list \<Rightarrow> state" where
  "ivMatrix iv = mat4 (\<lambda>i j. iv ! (4 * i + j))"

function cbcEncLoop ::
  "(state \<Rightarrow> state) \<Rightarrow> u8 list \<Rightarrow> u8 list \<Rightarrow> state \<Rightarrow> nat \<Rightarrow> nat \<Rightarrow> u8 list option" where
  "cbcEncLoop f inp out iv i len =
     (if i < len
      then do {
        b \<leftarrow> buf_read inp i 16;
        let st = f (xoriv (loadStateArray b) iv);
        out' \<leftarrow> buf_write out i (storeStateArray st);
        cbcEncLoop f inp out' st (i + 16) len
      }
      else Some out)"
  by pat_completeness auto
termination
  by (relation "measure (\<lambda>(f, inp, out, iv, i, len). len - i)") auto

function cbcDecLoop ::
  "(state \<Rightarrow> state) \<Rightarrow> u8 list \<Rightarrow> u8 list \<Rightarrow> state \<Rightarrow> nat \<Rightarrow> nat \<Rightarrow> u8 list option" where
  "cbcDecLoop f inp out iv i len =
     (if i < len
      then do {
        b \<leftarrow> buf_read inp i 16;
        out' \<leftarrow> buf_write out i (storeStateArray (xoriv (f (loadStateArray b)) iv));
        cbcDecLoop f inp out' (mat4 (\<lambda>i j. b ! (4 * j + i))) (i + 16) len
      }
      else Some out)"
  by pat_completeness auto
termination
  by (relation "measure (\<lambda>(f, inp, out, iv, i, len). len - i)") auto

definition aesCBCEncrypt ::
  "u8 list option \<Rightarrow> u32 \<Rightarrow> u8 list option \<Rightarrow> int \<Rightarrow> u8 list option \<Rightarrow> u32 \<Rightarrow> u8 list option \<Rightarrow>
     (int \<times> u8 list option) option" where
  "aesCBCEncrypt key keyLen pt ptLen ct ctlen iv =
     (case (key, ct, pt, iv) of
        (Some k, Some c, Some p, Some v) \<Rightarrow>
          if keyLen > 16 then Some (-1, ct)
          else do {
            let numOfPadding = sint (ctlen - word_of_int ptLen);
            ptWithPadding \<leftarrow>
              PKCS7Padding p ptLen (replicate (unat ctlen) 0) (sint ctlen) numOfPadding;
            kb \<leftarrow> buf_read k 0 (unat keyLen);
            (r, ak) \<leftarrow> keyExpansion (Some (kb @ replicate (16 - unat keyLen) 0)) 16 (Some stackKey);
            ak' \<leftarrow> ak;
            v16 \<leftarrow> buf_read v 0 16;
            c' \<leftarrow> cbcEncLoop (encryptState (eK ak')) ptWithPadding c (ivMatrix v16) 0 (unat ctlen);
            Some (0, Some c')
          }
      | _ \<Rightarrow> Some (-1, ct))"

text \<open>Decryption does not test \<open>iv\<close> against NULL: a null vector is dereferenced.\<close>

definition aesCBCDecrypt ::
  "u8 list option \<Rightarrow> u32 \<Rightarrow> u8 list option \<Rightarrow> u8 list option \<Rightarrow> u32 \<Rightarrow> u8 list option \<Rightarrow>
     (int \<times> u8 list option) option" where
  "aesCBCDecrypt key keyLen ct pt len iv =
     (case (key, ct, pt) of
        (Some k, Some c, Some p) \<Rightarrow>
          if keyLen > 16 then Some (-1, pt)
          else if unat len mod BLOCKSIZE \<noteq> 0 then Some (-1, pt)
          else do {
            kb \<leftarrow> buf_read k 0 (unat keyLen);
            (r, ak) \<leftarrow> keyExpansion (Some (kb @ replicate (16 - unat keyLen) 0)) 16 (Some stackKey);
            ak' \<leftarrow> ak;
            v \<leftarrow> iv;
            v16 \<leftarrow> buf_read v 0 16;
            p' \<leftarrow> cbcDecLoop (decryptState (dK ak')) c p (ivMatrix v16) 0 (unat len);
            Some (0, Some p')
          }
      | _ \<Rightarrow> Some (-1, pt))"

section \<open>The demonstration runs\<close>

datatype WORKMODE = CBC | ECB

definition demoKey :: "u8 list" where
  "demoKey = [0x2b, 0x7e, 0x15, 0x16, 0x28, 0xae, 0xd2, 0xa6,
              0xab, 0xf7, 0x15, 0x88, 0x09, 0xcf, 0x4f, 0x3c]"

definition demoPt :: "u8 list" where
  "demoPt = [0x32, 0x43, 0xf6, 0xa8, 0x88, 0x5a, 0x30, 0x8d,
             0x31, 0x31, 0x98, 0xa2, 0xe0, 0x37, 0x07, 0x34]"

definition demoIv :: "u8 list" where
  "demoIv = [1, 2, 3, 4, 5, 6, 7, 8, 9, 10, 11, 12, 13, 14, 15, 16]"

definition modeEncrypt ::
  "WORKMODE \<Rightarrow> u8 list \<Rightarrow> int \<Rightarrow> u8 list \<Rightarrow> u32 \<Rightarrow> (int \<times> u8 list option) option" where
  "modeEncrypt mode pt ptLen ct ctlen =
     (case mode of
        CBC \<Rightarrow> aesCBCEncrypt (Some demoKey) 16 (Some pt) ptLen (Some ct) ctlen (Some demoIv)
      | ECB \<Rightarrow> aesECBEncrypt (Some demoKey) 16 (Some pt) ptLen (Some ct) ctlen)"

definition modeDecrypt ::
  "WORKMODE \<Rightarrow> u8 list \<Rightarrow> u8 list \<Rightarrow> u32 \<Rightarrow> (int \<times> u8 list option) option" where
  "modeDecrypt mode ct pt len =
     (case mode of
        CBC \<Rightarrow> aesCBCDecrypt (Some demoKey) 16 (Some ct) (Some pt) len (Some demoIv)
      | ECB \<Rightarrow> aesECBDecrypt (Some demoKey) 16 (Some ct) (Some pt) len)"

text \<open>\<open>case1\<close>: the displayed ciphertext and decrypted block.\<close>

definition case1 :: "WORKMODE \<Rightarrow> (u8 list \<times> u8 list) option" where
  "case1 mode =
     do {
       (r, ct) \<leftarrow> modeEncrypt mode demoPt 16 (replicate 16 0) 16;
       ct' \<leftarrow> ct;
       (r', plain) \<leftarrow> modeDecrypt mode ct' (replicate 16 0) 16;
       plain' \<leftarrow> plain;
       Some (ct', plain')
     }"

text \<open>
  \<open>case2\<close>: \<open>scanf("%s")\<close> stores the input and its terminating zero in \<open>input[100]\<close>; the result is
  the text finally displayed.  \<open>below\<close> is the memory under \<open>plaintextFull\<close>, \<open>c0\<close> and \<open>p0\<close> are the
  uninitialised contents of the two variable length arrays.
\<close>

definition case2 ::
  "(nat \<Rightarrow> u8) \<Rightarrow> (nat \<Rightarrow> u8) \<Rightarrow> (nat \<Rightarrow> u8) \<Rightarrow> WORKMODE \<Rightarrow> u8 list \<Rightarrow> u8 list option" where
  "case2 below c0 p0 mode inp =
     (if length inp + 1 > 100 then None
      else do {
        let inputLen = int (length inp);
        let CiphertextLen = getCiphertextLen inputLen;
        let n = nat CiphertextLen;
        (r, ct) \<leftarrow> modeEncrypt mode inp inputLen (map c0 [0..<n]) (word_of_int CiphertextLen);
        ct' \<leftarrow> ct;
        (r', pt) \<leftarrow> modeDecrypt mode ct' (map p0 [0..<n]) (word_of_int CiphertextLen);
        plaintextFull \<leftarrow> pt;
        numOfPadding \<leftarrow> getNumOfPadding below plaintextFull CiphertextLen;
        buf_read plaintextFull 0 (nat (CiphertextLen - numOfPadding))
      })"

section \<open>Lengths and padding\<close>

lemma ciphertextLen_eq:
  assumes "0 \<le> n"
  shows "getCiphertextLen n = 16 * (n div 16 + 1)"
proof -
  have s: "m smod 16 = m mod 16" "m sdiv 16 = m div 16" if "0 \<le> m" for m :: int
    using that by (simp_all add: signed_modulo_int_def signed_divide_int_def sgn_if)
  show ?thesis
  proof (cases "n mod 16 = 0")
    case True
    then have "(n + 16) mod 16 = 0" "16 * (n div 16) = n" by auto
    then show ?thesis using assms True by (simp add: getCiphertextLen_def findTrueLen_def s)
  next
    case False
    with assms have "0 < n" by (cases "n = 0") auto
    with False show ?thesis by (simp add: getCiphertextLen_def findTrueLen_def s)
  qed
qed

lemma ciphertextLen_bounds:
  "0 \<le> n \<Longrightarrow> n < getCiphertextLen n \<and> getCiphertextLen n \<le> n + 16 \<and> 16 dvd getCiphertextLen n"
  by (simp add: ciphertextLen_eq) presburger

lemma PKCS7_eq:
  assumes "inputLen = int (length input)" "length input \<le> n" "length plaintext = n"
  shows "PKCS7Padding input inputLen plaintext (int n) pad =
    Some (input @ replicate (n - length input) (word_of_int pad))"
  using assms by (simp add: PKCS7Padding_def buf_read_def buf_write_def)

section \<open>Cipher block chaining over a state cipher\<close>

text \<open>The blocks a CBC pass writes, as functions on the list of input blocks.\<close>

primrec cbcE :: "(state \<Rightarrow> state) \<Rightarrow> state \<Rightarrow> u8 list list \<Rightarrow> u8 list list" where
  "cbcE f iv [] = []"
| "cbcE f iv (b # bs) =
     (let s = f (xoriv (loadStateArray b) iv) in storeStateArray s # cbcE f s bs)"

primrec cbcD :: "(state \<Rightarrow> state) \<Rightarrow> state \<Rightarrow> u8 list list \<Rightarrow> u8 list list" where
  "cbcD f iv [] = []"
| "cbcD f iv (c # cs) =
     storeStateArray (xoriv (f (loadStateArray c)) iv) # cbcD f (loadStateArray c) cs"

lemma cbc_lengths [simp]:
  "length (cbcE f iv bs) = length bs" "length (cbcD f iv bs) = length bs"
  by (induction bs arbitrary: iv) (simp_all add: Let_def)

lemma cbc_block_16:
  "b \<in> set (cbcE f iv bs) \<Longrightarrow> length b = 16" "b \<in> set (cbcD f iv bs) \<Longrightarrow> length b = 16"
  by (induction bs arbitrary: iv) (auto simp: Let_def)

lemma wf_xoriv [simp]: "wf_state (xoriv s t)"
  by (simp add: xoriv_def)

lemma xoriv_twice: "wf_state s \<Longrightarrow> xoriv (xoriv s iv) iv = s"
  by (rule state_eqI) (simp_all add: xoriv_def)

declare cbcEncLoop.simps [simp del] cbcDecLoop.simps [simp del]

text \<open>One block of a pass, and the pass over the blocks that are left.\<close>

lemma splice_block:
  assumes "length c = 16" "16 * Suc k + 16 * m \<le> length out"
    and "out' = take (16 * k) out @ c @ drop (16 * k + 16) out"
  shows "take (16 * Suc k) out' = take (16 * k) out @ c" "length out' = length out"
    "drop (16 * (Suc k + m)) out' = drop (16 * (k + Suc m)) out"
  using assms by (simp_all add: ac_simps)

lemma chunks_from:
  "map (chunk inp) [k..<k + Suc m] = chunk inp k # map (chunk inp) [Suc k..<Suc k + m]"
  by (simp add: upt_conv_Cons del: upt_Suc)

lemma cbcEncLoop_from:
  assumes "16 * (k + m) \<le> length inp" "16 * (k + m) \<le> length out"
  shows "cbcEncLoop f inp out iv (16 * k) (16 * (k + m)) =
    Some (take (16 * k) out @ concat (cbcE f iv (map (chunk inp) [k..<k + m]))
      @ drop (16 * (k + m)) out)"
  using assms
proof (induction m arbitrary: k out iv)
  case 0
  then show ?case by (simp add: cbcEncLoop.simps)
next
  case (Suc m)
  let ?s = "f (xoriv (loadStateArray (chunk inp k)) iv)"
  let ?out = "take (16 * k) out @ storeStateArray ?s @ drop (16 * k + 16) out"
  note sp = splice_block [OF length_store, of k m out ?out ?s]
  have "cbcEncLoop f inp out iv (16 * k) (16 * (k + Suc m)) =
      cbcEncLoop f inp ?out ?s (16 * Suc k) (16 * (Suc k + m))"
    using Suc.prems
    by (subst cbcEncLoop.simps) (simp add: buf_read_def buf_write_def chunk_def Let_def ac_simps)
  also have "\<dots> = Some (take (16 * Suc k) ?out @
      concat (cbcE f ?s (map (chunk inp) [Suc k..<Suc k + m])) @ drop (16 * (Suc k + m)) ?out)"
    by (rule Suc.IH) (use Suc.prems sp in auto)
  finally show ?case using sp Suc.prems unfolding chunks_from
    by (simp add: Let_def ac_simps del: upt_Suc)
qed

lemma cbcDecLoop_from:
  assumes "16 * (k + m) \<le> length inp" "16 * (k + m) \<le> length out"
  shows "cbcDecLoop f inp out iv (16 * k) (16 * (k + m)) =
    Some (take (16 * k) out @ concat (cbcD f iv (map (chunk inp) [k..<k + m]))
      @ drop (16 * (k + m)) out)"
  using assms
proof (induction m arbitrary: k out iv)
  case 0
  then show ?case by (simp add: cbcDecLoop.simps)
next
  case (Suc m)
  let ?b = "loadStateArray (chunk inp k)"
  let ?s = "xoriv (f ?b) iv"
  let ?out = "take (16 * k) out @ storeStateArray ?s @ drop (16 * k + 16) out"
  note sp = splice_block [OF length_store, of k m out ?out ?s]
  have "cbcDecLoop f inp out iv (16 * k) (16 * (k + Suc m)) =
      cbcDecLoop f inp ?out ?b (16 * Suc k) (16 * (Suc k + m))"
    using Suc.prems
    by (subst cbcDecLoop.simps)
      (simp add: buf_read_def buf_write_def chunk_def loadStateArray_def Let_def ac_simps)
  also have "\<dots> = Some (take (16 * Suc k) ?out @
      concat (cbcD f ?b (map (chunk inp) [Suc k..<Suc k + m])) @ drop (16 * (Suc k + m)) ?out)"
    by (rule Suc.IH) (use Suc.prems sp in auto)
  finally show ?case using sp Suc.prems unfolding chunks_from
    by (simp add: ac_simps del: upt_Suc)
qed

text \<open>
  The contract the chaining modes need from the cipher: on well-formed states \<open>dec\<close> inverts
  \<open>enc\<close>, whose results are well formed.
\<close>

locale state_cipher =
  fixes senc sdec :: "'k \<Rightarrow> state \<Rightarrow> state"
    and good :: "'k \<Rightarrow> bool"
  assumes senc_wf: "wf_state s \<Longrightarrow> wf_state (senc k s)"
    and sdec_senc: "good k \<Longrightarrow> wf_state s \<Longrightarrow> sdec k (senc k s) = s"
begin

lemma cbcD_cbcE:
  assumes "good k" "\<forall>b \<in> set bs. length b = 16"
  shows "cbcD (sdec k) iv (cbcE (senc k) iv bs) = bs"
  using assms(2)
  by (induction bs arbitrary: iv)
    (simp_all add: Let_def load_store senc_wf sdec_senc [OF assms(1)] xoriv_twice store_load)

lemma cbc_total:
  assumes "16 * m \<le> length inp" "16 * m \<le> length out"
  shows "\<exists>out'. cbcEncLoop (senc k) inp out iv 0 (16 * m) = Some out' \<and> length out' = length out"
proof -
  let ?bs = "cbcE (senc k) iv (map (chunk inp) [0..<m])"
  have "length (concat (map (\<lambda>x. x) ?bs)) = 16 * length ?bs"
    by (rule length_concat_map_16) (rule cbc_block_16)
  then show ?thesis using assms cbcEncLoop_from [of 0 m inp out "senc k" iv] by simp
qed

lemma cbc_roundtrip:
  assumes k: "good k" and pt: "16 * m \<le> length pt" and ct: "16 * m \<le> length ct"
    and out: "16 * m \<le> length out" and e: "cbcEncLoop (senc k) pt ct iv 0 (16 * m) = Some ct'"
  shows "cbcDecLoop (sdec k) ct' out iv 0 (16 * m) = Some (take (16 * m) pt @ drop (16 * m) out)"
proof -
  let ?bs = "cbcE (senc k) iv (map (chunk pt) [0..<m])"
  have ct': "ct' = concat (map (\<lambda>x. x) ?bs) @ drop (16 * m) ct"
    using e cbcEncLoop_from [of 0 m pt ct "senc k" iv] pt ct by simp
  have chunks: "map (chunk ct') [0..<m] = ?bs"
  proof (rule nth_equalityI)
    fix i assume "i < length (map (chunk ct') [0..<m])"
    then show "map (chunk ct') [0..<m] ! i = ?bs ! i"
      using chunk_concat_map [of ?bs "\<lambda>x. x" i "drop (16 * m) ct"] cbc_block_16(1)
      unfolding ct' by auto
  qed simp
  have "length ct' = length ct"
    using ct pt cbc_total [OF pt ct, of k iv] e by auto
  then have "cbcDecLoop (sdec k) ct' out iv 0 (16 * m) =
      Some (concat (cbcD (sdec k) iv ?bs) @ drop (16 * m) out)"
    using ct out cbcDecLoop_from [of 0 m ct' out "sdec k" iv] chunks by simp
  also have "cbcD (sdec k) iv ?bs = map (chunk pt) [0..<m]"
    using pt by (intro cbcD_cbcE k) auto
  finally show ?thesis using pt by (simp add: concat_chunks)
qed

end

interpretation aes_state: state_cipher "\<lambda>ak. encryptState (eK ak)" "\<lambda>ak. decryptState (dK ak)" scheduled
  by unfold_locales (auto simp: scheduled_def decryptState_encryptState)

section \<open>The padded interfaces\<close>

text \<open>The length argument of a call: the text, its padded length, and the words that carry them.\<close>

lemma pad_arith:
  fixes ctlen :: u32
  assumes "length pt + 16 < 2 ^ 31" "ctlen = word_of_int (getCiphertextLen (int (length pt)))"
  obtains m where "unat ctlen = 16 * m" "sint ctlen = int (16 * m)" "length pt < 16 * m"
    "16 * m \<le> length pt + 16"
    "sint (ctlen - word_of_int (int (length pt))) = int (16 * m - length pt)"
proof -
  define m where "m = length pt div 16 + 1"
  have c: "getCiphertextLen (int (length pt)) = int (16 * m)"
    by (simp add: ciphertextLen_eq m_def zdiv_int)
  have b: "length pt < 16 * m" "16 * m \<le> length pt + 16" unfolding m_def by presburger+
  have sig: "sint (word_of_int (int k) :: u32) = int k" if "k < 2 ^ 31" for k
    using that by (simp add: sint_sbintrunc' signed_take_bit_int_eq_self del: of_int_of_nat_eq)
  have "(ctlen - word_of_int (int (length pt)) :: u32) = word_of_int (int (16 * m - length pt))"
    using b by (simp add: assms(2) c of_nat_diff)
  then have s: "sint (ctlen - word_of_int (int (length pt))) = int (16 * m - length pt)"
    using assms(1) b sig [of "16 * m - length pt"] by (simp only:)
  have u: "unat ctlen = 16 * m"
    unfolding assms(2) c using assms(1) b by (simp only: of_int_of_nat_eq unat_of_nat) simp
  have "sint ctlen = int (16 * m)" unfolding assms(2) c using assms(1) b by (intro sig) simp
  with that s u b show ?thesis by blast
qed
text \<open>Both modes pad the text in the same way before they encrypt it.\<close>

definition padded :: "u8 list \<Rightarrow> nat \<Rightarrow> u8 list" where
  "padded pt n = pt @ replicate (n - length pt) (word_of_nat (n - length pt))"

lemma PKCS7_padded:
  assumes "length pt + 16 < 2 ^ 31" "ctlen = word_of_int (getCiphertextLen (int (length pt)))"
  shows "PKCS7Padding pt (int (length pt)) (replicate (unat ctlen) 0) (sint ctlen)
      (sint (ctlen - word_of_int (int (length pt)) :: u32)) = Some (padded pt (unat ctlen))"
  proof (rule pad_arith [OF assms])
  fix m assume m: "unat ctlen = 16 * m" "sint ctlen = int (16 * m)" "length pt < 16 * m"
    "sint (ctlen - word_of_int (int (length pt))) = int (16 * m - length pt)"
  then have "PKCS7Padding pt (int (length pt)) (replicate (16 * m) 0) (int (16 * m))
      (int (16 * m - length pt)) = Some (padded pt (16 * m))"
    by (subst PKCS7_eq) (simp_all add: padded_def)
  with m show ?thesis by simp
qed

lemma padded_key:
  assumes "keyLen \<le> 16" "unat keyLen \<le> length key"
  shows "buf_read key 0 (unat keyLen) = Some (take (unat keyLen) key)"
    "keyExpansion (Some (take (unat keyLen) key @ replicate (16 - unat keyLen) 0)) 16 (Some stackKey)
      = Some (0, Some (keyFor (padKey key keyLen)))"
  using assms keyExpansion_stack [of "padKey key keyLen"]
  by (simp_all add: buf_read_def padKey_def word_le_nat_alt)

lemma aesECBEncrypt_ok:
  assumes "keyLen \<le> 16" "unat keyLen \<le> length key" "length pt + 16 < 2 ^ 31"
    and "ctlen = word_of_int (getCiphertextLen (int (length pt)))"
  shows "aesECBEncrypt (Some key) keyLen (Some pt) (int (length pt)) (Some ct) ctlen =
    map_option (\<lambda>c. (0, Some c)) (ecbLoop (aesEncBlock (keyFor (padKey key keyLen)))
      (padded pt (unat ctlen)) ct 0 (unat ctlen))"
  using assms PKCS7_padded [OF assms(3,4)] padded_key [OF assms(1,2)]
  by (simp add: aesECBEncrypt_def Let_def not_less [symmetric] map_option_case
      split: bind_split option.split)

lemma aesCBCEncrypt_ok:
  assumes "keyLen \<le> 16" "unat keyLen \<le> length key" "length pt + 16 < 2 ^ 31"
    and "ctlen = word_of_int (getCiphertextLen (int (length pt)))" "16 \<le> length iv"
  shows "aesCBCEncrypt (Some key) keyLen (Some pt) (int (length pt)) (Some ct) ctlen (Some iv) =
    map_option (\<lambda>c. (0, Some c)) (cbcEncLoop (encryptState (eK (keyFor (padKey key keyLen))))
      (padded pt (unat ctlen)) ct (ivMatrix (take 16 iv)) 0 (unat ctlen))"
  using assms PKCS7_padded [OF assms(3,4)] padded_key [OF assms(1,2)]
  by (simp add: aesCBCEncrypt_def Let_def not_less [symmetric] map_option_case buf_read_def [of iv]
      split: bind_split option.split)

lemma aesCBCDecrypt_ok:
  assumes "keyLen \<le> 16" "unat keyLen \<le> length key" "unat len mod 16 = 0" "16 \<le> length iv"
  shows "aesCBCDecrypt (Some key) keyLen (Some ct) (Some pt) len (Some iv) =
    map_option (\<lambda>p. (0, Some p)) (cbcDecLoop (decryptState (dK (keyFor (padKey key keyLen))))
      ct pt (ivMatrix (take 16 iv)) 0 (unat len))"
  using assms padded_key [OF assms(1,2)]
  by (simp add: aesCBCDecrypt_def not_less [symmetric] map_option_case buf_read_def [of iv]
      split: bind_split option.split)

lemma length_padded: "length pt \<le> n \<Longrightarrow> length (padded pt n) = n"
  by (simp add: padded_def)

lemma cbc_padded:
  assumes "keyLen \<le> 16" "unat keyLen \<le> length key" "length pt + 16 < 2 ^ 31" "16 \<le> length iv"
    and "ctlen = word_of_int (getCiphertextLen (int (length pt)))"
    and "unat ctlen \<le> length ct" "unat ctlen \<le> length out"
  shows "\<exists>ct'. aesCBCEncrypt (Some key) keyLen (Some pt) (int (length pt)) (Some ct) ctlen (Some iv)
      = Some (0, Some ct') \<and> length ct' = length ct \<and>
    aesCBCDecrypt (Some key) keyLen (Some ct') (Some out) ctlen (Some iv)
      = Some (0, Some (padded pt (unat ctlen) @ drop (unat ctlen) out))"
proof (rule pad_arith [OF assms(3,5)])
  fix m assume m: "unat ctlen = 16 * m" "length pt < 16 * m"
  let ?k = "keyFor (padKey key keyLen)" and ?p = "padded pt (16 * m)" and ?v = "ivMatrix (take 16 iv)"
  have p: "length ?p = 16 * m" using m(2) by (simp add: length_padded)
  obtain ct' where e: "cbcEncLoop (encryptState (eK ?k)) ?p ct ?v 0 (16 * m) = Some ct'"
    "length ct' = length ct"
    using aes_state.cbc_total [of m ?p ct ?k ?v] p m assms(6) by auto
  have "cbcDecLoop (decryptState (dK ?k)) ct' out ?v 0 (16 * m) = Some (?p @ drop (16 * m) out)"
    using aes_state.cbc_roundtrip [OF scheduled_keyFor _ _ _ e(1)] p m assms(6,7) by simp
  with e m show ?thesis
    using aesCBCEncrypt_ok [OF assms(1-3,5,4)] aesCBCDecrypt_ok [OF assms(1,2) _ assms(4), of ctlen]
    by simp
qed

lemma ecb_padded:
  assumes "keyLen \<le> 16" "unat keyLen \<le> length key" "length pt + 16 < 2 ^ 31"
    and "ctlen = word_of_int (getCiphertextLen (int (length pt)))"
    and "unat ctlen \<le> length ct" "unat ctlen \<le> length out"
  shows "\<exists>ct'. aesECBEncrypt (Some key) keyLen (Some pt) (int (length pt)) (Some ct) ctlen
      = Some (0, Some ct') \<and> length ct' = length ct \<and>
    aesECBDecrypt (Some key) keyLen (Some ct') (Some out) ctlen
      = Some (0, Some (padded pt (unat ctlen) @ drop (unat ctlen) out))"
proof (rule pad_arith [OF assms(3,4)])
  fix m assume m: "unat ctlen = 16 * m" "length pt < 16 * m"
  let ?k = "keyFor (padKey key keyLen)" and ?p = "padded pt (16 * m)"
  have p: "length ?p = 16 * m" using m(2) by (simp add: length_padded)
  obtain ct' where e: "ecbLoop (aesEncBlock ?k) ?p ct 0 (16 * m) = Some ct'" "length ct' = length ct"
    using aes.ecb_total [of m ?p ct ?k] p m assms(5) by auto
  have "ecbLoop (aesDecBlock ?k) ct' out 0 (16 * m) = Some (?p @ drop (16 * m) out)"
    using aes.ecb_roundtrip [OF scheduled_keyFor _ _ _ e(1)] p m assms(5,6) by simp
  with e m show ?thesis
    using aesECBEncrypt_ok [OF assms(1-4)]
    by (simp add: aesECBDecrypt_def aesCrypt_ok assms(1,2))
qed

text \<open>
  Remark.  CBC mode: encrypting a text of any length (below the range of \<^verbatim>\<open>int\<close>) with the padded
  length that \<^verbatim>\<open>getCiphertextLen\<close> computes and decrypting the result with the same key and
  initialisation vector returns code 0 twice and gives back the text followed by its PKCS7 padding;
  bytes of the output beyond the padded length are untouched.
\<close>

theorem cbc_padded_roundtrip:
  assumes "keyLen \<le> 16" "unat keyLen \<le> length key" "length pt + 16 < 2 ^ 31" "16 \<le> length iv"
    and "ctlen = word_of_int (getCiphertextLen (int (length pt)))"
    and "unat ctlen \<le> length ct" "unat ctlen \<le> length out"
  shows "\<exists>ct'. aesCBCEncrypt (Some key) keyLen (Some pt) (int (length pt)) (Some ct) ctlen (Some iv)
      = Some (0, Some ct') \<and> length ct' = length ct \<and>
    aesCBCDecrypt (Some key) keyLen (Some ct') (Some out) ctlen (Some iv)
      = Some (0, Some (padded pt (unat ctlen) @ drop (unat ctlen) out))"
  by (rule cbc_padded [OF assms])

theorem cbc_padded_roundtrip_witness:
  "\<exists>ct'. aesCBCEncrypt (Some demoKey) 16 (Some [65, 66, 67]) (int (length [65, 66, 67 :: u8]))
      (Some (replicate 20 0)) 16 (Some demoIv) = Some (0, Some ct') \<and>
    length ct' = length (replicate 20 (0 :: u8)) \<and>
    aesCBCDecrypt (Some demoKey) 16 (Some ct') (Some (replicate 16 0)) 16 (Some demoIv)
      = Some (0, Some (padded [65, 66, 67] (unat (16 :: u32)) @
          drop (unat (16 :: u32)) (replicate 16 0)))"
  by (rule cbc_padded_roundtrip) (simp_all add: demoKey_def demoIv_def ciphertextLen_eq)

text \<open>
  Remark.  ECB mode with padding: \<^verbatim>\<open>aesECBDecrypt\<close> gives back the text that \<^verbatim>\<open>aesECBEncrypt\<close>
  was given, followed by its padding, under the same bounds.
\<close>

theorem ecb_padded_roundtrip:
  assumes "keyLen \<le> 16" "unat keyLen \<le> length key" "length pt + 16 < 2 ^ 31"
    and "ctlen = word_of_int (getCiphertextLen (int (length pt)))"
    and "unat ctlen \<le> length ct" "unat ctlen \<le> length out"
  shows "\<exists>ct'. aesECBEncrypt (Some key) keyLen (Some pt) (int (length pt)) (Some ct) ctlen
      = Some (0, Some ct') \<and> length ct' = length ct \<and>
    aesECBDecrypt (Some key) keyLen (Some ct') (Some out) ctlen
      = Some (0, Some (padded pt (unat ctlen) @ drop (unat ctlen) out))"
  by (rule ecb_padded [OF assms])

theorem ecb_padded_roundtrip_witness:
  "\<exists>ct'. aesECBEncrypt (Some demoKey) 16 (Some demoPt) (int (length demoPt))
      (Some (replicate 32 0)) 32 = Some (0, Some ct') \<and>
    length ct' = length (replicate 32 (0 :: u8)) \<and>
    aesECBDecrypt (Some demoKey) 16 (Some ct') (Some (replicate 40 0)) 32
      = Some (0, Some (padded demoPt (unat (32 :: u32)) @ drop (unat (32 :: u32)) (replicate 40 0)))"
  by (rule ecb_padded_roundtrip) (simp_all add: demoKey_def demoPt_def ciphertextLen_eq)

section \<open>What the demonstration displays\<close>

lemma mode_roundtrip:
  assumes "length pt + 16 < 2 ^ 31" "ctlen = word_of_int (getCiphertextLen (int (length pt)))"
    and "unat ctlen = length ct" "unat ctlen = length out"
  shows "\<exists>ct'. modeEncrypt mode pt (int (length pt)) ct ctlen = Some (0, Some ct') \<and>
    modeDecrypt mode ct' out ctlen = Some (0, Some (padded pt (unat ctlen)))"
proof (cases mode)
  case CBC
  have "16 \<le> length demoKey" "16 \<le> length demoIv" by (simp_all add: demoKey_def demoIv_def)
  then show ?thesis
    using cbc_padded [of 16 demoKey pt demoIv ctlen ct out] assms CBC
    by (auto simp: modeEncrypt_def modeDecrypt_def)
next
  case ECB
  have "16 \<le> length demoKey" by (simp add: demoKey_def)
  then show ?thesis
    using ecb_padded [of 16 demoKey pt ctlen ct out] assms ECB
    by (auto simp: modeEncrypt_def modeDecrypt_def)
qed

lemma getNumOfPadding_padded:
  assumes "length inp < n" "n \<le> length inp + 16"
  shows "getNumOfPadding below (padded inp n) (int n) =
    Some (if \<exists>i \<in> set [0..<16]. below i \<noteq> 16 then int (n - length inp) else 16)"
proof -
  have "padded inp n ! (n - 1) = word_of_nat (n - length inp)"
    using assms by (auto simp: padded_def nth_append)
  moreover have "unat (word_of_nat (n - length inp) :: u8) = n - length inp"
    using assms by (simp only: unat_of_nat) simp
  ultimately show ?thesis
    using assms by (auto simp: getNumOfPadding_def length_padded uint_nat)
qed

text \<open>
  Remark.  The second demonstration displays the text it was given, in both modes and for every input
  that fits its buffer, whatever the uninitialised arrays hold: unless the sixteen bytes below the
  decrypted array all have the value 16, in which case it displays only the whole blocks of it.
\<close>

theorem case2_displays:
  "case2 below c0 p0 mode inp =
     (if length inp < 100
      then Some (if \<exists>i \<in> set [0..<16]. below i \<noteq> 16 then inp else take (16 * (length inp div 16)) inp)
      else None)"
proof (cases "length inp < 100")
  case True
  let ?n = "getCiphertextLen (int (length inp))"
  let ?m = "length inp div 16 + 1"
  have n: "?n = int (16 * ?m)" by (simp add: ciphertextLen_eq zdiv_int)
  have m: "length inp < 16 * ?m" "16 * ?m \<le> length inp + 16" by presburger+
  have u: "unat (word_of_int ?n :: u32) = 16 * ?m"
    unfolding n using m True by (simp only: of_int_of_nat_eq unat_of_nat) simp
  obtain ct' where ct: "modeEncrypt mode inp (int (length inp)) (map c0 [0..<16 * ?m]) (word_of_int ?n)
      = Some (0, Some ct')"
    "modeDecrypt mode ct' (map p0 [0..<16 * ?m]) (word_of_int ?n) = Some (0, Some (padded inp (16 * ?m)))"
    using mode_roundtrip [of inp "word_of_int ?n" "map c0 [0..<16 * ?m]" "map p0 [0..<16 * ?m]" mode] True u
    by (auto simp del: mult_Suc_right)
  let ?p = "padded inp (16 * ?m)"
  have nat_n: "nat ?n = 16 * ?m" by (simp only: n nat_int)
  have "case2 below c0 p0 mode inp = do {
      k \<leftarrow> getNumOfPadding below ?p ?n;
      buf_read ?p 0 (nat (?n - k)) }"
    using True ct by (simp add: case2_def nat_n Let_def del: mult_Suc_right)
  also have "getNumOfPadding below ?p ?n =
      Some (if \<exists>i \<in> set [0..<16]. below i \<noteq> 16 then int (16 * ?m - length inp) else 16)"
    unfolding n by (rule getNumOfPadding_padded) (use m in auto)
  finally have e: "case2 below c0 p0 mode inp = buf_read ?p 0
      (nat (?n - (if \<exists>i \<in> set [0..<16]. below i \<noteq> 16 then int (16 * ?m - length inp) else 16)))"
    by (simp only: bind.bind_lunit)
  have "nat (?n - int (16 * ?m - length inp)) = length inp" "nat (?n - 16) = 16 * (length inp div 16)"
    unfolding n using m by (linarith, simp add: nat_mult_distrib nat_diff_distrib)
  moreover have "buf_read ?p 0 (length inp) = Some inp"
    "buf_read ?p 0 (16 * (length inp div 16)) = Some (take (16 * (length inp div 16)) inp)"
    using m by (auto simp: buf_read_def padded_def)
  ultimately show ?thesis using True by (simp only: e if_True split: if_split) simp
next
  case False
  then show ?thesis by (simp add: case2_def)
qed

end
