(* ===== verification/Paging.thy ===== *)
theory Paging
  imports Prelude
begin

unbundle bit_operations_syntax

text \<open>
  The trampoline of the guest kernel module (\<^verbatim>\<open>limit.c\<close>, with the address translation of
  \<^verbatim>\<open>v2p.c\<close>): it walks the page tables of a process by hand, saves and clears the present bit of
  every page of a region, and puts the saved entries back.  Kernel memory is a partial map from
  addresses of eight byte cells to their values; an access outside it faults (\<^term>\<open>None\<close>).  The
  constants of the kernel headers are a parameter, the time stamp counter a stream of values.
\<close>

section \<open>State\<close>

type_synonym memory = "u64 \<rightharpoonup> u64"

record kconst =
  PTE_PFN_MASK :: u64
  PAGE_OFFSET :: u64
  PAGE_MASK :: u64
  random_data_page_addr :: u64
  trampoline_addr :: u64
  clear_ifg_addr :: u64

record mm_struct =
  pgd :: u64
  mmap_base :: u64
  task_size :: u64

text \<open>\<open>pid\<close> is the process number after its conversion to \<open>unsigned long\<close>; kernel threads have no \<open>mm\<close>.\<close>

record task_struct =
  pid :: u64
  mm :: "mm_struct option"

record PageInfo =
  vir_addr :: u64
  phy_addr :: u64

datatype kevent = FlushLocal | FlushGlobal | ReloadCr3 | Cli | Sti

record kstate =
  mem :: memory
  tasks :: "task_struct list"
  cur_task :: task_struct
  pinfo :: "PageInfo list"
  index :: nat
  g_app_baseaddr :: u64
  g_app_size :: u64
  tsc :: "nat \<Rightarrow> u64"
  tsc_pos :: nat
  irq_enabled :: bool
  trace :: "kevent list"

definition event :: "kevent \<Rightarrow> kstate \<Rightarrow> kstate" where
  "event e s = s\<lparr>trace := trace s @ [e]\<rparr>"

definition flush_tlb :: "kstate \<Rightarrow> kstate" where
  "flush_tlb s = event FlushGlobal (event FlushLocal s)"

definition clear_ifg :: "kstate \<Rightarrow> kstate" where
  "clear_ifg s = (event Cli s)\<lparr>irq_enabled := False\<rparr>"

definition start_ifg :: "kstate \<Rightarrow> kstate" where
  "start_ifg s = (event Sti s)\<lparr>irq_enabled := True\<rparr>"

definition urdtsc :: "kstate \<Rightarrow> u64 \<times> kstate" where
  "urdtsc s = (tsc s (tsc_pos s), s\<lparr>tsc_pos := tsc_pos s + 1\<rparr>)"

section \<open>Finding a process\<close>

text \<open>
  \<open>list_for_each\<close> with a \<open>break\<close> at the first match.  When no process matches, or the process has no
  address space, the code goes on with an uninitialised or null pointer: undefined.
\<close>

definition find_task :: "task_struct list \<Rightarrow> u64 \<Rightarrow> task_struct option" where
  "find_task ts t_pid = find (\<lambda>p. pid p = t_pid) ts"

definition pgd_of :: "task_struct list \<Rightarrow> u64 \<Rightarrow> u64 option" where
  "pgd_of ts t_pid =
     do {
       p \<leftarrow> find_task ts t_pid;
       m \<leftarrow> mm p;
       Some (pgd m)
     }"

text \<open>Here no match leaves the two globals as they were.\<close>

definition get_appbase :: "u64 \<Rightarrow> kstate \<Rightarrow> kstate option" where
  "get_appbase t_pid s =
     (case find_task (tasks s) t_pid of
        None \<Rightarrow> Some s
      | Some p \<Rightarrow> do {
          m \<leftarrow> mm p;
          Some (s\<lparr>g_app_baseaddr := mmap_base m, g_app_size := task_size m\<rparr>)
        })"

section \<open>Walking the page tables\<close>

definition table_index :: "u64 \<Rightarrow> nat \<Rightarrow> u64" where
  "table_index vaddr shift = 8 * (drop_bit shift vaddr AND 0x1FF)"

definition next_table :: "kconst \<Rightarrow> u64 \<Rightarrow> u64" where
  "next_table k entry = (entry AND PTE_PFN_MASK k) + PAGE_OFFSET k"

text \<open>The address of the entry that maps \<open>vaddr\<close>, from the root table at \<open>base\<close>.\<close>

definition walk :: "kconst \<Rightarrow> memory \<Rightarrow> u64 \<Rightarrow> u64 \<Rightarrow> u64 option" where
  "walk k m base vaddr =
     do {
       e0 \<leftarrow> m (base + table_index vaddr 39);
       e1 \<leftarrow> m (next_table k e0 + table_index vaddr 30);
       e2 \<leftarrow> m (next_table k e1 + table_index vaddr 21);
       Some (next_table k e2 + table_index vaddr 12)
     }"

definition phys_of :: "kconst \<Rightarrow> u64 \<Rightarrow> u64 \<Rightarrow> u64" where
  "phys_of k pte vaddr = (pte AND PAGE_MASK k) OR (vaddr AND NOT (PAGE_MASK k))"

definition non_v2p :: "kconst \<Rightarrow> u64 \<Rightarrow> u64 \<Rightarrow> nat \<Rightarrow> kstate \<Rightarrow> kstate option" where
  "non_v2p k vaddr t_pid i s =
     do {
       base \<leftarrow> pgd_of (tasks s) t_pid;
       pte \<leftarrow> walk k (mem s) base vaddr;
       v \<leftarrow> mem s pte;
       (if i < length (pinfo s)
        then Some (flush_tlb (s\<lparr>pinfo := (pinfo s)[i := \<lparr>vir_addr = vaddr, phy_addr = v\<rparr>],
               mem := (mem s)(pte \<mapsto> v AND 0xfffffffffffffffe)\<rparr>))
        else None)
     }"

definition en_v2p :: "kconst \<Rightarrow> u64 \<Rightarrow> u64 \<Rightarrow> u64 \<Rightarrow> kstate \<Rightarrow> kstate option" where
  "en_v2p k vaddr t_pid paddr s =
     do {
       base \<leftarrow> pgd_of (tasks s) t_pid;
       pte \<leftarrow> walk k (mem s) base vaddr;
       v \<leftarrow> mem s pte;
       Some (s\<lparr>mem := (mem s)(pte \<mapsto> paddr)\<rparr>)
     }"

definition v2p :: "kconst \<Rightarrow> u64 \<Rightarrow> u64 \<Rightarrow> kstate \<Rightarrow> u64 option" where
  "v2p k vaddr t_pid s =
     do {
       base \<leftarrow> pgd_of (tasks s) t_pid;
       pte \<leftarrow> walk k (mem s) base vaddr;
       v \<leftarrow> mem s pte;
       Some (phys_of k v vaddr)
     }"

text \<open>\<open>vtp\<close> of \<^verbatim>\<open>v2p.c\<close> prints what \<open>v2p\<close> returns: the three table entries, the page entry, the result.\<close>

definition vtp :: "kconst \<Rightarrow> u64 \<Rightarrow> u64 \<Rightarrow> kstate \<Rightarrow> (u64 \<times> u64 \<times> u64) option" where
  "vtp k vaddr t_pid s =
     do {
       base \<leftarrow> pgd_of (tasks s) t_pid;
       pte \<leftarrow> walk k (mem s) base vaddr;
       v \<leftarrow> mem s pte;
       Some (pte, v, phys_of k v vaddr)
     }"

section \<open>Clearing and restoring a region\<close>

lemma non_v2p_pinfo:
  "non_v2p k vaddr t_pid i s = Some s' \<Longrightarrow> i < length (pinfo s) \<and> length (pinfo s') = length (pinfo s)"
  by (auto simp: non_v2p_def flush_tlb_def event_def split: bind_splits if_splits)

text \<open>
  The loop over the region.  It ends because every round needs a free element of \<open>pinfo\<close>; the
  counter \<open>page_size\<close> may wrap around.
\<close>

function non_loop :: "kconst \<Rightarrow> u64 \<Rightarrow> u64 \<Rightarrow> u64 \<Rightarrow> u64 \<Rightarrow> nat \<Rightarrow> kstate \<Rightarrow> (nat \<times> kstate) option" where
  "non_loop k base t_pid app_size page_size i s =
     (if page_size < app_size
      then
        let s1 = flush_tlb s; current_vaddr = base + page_size
        in if current_vaddr = random_data_page_addr k then Some (i, s1\<lparr>index := i\<rparr>)
           else do {
             s2 \<leftarrow> non_v2p k current_vaddr t_pid i s1;
             non_loop k base t_pid app_size (page_size + 0x1000) (i + 1) s2
           }
      else Some (i, s))"
  by pat_completeness auto
termination
proof (relation "measure (\<lambda>(k, base, t_pid, app_size, page_size, i, s). length (pinfo s) - i)", goal_cases)
  case (2 k base t_pid app_size page_size i s s1 current_vaddr s2)
  then have "i < length (pinfo s1)" "length (pinfo s2) = length (pinfo s1)"
    using non_v2p_pinfo by blast+
  moreover have "length (pinfo s1) = length (pinfo s)" using 2 by (simp add: flush_tlb_def event_def)
  ultimately show ?case by simp
qed simp

declare non_loop.simps [simp del]

definition laucher_non_v2p :: "kconst \<Rightarrow> u64 \<Rightarrow> u64 \<Rightarrow> u64 \<Rightarrow> kstate \<Rightarrow> (u64 \<times> kstate) option" where
  "laucher_non_v2p k base t_pid app_size s =
     do {
       (i, s1) \<leftarrow> non_loop k base t_pid app_size 0 0 s;
       Some (0, s1\<lparr>index := i\<rparr>)
     }"

fun en_loop :: "kconst \<Rightarrow> u64 \<Rightarrow> nat \<Rightarrow> nat \<Rightarrow> kstate \<Rightarrow> kstate option" where
  "en_loop k t_pid i 0 s = Some s"
| "en_loop k t_pid i (Suc n) s =
     do {
       let s1 = flush_tlb s;
       info \<leftarrow> (if i < length (pinfo s1) then Some (pinfo s1 ! i) else None);
       s2 \<leftarrow> en_v2p k (vir_addr info) t_pid (phy_addr info) s1;
       en_loop k t_pid (i + 1) n s2
     }"

definition launch_en_v2p :: "kconst \<Rightarrow> u64 \<Rightarrow> kstate \<Rightarrow> (u64 \<times> kstate) option" where
  "launch_en_v2p k t_pid s = map_option (\<lambda>s'. (0, s')) (en_loop k t_pid 0 (index s) s)"

definition trampoline :: "kconst \<Rightarrow> u64 \<Rightarrow> u64 \<Rightarrow> u64 \<Rightarrow> kstate \<Rightarrow> (u64 \<times> kstate) option" where
  "trampoline k pi base app_size s =
     do {
       let s0 = event ReloadCr3 s;
       let (t1, s1) = urdtsc s0;
       (r, s2) \<leftarrow> laucher_non_v2p k base pi app_size s1;
       let (t2, s3) = urdtsc s2;
       (r', s4) \<leftarrow> launch_en_v2p k pi s3;
       Some (t2 - t1, s4)
     }"

section \<open>The exported helpers\<close>

definition get_trampoline_gpa :: "kconst \<Rightarrow> kstate \<Rightarrow> u64 option" where
  "get_trampoline_gpa k s = v2p k (trampoline_addr k) (pid (cur_task s)) s"

definition get_trampoline_pid :: "kstate \<Rightarrow> u64" where
  "get_trampoline_pid s = pid (cur_task s)"

definition count_time :: "kconst \<Rightarrow> u64" where
  "count_time k = clear_ifg_addr k"

definition limit_init :: "kstate \<Rightarrow> int \<times> kstate" where
  "limit_init s = (let s1 = flush_tlb s; (t_start, s2) = urdtsc s1 in (0, s2))"

section \<open>Hiding and revealing pages\<close>

text \<open>
  The abstract specification: \<open>hide\<close> clears the present bit of the entry of every address of a list
  and returns the old entries, \<open>reveal\<close> writes entries back.  Both rest on a lookup \<open>slot\<close> of the
  address of an entry.
\<close>

primrec hide ::
  "(memory \<Rightarrow> u64 \<Rightarrow> u64 option) \<Rightarrow> memory \<Rightarrow> u64 list \<Rightarrow> (memory \<times> PageInfo list) option" where
  "hide slot m [] = Some (m, [])"
| "hide slot m (v # vs) =
     do {
       a \<leftarrow> slot m v;
       e \<leftarrow> m a;
       (m', is) \<leftarrow> hide slot (m(a \<mapsto> e AND 0xfffffffffffffffe)) vs;
       Some (m', \<lparr>vir_addr = v, phy_addr = e\<rparr> # is)
     }"

primrec reveal :: "(memory \<Rightarrow> u64 \<Rightarrow> u64 option) \<Rightarrow> memory \<Rightarrow> PageInfo list \<Rightarrow> memory option" where
  "reveal slot m [] = Some m"
| "reveal slot m (i # is) =
     do {
       a \<leftarrow> slot m (vir_addr i);
       e \<leftarrow> m a;
       reveal slot (m(a \<mapsto> phy_addr i)) is
     }"

text \<open>
  A list of addresses is separated when each has an entry, the entries are different cells, and no
  entry is a cell that a lookup reads (\<open>cells\<close>).  A memory agrees with \<open>m\<close> when it differs from it
  on entries of the list only.
\<close>

definition separated ::
  "(memory \<Rightarrow> u64 \<Rightarrow> u64 option) \<Rightarrow> (memory \<Rightarrow> u64 \<Rightarrow> u64 list) \<Rightarrow> memory \<Rightarrow> u64 list \<Rightarrow> bool" where
  "separated slot cells m vs \<longleftrightarrow>
     (\<forall>v \<in> set vs. slot m v \<noteq> None \<and> m (the (slot m v)) \<noteq> None) \<and> distinct (map (slot m) vs) \<and>
     (\<forall>v \<in> set vs. \<forall>w \<in> set vs. the (slot m v) \<notin> set (cells m w))"

definition agrees :: "(memory \<Rightarrow> u64 \<Rightarrow> u64 option) \<Rightarrow> memory \<Rightarrow> u64 list \<Rightarrow> memory \<Rightarrow> bool" where
  "agrees slot m vs m' \<longleftrightarrow>
     (\<forall>a. (\<forall>v \<in> set vs. slot m v \<noteq> Some a) \<longrightarrow> m' a = m a) \<and> (\<forall>a. m a \<noteq> None \<longrightarrow> m' a \<noteq> None)"

lemma separated_entry:
  "separated slot cells m vs \<Longrightarrow> v \<in> set vs \<Longrightarrow> \<exists>a. slot m v = Some a \<and> m a \<noteq> None"
  unfolding separated_def by fastforce

lemma agrees_update:
  "agrees slot m vs m' \<Longrightarrow> v \<in> set vs \<Longrightarrow> slot m v = Some a \<Longrightarrow> agrees slot m vs (m'(a \<mapsto> e))"
  unfolding agrees_def by auto

text \<open>
  What the lookup promises: it depends on the cells it reads only.  Then hiding a separated list
  and revealing it gives the memory back.
\<close>

locale page_lookup =
  fixes slot :: "memory \<Rightarrow> u64 \<Rightarrow> u64 option"
    and cells :: "memory \<Rightarrow> u64 \<Rightarrow> u64 list"
  assumes slot_frame: "\<forall>a \<in> set (cells m v). m' a = m a \<Longrightarrow> slot m' v = slot m v"
begin

lemma agrees_slot:
  assumes "separated slot cells m vs" "agrees slot m vs m'" "v \<in> set vs"
  shows "slot m' v = slot m v"
proof (rule slot_frame, rule ballI)
  fix a assume "a \<in> set (cells m v)"
  with assms(1,3) have "\<forall>w \<in> set vs. slot m w \<noteq> Some a"
    unfolding separated_def by (metis option.sel)
  with assms(2) show "m' a = m a" unfolding agrees_def by blast
qed

lemma hide_run:
  assumes sep: "separated slot cells m vs" and "agrees slot m vs m'" "set ws \<subseteq> set vs" "distinct (map (slot m) ws)"
  shows "\<exists>m'' is. hide slot m' ws = Some (m'', is) \<and> agrees slot m vs m'' \<and> length is = length ws \<and>
    map vir_addr is = ws \<and>
    (\<forall>i < length ws. m' (the (slot m (ws ! i))) = Some (phy_addr (is ! i))) \<and>
    (\<forall>w \<in> set ws. m'' (the (slot m w)) = map_option (\<lambda>e. e AND 0xfffffffffffffffe) (m' (the (slot m w)))) \<and>
    (\<forall>a. (\<forall>w \<in> set ws. slot m w \<noteq> Some a) \<longrightarrow> m'' a = m' a)"
  using assms(2-4)
proof (induction ws arbitrary: m')
  case (Cons w ws)
  obtain a where a: "slot m w = Some a" "m a \<noteq> None"
    using separated_entry [OF sep] Cons.prems(2) by (metis list.set_intros(1) list.simps(9) subsetD)
  obtain e where e: "m' a = Some e" using Cons.prems(1) a unfolding agrees_def by auto
  have s: "slot m' w = Some a" using agrees_slot [OF sep Cons.prems(1)] Cons.prems(2) a by simp
  define m1 where "m1 = m'(a \<mapsto> e AND 0xfffffffffffffffe)"
  have ag: "agrees slot m vs m1" unfolding m1_def by (rule agrees_update) (use Cons.prems a in auto)
  obtain m'' "is" where IH: "hide slot m1 ws = Some (m'', is)" "agrees slot m vs m''"
    "length is = length ws" "map vir_addr is = ws"
    "\<forall>i < length ws. m1 (the (slot m (ws ! i))) = Some (phy_addr (is ! i))"
    "\<forall>w \<in> set ws. m'' (the (slot m w)) = map_option (\<lambda>e. e AND 0xfffffffffffffffe) (m1 (the (slot m w)))"
    "\<forall>a. (\<forall>w \<in> set ws. slot m w \<noteq> Some a) \<longrightarrow> m'' a = m1 a"
    using Cons.IH [OF ag] Cons.prems(2,3) by auto
  have other: "the (slot m x) \<noteq> a" "slot m x \<noteq> Some a" if "x \<in> set ws" for x
  proof -
    have "slot m x \<noteq> slot m w" using that Cons.prems(3) by (metis distinct.simps(2) imageI list.simps(9) set_map)
    moreover have "\<exists>b. slot m x = Some b"
      using separated_entry [OF sep, of x] Cons.prems(2) that by auto
    ultimately show "the (slot m x) \<noteq> a" "slot m x \<noteq> Some a" using a by auto
  qed
  let ?is = "\<lparr>vir_addr = w, phy_addr = e\<rparr> # is"
  have "hide slot m' (w # ws) = Some (m'', ?is)" using s e IH(1) by (simp add: m1_def)
  moreover have "m' (the (slot m ((w # ws) ! i))) = Some (phy_addr (?is ! i))" if "i < Suc (length ws)" for i
    using that IH(5) other(1) a e by (cases i) (auto simp: m1_def)
  moreover have "m'' (the (slot m x)) = map_option (\<lambda>e. e AND 0xfffffffffffffffe) (m' (the (slot m x)))"
    if "x \<in> set (w # ws)" for x
    using that IH(6,7) other a e by (auto simp: m1_def)
  moreover have "m'' b = m' b" if "\<forall>x \<in> set (w # ws). slot m x \<noteq> Some b" for b
    using that IH(7) a by (auto simp: m1_def)
  ultimately show ?case using IH(2-4) by auto
qed simp

lemma reveal_run:
  assumes sep: "separated slot cells m vs" and "agrees slot m vs m'" "set (map vir_addr is) \<subseteq> set vs"
    and "distinct (map (slot m) (map vir_addr is))"
  shows "\<exists>m''. reveal slot m' is = Some m'' \<and>
    (\<forall>i \<in> set is. m'' (the (slot m (vir_addr i))) = Some (phy_addr i)) \<and>
    (\<forall>a. (\<forall>i \<in> set is. slot m (vir_addr i) \<noteq> Some a) \<longrightarrow> m'' a = m' a)"
  using assms(2-4)
proof (induction "is" arbitrary: m')
  case (Cons i "is")
  let ?w = "vir_addr i"
  obtain a where a: "slot m ?w = Some a" "m a \<noteq> None"
    using separated_entry [OF sep] Cons.prems(2) by (metis list.set_intros(1) list.simps(9) subsetD)
  obtain e where e: "m' a = Some e" using Cons.prems(1) a unfolding agrees_def by auto
  have s: "slot m' ?w = Some a" using agrees_slot [OF sep Cons.prems(1)] Cons.prems(2) a by simp
  define m1 where "m1 = m'(a \<mapsto> phy_addr i)"
  have ag: "agrees slot m vs m1" unfolding m1_def by (rule agrees_update) (use Cons.prems a in auto)
  obtain m'' where IH: "reveal slot m1 is = Some m''"
    "\<forall>i \<in> set is. m'' (the (slot m (vir_addr i))) = Some (phy_addr i)"
    "\<forall>a. (\<forall>i \<in> set is. slot m (vir_addr i) \<noteq> Some a) \<longrightarrow> m'' a = m1 a"
    using Cons.IH [OF ag] Cons.prems(2,3) by auto
  have "slot m (vir_addr x) \<noteq> Some a" if "x \<in> set is" for x
    using that Cons.prems(3) a by (auto simp: image_iff)
  then have "m'' a = Some (phy_addr i)" using IH(3) by (auto simp: m1_def)
  moreover have "m'' b = m' b" if "\<forall>x \<in> set (i # is). slot m (vir_addr x) \<noteq> Some b" for b
    using that IH(3) a by (auto simp: m1_def)
  ultimately show ?case using s e IH(1,2) a by (auto simp: m1_def)
qed simp

theorem hide_reveal:
  assumes "separated slot cells m vs"
  shows "\<exists>m' is. hide slot m vs = Some (m', is) \<and> map vir_addr is = vs \<and> reveal slot m' is = Some m \<and>
    (\<forall>v \<in> set vs. \<exists>e. m (the (slot m v)) = Some e \<and> m' (the (slot m v)) = Some (e AND 0xfffffffffffffffe)) \<and>
    (\<forall>a. (\<forall>v \<in> set vs. slot m v \<noteq> Some a) \<longrightarrow> m' a = m a)"
proof -
  have ag: "agrees slot m vs m" by (simp add: agrees_def)
  have d: "distinct (map (slot m) vs)" using assms by (simp add: separated_def)
  obtain m' "is" where h: "hide slot m vs = Some (m', is)" "agrees slot m vs m'" "length is = length vs"
    "map vir_addr is = vs" "\<forall>i < length vs. m (the (slot m (vs ! i))) = Some (phy_addr (is ! i))"
    "\<forall>v \<in> set vs. m' (the (slot m v)) = map_option (\<lambda>e. e AND 0xfffffffffffffffe) (m (the (slot m v)))"
    "\<forall>a. (\<forall>v \<in> set vs. slot m v \<noteq> Some a) \<longrightarrow> m' a = m a"
    using hide_run [OF assms ag subset_refl d] by auto
  obtain m'' where r: "reveal slot m' is = Some m''"
    "\<forall>i \<in> set is. m'' (the (slot m (vir_addr i))) = Some (phy_addr i)"
    "\<forall>a. (\<forall>i \<in> set is. slot m (vir_addr i) \<noteq> Some a) \<longrightarrow> m'' a = m' a"
    using reveal_run [OF assms h(2), of "is"] h(4) d by auto
  have "m'' a = m a" for a
  proof (cases "\<exists>i < length vs. slot m (vs ! i) = Some a")
    case True
    then obtain i where i: "i < length vs" "slot m (vs ! i) = Some a" by blast
    have ii: "is ! i \<in> set is" "vir_addr (is ! i) = vs ! i"
      using i(1) h(3) nth_map [of i "is" vir_addr] unfolding h(4) by simp_all
    have "m'' (the (slot m (vir_addr (is ! i)))) = Some (phy_addr (is ! i))" using r(2) ii(1) by blast
    moreover have "m (the (slot m (vs ! i))) = Some (phy_addr (is ! i))" using h(5) i(1) by blast
    ultimately show ?thesis using ii(2) i(2) by simp
  next
    case False
    then have "\<forall>v \<in> set vs. slot m v \<noteq> Some a" by (metis in_set_conv_nth)
    moreover have "\<forall>i \<in> set is. slot m (vir_addr i) \<noteq> Some a" using calculation h(4) by auto
    ultimately show ?thesis using r(3) h(7) by simp
  qed
  then have "m'' = m" by (rule ext)
  moreover have "\<forall>v \<in> set vs. \<exists>e. m (the (slot m v)) = Some e \<and> m' (the (slot m v)) = Some (e AND 0xfffffffffffffffe)"
    using h(6) separated_entry [OF assms] by fastforce
  ultimately show ?thesis using h(1,4,7) r(1) by blast
qed

end

section \<open>The module's walk is such a lookup\<close>

definition walkCells :: "kconst \<Rightarrow> memory \<Rightarrow> u64 \<Rightarrow> u64 \<Rightarrow> u64 list" where
  "walkCells k m base vaddr =
     (let c0 = base + table_index vaddr 39
      in c0 # (case m c0 of
           None \<Rightarrow> []
         | Some e0 \<Rightarrow>
             let c1 = next_table k e0 + table_index vaddr 30
             in c1 # (case m c1 of
                  None \<Rightarrow> []
                | Some e1 \<Rightarrow> [next_table k e1 + table_index vaddr 21])))"

interpretation pages: page_lookup "\<lambda>m. walk k m root" "\<lambda>m. walkCells k m root"
  by unfold_locales
    (auto simp: walk_def walkCells_def Let_def split: option.splits bind_splits)

lemma state_simps [simp]:
  "mem (flush_tlb s) = mem s" "tasks (flush_tlb s) = tasks s" "pinfo (flush_tlb s) = pinfo s"
  "index (flush_tlb s) = index s" "tsc (flush_tlb s) = tsc s" "tsc_pos (flush_tlb s) = tsc_pos s"
  "mem (event e s) = mem s" "tasks (event e s) = tasks s" "pinfo (event e s) = pinfo s"
  "index (event e s) = index s" "tsc (event e s) = tsc s" "tsc_pos (event e s) = tsc_pos s"
  by (simp_all add: flush_tlb_def event_def)

text \<open>The pages of a region and their number.\<close>

definition page_at :: "u64 \<Rightarrow> nat \<Rightarrow> u64" where
  "page_at base i = base + of_nat (0x1000 * i)"

definition region :: "u64 \<Rightarrow> nat \<Rightarrow> u64 list" where
  "region base n = map (page_at base) [0..<n]"

definition pages_of :: "u64 \<Rightarrow> nat" where
  "pages_of app_size = (unat app_size + 0xfff) div 0x1000"

lemma page_counter:
  assumes "n = pages_of app_size" "n \<le> 2 ^ 51" "i \<le> n"
  shows "of_nat (0x1000 * i) < app_size \<longleftrightarrow> i < n"
proof -
  have "0x1000 * i \<le> 2 ^ 63" using assms by simp
  then have u: "unat (of_nat (0x1000 * i) :: u64) = 0x1000 * i"
    by (simp only: unat_of_nat) simp
  have "0x1000 * i < x \<longleftrightarrow> i < (x + 0xfff) div 0x1000" for x :: nat
    by (simp add: less_eq_div_iff_mult_less_eq Suc_le_eq flip: Suc_le_eq) arith
  with u assms(1) show ?thesis by (simp only: word_less_nat_alt pages_of_def)
qed

text \<open>The first loop refines \<^const>\<open>hide\<close>: it stores the entries in \<open>pinfo\<close>.\<close>

lemma non_loop_hide:
  assumes "pgd_of (tasks s) t = Some root" "n = pages_of app_size" "n \<le> 2 ^ 51" "i \<le> n"
    and "n \<le> length (pinfo s)" "random_data_page_addr k \<notin> set (region base n)"
    and "hide (\<lambda>m. walk k m root) (mem s) (map (page_at base) [i..<n]) = Some (m', infos)"
  shows "\<exists>s'. non_loop k base t app_size (of_nat (0x1000 * i)) i s = Some (n, s') \<and> mem s' = m' \<and>
    tasks s' = tasks s \<and> tsc s' = tsc s \<and> tsc_pos s' = tsc_pos s \<and>
    pinfo s' = take i (pinfo s) @ infos @ drop n (pinfo s)"
  using assms(1,4,5,7)
proof (induction "n - i" arbitrary: i s infos)
  case 0
  then have "i = n" "infos = []" "m' = mem s" by auto
  moreover have "\<not> of_nat (0x1000 * n) < app_size" using page_counter [OF assms(2,3), of n] by simp
  ultimately show ?case by (simp add: non_loop.simps)
next
  case (Suc d)
  then have i: "i < n" by simp
  let ?v = "page_at base i"
  have up: "map (page_at base) [i..<n] = ?v # map (page_at base) [Suc i..<n]"
    using i by (simp add: upt_conv_Cons)
  obtain a e infos' where h: "walk k (mem s) root ?v = Some a" "mem s a = Some e"
    "hide (\<lambda>m. walk k m root) ((mem s)(a \<mapsto> e AND 0xfffffffffffffffe)) (map (page_at base) [Suc i..<n]) =
       Some (m', infos')"
    "infos = \<lparr>vir_addr = ?v, phy_addr = e\<rparr> # infos'"
    using Suc.prems(4) unfolding up by (auto split: bind_splits)
  let ?s = "flush_tlb ((flush_tlb s)\<lparr>pinfo := (pinfo s)[i := \<lparr>vir_addr = ?v, phy_addr = e\<rparr>],
      mem := (mem s)(a \<mapsto> e AND 0xfffffffffffffffe)\<rparr>)"
  have ne: "?v \<noteq> random_data_page_addr k" using assms(6) i by (force simp: region_def)
  have lt: "of_nat (0x1000 * i) < app_size" using page_counter [OF assms(2,3), of i] i by simp
  have "non_v2p k ?v t i (flush_tlb s) = Some ?s"
    using h Suc.prems(1,3) i by (simp add: non_v2p_def)
  then have step: "non_loop k base t app_size (of_nat (0x1000 * i)) i s =
      non_loop k base t app_size (of_nat (0x1000 * Suc i)) (Suc i) ?s"
    using lt ne by (subst non_loop.simps) (simp add: page_at_def Let_def add.commute)
  have d: "d = n - Suc i" using Suc.hyps(2) by simp
  obtain s' where "non_loop k base t app_size (of_nat (0x1000 * Suc i)) (Suc i) ?s = Some (n, s')"
    "mem s' = m'" "tasks s' = tasks s" "tsc s' = tsc s" "tsc_pos s' = tsc_pos s"
    "pinfo s' = take (Suc i) (pinfo ?s) @ infos' @ drop n (pinfo ?s)"
    using Suc.hyps(1) [OF d, of ?s infos'] Suc.prems(1,3) h(3) i
    by (auto simp del: fun_upd_apply of_nat_mult)
  moreover have "take (Suc i) ((pinfo s)[i := x]) = take i (pinfo s) @ [x]" for x
    using i Suc.prems(3) by (simp add: take_Suc_conv_app_nth)
  ultimately show ?case using step h(4) i Suc.prems(3) by simp
qed

text \<open>The second loop refines \<^const>\<open>reveal\<close>.\<close>

lemma en_loop_reveal:
  assumes "pgd_of (tasks s) t = Some root" "take (length infos) (drop i (pinfo s)) = infos"
    and "reveal (\<lambda>m. walk k m root) (mem s) infos = Some m'"
  shows "\<exists>s'. en_loop k t i (length infos) s = Some s' \<and> mem s' = m' \<and> tasks s' = tasks s \<and>
    pinfo s' = pinfo s \<and> index s' = index s"
  using assms
proof (induction infos arbitrary: i s)
  case (Cons x infos)
  obtain a e where h: "walk k (mem s) root (vir_addr x) = Some a" "mem s a = Some e"
    "reveal (\<lambda>m. walk k m root) ((mem s)(a \<mapsto> phy_addr x)) infos = Some m'"
    using Cons.prems(3) by (auto split: bind_splits)
  obtain ys where ys: "drop i (pinfo s) = x # ys" "take (length infos) ys = infos"
    using Cons.prems(2) by (cases "drop i (pinfo s)") auto
  have "i < length (pinfo s)" using ys(1) by (metis drop_all list.discI not_less)
  moreover have "drop (Suc i) (pinfo s) = ys" using ys(1) by (metis drop_Suc list.sel(3) tl_drop)
  ultimately have i: "i < length (pinfo s)" "pinfo s ! i = x"
    "take (length infos) (drop (Suc i) (pinfo s)) = infos"
    using ys nth_via_drop [OF ys(1)] by simp_all
  let ?s = "(flush_tlb s)\<lparr>mem := (mem s)(a \<mapsto> phy_addr x)\<rparr>"
  have "en_v2p k (vir_addr x) t (phy_addr x) (flush_tlb s) = Some ?s"
    using h Cons.prems(1) by (simp add: en_v2p_def)
  then have "en_loop k t i (length (x # infos)) s = en_loop k t (Suc i) (length infos) ?s"
    using i by simp
  moreover have "\<exists>s'. en_loop k t (Suc i) (length infos) ?s = Some s' \<and> mem s' = m' \<and> tasks s' = tasks ?s \<and>
      pinfo s' = pinfo ?s \<and> index s' = index ?s"
    by (rule Cons.IH) (use Cons.prems(1) i h in \<open>simp_all del: fun_upd_apply\<close>)
  ultimately show ?case by (auto simp del: fun_upd_apply)
qed simp

section \<open>Properties of the trampoline\<close>

lemma region_Nil_upt: "map (page_at base) [0..<n] = region base n"
  by (simp add: region_def)

lemma laucher_run:
  assumes "pgd_of (tasks s) t = Some root" "n = pages_of app_size" "n \<le> length (pinfo s)"
    and "length (pinfo s) \<le> 2 ^ 51" "random_data_page_addr k \<notin> set (region base n)"
    and "hide (\<lambda>m. walk k m root) (mem s) (region base n) = Some (m', infos)"
  shows "\<exists>s'. laucher_non_v2p k base t app_size s = Some (0, s') \<and> mem s' = m' \<and> index s' = n \<and>
    tasks s' = tasks s \<and> tsc s' = tsc s \<and> tsc_pos s' = tsc_pos s \<and> pinfo s' = infos @ drop n (pinfo s)"
proof -
  obtain s' where "non_loop k base t app_size (of_nat (0x1000 * 0)) 0 s = Some (n, s')" "mem s' = m'"
    "tasks s' = tasks s" "tsc s' = tsc s" "tsc_pos s' = tsc_pos s" "pinfo s' = infos @ drop n (pinfo s)"
    using non_loop_hide [of s t root n app_size 0 k base m' infos] assms by (auto simp: region_def)
  then show ?thesis by (auto simp: laucher_non_v2p_def)
qed

lemma trampoline_run:
  assumes "pgd_of (tasks s) pi = Some root" "n = pages_of app_size" "n \<le> length (pinfo s)"
    and "length (pinfo s) \<le> 2 ^ 51" "random_data_page_addr k \<notin> set (region base n)"
    and "separated (\<lambda>m. walk k m root) (\<lambda>m. walkCells k m root) (mem s) (region base n)"
  shows "\<exists>s'. trampoline k pi base app_size s = Some (tsc s (tsc_pos s + 1) - tsc s (tsc_pos s), s') \<and>
    mem s' = mem s \<and> map vir_addr (take n (pinfo s')) = region base n"
proof -
  let ?slot = "\<lambda>m. walk k m root"
  obtain m' infos where h: "hide ?slot (mem s) (region base n) = Some (m', infos)"
    "map vir_addr infos = region base n" "reveal ?slot m' infos = Some (mem s)"
    using pages.hide_reveal [OF assms(6)] by blast
  have len: "length infos = n" using h(2) by (metis length_map length_upt minus_nat.diff_0 region_def)
  let ?s1 = "snd (urdtsc (event ReloadCr3 s))"
  have s1: "tasks ?s1 = tasks s" "pinfo ?s1 = pinfo s" "mem ?s1 = mem s" "tsc ?s1 = tsc s"
    "tsc_pos ?s1 = tsc_pos s + 1"
    by (simp_all add: urdtsc_def)
  obtain s2 where s2: "laucher_non_v2p k base pi app_size ?s1 = Some (0, s2)" "mem s2 = m'" "index s2 = n"
    "tasks s2 = tasks s" "tsc s2 = tsc s" "tsc_pos s2 = tsc_pos s + 1" "pinfo s2 = infos @ drop n (pinfo s)"
    using laucher_run [of ?s1 pi root n app_size k base m' infos] assms h(1) s1 by auto
  let ?s3 = "snd (urdtsc s2)"
  have s3: "tasks ?s3 = tasks s" "pinfo ?s3 = infos @ drop n (pinfo s)" "mem ?s3 = m'" "index ?s3 = n"
    using s2 by (simp_all add: urdtsc_def)
  obtain s4 where s4: "en_loop k pi 0 (length infos) ?s3 = Some s4" "mem s4 = mem s" "pinfo s4 = pinfo ?s3"
    using en_loop_reveal [of ?s3 pi root infos 0 k "mem s"] assms(1) s3 h(3) by auto
  have "trampoline k pi base app_size s = Some (tsc s (tsc_pos s + 1) - tsc s (tsc_pos s), s4)"
    using s2 s4 s3(4) len
    by (simp add: trampoline_def launch_en_v2p_def case_prod_unfold Let_def) (simp add: urdtsc_def)
  moreover have "map vir_addr (take n (pinfo s4)) = region base n" using s4(3) s3(2) len h(2) by simp
  ultimately show ?thesis using s4(2) by blast
qed


text \<open>
  Remark.  Between the two halves of the trampoline every page of the region is absent: the present bit of
  its entry is clear and the other bits are unchanged, and no other cell of memory has changed.
\<close>

theorem region_hidden:
  assumes "pgd_of (tasks s) pi = Some root" "length (pinfo s) = 1000" "pages_of app_size \<le> 1000"
    and "random_data_page_addr k \<notin> set (region base (pages_of app_size))"
    and "separated (\<lambda>m. walk k m root) (\<lambda>m. walkCells k m root) (mem s) (region base (pages_of app_size))"
  shows "\<exists>s'. laucher_non_v2p k base pi app_size s = Some (0, s') \<and> index s' = pages_of app_size \<and>
    (\<forall>v \<in> set (region base (pages_of app_size)). \<exists>a e e'. walk k (mem s) root v = Some a \<and>
       mem s a = Some e \<and> mem s' a = Some e' \<and> (\<forall>b. bit e' b \<longleftrightarrow> bit e b \<and> b \<noteq> 0)) \<and>
    (\<forall>a. (\<forall>v \<in> set (region base (pages_of app_size)). walk k (mem s) root v \<noteq> Some a) \<longrightarrow> mem s' a = mem s a)"
proof -
  let ?n = "pages_of app_size" and ?slot = "\<lambda>m. walk k m root"
  obtain m' infos where h: "hide ?slot (mem s) (region base ?n) = Some (m', infos)"
    "\<forall>v \<in> set (region base ?n). \<exists>e. mem s (the (?slot (mem s) v)) = Some e \<and>
       m' (the (?slot (mem s) v)) = Some (e AND 0xfffffffffffffffe)"
    "\<forall>a. (\<forall>v \<in> set (region base ?n). ?slot (mem s) v \<noteq> Some a) \<longrightarrow> m' a = mem s a"
    using pages.hide_reveal [OF assms(5)] by blast
  obtain s' where s': "laucher_non_v2p k base pi app_size s = Some (0, s')" "mem s' = m'" "index s' = ?n"
    using laucher_run [of s pi root ?n app_size k base m' infos] assms h(1) by auto
  have bits: "bit (e AND 0xfffffffffffffffe :: u64) b \<longleftrightarrow> bit e b \<and> b \<noteq> 0" for e b
  proof -
    have "(0xfffffffffffffffe :: u64) = NOT 1" by simp
    then show ?thesis by (simp only: bit_and_iff bit_not_iff bit_1_iff) (auto dest: bit_imp_le_length)
  qed
  have "\<exists>a e e'. walk k (mem s) root v = Some a \<and> mem s a = Some e \<and> mem s' a = Some e' \<and>
      (\<forall>b. bit e' b \<longleftrightarrow> bit e b \<and> b \<noteq> 0)" if "v \<in> set (region base ?n)" for v
    using separated_entry [OF assms(5) that] h(2) that s'(2) bits by fastforce
  with s' h(3) show ?thesis by auto
qed

text \<open>How far the loop can have come.\<close>

lemma non_loop_bound:
  "non_loop k base t app_size page_size i s = Some (i', s') \<Longrightarrow> i \<le> length (pinfo s) \<Longrightarrow>
     i' \<le> length (pinfo s)"
proof (induction k base t app_size page_size i s rule: non_loop.induct)
  case (1 k base t app_size page_size i s)
  show ?case
  proof (cases "page_size < app_size \<and> base + page_size \<noteq> random_data_page_addr k")
    case True
    then obtain s2 where s2: "non_v2p k (base + page_size) t i (flush_tlb s) = Some s2"
      "non_loop k base t app_size (page_size + 0x1000) (i + 1) s2 = Some (i', s')"
      using 1(2) by (subst (asm) non_loop.simps) (auto simp: Let_def split: bind_splits)
    with non_v2p_pinfo [OF s2(1)] show ?thesis
      using 1(1) [of "flush_tlb s" "base + page_size" s2] True by simp
  next
    case False
    with 1(2,3) show ?thesis by (subst (asm) non_loop.simps) (auto simp: Let_def split: if_splits)
  qed
qed

lemma non_loop_end:
  assumes "n = pages_of app_size" "n \<le> 2 ^ 51"
  shows "i \<le> n \<Longrightarrow> random_data_page_addr k \<notin> set (region base n) \<Longrightarrow>
    non_loop k base t app_size (of_nat (0x1000 * i)) i s = Some (i', s') \<Longrightarrow> i' = n"
proof (induction "n - i" arbitrary: i s)
  case 0
  then have "\<not> of_nat (0x1000 * i) < app_size" using page_counter [OF assms, of i] by simp
  with 0 non_loop.simps [of k base t app_size "of_nat (0x1000 * i)" i s] show ?case by simp
next
  case (Suc d)
  then have i: "i < n" by simp
  then have lt: "of_nat (0x1000 * i) < app_size" using page_counter [OF assms, of i] by simp
  have "base + of_nat (0x1000 * i) \<noteq> random_data_page_addr k"
    using Suc.prems(2) i by (force simp: region_def page_at_def)
  then obtain s2 where "non_loop k base t app_size (of_nat (0x1000 * i) + 0x1000) (i + 1) s2 = Some (i', s')"
    using Suc.prems(3) lt by (subst (asm) non_loop.simps) (auto simp: Let_def split: bind_splits)
  moreover have "of_nat (0x1000 * i) + 0x1000 = (of_nat (0x1000 * Suc i) :: u64)" by simp
  ultimately show ?case using Suc.hyps(1) [of "Suc i" s2] Suc.hyps(2) Suc.prems(2) i
    by (simp del: of_nat_mult)
qed

text \<open>
  Remark.  A region of more pages than the table of saved entries has room for, and in which the loop does
  not meet its stop page, overruns the table: the call is undefined.
\<close>

theorem region_overflow:
  assumes "length (pinfo s) = 1000" "1000 < pages_of app_size" "pages_of app_size \<le> 2 ^ 51"
    and "random_data_page_addr k \<notin> set (region base (pages_of app_size))"
  shows "laucher_non_v2p k base pi app_size s = None"
proof (rule ccontr)
  assume "laucher_non_v2p k base pi app_size s \<noteq> None"
  then obtain i' s' where r: "non_loop k base pi app_size (of_nat (0x1000 * 0)) 0 s = Some (i', s')"
    by (auto simp: laucher_non_v2p_def split: bind_splits)
  have "i' = pages_of app_size" by (rule non_loop_end [OF refl assms(3) _ assms(4) r]) simp
  moreover have "i' \<le> 1000" using non_loop_bound [OF r] assms(1) by simp
  ultimately show False using assms(2) by simp
qed

section \<open>A concrete kernel\<close>

text \<open>
  A process with two pages at \<open>0x400000\<close>, mapped through one table per level, with the constants of
  the 64-bit kernel.  The first page is not executable: its entry has bit 63 set.
\<close>

definition demoK :: kconst where
  "demoK = \<lparr>PTE_PFN_MASK = 0x000ffffffffff000, PAGE_OFFSET = 0xffff888000000000,
     PAGE_MASK = 0xfffffffffffff000, random_data_page_addr = 0xffffffffc0001000,
     trampoline_addr = 0xffffffffc0000000, clear_ifg_addr = 0xffffffffc0000010\<rparr>"

definition demoMem :: memory where
  "demoMem = [0xffff888000001000 \<mapsto> 0x2067, 0xffff888000002000 \<mapsto> 0x3067,
     0xffff888000003010 \<mapsto> 0x4067, 0xffff888000004000 \<mapsto> 0x8000000000005067,
     0xffff888000004008 \<mapsto> 0x6067]"

definition demoTask :: task_struct where
  "demoTask = \<lparr>pid = 42, mm = Some \<lparr>pgd = 0xffff888000001000, mmap_base = 0x400000, task_size = 0x2000\<rparr>\<rparr>"

definition demoState :: kstate where
  "demoState = \<lparr>mem = demoMem, tasks = [\<lparr>pid = 1, mm = None\<rparr>, demoTask], cur_task = demoTask,
     pinfo = replicate 1000 \<lparr>vir_addr = 0, phy_addr = 0\<rparr>, index = 0, g_app_baseaddr = 0, g_app_size = 0,
     tsc = (\<lambda>i. of_nat (100 * i)), tsc_pos = 0, irq_enabled = True, trace = []\<rparr>"

lemma demo_pgd: "pgd_of (tasks demoState) 42 = Some 0xffff888000001000"
  by (simp add: demoState_def demoTask_def pgd_of_def find_task_def)

lemma demo_pages: "pages_of 0x1800 = 2" "region 0x400000 2 = [0x400000, 0x401000]"
  by (simp_all add: pages_of_def region_def page_at_def upt_rec)

lemma table_index_demo:
  "table_index 0x400000 39 = 0" "table_index 0x400000 30 = 0" "table_index 0x400000 21 = 16"
  "table_index 0x400000 12 = 0" "table_index 0x401000 39 = 0" "table_index 0x401000 30 = 0"
  "table_index 0x401000 21 = 16" "table_index 0x401000 12 = 8"
  by (simp_all add: table_index_def drop_bit_eq_div)

lemma demo_walk:
  "walk demoK demoMem 0xffff888000001000 0x400000 = Some 0xffff888000004000"
  "walk demoK demoMem 0xffff888000001000 0x401000 = Some 0xffff888000004008"
  "walkCells demoK demoMem 0xffff888000001000 0x400000 =
     [0xffff888000001000, 0xffff888000002000, 0xffff888000003010]"
  "walkCells demoK demoMem 0xffff888000001000 0x401000 =
     [0xffff888000001000, 0xffff888000002000, 0xffff888000003010]"
  by (simp_all add: walk_def walkCells_def table_index_demo next_table_def demoK_def demoMem_def)

lemma demo_separated:
  "separated (\<lambda>m. walk demoK m 0xffff888000001000) (\<lambda>m. walkCells demoK m 0xffff888000001000)
     (mem demoState) (region 0x400000 (pages_of 0x1800))"
  by (simp add: separated_def demo_pages demoState_def demo_walk) (simp add: demoMem_def)


theorem region_hidden_witness:
  "\<exists>s'. laucher_non_v2p demoK 0x400000 42 0x1800 demoState = Some (0, s') \<and>
    index s' = pages_of 0x1800 \<and>
    (\<forall>v \<in> set (region 0x400000 (pages_of 0x1800)). \<exists>a e e'.
       walk demoK (mem demoState) 0xffff888000001000 v = Some a \<and>
       mem demoState a = Some e \<and> mem s' a = Some e' \<and> (\<forall>b. bit e' b \<longleftrightarrow> bit e b \<and> b \<noteq> 0)) \<and>
    (\<forall>a. (\<forall>v \<in> set (region 0x400000 (pages_of 0x1800)).
       walk demoK (mem demoState) 0xffff888000001000 v \<noteq> Some a) \<longrightarrow> mem s' a = mem demoState a)"
  by (rule region_hidden [OF demo_pgd _ _ _ demo_separated])
    (simp_all add: demo_pages demoState_def demoK_def)

lemma region_above:
  assumes "v \<in> set (region 0 n)" "n \<le> 2000"
  shows "v < 0x1000 * 2000"
proof -
  obtain i where i: "v = of_nat (0x1000 * i)" "i < n" using assms(1) by (auto simp: region_def page_at_def)
  then have "0x1000 * i < 0x1000 * (2000 :: nat)" using assms(2) by simp
  then have "unat v = 0x1000 * i" unfolding i(1) by (simp only: unat_of_nat) simp
  then show ?thesis using \<open>0x1000 * i < 0x1000 * 2000\<close> by (simp add: word_less_nat_alt)
qed

theorem region_overflow_witness: "laucher_non_v2p demoK 0 42 0x3e9000 demoState = None"
proof (rule region_overflow)
  show "random_data_page_addr demoK \<notin> set (region 0 (pages_of 0x3e9000))"
    using region_above [of "random_data_page_addr demoK" "pages_of 0x3e9000"]
    by (auto simp: pages_of_def demoK_def)
qed (simp_all add: demoState_def pages_of_def)

section \<open>Address translation\<close>

text \<open>
  Remark.  \<^verbatim>\<open>v2p\<close> combines the page entry with the page offset: with the kernel's page mask the low
  twelve bits of the result are those of the virtual address and all the others are those of the
  entry.  This includes the bits above the physical address: the result of a page that is not
  executable has bit 63 set.
\<close>

theorem v2p_translation:
  assumes "PAGE_MASK k = NOT 0xfff" "pgd_of (tasks s) t = Some root" "walk k (mem s) root va = Some a"
    and "mem s a = Some e"
  shows "\<exists>p. v2p k va t s = Some p \<and> vtp k va t s = Some (a, e, p) \<and> (\<forall>b < 12. bit p b = bit va b) \<and>
    (\<forall>b \<ge> 12. bit p b = bit e b)"
proof -
  have m: "(0xfff :: u64) = mask 12" by (simp add: mask_eq_exp_minus_1)
  have "bit (phys_of k e va) b = (if b < 12 then bit va b else bit e b)" for b
    unfolding phys_of_def assms(1) m by (auto simp: bit_simps dest: bit_imp_le_length)
  with assms(2-4) show ?thesis by (simp add: v2p_def vtp_def)
qed

theorem v2p_translation_witness:
  "\<exists>p. v2p demoK 0x400000 42 demoState = Some p \<and>
    vtp demoK 0x400000 42 demoState = Some (0xffff888000004000, 0x8000000000005067, p) \<and>
    (\<forall>b < 12. bit p b = bit (0x400000 :: u64) b) \<and> (\<forall>b \<ge> 12. bit p b = bit (0x8000000000005067 :: u64) b)"
  by (rule v2p_translation [OF _ demo_pgd])
    (simp_all add: demo_walk demoState_def, simp_all add: demoK_def demoMem_def)

end
