(* ===== verification/Crc.thy ===== *)
theory Crc
  imports Prelude
begin

unbundle bit_operations_syntax

text \<open>
  Checksums: the bit-serial CRC-32 that the guest driver and the hypervisor use to measure enclave
  memory (\<^verbatim>\<open>va_tr/crc.c\<close>), its user-space copies and the variant on the processor's CRC
  instruction (\<^verbatim>\<open>hcrc.c\<close>, \<^verbatim>\<open>te5/crc.c\<close>), and the table-driven implementation of the file I/O
  benchmark (\<^verbatim>\<open>crc32.c\<close>), which works on four bytes at a time.
\<close>

section \<open>The bit-serial checksum\<close>

definition crcBit :: "u32 \<Rightarrow> u32" where
  "crcBit crc = drop_bit 1 crc XOR (0xEDB88320 AND (- (crc AND 1)))"

definition crcByte :: "u32 \<Rightarrow> u8 \<Rightarrow> u32" where
  "crcByte crc byte = (crcBit ^^ 8) (crc XOR ucast byte)"

text \<open>\<open>ptr\<close> walks over the buffer from offset \<open>off\<close>; reading past its end is undefined.\<close>

fun crcLoop :: "u8 list \<Rightarrow> nat \<Rightarrow> nat \<Rightarrow> u32 \<Rightarrow> u32 option" where
  "crcLoop buf off 0 crc = Some crc"
| "crcLoop buf off (Suc len) crc =
     do {
       byte \<leftarrow> buf_read buf off 1;
       crcLoop buf (off + 1) len (crcByte crc (hd byte))
     }"

definition crc32 :: "u8 list \<Rightarrow> u32 \<Rightarrow> u32 option" where
  "crc32 ptr len =
     do {
       crc \<leftarrow> crcLoop ptr 0 (unat len) 0xffffffff;
       Some (crc XOR 0xffffffff)
     }"

text \<open>The user-space copy is the same text.\<close>

definition crcr :: "u8 list \<Rightarrow> u32 \<Rightarrow> u32 option" where
  "crcr ptr len =
     do {
       crc \<leftarrow> crcLoop ptr 0 (unat len) 0xffffffff;
       Some (crc XOR 0xffffffff)
     }"

text \<open>
  The variant on the \<open>crc32\<close> instruction, which is the parameter \<open>mm_crc32_u8\<close>.  The timed call on
  \<open>buffer[0]\<close>, whose result is dropped, still reads the first byte.
\<close>

definition crch :: "(u32 \<Rightarrow> u8 \<Rightarrow> u32) \<Rightarrow> u8 list \<Rightarrow> nat \<Rightarrow> u32 option" where
  "crch mm_crc32_u8 buffer sz =
     do {
       probe \<leftarrow> buf_read buffer 0 1;
       bytes \<leftarrow> buf_read buffer 0 sz;
       Some (foldl mm_crc32_u8 0xffffffff bytes XOR 0xffffffff)
     }"

definition hcrcMain :: "(u32 \<Rightarrow> u8 \<Rightarrow> u32) \<Rightarrow> (u32 \<times> u32) option" where
  "hcrcMain mm_crc32_u8 =
     do {
       let buffer = replicate 4096 1;
       crc1 \<leftarrow> crch mm_crc32_u8 buffer 4096;
       crc2 \<leftarrow> crcr buffer 4096;
       Some (crc1, crc2)
     }"

section \<open>The table-driven checksum\<close>

definition polyTerms :: "nat list" where
  "polyTerms = [0, 1, 2, 4, 5, 7, 8, 10, 11, 12, 16, 22, 23, 26]"

definition poly :: u32 where
  "poly = fold (\<lambda>t p. p OR push_bit (31 - t) 1) polyTerms 0"

definition tableBit :: "u32 \<Rightarrow> u32" where
  "tableBit c = (if c AND 1 \<noteq> 0 then poly XOR drop_bit 1 c else drop_bit 1 c)"

text \<open>\<open>crc_table k n\<close> for \<open>k < 4\<close>: the value followed by \<open>k\<close> zeros.\<close>

fun crc_table :: "nat \<Rightarrow> u8 \<Rightarrow> u32" where
  "crc_table 0 n = (tableBit ^^ 8) (ucast n)"
| "crc_table (Suc k) n =
     (let c = crc_table k n in crc_table 0 (ucast (c AND 0xff)) XOR drop_bit 8 c)"

definition do1 :: "u32 \<Rightarrow> u8 \<Rightarrow> u32" where
  "do1 c b = crc_table 0 (ucast ((c XOR ucast b) AND 0xff)) XOR drop_bit 8 c"

definition le32 :: "u8 \<Rightarrow> u8 \<Rightarrow> u8 \<Rightarrow> u8 \<Rightarrow> u32" where
  "le32 b0 b1 b2 b3 =
     ucast b0 OR push_bit 8 (ucast b1) OR push_bit 16 (ucast b2) OR push_bit 24 (ucast b3)"

definition dolit4 :: "u32 \<Rightarrow> u32 \<Rightarrow> u32" where
  "dolit4 c w =
     (let c' = c XOR w
      in crc_table 3 (ucast (c' AND 0xff)) XOR crc_table 2 (ucast (drop_bit 8 c' AND 0xff))
         XOR crc_table 1 (ucast (drop_bit 16 c' AND 0xff)) XOR crc_table 0 (ucast (drop_bit 24 c')))"

text \<open>
  The first loop runs to a four byte boundary: \<open>addr\<close> is the address of the next byte.  The loops
  over eight words and over one word are the same computation, the last loop takes single bytes.
\<close>

fun alignLoop :: "nat \<Rightarrow> u8 list \<Rightarrow> u32 \<Rightarrow> u8 list \<times> u32" where
  "alignLoop addr [] c = ([], c)"
| "alignLoop addr (b # bs) c =
     (if addr mod 4 \<noteq> 0 then alignLoop (addr + 1) bs (do1 c b) else (b # bs, c))"

fun wordLoop :: "u8 list \<Rightarrow> u32 \<Rightarrow> u8 list \<times> u32" where
  "wordLoop (b0 # b1 # b2 # b3 # bs) c = wordLoop bs (dolit4 c (le32 b0 b1 b2 b3))"
| "wordLoop bs c = (bs, c)"

function dolit32Loop :: "u8 list \<Rightarrow> u32 \<Rightarrow> u8 list \<times> u32" where
  "dolit32Loop bs c =
     (if length bs \<ge> 32 then dolit32Loop (drop 32 bs) (snd (wordLoop (take 32 bs) c)) else (bs, c))"
  by pat_completeness auto
termination
  by (relation "measure (\<lambda>(bs, c). length bs)") auto

declare dolit32Loop.simps [simp del]

definition crc32_little :: "u32 \<Rightarrow> nat \<Rightarrow> u8 list \<Rightarrow> u32" where
  "crc32_little crc addr buf =
     (let c = NOT crc;
          (buf1, c1) = alignLoop addr buf c;
          (buf2, c2) = dolit32Loop buf1 c1;
          (buf3, c3) = wordLoop buf2 c2;
          c4 = foldl do1 c3 buf3
      in NOT c4)"

text \<open>The entry point, on a little-endian machine; a null buffer gives 0.\<close>

definition crc32_fileio :: "u32 \<Rightarrow> nat \<Rightarrow> u8 list option \<Rightarrow> u32 \<Rightarrow> u32 option" where
  "crc32_fileio crc addr buf len =
     (case buf of
        None \<Rightarrow> Some 0
      | Some b \<Rightarrow> do { bytes \<leftarrow> buf_read b 0 (unat len); Some (crc32_little crc addr bytes) })"

section \<open>One bit\<close>

lemma and_one_u32: "(c :: u32) AND 1 = (if bit c 0 then 1 else 0)"
  by (simp add: and_one_eq bit_0 mod2_eq_if)

lemma crcBit_cases: "crcBit c = (if bit c 0 then drop_bit 1 c XOR 0xEDB88320 else drop_bit 1 c)"
  by (simp add: crcBit_def and_one_u32)

lemma poly_eq: "poly = 0xEDB88320"
  by (simp add: poly_def polyTerms_def)

lemma tableBit_crcBit: "tableBit = crcBit"
  by (rule ext) (simp add: tableBit_def crcBit_cases and_one_u32 poly_eq xor.commute)

lemma crcBit_xor: "crcBit (a XOR b) = crcBit a XOR crcBit b"
  by (simp add: crcBit_cases bit_xor_iff drop_bit_xor ac_simps)

lemma crcBit_0: "crcBit 0 = 0"
  by (simp add: crcBit_cases)

definition crcUnbit :: "u32 \<Rightarrow> u32" where
  "crcUnbit d = (if bit d 31 then push_bit 1 (d XOR 0xEDB88320) OR 1 else push_bit 1 d)"

lemma bit_31_poly: "bit (0xEDB88320 :: u32) 31"
  by (simp add: bit_iff_odd drop_bit_eq_div)

lemma crcUnbit_crcBit: "crcUnbit (crcBit c) = c"
proof -
  have "push_bit 1 (drop_bit 1 c) OR (if bit c 0 then 1 else 0) = c"
  proof (rule bit_word_eqI)
    fix n
    show "bit (push_bit 1 (drop_bit 1 c) OR (if bit c 0 then 1 else 0)) n = bit c n"
      by (cases "n = 0") (auto simp: bit_simps simp del: One_nat_def push_bit_Suc dest: bit_imp_le_length)
  qed
  moreover have "\<not> bit (drop_bit 1 c) 31"
    by (auto simp: bit_simps dest: bit_imp_le_length)
  ultimately show ?thesis
    using bit_31_poly
    by (cases "bit c 0") (simp_all only: crcUnbit_def crcBit_cases bit_xor_iff xor_cancel_right
        simp_thms if_True if_False or.right_neutral)
qed

lemma crcBit_inj: "crcBit a = crcBit b \<Longrightarrow> a = b"
  by (metis crcUnbit_crcBit)

section \<open>Several bits\<close>

lemma crcBits_xor: "(crcBit ^^ n) (a XOR b) = (crcBit ^^ n) a XOR (crcBit ^^ n) b"
  by (induction n arbitrary: a b) (simp_all add: crcBit_xor)

lemma crcBits_inj: "(crcBit ^^ n) a = (crcBit ^^ n) b \<Longrightarrow> a = b"
  by (induction n) (auto dest: crcBit_inj)

text \<open>Low zero bits are shifted out.\<close>

lemma crcBits_shift: "(\<And>i. i < n \<Longrightarrow> \<not> bit c i) \<Longrightarrow> (crcBit ^^ n) c = drop_bit n c"
proof (induction n arbitrary: c)
  case (Suc n)
  have "crcBit c = drop_bit 1 c" using Suc.prems [of 0] by (simp add: crcBit_cases)
  moreover have "(crcBit ^^ n) (drop_bit 1 c) = drop_bit n (drop_bit 1 c)"
    by (rule Suc.IH) (use Suc.prems in \<open>simp add: bit_drop_bit_eq\<close>)
  ultimately show ?case by (simp add: funpow_swap1 [symmetric] del: funpow.simps) (simp add: funpow_swap1)
qed simp

lemma crcBits_push:
  assumes "n \<le> 16"
  shows "(crcBit ^^ 8) (push_bit (n + 8) (ucast (b :: u8))) = push_bit n (ucast b)"
proof -
  have "(crcBit ^^ 8) (push_bit (n + 8) (ucast b)) = drop_bit 8 (push_bit (n + 8) (ucast b))"
    by (rule crcBits_shift) (simp add: bit_push_bit_iff)
  also have "\<dots> = (push_bit n (ucast b) :: u32)"
    by (rule bit_word_eqI) (use assms in \<open>auto simp: bit_simps dest: bit_imp_le_length\<close>)
  finally show ?thesis .
qed

lemma crcBits_split: "(crcBit ^^ 8) c = (crcBit ^^ 8) (c AND 0xff) XOR drop_bit 8 c"
proof -
  let ?h = "c AND NOT 0xff"
  have "c = (c AND 0xff) XOR ?h"
    by (rule bit_word_eqI) (auto simp: bit_simps mask8)
  then have "(crcBit ^^ 8) c = (crcBit ^^ 8) (c AND 0xff) XOR (crcBit ^^ 8) ?h"
    by (metis crcBits_xor)
  also have "(crcBit ^^ 8) ?h = drop_bit 8 ?h"
    by (rule crcBits_shift) (simp add: bit_simps mask8)
  also have "\<dots> = drop_bit 8 c"
    by (rule bit_word_eqI) (auto simp: bit_simps mask8 dest: bit_imp_le_length)
  finally show ?thesis .
qed

section \<open>The tables\<close>

lemma ucast_ucast_and: "(ucast (ucast (c AND 0xff :: u32) :: u8) :: u32) = c AND 0xff"
  by (rule bit_word_eqI) (auto simp: bit_simps mask8)

lemma crc_table_eq: "crc_table k n = (crcBit ^^ (8 * (k + 1))) (ucast n)"
proof (induction k)
  case 0
  then show ?case by (simp add: tableBit_crcBit)
next
  case (Suc k)
  let ?c = "crc_table k n"
  have "crc_table (Suc k) n = (crcBit ^^ 8) (?c AND 0xff) XOR drop_bit 8 ?c"
    by (simp add: Let_def tableBit_crcBit ucast_ucast_and del: crc_table.simps(1))
       (simp add: tableBit_crcBit ucast_ucast_and)
  also have "\<dots> = (crcBit ^^ 8) ?c" by (rule crcBits_split [symmetric])
  also have "\<dots> = (crcBit ^^ (8 + 8 * (k + 1))) (ucast n)" by (simp only: Suc.IH funpow_add o_apply)
  finally show ?case by (simp add: algebra_simps)
qed

lemma do1_crcByte: "do1 c b = crcByte c b"
proof -
  have "drop_bit 8 (c XOR ucast b) = drop_bit 8 c"
    by (rule bit_word_eqI) (auto simp: bit_simps dest: bit_imp_le_length)
  then show ?thesis
    using crcBits_split [of "c XOR ucast b"]
    by (simp add: do1_def crcByte_def crc_table_eq ucast_ucast_and)
qed

lemma crcByte_four:
  "crcByte (crcByte (crcByte (crcByte c b0) b1) b2) b3 = (crcBit ^^ 32) (c XOR le32 b0 b1 b2 b3)"
proof -
  have le: "le32 b0 b1 b2 b3 =
      ucast b0 XOR push_bit 8 (ucast b1) XOR push_bit 16 (ucast b2) XOR push_bit 24 (ucast b3)"
    unfolding le32_def by (rule bit_word_eqI) (auto simp: bit_simps dest: bit_imp_le_length)
  have p: "(crcBit ^^ 8) (push_bit 8 (ucast b)) = ucast b"
    "(crcBit ^^ 8) (push_bit 16 (ucast b)) = push_bit 8 (ucast b)"
    "(crcBit ^^ 8) (push_bit 24 (ucast b)) = push_bit 16 (ucast b)" for b :: u8
    using crcBits_push [of 0 b] crcBits_push [of 8 b] crcBits_push [of 16 b] by simp_all
  have "(crcBit ^^ 32) x = (crcBit ^^ 8) ((crcBit ^^ 8) ((crcBit ^^ 8) ((crcBit ^^ 8) x)))" for x
  proof -
    have "(32 :: nat) = 8 + (8 + (8 + 8))" by simp
    then show ?thesis by (simp only: funpow_add o_apply)
  qed
  then show ?thesis
    unfolding crcByte_def le by (simp only: crcBits_xor p xor.assoc)
qed

lemma bytes_of_u32:
  "le32 (ucast c) (ucast (drop_bit 8 c)) (ucast (drop_bit 16 c)) (ucast (drop_bit 24 c)) = c"
proof (rule bit_word_eqI)
  fix n assume "n < LENGTH(32)"
  then consider "n < 8" | "8 \<le> n" "n < 16" | "16 \<le> n" "n < 24" | "24 \<le> n" "n < 32" by force
  then show "bit (le32 (ucast c) (ucast (drop_bit 8 c)) (ucast (drop_bit 16 c)) (ucast (drop_bit 24 c))) n
      = bit c n"
    by cases (auto simp: le32_def bit_simps)
qed

text \<open>One word through the four tables is four single bytes.\<close>

lemma crcBits_bytes:
  "(crcBit ^^ 32) (le32 b0 b1 b2 b3) =
     (crcBit ^^ 32) (ucast b0) XOR (crcBit ^^ 24) (ucast b1) XOR (crcBit ^^ 16) (ucast b2)
     XOR (crcBit ^^ 8) (ucast b3)"
proof -
  have s: "(crcBit ^^ 8) ((crcBit ^^ 8) x) = (crcBit ^^ 16) x"
    "(crcBit ^^ 8) ((crcBit ^^ 16) x) = (crcBit ^^ 24) x"
    "(crcBit ^^ 8) ((crcBit ^^ 24) x) = (crcBit ^^ 32) x" for x
    by (simp_all only: o_apply [symmetric, of "crcBit ^^ 8"] funpow_add [symmetric]) simp_all
  have "(crcBit ^^ 32) (0 XOR le32 b0 b1 b2 b3) =
      crcByte (crcByte (crcByte (crcByte 0 b0) b1) b2) b3"
    by (rule crcByte_four [symmetric])
  then show ?thesis by (simp add: crcByte_def crcBits_xor s xor.assoc)
qed

lemma dolit4_crcByte:
  "dolit4 c (le32 b0 b1 b2 b3) = crcByte (crcByte (crcByte (crcByte c b0) b1) b2) b3"
proof -
  define x where "x = c XOR le32 b0 b1 b2 b3"
  have "dolit4 c (le32 b0 b1 b2 b3) =
      (crcBit ^^ 32) (ucast (ucast x :: u8)) XOR (crcBit ^^ 24) (ucast (ucast (drop_bit 8 x) :: u8))
      XOR (crcBit ^^ 16) (ucast (ucast (drop_bit 16 x) :: u8))
      XOR (crcBit ^^ 8) (ucast (ucast (drop_bit 24 x) :: u8))"
    by (simp only: dolit4_def Let_def crc_table_eq u8_ucast_and_ff flip: x_def) simp
  also have "\<dots> = (crcBit ^^ 32) x"
    by (simp only: crcBits_bytes [symmetric] bytes_of_u32)
  finally show ?thesis by (simp only: crcByte_four x_def)
qed

section \<open>Whole buffers\<close>

lemma crcLoop_eq:
  "crcLoop buf off len crc =
     (if off + len \<le> length buf \<or> len = 0 then Some (foldl crcByte crc (take len (drop off buf))) else None)"
proof (induction len arbitrary: off crc)
  case (Suc len)
  show ?case
  proof (cases "off < length buf")
    case True
    then have "buf_read buf off 1 = Some [buf ! off]"
      by (simp add: buf_read_def take_Suc hd_drop_conv_nth)
    moreover have "take (Suc len) (drop off buf) = buf ! off # take len (drop (Suc off) buf)"
      using True by (simp add: Cons_nth_drop_Suc [symmetric])
    ultimately show ?thesis using Suc.IH [of "off + 1"] True by auto
  qed (simp add: buf_read_def)
qed simp

lemma wordLoop_eq: "foldl crcByte (snd (wordLoop bs c)) (fst (wordLoop bs c)) = foldl crcByte c bs"
  by (induction bs c rule: wordLoop.induct) (simp_all add: dolit4_crcByte)

lemma wordLoop_multiple: "length bs mod 4 = 0 \<Longrightarrow> fst (wordLoop bs c) = []"
  by (induction bs c rule: wordLoop.induct) auto

lemma dolit32Loop_eq:
  "foldl crcByte (snd (dolit32Loop bs c)) (fst (dolit32Loop bs c)) = foldl crcByte c bs"
proof (induction bs c rule: dolit32Loop.induct)
  case (1 bs c)
  show ?case
  proof (cases "32 \<le> length bs")
    case True
    then have "foldl crcByte (snd (wordLoop (take 32 bs) c)) [] = foldl crcByte c (take 32 bs)"
      using wordLoop_eq [of "take 32 bs" c] wordLoop_multiple [of "take 32 bs" c] by simp
    then have "foldl crcByte (snd (wordLoop (take 32 bs) c)) (drop 32 bs) = foldl crcByte c bs"
      by (metis append_take_drop_id foldl_Nil foldl_append)
    with 1 True show ?thesis by (simp add: dolit32Loop.simps [of bs])
  qed (simp add: dolit32Loop.simps)
qed

lemma alignLoop_eq:
  "foldl crcByte (snd (alignLoop addr bs c)) (fst (alignLoop addr bs c)) = foldl crcByte c bs"
  by (induction addr bs c rule: alignLoop.induct) (simp_all add: do1_crcByte)

lemma crc32_little_eq: "crc32_little crc addr buf = NOT (foldl crcByte (NOT crc) buf)"
proof -
  have "do1 = crcByte" by (intro ext) (rule do1_crcByte)
  then show ?thesis
    using alignLoop_eq [of addr buf "NOT crc"]
      dolit32Loop_eq [of "fst (alignLoop addr buf (NOT crc))" "snd (alignLoop addr buf (NOT crc))"]
      wordLoop_eq
    by (simp add: crc32_little_def case_prod_unfold)
qed

lemma not_eq_xor_ones: "NOT (c :: u32) = c XOR 0xffffffff"
proof -
  have "(0xffffffff :: u32) = NOT 0" by simp
  then show ?thesis by (simp only:) (rule bit_word_eqI, simp add: bit_xor_iff bit_not_iff)
qed

section \<open>Feeding a checksum in pieces\<close>

text \<open>
  What an incremental digest promises: a state fed with one buffer and then another is the state
  fed with their concatenation.  The client may cut its data as it likes.
\<close>

locale incremental =
  fixes feed :: "'s \<Rightarrow> 'b list \<Rightarrow> 's"
  assumes feed_append: "feed s (xs @ ys) = feed (feed s xs) ys"
    and feed_Nil: "feed s [] = s"
begin

lemma feed_concat: "foldl feed s xss = feed s (concat xss)"
  by (induction xss arbitrary: s) (simp_all add: feed_Nil feed_append)

lemma feed_split: "concat xss = concat yss \<Longrightarrow> foldl feed s xss = foldl feed s yss"
  by (simp add: feed_concat)

end

interpretation crcfeed: incremental "\<lambda>crc buf. crc32_little crc addr buf"
  by unfold_locales (simp_all add: crc32_little_eq)

section \<open>Properties\<close>

text \<open>
  C8.  The table-driven checksum of the benchmark, which takes four bytes at a time from an aligned
  address, agrees with the bit-serial checksum of the driver on every buffer, length and alignment.
\<close>

theorem crc_table_driven: "crc32_fileio 0 addr (Some buf) len = crc32 buf len"
  by (simp add: crc32_fileio_def crc32_def crcLoop_eq crc32_little_eq buf_read_def not_eq_xor_ones)

text \<open>
  Remark.  The table-driven checksum may be computed piecewise: feeding the pieces of a buffer one after the
  other, at whatever alignment, gives the checksum of the whole buffer.
\<close>

theorem crc_chunks:
  "foldl (\<lambda>crc piece. crc32_little crc addr piece) crc pieces = crc32_little crc addr' (concat pieces)"
  using crcfeed.feed_concat [of addr crc pieces] by (simp add: crc32_little_eq)

lemma crcByte_inj_state: "crcByte c b = crcByte d b \<Longrightarrow> c = d"
  unfolding crcByte_def using crcBits_inj [of 8] by (metis xor_cancel_right)

lemma crcByte_inj_byte:
  assumes "crcByte c a = crcByte c b"
  shows "a = b"
proof -
  have "c XOR ucast a = c XOR ucast b"
    using assms unfolding crcByte_def by (rule crcBits_inj)
  then have "(ucast a :: u32) = ucast b" by (metis xor_cancel_left)
  moreover have "(ucast (ucast x :: u32) :: u8) = x" for x :: u8
    by (rule bit_word_eqI) (auto simp: bit_simps)
  ultimately show ?thesis by metis
qed

lemma foldl_crcByte_inj: "foldl crcByte c bs = foldl crcByte d bs \<Longrightarrow> c = d"
  by (induction bs arbitrary: c d) (auto dest: crcByte_inj_state)

lemma crc32_byte_differs:
  assumes "i < unat len" "unat len \<le> length buf" "x \<noteq> buf ! i"
  shows "crc32 (buf[i := x]) len \<noteq> crc32 buf len"
proof
  assume eq: "crc32 (buf[i := x]) len = crc32 buf len"
  let ?n = "unat len"
  let ?rest = "take (?n - Suc i) (drop (Suc i) buf)"
  have sp: "take ?n (buf[i := y]) = take i buf @ y # ?rest" for y
    using assms(1,2) by (simp add: upd_conv_take_nth_drop take_Cons' Suc_diff_Suc)
  have "take ?n buf = take i buf @ buf ! i # ?rest" using sp [of "buf ! i"] by simp
  moreover from eq have "foldl crcByte 0xffffffff (take ?n (buf[i := x])) = foldl crcByte 0xffffffff (take ?n buf)"
    using assms(2) by (simp add: crc32_def crcLoop_eq) (metis xor_cancel_right)
  ultimately have "foldl crcByte (crcByte (foldl crcByte 0xffffffff (take i buf)) x) ?rest =
      foldl crcByte (crcByte (foldl crcByte 0xffffffff (take i buf)) (buf ! i)) ?rest"
    by (simp add: sp)
  then show False using foldl_crcByte_inj crcByte_inj_byte assms(3) by blast
qed

text \<open>
  C33.  The checksum detects every change of a single byte of the measured region: two buffers that
  differ in one byte have different checksums.
\<close>

theorem crc_detects_byte:
  assumes "i < unat len" "unat len \<le> length buf" "x \<noteq> buf ! i"
  shows "crc32 (buf[i := x]) len \<noteq> crc32 buf len"
  by (rule crc32_byte_differs [OF assms])

theorem crc_detects_byte_witness: "crc32 ([1, 2, 3, 4][2 := 9]) 4 \<noteq> crc32 [1, 2, 3, 4] 4"
  by (rule crc_detects_byte) simp_all

end
