(* ===== verification/JxDev.thy ===== *)
theory JxDev
  imports Paging Crc
begin

unbundle bit_operations_syntax

text \<open>
  The character device of the guest (\<^verbatim>\<open>jxdev.c\<close>) through which the introspected process talks to
  the kernel: a write stores the user's page in \<open>pp\<close> and, by the tag in byte 700, runs the
  trampoline, measures the state save area or the anchor page with the checksum, or asks another
  processor to issue the hypercall.  The hypercall itself is a parameter.
\<close>

section \<open>State\<close>

record jxdev =
  pp0 :: "u8 list"
  pp1 :: "u8 list"
  pp :: "u8 list"
  data_tr :: "u8 list"
  test_page :: "u8 list"
  crc_ssa :: u64
  crc_anchor :: u64
  crc_worker :: u64
  t_building :: u64
  printed :: "u64 list"
  registered :: bool
  kern :: kstate

record jxaddr =
  pp1_addr :: u64
  data_tr_addr :: u64

definition DEV_PAGE :: nat where
  "DEV_PAGE = 4096"

definition wf_dev :: "jxdev \<Rightarrow> bool" where
  "wf_dev d \<longleftrightarrow> length (pp d) = DEV_PAGE \<and> length (pp0 d) = DEV_PAGE \<and> length (pp1 d) = DEV_PAGE \<and>
     length (data_tr d) = DEV_PAGE \<and> length (test_page d) = DEV_PAGE"

text \<open>
  \<open>copy_from_user\<close>: \<open>ubuf\<close> is what can be read at the user's address.  Bytes that cannot be read are
  zero in the destination.  The size is not checked against the destination: beyond it the copy
  writes outside the array.
\<close>

definition copy_from_user :: "u8 list \<Rightarrow> u8 list \<Rightarrow> nat \<Rightarrow> u8 list option" where
  "copy_from_user dst ubuf sz = buf_write dst 0 (take sz (ubuf @ replicate sz 0))"

text \<open>A hypercall takes its number and four arguments.\<close>

type_synonym hypercall = "u64 \<Rightarrow> u64 \<Rightarrow> u64 \<Rightarrow> u64 \<Rightarrow> u64 \<Rightarrow> jxdev \<Rightarrow> u64 \<times> jxdev"

definition HC_NR :: u64 where
  "HC_NR = 2"

section \<open>Operations\<close>

definition add :: "int \<Rightarrow> int \<Rightarrow> int option" where
  "add a b = i32 (a + b)"

definition ptid :: "jxaddr \<Rightarrow> hypercall \<Rightarrow> jxdev \<Rightarrow> jxdev" where
  "ptid ad hyper d =
     (let p = 0xa;
          (ret, d1) = hyper HC_NR p (pp1_addr ad) (data_tr_addr ad) 0xbb d
      in d1\<lparr>printed := printed d1 @ [p]\<rparr>)"

definition ptid2 :: "jxdev \<Rightarrow> jxdev option" where
  "ptid2 d =
     do {
       bytes \<leftarrow> buf_read (test_page d) 0 30;
       Some (d\<lparr>printed := printed d @ map ucast bytes\<rparr>)
     }"

definition do_smp_call :: "jxaddr \<Rightarrow> hypercall \<Rightarrow> jxdev \<Rightarrow> jxdev" where
  "do_smp_call ad hyper d = ptid ad hyper d"

definition jxdev_open :: "jxdev \<Rightarrow> int \<times> jxdev" where
  "jxdev_open d = (0, d)"

definition jxdev_release :: "jxdev \<Rightarrow> int \<times> jxdev" where
  "jxdev_release d = (0, d)"

text \<open>Reading copies nothing: it reloads the page table base and returns 0.\<close>

definition jxdev_read :: "jxdev \<Rightarrow> int \<times> jxdev" where
  "jxdev_read d = (0, d\<lparr>kern := event ReloadCr3 (kern d)\<rparr>)"

definition crc_of :: "u8 list \<Rightarrow> u32 \<Rightarrow> u64 option" where
  "crc_of b len = map_option ucast (crc32 b len)"

text \<open>The arguments of the trampoline are single bytes of the page: \<open>pp\<close> is an array of \<open>uint8_t\<close>.\<close>

definition run_trampoline :: "kconst \<Rightarrow> jxdev \<Rightarrow> jxdev option" where
  "run_trampoline k d =
     do {
       let data_page = ucast (pp d ! 0);
       let app_size = ucast (pp d ! 2);
       let pi = ucast (pp d ! 3);
       let (t1, k1) = urdtsc (kern d);
       (t, k2) \<leftarrow> trampoline k pi data_page app_size k1;
       let (t2, k3) = urdtsc k2;
       Some (d\<lparr>kern := k3, t_building := t2 - t1\<rparr>)
     }"

definition measure_ssa :: "u8 list \<Rightarrow> nat \<Rightarrow> jxdev \<Rightarrow> jxdev option" where
  "measure_ssa ubuf sz d =
     (if pp d ! 700 = 0xaa
      then do {
        p \<leftarrow> copy_from_user (pp0 d) ubuf sz;
        c \<leftarrow> crc_of p 0x100;
        Some (d\<lparr>pp0 := p, crc_ssa := c\<rparr>)
      }
      else Some d)"

definition measure_anchor :: "u8 list \<Rightarrow> nat \<Rightarrow> jxdev \<Rightarrow> jxdev option" where
  "measure_anchor ubuf sz d =
     (if pp d ! 700 = 0xbb
      then do {
        p \<leftarrow> copy_from_user (pp1 d) ubuf sz;
        c \<leftarrow> crc_of p 40;
        Some (d\<lparr>pp1 := p, crc_anchor := c\<rparr>)
      }
      else Some d)"

definition jxdev_write ::
  "kconst \<Rightarrow> jxaddr \<Rightarrow> hypercall \<Rightarrow> u8 list \<Rightarrow> nat \<Rightarrow> jxdev \<Rightarrow> (nat \<times> jxdev) option" where
  "jxdev_write k ad hyper ubuf sz d =
     do {
       p \<leftarrow> copy_from_user (pp d) ubuf sz;
       let d1 = d\<lparr>pp := p\<rparr>;
       d2 \<leftarrow> (if pp d1 ! 700 = 0xcc then run_trampoline k d1
              else do {
                da \<leftarrow> measure_ssa ubuf sz d1;
                db \<leftarrow> measure_anchor ubuf sz da;
                Some (if pp db ! 700 = 0xdd then do_smp_call ad hyper db else db)
              });
       Some (sz, d2)
     }"

text \<open>Registration of the major number, whose outcome is the argument \<open>ret\<close>.\<close>

definition jxdev_init :: "int \<Rightarrow> jxdev \<Rightarrow> int \<times> jxdev" where
  "jxdev_init ret d =
     (if ret < 0 then (ret, d)
      else
        let (t1, k1) = urdtsc (kern d);
            (t2, k2) = urdtsc k1
        in (0, d\<lparr>registered := True, kern := k2\<rparr>))"

definition jxdev_exit :: "jxdev \<Rightarrow> jxdev" where
  "jxdev_exit d = d\<lparr>registered := False\<rparr>"

text \<open>A sequence of requests by user processes.\<close>

datatype request = Open | Release | Read | Write "u8 list" nat

definition serve :: "kconst \<Rightarrow> jxaddr \<Rightarrow> hypercall \<Rightarrow> request \<Rightarrow> jxdev \<Rightarrow> jxdev option" where
  "serve k ad hyper r d =
     (case r of
        Open \<Rightarrow> Some (snd (jxdev_open d))
      | Release \<Rightarrow> Some (snd (jxdev_release d))
      | Read \<Rightarrow> Some (snd (jxdev_read d))
      | Write ubuf sz \<Rightarrow> map_option snd (jxdev_write k ad hyper ubuf sz d))"

section \<open>Single operations\<close>

text \<open>The page after a write of \<open>sz\<close> bytes.\<close>

definition filled :: "u8 list \<Rightarrow> u8 list \<Rightarrow> nat \<Rightarrow> u8 list" where
  "filled dst ubuf sz = take sz (ubuf @ replicate sz 0) @ drop sz dst"

lemma user_bytes: "length (take sz (ubuf @ replicate sz 0)) = sz"
  by simp

lemma length_filled: "sz \<le> length dst \<Longrightarrow> length (filled dst ubuf sz) = length dst"
  unfolding filled_def by (simp add: user_bytes)

lemma copy_from_user_eq:
  "copy_from_user dst ubuf sz = (if sz \<le> length dst then Some (filled dst ubuf sz) else None)"
  unfolding copy_from_user_def buf_write_def filled_def
  by (simp only: user_bytes add_0 take_0 append_Nil)

section \<open>Properties\<close>

lemma ssa_run:
  assumes "wf_dev d" "sz \<le> DEV_PAGE" "filled (pp d) ubuf sz ! 700 = 0xaa"
  shows "\<exists>c. crc32 (filled (pp0 d) ubuf sz) 0x100 = Some c \<and>
    jxdev_write k ad hyper ubuf sz d =
      Some (sz, d\<lparr>pp := filled (pp d) ubuf sz, pp0 := filled (pp0 d) ubuf sz, crc_ssa := ucast c\<rparr>)"
proof -
  have len: "length (filled (pp0 d) ubuf sz) = DEV_PAGE"
    using assms by (simp add: wf_dev_def length_filled)
  then obtain c where c: "crc32 (filled (pp0 d) ubuf sz) 0x100 = Some c"
    by (simp add: crc32_def crcLoop_eq DEV_PAGE_def)
  then show ?thesis
    using assms len
    by (simp add: jxdev_write_def copy_from_user_eq wf_dev_def measure_ssa_def measure_anchor_def crc_of_def)
qed

text \<open>
  Remark.  A write with the tag \<open>0xaa\<close> stores the page in \<open>pp\<close> and in \<open>pp0\<close>, sets the measurement of the state
  save area to the checksum of its first 256 bytes, changes nothing else and returns the size.
\<close>

theorem write_ssa:
  assumes "wf_dev d" "sz \<le> DEV_PAGE" "filled (pp d) ubuf sz ! 700 = 0xaa"
  shows "\<exists>c. crc32 (filled (pp0 d) ubuf sz) 0x100 = Some c \<and>
    jxdev_write k ad hyper ubuf sz d =
      Some (sz, d\<lparr>pp := filled (pp d) ubuf sz, pp0 := filled (pp0 d) ubuf sz, crc_ssa := ucast c\<rparr>)"
  by (rule ssa_run [OF assms])

lemma anchor_run:
  assumes "wf_dev d" "sz \<le> DEV_PAGE" "filled (pp d) ubuf sz ! 700 = 0xbb"
  shows "\<exists>c. crc32 (filled (pp1 d) ubuf sz) 40 = Some c \<and>
    jxdev_write k ad hyper ubuf sz d =
      Some (sz, d\<lparr>pp := filled (pp d) ubuf sz, pp1 := filled (pp1 d) ubuf sz, crc_anchor := ucast c\<rparr>)"
proof -
  have len: "length (filled (pp1 d) ubuf sz) = DEV_PAGE"
    using assms by (simp add: wf_dev_def length_filled)
  then obtain c where c: "crc32 (filled (pp1 d) ubuf sz) 40 = Some c"
    by (simp add: crc32_def crcLoop_eq DEV_PAGE_def)
  then show ?thesis
    using assms len
    by (simp add: jxdev_write_def copy_from_user_eq wf_dev_def measure_ssa_def measure_anchor_def crc_of_def)
qed

text \<open>
  Remark.  A write with the tag \<open>0xbb\<close> does the same for the anchor page \<open>pp1\<close> and its first 40 bytes.
\<close>

theorem write_anchor:
  assumes "wf_dev d" "sz \<le> DEV_PAGE" "filled (pp d) ubuf sz ! 700 = 0xbb"
  shows "\<exists>c. crc32 (filled (pp1 d) ubuf sz) 40 = Some c \<and>
    jxdev_write k ad hyper ubuf sz d =
      Some (sz, d\<lparr>pp := filled (pp d) ubuf sz, pp1 := filled (pp1 d) ubuf sz, crc_anchor := ucast c\<rparr>)"
  by (rule anchor_run [OF assms])

text \<open>
  Remark.  A page whose measured part differs from another's in a single byte gets a different measurement.
\<close>

theorem ssa_tamper_detected:
  assumes "wf_dev d" "length ubuf = DEV_PAGE" "ubuf ! 700 = 0xaa" "i < 0x100" "x \<noteq> ubuf ! i"
    and "jxdev_write k ad hyper ubuf DEV_PAGE d = Some (n, d1)"
    and "jxdev_write k ad hyper (ubuf[i := x]) DEV_PAGE d = Some (n', d2)"
  shows "crc_ssa d1 \<noteq> crc_ssa d2"
proof -
  have fl: "filled dst b DEV_PAGE = b" if "length dst = DEV_PAGE" "length b = DEV_PAGE" for dst b
    using that by (simp add: filled_def)
  have w: "length (pp d) = DEV_PAGE" "length (pp0 d) = DEV_PAGE" using assms(1) by (auto simp: wf_dev_def)
  have tag: "(ubuf[i := x]) ! 700 = 0xaa" using assms(3,4) by simp
  have "\<exists>c. crc32 b 0x100 = Some c \<and> (\<forall>m d'. jxdev_write k ad hyper b DEV_PAGE d = Some (m, d') \<longrightarrow> crc_ssa d' = ucast c)"
    if "length b = DEV_PAGE" "b ! 700 = 0xaa" for b
    using ssa_run [OF assms(1) order.refl, of b k ad hyper] that w by (auto simp: fl)
  then obtain c c' where c: "crc32 ubuf 0x100 = Some c" "crc_ssa d1 = ucast c"
    "crc32 (ubuf[i := x]) 0x100 = Some c'" "crc_ssa d2 = ucast c'"
    using assms(2,3,6,7) tag by (metis length_list_update)
  have "crc32 (ubuf[i := x]) 0x100 \<noteq> crc32 ubuf 0x100"
    by (rule crc32_byte_differs) (use assms in \<open>simp_all add: DEV_PAGE_def\<close>)
  then have "c \<noteq> c'" using c by simp
  moreover have "(ucast (ucast y :: u64) :: u32) = y" for y
    by (rule bit_word_eqI) (auto simp: bit_simps)
  ultimately show ?thesis unfolding c by metis
qed

text \<open>
  Remark.  The arguments of the trampoline are truncated to a byte: whatever address and size the process
  asks for, the trampoline is run on an address below 256 and on at most one page, for a process
  number below 256; a size that is a multiple of 256, such as a page, gives no page at all.
\<close>

theorem cc_truncated:
  assumes "wf_dev d" "sz \<le> DEV_PAGE" "filled (pp d) ubuf sz ! 700 = 0xcc"
    and "jxdev_write k ad hyper ubuf sz d = Some (n, d')"
  shows "\<exists>pi base app_size t k1 k2. trampoline k pi base app_size k1 = Some (t, k2) \<and> mem (kern d') = mem k2 \<and>
    mem k1 = mem (kern d) \<and> pi < 256 \<and> base < 256 \<and> app_size < 256 \<and> pages_of app_size \<le> 1"
proof -
  let ?p = "filled (pp d) ubuf sz"
  let ?b = "\<lambda>i. ucast (?p ! i) :: u64"
  obtain t k2 where t: "trampoline k (?b 3) (?b 0) (?b 2) (snd (urdtsc (kern d))) = Some (t, k2)"
    "mem (kern d') = mem k2"
    using assms
    by (auto simp: jxdev_write_def copy_from_user_eq wf_dev_def run_trampoline_def Let_def case_prod_unfold
        urdtsc_def split: bind_splits)
  have lt: "?b i < 256" for i
    using unat_u8_less [of "?p ! i"] by (simp add: word_less_nat_alt unsigned_ucast_eq le_less_trans [OF take_bit_nat_less_eq_self])
  have "unat (?b 2) < 256" using lt [of 2] by (simp add: word_less_nat_alt)
  then have "pages_of (?b 2) \<le> 1" by (simp add: pages_of_def)
  moreover have "mem (snd (urdtsc (kern d))) = mem (kern d)" by (simp add: urdtsc_def)
  ultimately show ?thesis using t lt by blast
qed

text \<open>
  Remark.  The size of a write is not checked against the page: a write of more than 4096 bytes overruns \<open>pp\<close>.
\<close>

theorem write_unchecked:
  assumes "wf_dev d" "DEV_PAGE < sz"
  shows "jxdev_write k ad hyper ubuf sz d = None"
  using assms by (simp add: jxdev_write_def copy_from_user_eq wf_dev_def)

section \<open>Invariant\<close>

lemma run_trampoline_wf: "run_trampoline k d = Some d' \<Longrightarrow> wf_dev d \<Longrightarrow> wf_dev d'"
  by (auto simp: run_trampoline_def Let_def case_prod_unfold wf_dev_def split: bind_splits)

lemma measure_wf:
  "measure_ssa ubuf sz d = Some d' \<Longrightarrow> wf_dev d \<Longrightarrow> wf_dev d'"
  "measure_anchor ubuf sz d = Some d' \<Longrightarrow> wf_dev d \<Longrightarrow> wf_dev d'"
  by (auto simp: measure_ssa_def measure_anchor_def wf_dev_def copy_from_user_eq length_filled
      split: bind_splits if_splits)

text \<open>
  What the device needs from the hypervisor: a hypercall does not change the size of its pages.
  Then every sequence of requests that stays defined keeps them.
\<close>

locale jx_hypervisor =
  fixes kc :: kconst and ad :: jxaddr and hyper :: hypercall
  assumes hyper_wf: "wf_dev d \<Longrightarrow> wf_dev (snd (hyper nr a0 a1 a2 a3 d))"
begin

lemma ptid_wf: "wf_dev d \<Longrightarrow> wf_dev (ptid ad hyper d)"
  using hyper_wf [of d HC_NR "0xa" "pp1_addr ad" "data_tr_addr ad" "0xbb"]
  by (simp add: ptid_def case_prod_unfold wf_dev_def Let_def)

lemma write_wf: "jxdev_write kc ad hyper ubuf sz d = Some (n, d') \<Longrightarrow> wf_dev d \<Longrightarrow> wf_dev d'"
proof -
  assume w: "jxdev_write kc ad hyper ubuf sz d = Some (n, d')" and d: "wf_dev d"
  have sz: "sz \<le> DEV_PAGE" using w d by (auto simp: jxdev_write_def copy_from_user_eq wf_dev_def split: if_splits)
  let ?d = "d\<lparr>pp := filled (pp d) ubuf sz\<rparr>"
  have d1: "wf_dev ?d" using d sz by (simp add: wf_dev_def length_filled)
  show "wf_dev d'"
  proof (cases "filled (pp d) ubuf sz ! 700 = 0xcc")
    case True
    then have "run_trampoline kc ?d = Some d'"
      using w d sz by (auto simp: jxdev_write_def copy_from_user_eq wf_dev_def split: bind_splits)
    then show ?thesis using d1 by (rule run_trampoline_wf)
  next
    case False
    then obtain da db where "measure_ssa ubuf sz ?d = Some da" "measure_anchor ubuf sz da = Some db"
      "d' = (if pp db ! 700 = 0xdd then do_smp_call ad hyper db else db)"
      using w d sz by (auto simp: jxdev_write_def copy_from_user_eq wf_dev_def split: bind_splits)
    then show ?thesis using d1 measure_wf ptid_wf by (auto simp: do_smp_call_def)
  qed
qed

end

sublocale jx_hypervisor \<subseteq> machine "serve kc ad hyper" wf_dev "\<lambda>_. True"
  by unfold_locales
    (auto simp: serve_def jxdev_open_def jxdev_release_def jxdev_read_def split: request.splits
      intro: write_wf, simp add: wf_dev_def)

text \<open>Requests that no process can crash the device with: whole pages without the trampoline tag.\<close>

definition quiet :: "request \<Rightarrow> bool" where
  "quiet r = (case r of
     Write ubuf sz \<Rightarrow> sz = DEV_PAGE \<and> length ubuf = DEV_PAGE \<and> ubuf ! 700 \<noteq> 0xcc | _ \<Rightarrow> True)"

lemma filled_page: "length ubuf = DEV_PAGE \<Longrightarrow> length dst = DEV_PAGE \<Longrightarrow> filled dst ubuf DEV_PAGE = ubuf"
  by (simp add: filled_def)

lemma crc_of_page: "length b = DEV_PAGE \<Longrightarrow> unat n \<le> DEV_PAGE \<Longrightarrow> crc_of b n \<noteq> None"
  by (simp add: crc_of_def crc32_def crcLoop_eq)

lemma quiet_write:
  assumes "wf_dev d" "length ubuf = DEV_PAGE" "ubuf ! 700 \<noteq> 0xcc"
  shows "jxdev_write k ad hyper ubuf DEV_PAGE d \<noteq> None"
proof -
  have "crc_of ubuf 0x100 \<noteq> None" "crc_of ubuf 40 \<noteq> None"
    using assms(2) by (simp_all add: crc_of_page DEV_PAGE_def)
  then show ?thesis
    using assms
    by (auto simp: jxdev_write_def copy_from_user_eq wf_dev_def filled_page measure_ssa_def measure_anchor_def Let_def)
qed

sublocale jx_hypervisor \<subseteq> quiet_run: total_machine "serve kc ad hyper" wf_dev quiet
proof
  fix d r d'
  assume d: "wf_dev d" "quiet r"
  show "serve kc ad hyper r d \<noteq> None"
    using d(2) quiet_write [OF d(1), of _ kc ad hyper]
    by (auto simp: serve_def quiet_def split: request.splits simp del: not_None_eq)
  show "wf_dev d'" if "serve kc ad hyper r d = Some d'" using step_inv [OF d(1) _ that] by simp
qed

section \<open>A concrete device\<close>

definition demoDev :: jxdev where
  "demoDev = \<lparr>pp0 = replicate DEV_PAGE 0, pp1 = replicate DEV_PAGE 0, pp = replicate DEV_PAGE 0,
     data_tr = replicate DEV_PAGE 0, test_page = replicate DEV_PAGE 0, crc_ssa = 0, crc_anchor = 0,
     crc_worker = 0, t_building = 0, printed = [], registered = True, kern = demoState\<rparr>"

definition noHyper :: hypercall where
  "noHyper nr a0 a1 a2 a3 d = (0, d)"

definition demoAddr :: jxaddr where
  "demoAddr = \<lparr>pp1_addr = 0xffffffffc0004000, data_tr_addr = 0xffffffffc0006000\<rparr>"

definition demoPage :: "u8 \<Rightarrow> u8 list" where
  "demoPage tag = (replicate DEV_PAGE 0)[700 := tag]"

lemma wf_demoDev: "wf_dev demoDev"
  by (simp add: wf_dev_def demoDev_def)

lemma demo_filled: "length dst = DEV_PAGE \<Longrightarrow> filled dst (demoPage tag) DEV_PAGE = demoPage tag"
  "demoPage tag ! 700 = tag" "length (demoPage tag) = DEV_PAGE"
  by (simp_all add: filled_def demoPage_def DEV_PAGE_def)

lemma demo_tag: "filled (pp demoDev) (demoPage tag) DEV_PAGE ! 700 = tag"
  by (simp add: demo_filled demoDev_def)

theorem write_ssa_witness:
  "\<exists>c. crc32 (filled (pp0 demoDev) (demoPage 0xaa) DEV_PAGE) 0x100 = Some c \<and>
    jxdev_write demoK demoAddr noHyper (demoPage 0xaa) DEV_PAGE demoDev =
      Some (DEV_PAGE, demoDev\<lparr>pp := filled (pp demoDev) (demoPage 0xaa) DEV_PAGE,
        pp0 := filled (pp0 demoDev) (demoPage 0xaa) DEV_PAGE, crc_ssa := ucast c\<rparr>)"
  by (rule write_ssa [OF wf_demoDev order.refl demo_tag])

theorem write_anchor_witness:
  "\<exists>c. crc32 (filled (pp1 demoDev) (demoPage 0xbb) DEV_PAGE) 40 = Some c \<and>
    jxdev_write demoK demoAddr noHyper (demoPage 0xbb) DEV_PAGE demoDev =
      Some (DEV_PAGE, demoDev\<lparr>pp := filled (pp demoDev) (demoPage 0xbb) DEV_PAGE,
        pp1 := filled (pp1 demoDev) (demoPage 0xbb) DEV_PAGE, crc_anchor := ucast c\<rparr>)"
  by (rule write_anchor [OF wf_demoDev order.refl demo_tag])

theorem ssa_tamper_detected_witness:
  "\<exists>n n' d1 d2. jxdev_write demoK demoAddr noHyper (demoPage 0xaa) DEV_PAGE demoDev = Some (n, d1) \<and>
    jxdev_write demoK demoAddr noHyper ((demoPage 0xaa)[5 := 1]) DEV_PAGE demoDev = Some (n', d2) \<and>
    crc_ssa d1 \<noteq> crc_ssa d2"
proof -
  have z: "demoPage 0xaa ! 5 = 0" by (simp add: demoPage_def DEV_PAGE_def)
  have "filled (pp demoDev) ((demoPage 0xaa)[5 := 1]) DEV_PAGE ! 700 = 0xaa"
    by (simp add: filled_def demo_filled demoDev_def)
  then obtain d1 d2 where w:
    "jxdev_write demoK demoAddr noHyper (demoPage 0xaa) DEV_PAGE demoDev = Some (DEV_PAGE, d1)"
    "jxdev_write demoK demoAddr noHyper ((demoPage 0xaa)[5 := 1]) DEV_PAGE demoDev = Some (DEV_PAGE, d2)"
    using ssa_run [OF wf_demoDev order.refl] demo_tag by metis
  have "crc_ssa d1 \<noteq> crc_ssa d2"
    by (rule ssa_tamper_detected [OF wf_demoDev _ _ _ _ w]) (simp_all add: demo_filled z)
  with w show ?thesis by blast
qed

lemma demo_cc: "jxdev_write demoK demoAddr noHyper (demoPage 0xcc) DEV_PAGE demoDev \<noteq> None"
proof -
  have "demoPage 0xcc ! i = 0" if "i < 700" for i using that by (simp add: demoPage_def DEV_PAGE_def)
  then show ?thesis
    by (simp add: jxdev_write_def copy_from_user_eq demo_filled run_trampoline_def Let_def case_prod_unfold
        demoDev_def trampoline_def laucher_non_v2p_def non_loop.simps launch_en_v2p_def urdtsc_def)
qed

theorem cc_truncated_witness:
  "\<exists>d' pi base app_size t k1 k2.
    jxdev_write demoK demoAddr noHyper (demoPage 0xcc) DEV_PAGE demoDev = Some (DEV_PAGE, d') \<and>
    trampoline demoK pi base app_size k1 = Some (t, k2) \<and> mem (kern d') = mem k2 \<and>
    mem k1 = mem (kern demoDev) \<and> pi < 256 \<and> base < 256 \<and> app_size < 256 \<and> pages_of app_size \<le> 1"
proof -
  obtain n d' where w: "jxdev_write demoK demoAddr noHyper (demoPage 0xcc) DEV_PAGE demoDev = Some (n, d')"
    using demo_cc by auto
  then have "n = DEV_PAGE" by (auto simp: jxdev_write_def Let_def split: bind_splits)
  with w cc_truncated [OF wf_demoDev order.refl demo_tag w] show ?thesis by blast
qed

theorem write_unchecked_witness: "jxdev_write demoK demoAddr noHyper [] 5000 demoDev = None"
  by (rule write_unchecked [OF wf_demoDev]) (simp add: DEV_PAGE_def)

end
