(* ===== verification/KvmHypercall.thy ===== *)
theory KvmHypercall
  imports Prelude
begin

unbundle bit_operations_syntax

text \<open>
  The hypercall path of the modified hypervisor (\<^verbatim>\<open>kvm/x86.c\<close>): \<^verbatim>\<open>kvm_emulate_hypercall\<close> with the
  introspection code in its default case, the completion of a hypercall by user space, directed
  yields, clock pairing, and the bookkeeping of the measured times.  The rest of the kernel is the
  parameter \<open>env\<close>: the numbers of its interface, feature tests, address translation, guest memory
  and the time stamp counter.
\<close>

section \<open>State\<close>

text \<open>
  The numbers of the hypercall interface and its error codes (positive, as the headers have them)
  belong to the kernel headers.
\<close>

record abi =
  HC_VAPIC_POLL_IRQ :: u64
  HC_KICK_CPU :: u64
  HC_CLOCK_PAIRING :: u64
  HC_SEND_IPI :: u64
  HC_SCHED_YIELD :: u64
  HC_MAP_GPA_RANGE :: u64
  KVM_ENOSYS :: u64
  KVM_EPERM :: u64
  KVM_EINVAL :: u64
  KVM_EFAULT :: u64
  KVM_EOPNOTSUPP :: u64
  CLOCK_PAIRING_WALLCLOCK :: u64
  EXIT_HYPERCALL :: u32

datatype feature = PV_UNHALT | PV_SEND_IPI | PV_SCHED_YIELD

text \<open>The request passed to user space, and the virtual processor as far as hypercalls use it.\<close>

record hyper_run =
  exit_reason :: u32
  run_nr :: u64
  run_args :: "u64 list"
  run_longmode :: bool
  run_ret :: u64

record vcpu =
  vcpu_id :: nat
  rax :: u64
  rbx :: u64
  rcx :: u64
  rdx :: u64
  rsi :: u64
  run :: hyper_run
  awaits_userspace :: bool
  stat_hypercalls :: nat
  yield_attempted :: nat
  yield_successful :: nat
  skipped :: nat

text \<open>
  The virtual machine: guest memory by guest physical address, the enabled exits, the reasons
  that inhibit the virtual interrupt controller, the kicks delivered, and the three measured times
  with the lines appended to the log file.
\<close>

record vm =
  guest :: "u64 \<rightharpoonup> u8"
  exit_enabled :: u64
  inhibit :: "nat set"
  kicks :: "u64 list"
  ipis :: "(u64 \<times> u64 \<times> u64 \<times> u64) list"
  tw :: u64
  ta :: u64
  ti :: u64
  log :: "(u64 \<times> u64 \<times> u64) list"
  printk :: "string list"
  clock :: "nat \<Rightarrow> u64"
  clock_pos :: nat

record env =
  e_abi :: abi
  xen_enabled :: bool
  hv_enabled :: bool
  xen_hypercall :: "vcpu \<Rightarrow> vm \<Rightarrow> int \<times> vcpu \<times> vm"
  hv_hypercall :: "vcpu \<Rightarrow> vm \<Rightarrow> int \<times> vcpu \<times> vm"
  long_mode :: bool
  cpl :: nat
  pv_has :: "feature \<Rightarrow> bool"
  gva_to_gpa :: "u64 \<Rightarrow> u64"
  read_guest :: "vm \<Rightarrow> u64 \<Rightarrow> nat \<Rightarrow> int \<times> u8 list"
  write_guest :: "vm \<Rightarrow> u64 \<Rightarrow> u8 list \<Rightarrow> int \<times> vm"
  send_ipi :: "u64 \<Rightarrow> u64 \<Rightarrow> u64 \<Rightarrow> u64 \<Rightarrow> bool \<Rightarrow> u64"
  walltime :: "(u64 \<times> u64 \<times> u64) option"
  read_l1_tsc :: "u64 \<Rightarrow> u64"
  pairing_bytes :: "u64 \<Rightarrow> u64 \<Rightarrow> u64 \<Rightarrow> u8 list"
  single_task :: bool
  apic_target :: "u64 \<Rightarrow> nat option"
  target_ready :: "nat \<Rightarrow> bool"
  yield_to :: "nat \<Rightarrow> int"
  skip_ok :: int
  tramp_code :: "u8 list"
  log_opens :: bool

section \<open>Small operations\<close>

definition urdtsc_k :: "vm \<Rightarrow> u64 \<times> vm" where
  "urdtsc_k v = (clock v (clock_pos v), v\<lparr>clock_pos := clock_pos v + 1\<rparr>)"

definition skip_emulated :: "env \<Rightarrow> vcpu \<Rightarrow> int \<times> vcpu" where
  "skip_emulated e c = (skip_ok e, c\<lparr>skipped := skipped c + 1\<rparr>)"

text \<open>\<open>(u32)ret\<close> outside 64-bit mode, and the \<open>int\<close> identifier of a kicked processor.\<close>

definition trunc32 :: "u64 \<Rightarrow> u64" where
  "trunc32 x = x AND 0xFFFFFFFF"

definition kvm_pv_clock_pairing :: "env \<Rightarrow> u64 \<Rightarrow> u64 \<Rightarrow> vm \<Rightarrow> u64 \<times> vm" where
  "kvm_pv_clock_pairing e paddr clock_type v =
     (let a = e_abi e
      in if clock_type \<noteq> CLOCK_PAIRING_WALLCLOCK a then (- KVM_EOPNOTSUPP a, v)
         else case walltime e of
           None \<Rightarrow> (- KVM_EOPNOTSUPP a, v)
         | Some (sec, nsec, cycle) \<Rightarrow>
             let (r, v1) = write_guest e v paddr (pairing_bytes e sec nsec (read_l1_tsc e cycle))
             in (if r \<noteq> 0 then - KVM_EFAULT a else 0, v1))"

definition kvm_pv_kick_cpu_op :: "u64 \<Rightarrow> vm \<Rightarrow> vm" where
  "kvm_pv_kick_cpu_op apicid v = v\<lparr>kicks := kicks v @ [trunc32 apicid]\<rparr>"

definition kvm_apicv_activated :: "vm \<Rightarrow> bool" where
  "kvm_apicv_activated v \<longleftrightarrow> inhibit v = {}"

definition INHIBIT_DISABLE :: nat where
  "INHIBIT_DISABLE = 0"

definition kvm_apicv_init :: "bool \<Rightarrow> vm \<Rightarrow> vm" where
  "kvm_apicv_init enable_apicv v =
     v\<lparr>inhibit := (if enable_apicv then inhibit v - {INHIBIT_DISABLE} else insert INHIBIT_DISABLE (inhibit v))\<rparr>"

definition kvm_sched_yield :: "env \<Rightarrow> u64 \<Rightarrow> vcpu \<Rightarrow> vcpu" where
  "kvm_sched_yield e dest_id c =
     (let c1 = c\<lparr>yield_attempted := yield_attempted c + 1\<rparr>
      in if single_task e then c1
         else case apic_target e dest_id of
           None \<Rightarrow> c1
         | Some target \<Rightarrow>
             if \<not> target_ready e target then c1
             else if target = vcpu_id c1 then c1
             else if yield_to e target \<le> 0 then c1
             else c1\<lparr>yield_successful := yield_successful c1 + 1\<rparr>)"

definition complete_hypercall_exit :: "env \<Rightarrow> vcpu \<Rightarrow> int \<times> vcpu" where
  "complete_hypercall_exit e c =
     (let ret = run_ret (run c);
          ret' = (if \<not> long_mode e then trunc32 ret else ret);
          c1 = c\<lparr>rax := ret', stat_hypercalls := stat_hypercalls c + 1, awaits_userspace := False\<rparr>
      in skip_emulated e c1)"

text \<open>One line with the three times is appended, when the log file opens.\<close>

definition kvm_count :: "env \<Rightarrow> vm \<Rightarrow> u64 \<times> vm" where
  "kvm_count e v =
     (if log_opens e then (0, v\<lparr>log := log v @ [(ta v, tw v, ti v)]\<rparr>)
      else (-1, v\<lparr>printk := printk v @ [''file error'']\<rparr>))"

section \<open>The introspection in the default case\<close>

definition intro_vcpu2 :: "env \<Rightarrow> u64 \<Rightarrow> vm \<Rightarrow> vm" where
  "intro_vcpu2 e a0 v = snd (write_guest e v (gva_to_gpa e a0) (take 30 (tramp_code e)))"

text \<open>
  The comparison of a shadow with its copy: a loop over the first 16 bytes whose branches are
  empty.  It returns nothing; the model returns the outcome of each comparison to make visible
  that nothing uses it.
\<close>

definition compare16 :: "u8 list \<Rightarrow> u8 list \<Rightarrow> bool list" where
  "compare16 shadow shadow2 = map (\<lambda>i. shadow ! i = shadow2 ! i) [0..<16]"

text \<open>\<open>sizeof\<close> bytes are read into a zeroed shadow, which is then copied byte by byte.\<close>

definition read_shadow :: "env \<Rightarrow> vm \<Rightarrow> u64 \<Rightarrow> nat \<Rightarrow> u8 list" where
  "read_shadow e v gva n =
     (let (retx, bytes) = read_guest e v (gva_to_gpa e gva) n
      in take n (bytes @ replicate n 0))"

definition copy_shadow :: "u8 list \<Rightarrow> u8 list" where
  "copy_shadow shadow = map (\<lambda>i. shadow ! i) [0..<length shadow]"

text \<open>The counter is read before and after a comparison; the difference is what is recorded.\<close>

definition elapse :: "vm \<Rightarrow> u64 \<times> vm" where
  "elapse v = (let (t1, v1) = urdtsc_k v; (t2, v2) = urdtsc_k v1 in (t2 - t1, v2))"

definition intro_vcpu1 :: "env \<Rightarrow> u64 \<Rightarrow> u64 \<Rightarrow> u64 \<Rightarrow> vm \<Rightarrow> vm" where
  "intro_vcpu1 e a0 a1 a2 v =
     (let ssa_shadow = read_shadow e v a0 0x100;
          anchor_shadow = read_shadow e v a1 40;
          data_shadow = read_shadow e v a2 0x100;
          ssa_shadow2 = copy_shadow ssa_shadow;
          anchor_shadow2 = copy_shadow anchor_shadow;
          data_shadow2 = copy_shadow data_shadow;
          c1 = compare16 ssa_shadow ssa_shadow2;
          (d1, v1) = elapse v;
          c2 = compare16 anchor_shadow anchor_shadow2;
          (d2, v2) = elapse v1;
          v3 = v2\<lparr>ta := (d2 + d1) * 5 div 17 * 256 - 200\<rparr>;
          c3 = compare16 data_shadow data_shadow2;
          (d3, v4) = elapse v3;
          v5 = v4\<lparr>tw := d3 * 5 div 17 * 256\<rparr>;
          (d4, v6) = elapse v5;
          v7 = v6\<lparr>ti := d4 * 5 div 17 * 64\<rparr>
      in snd (kvm_count e v7))"

text \<open>On processor 0 the page at the last argument is read into a local buffer.\<close>

definition intro_vcpu0 :: "env \<Rightarrow> u64 \<Rightarrow> u64 \<Rightarrow> vm \<Rightarrow> u8 list option" where
  "intro_vcpu0 e a2 a3 v =
     (let tra_gva = a3
      in if tra_gva \<noteq> 0xa then Some (snd (read_guest e v (gva_to_gpa e tra_gva) 800)) else None)"

definition hc_default :: "env \<Rightarrow> u64 \<Rightarrow> u64 \<Rightarrow> u64 \<Rightarrow> u64 \<Rightarrow> vcpu \<Rightarrow> vm \<Rightarrow> u64 \<times> vm" where
  "hc_default e a0 a1 a2 a3 c v =
     (let v1 = (if vcpu_id c = 2 then intro_vcpu2 e a0 v else v);
          v2 = (if vcpu_id c = 1 then intro_vcpu1 e a0 a1 a2 v1 else v1);
          buffer = (if vcpu_id c = 0 then intro_vcpu0 e a2 a3 v2 else None)
      in (- KVM_ENOSYS (e_abi e), v2))"

section \<open>The dispatcher\<close>

definition gpa_to_gfn :: "u64 \<Rightarrow> u64" where
  "gpa_to_gfn gpa = drop_bit 12 gpa"

definition page_aligned :: "u64 \<Rightarrow> bool" where
  "page_aligned gpa \<longleftrightarrow> gpa AND 0xfff = 0"

text \<open>
  The outcome of the \<open>switch\<close>: a return code for the guest, or an exit to user space.
\<close>

datatype hc_result = Ret u64 | ExitToUser

definition hc_map_gpa_range :: "env \<Rightarrow> u64 \<Rightarrow> u64 \<Rightarrow> u64 \<Rightarrow> vcpu \<Rightarrow> vm \<Rightarrow> hc_result \<times> vcpu" where
  "hc_map_gpa_range e gpa npages attrs c v =
     (let a = e_abi e
      in if exit_enabled v AND push_bit (unat (HC_MAP_GPA_RANGE a)) 1 = 0 then (Ret (- KVM_ENOSYS a), c)
         else if \<not> page_aligned gpa \<or> npages = 0 \<or> gpa_to_gfn gpa + npages \<le> gpa_to_gfn gpa
         then (Ret (- KVM_EINVAL a), c)
         else (ExitToUser, c\<lparr>run := \<lparr>exit_reason = EXIT_HYPERCALL a, run_nr = HC_MAP_GPA_RANGE a,
                 run_args = [gpa, npages, attrs], run_longmode = long_mode e, run_ret = run_ret (run c)\<rparr>,
               awaits_userspace := True\<rparr>))"

definition hc_switch ::
  "env \<Rightarrow> u64 \<Rightarrow> u64 \<Rightarrow> u64 \<Rightarrow> u64 \<Rightarrow> u64 \<Rightarrow> vcpu \<Rightarrow> vm \<Rightarrow> hc_result \<times> vcpu \<times> vm" where
  "hc_switch e nr a0 a1 a2 a3 c v =
     (let a = e_abi e; enosys = - KVM_ENOSYS a
      in if nr = HC_VAPIC_POLL_IRQ a then (Ret 0, c, v)
         else if nr = HC_KICK_CPU a then
           (if \<not> pv_has e PV_UNHALT then (Ret enosys, c, v)
            else (Ret 0, kvm_sched_yield e a1 c, kvm_pv_kick_cpu_op a1 v))
         else if nr = HC_CLOCK_PAIRING a then
           (let (r, v1) = kvm_pv_clock_pairing e a0 a1 v in (Ret r, c, v1))
         else if nr = HC_SEND_IPI a then
           (if \<not> pv_has e PV_SEND_IPI then (Ret enosys, c, v)
            else (Ret (send_ipi e a0 a1 a2 a3 (long_mode e)), c, v\<lparr>ipis := ipis v @ [(a0, a1, a2, a3)]\<rparr>))
         else if nr = HC_SCHED_YIELD a then
           (if \<not> pv_has e PV_SCHED_YIELD then (Ret enosys, c, v)
            else (Ret 0, kvm_sched_yield e a0 c, v))
         else if nr = HC_MAP_GPA_RANGE a then
           (let (r, c1) = hc_map_gpa_range e a0 a1 a2 c v in (r, c1, v))
         else (let (r, v1) = hc_default e a0 a1 a2 a3 c v in (Ret r, c, v1)))"

definition hc_finish :: "env \<Rightarrow> u64 \<Rightarrow> vcpu \<Rightarrow> vm \<Rightarrow> int \<times> vcpu \<times> vm" where
  "hc_finish e ret c v =
     (let ret' = (if \<not> long_mode e then trunc32 ret else ret);
          (r, c1) = skip_emulated e (c\<lparr>rax := ret', stat_hypercalls := stat_hypercalls c + 1\<rparr>)
      in (r, c1, v))"

definition hc_arg :: "env \<Rightarrow> u64 \<Rightarrow> u64" where
  "hc_arg e x = (if \<not> long_mode e then x AND 0xFFFFFFFF else x)"

definition kvm_emulate_hypercall :: "env \<Rightarrow> vcpu \<Rightarrow> vm \<Rightarrow> int \<times> vcpu \<times> vm" where
  "kvm_emulate_hypercall e c v =
     (if xen_enabled e then xen_hypercall e c v
      else if hv_enabled e then hv_hypercall e c v
      else
        let nr = hc_arg e (rax c);
            a0 = hc_arg e (rbx c);
            a1 = hc_arg e (rcx c);
            a2 = hc_arg e (rdx c);
            a3 = hc_arg e (rsi c)
        in if cpl e \<noteq> 0 then hc_finish e (- KVM_EPERM (e_abi e)) c v
           else case hc_switch e nr a0 a1 a2 a3 c v of
             (Ret ret, c1, v1) \<Rightarrow> hc_finish e ret c1 v1
           | (ExitToUser, c1, v1) \<Rightarrow> (0, c1, v1))"

section \<open>Guest and user space as a transition system\<close>

text \<open>
  The guest issues a hypercall with any register contents; when it leads to an exit, user space
  stores a return value and re-enters, which completes the call.
\<close>

definition load_regs :: "u64 \<Rightarrow> u64 \<Rightarrow> u64 \<Rightarrow> u64 \<Rightarrow> u64 \<Rightarrow> vcpu \<Rightarrow> vcpu" where
  "load_regs a b c d s x = x\<lparr>rax := a, rbx := b, rcx := c, rdx := d, rsi := s\<rparr>"

inductive hc_step :: "env \<Rightarrow> vcpu \<times> vm \<Rightarrow> vcpu \<times> vm \<Rightarrow> bool" for e where
  issue: "\<not> awaits_userspace c \<Longrightarrow>
     kvm_emulate_hypercall e (load_regs a b cx d s c) v = (r, c', v') \<Longrightarrow> hc_step e (c, v) (c', v')"
| complete: "awaits_userspace c \<Longrightarrow>
     complete_hypercall_exit e (c\<lparr>run := (run c)\<lparr>run_ret := x\<rparr>\<rparr>) = (r, c') \<Longrightarrow> hc_step e (c, v) (c', v)"

inductive_cases hc_stepE: "hc_step e s s'"

section \<open>Lemmas\<close>

lemma trunc32_bound: "trunc32 x < 2 ^ 32"
proof -
  have "(0xFFFFFFFF :: u64) = mask 32" by (simp add: mask_eq_exp_minus_1)
  then have "trunc32 x = take_bit 32 x" by (simp add: trunc32_def take_bit_eq_mask)
  then show ?thesis
    using take_bit_nat_less_exp [of 32 "unat x"] by (simp add: word_less_nat_alt unsigned_take_bit_eq)
qed

lemma sched_yield_frame [simp]:
  "rax (kvm_sched_yield e d c) = rax c" "stat_hypercalls (kvm_sched_yield e d c) = stat_hypercalls c"
  "skipped (kvm_sched_yield e d c) = skipped c" "awaits_userspace (kvm_sched_yield e d c) = awaits_userspace c"
  "vcpu_id (kvm_sched_yield e d c) = vcpu_id c" "run (kvm_sched_yield e d c) = run c"
  by (simp_all add: kvm_sched_yield_def Let_def split: option.split)

lemma hc_switch_cases:
  assumes "hc_switch e nr a0 a1 a2 a3 c v = (res, c1, v1)"
  shows "stat_hypercalls c1 = stat_hypercalls c \<and> skipped c1 = skipped c \<and> rax c1 = rax c \<and>
    (case res of Ret x \<Rightarrow> awaits_userspace c1 = awaits_userspace c
      | ExitToUser \<Rightarrow> awaits_userspace c1 \<and> nr = HC_MAP_GPA_RANGE (e_abi e) \<and> v1 = v)"
  using assms
  by (auto simp: hc_switch_def hc_map_gpa_range_def Let_def case_prod_unfold split: if_splits)

lemma hc_finish_cases:
  assumes "hc_finish e ret c v = (r, c', v')"
  shows "r = skip_ok e \<and> v' = v \<and> stat_hypercalls c' = stat_hypercalls c + 1 \<and> skipped c' = skipped c + 1 \<and>
    awaits_userspace c' = awaits_userspace c \<and> (long_mode e \<or> rax c' < 2 ^ 32)"
  using assms trunc32_bound [of ret]
  by (cases "long_mode e") (auto simp: hc_finish_def skip_emulated_def Let_def)

lemma hypercall_cases:
  assumes "\<not> xen_enabled e" "\<not> hv_enabled e" "kvm_emulate_hypercall e c v = (r, c', v')"
  shows "(stat_hypercalls c' = stat_hypercalls c + 1 \<and> skipped c' = skipped c + 1 \<and> r = skip_ok e \<and>
      awaits_userspace c' = awaits_userspace c \<and> (long_mode e \<or> rax c' < 2 ^ 32)) \<or>
    (r = 0 \<and> cpl e = 0 \<and> awaits_userspace c' \<and> stat_hypercalls c' = stat_hypercalls c \<and>
      skipped c' = skipped c \<and> rax c' = rax c \<and> v' = v)"
proof (cases "cpl e = 0")
  case True
  obtain res c1 v1 where sw: "hc_switch e (hc_arg e (rax c)) (hc_arg e (rbx c)) (hc_arg e (rcx c))
      (hc_arg e (rdx c)) (hc_arg e (rsi c)) c v = (res, c1, v1)"
    by (metis prod_cases3)
  note s = hc_switch_cases [OF sw]
  show ?thesis
  proof (cases res)
    case (Ret x)
    then have "hc_finish e x c1 v1 = (r, c', v')"
      using assms sw True by (simp add: kvm_emulate_hypercall_def Let_def)
    then show ?thesis using hc_finish_cases s Ret by fastforce
  next
    case ExitToUser
    then show ?thesis
      using assms sw s True by (auto simp: kvm_emulate_hypercall_def Let_def)
  qed
next
  case False
  then have "hc_finish e (- KVM_EPERM (e_abi e)) c v = (r, c', v')"
    using assms by (simp add: kvm_emulate_hypercall_def Let_def)
  then show ?thesis using hc_finish_cases by blast
qed

lemma complete_cases:
  assumes "complete_hypercall_exit e c = (r, c')"
  shows "stat_hypercalls c' = stat_hypercalls c + 1 \<and> skipped c' = skipped c + 1 \<and> \<not> awaits_userspace c' \<and>
    rax c' = (if long_mode e then run_ret (run c) else trunc32 (run_ret (run c)))"
  using assms by (auto simp: complete_hypercall_exit_def skip_emulated_def Let_def)

section \<open>Properties\<close>


text \<open>
  Remark.  A hypercall from a privilege level other than 0 has no effect but its return code: the guest
  sees \<open>-KVM_EPERM\<close>, truncated outside 64-bit mode, and neither the machine nor the introspection
  state changes.
\<close>

theorem hypercall_unprivileged:
  assumes "\<not> xen_enabled e" "\<not> hv_enabled e" "cpl e \<noteq> 0"
  shows "kvm_emulate_hypercall e c v =
    (skip_ok e, c\<lparr>rax := (if long_mode e then - KVM_EPERM (e_abi e) else trunc32 (- KVM_EPERM (e_abi e))),
       stat_hypercalls := stat_hypercalls c + 1, skipped := skipped c + 1\<rparr>, v)"
  using assms by (simp add: kvm_emulate_hypercall_def hc_finish_def skip_emulated_def Let_def)

text \<open>
  Remark.  The exit that asks user space to map a guest range happens exactly when the exit is enabled, the
  address is page aligned, the number of pages is not zero and the frame numbers of the range do not
  wrap around; otherwise the guest gets an error and nothing changes.
\<close>

lemma gfn_no_wrap: "gpa_to_gfn gpa + n \<le> gpa_to_gfn gpa \<longleftrightarrow> n = 0 \<or> 2 ^ 64 \<le> unat (gpa_to_gfn gpa) + unat n"
proof -
  let ?g = "gpa_to_gfn gpa"
  have u: "unat n < 2 ^ 64" "unat ?g < 2 ^ 64" using unsigned_less [of n] unsigned_less [of ?g] by simp_all
  show ?thesis
  proof (cases "unat ?g + unat n < 2 ^ 64")
    case True
    then have "unat (?g + n) = unat ?g + unat n" by (simp add: unat_plus_simple [THEN iffD1] unat_word_ariths)
    then have "?g + n \<le> ?g \<longleftrightarrow> unat n = 0" by (simp add: word_le_nat_alt)
    with True show ?thesis by (simp add: unat_eq_zero)
  next
    case False
    then have "unat (?g + n) = unat ?g + unat n - 2 ^ 64"
      using u by (simp add: unat_word_ariths mod_if)
    with False u show ?thesis by (simp add: word_le_nat_alt)
  qed
qed

theorem map_gpa_range_exits:
  "hc_map_gpa_range e gpa npages attrs c v =
     (let a = e_abi e
      in if exit_enabled v AND push_bit (unat (HC_MAP_GPA_RANGE a)) 1 = 0 then (Ret (- KVM_ENOSYS a), c)
         else if page_aligned gpa \<and> npages \<noteq> 0 \<and> unat (gpa_to_gfn gpa) + unat npages < 2 ^ 64
         then (ExitToUser, c\<lparr>run := \<lparr>exit_reason = EXIT_HYPERCALL a, run_nr = HC_MAP_GPA_RANGE a,
                 run_args = [gpa, npages, attrs], run_longmode = long_mode e, run_ret = run_ret (run c)\<rparr>,
               awaits_userspace := True\<rparr>)
         else (Ret (- KVM_EINVAL a), c))"
  unfolding hc_map_gpa_range_def gfn_no_wrap by (auto simp: Let_def not_le)

text \<open>
  C37.  The introspection of processor 1 cannot tell one memory content from another: it compares each
  shadow with a copy made from it a moment before, so every comparison succeeds, and neither the
  contents nor the translation of the addresses have any influence on the outcome.  The guest always
  sees \<open>-KVM_ENOSYS\<close>, and its memory is not changed.
\<close>

lemma copy_shadow_id: "copy_shadow s = s"
  unfolding copy_shadow_def by (rule map_nth)

lemma count_frame [simp]:
  "kvm_count (e\<lparr>read_guest := rd, gva_to_gpa := tr\<rparr>) v = kvm_count e v"
  "guest (snd (kvm_count e v)) = guest v" "guest (snd (elapse v)) = guest v"
  by (simp_all add: kvm_count_def elapse_def urdtsc_k_def Let_def)

lemma intro_vcpu1_blind:
  "intro_vcpu1 (e\<lparr>read_guest := rd, gva_to_gpa := tr\<rparr>) a0 a1 a2 v = intro_vcpu1 e a0 a1 a2 v"
  "guest (intro_vcpu1 e a0 a1 a2 v) = guest v"
  by (simp_all add: intro_vcpu1_def Let_def case_prod_unfold)


section \<open>A concrete environment\<close>

definition linuxAbi :: abi where
  "linuxAbi = \<lparr>HC_VAPIC_POLL_IRQ = 1, HC_KICK_CPU = 5, HC_CLOCK_PAIRING = 9, HC_SEND_IPI = 10,
     HC_SCHED_YIELD = 11, HC_MAP_GPA_RANGE = 12, KVM_ENOSYS = 1000, KVM_EPERM = 1, KVM_EINVAL = 22,
     KVM_EFAULT = 14, KVM_EOPNOTSUPP = 95, CLOCK_PAIRING_WALLCLOCK = 0, EXIT_HYPERCALL = 3\<rparr>"

definition guest_bytes :: "vm \<Rightarrow> u64 \<Rightarrow> nat \<Rightarrow> int \<times> u8 list" where
  "guest_bytes v gpa n =
     (let bs = map (\<lambda>i. guest v (gpa + of_nat i)) [0..<n]
      in if None \<in> set bs then (-14, []) else (0, map the bs))"

definition linuxEnv :: "nat \<Rightarrow> bool \<Rightarrow> env" where
  "linuxEnv level lm = \<lparr>e_abi = linuxAbi, xen_enabled = False, hv_enabled = False,
     xen_hypercall = (\<lambda>c v. (0, c, v)), hv_hypercall = (\<lambda>c v. (0, c, v)), long_mode = lm, cpl = level,
     pv_has = (\<lambda>_. True), gva_to_gpa = (\<lambda>x. x AND 0xffffffff), read_guest = guest_bytes,
     write_guest = (\<lambda>v gpa bs. (0, v)), send_ipi = (\<lambda>_ _ _ _ _. 0), walltime = None,
     read_l1_tsc = id, pairing_bytes = (\<lambda>_ _ _. []), single_task = True, apic_target = (\<lambda>_. None),
     target_ready = (\<lambda>_. False), yield_to = (\<lambda>_. 0), skip_ok = 1, tramp_code = replicate 30 0x90,
     log_opens = True\<rparr>"

definition demoVcpu :: "nat \<Rightarrow> vcpu" where
  "demoVcpu i = \<lparr>vcpu_id = i, rax = 2, rbx = 0xa, rcx = 0x4000, rdx = 0x6000, rsi = 0xbb,
     run = \<lparr>exit_reason = 0, run_nr = 0, run_args = [], run_longmode = False, run_ret = 0\<rparr>,
     awaits_userspace = False, stat_hypercalls = 0, yield_attempted = 0, yield_successful = 0, skipped = 0\<rparr>"

definition demoVm :: vm where
  "demoVm = \<lparr>guest = Map.empty, exit_enabled = 0x1000, inhibit = {}, kicks = [], ipis = [],
     tw = 0, ta = 0, ti = 0, log = [], printk = [], clock = (\<lambda>i. of_nat (17 * i)), clock_pos = 0\<rparr>"


theorem hypercall_unprivileged_witness:
  "kvm_emulate_hypercall (linuxEnv 3 False) (demoVcpu 0) demoVm =
    (skip_ok (linuxEnv 3 False), (demoVcpu 0)\<lparr>rax := (if long_mode (linuxEnv 3 False)
         then - KVM_EPERM (e_abi (linuxEnv 3 False)) else trunc32 (- KVM_EPERM (e_abi (linuxEnv 3 False)))),
       stat_hypercalls := stat_hypercalls (demoVcpu 0) + 1, skipped := skipped (demoVcpu 0) + 1\<rparr>, demoVm)"
  by (rule hypercall_unprivileged) (simp_all add: linuxEnv_def)


end
