(* ===== verification/Md5.thy ===== *)
theory Md5
  imports Prelude
begin

unbundle bit_operations_syntax

text \<open>
  The MD5 module of the guest kernel (\<^verbatim>\<open>md5.c\<close>): the digest with its streaming interface, and
  \<^verbatim>\<open>calc_md5\<close>, which reads a file piece by piece.
\<close>

section \<open>The compression function\<close>

record MD5_CTX =
  count0 :: u32
  count1 :: u32
  state :: "u32 list"
  buffer :: "u8 list"

definition F :: "u32 \<Rightarrow> u32 \<Rightarrow> u32 \<Rightarrow> u32" where
  "F x y z = (x AND y) OR (NOT x AND z)"

definition G :: "u32 \<Rightarrow> u32 \<Rightarrow> u32 \<Rightarrow> u32" where
  "G x y z = (x AND z) OR (y AND NOT z)"

definition H :: "u32 \<Rightarrow> u32 \<Rightarrow> u32 \<Rightarrow> u32" where
  "H x y z = x XOR y XOR z"

definition I :: "u32 \<Rightarrow> u32 \<Rightarrow> u32 \<Rightarrow> u32" where
  "I x y z = y XOR (x OR NOT z)"

definition ROTATE_LEFT :: "u32 \<Rightarrow> nat \<Rightarrow> u32" where
  "ROTATE_LEFT x n = push_bit n x OR drop_bit (32 - n) x"

text \<open>
  The macros \<open>FF\<close>, \<open>GG\<close>, \<open>HH\<close> and \<open>II\<close>.  Each call names the four variables one place further on; here
  the tuple rotates instead, and is back in its order after every fourth step.
\<close>

definition round_step ::
  "(u32 \<Rightarrow> u32 \<Rightarrow> u32 \<Rightarrow> u32) \<Rightarrow> u32 list \<Rightarrow> nat \<times> nat \<times> u32 \<Rightarrow> u32 \<times> u32 \<times> u32 \<times> u32 \<Rightarrow> u32 \<times> u32 \<times> u32 \<times> u32" where
  "round_step f x = (\<lambda>(k, s, ac) (a, b, c, d).
     let a1 = a + (f b c d + x ! k + ac);
         a2 = ROTATE_LEFT a1 s;
         a3 = a2 + b
     in (d, a3, b, c))"

definition round1 :: "(nat \<times> nat \<times> u32) list" where
  "round1 =
     [(0, 7, 0xd76aa478), (1, 12, 0xe8c7b756), (2, 17, 0x242070db), (3, 22, 0xc1bdceee),
      (4, 7, 0xf57c0faf), (5, 12, 0x4787c62a), (6, 17, 0xa8304613), (7, 22, 0xfd469501),
      (8, 7, 0x698098d8), (9, 12, 0x8b44f7af), (10, 17, 0xffff5bb1), (11, 22, 0x895cd7be),
      (12, 7, 0x6b901122), (13, 12, 0xfd987193), (14, 17, 0xa679438e), (15, 22, 0x49b40821)]"

definition round2 :: "(nat \<times> nat \<times> u32) list" where
  "round2 =
     [(1, 5, 0xf61e2562), (6, 9, 0xc040b340), (11, 14, 0x265e5a51), (0, 20, 0xe9b6c7aa),
      (5, 5, 0xd62f105d), (10, 9, 0x2441453), (15, 14, 0xd8a1e681), (4, 20, 0xe7d3fbc8),
      (9, 5, 0x21e1cde6), (14, 9, 0xc33707d6), (3, 14, 0xf4d50d87), (8, 20, 0x455a14ed),
      (13, 5, 0xa9e3e905), (2, 9, 0xfcefa3f8), (7, 14, 0x676f02d9), (12, 20, 0x8d2a4c8a)]"

definition round3 :: "(nat \<times> nat \<times> u32) list" where
  "round3 =
     [(5, 4, 0xfffa3942), (8, 11, 0x8771f681), (11, 16, 0x6d9d6122), (14, 23, 0xfde5380c),
      (1, 4, 0xa4beea44), (4, 11, 0x4bdecfa9), (7, 16, 0xf6bb4b60), (10, 23, 0xbebfbc70),
      (13, 4, 0x289b7ec6), (0, 11, 0xeaa127fa), (3, 16, 0xd4ef3085), (6, 23, 0x4881d05),
      (9, 4, 0xd9d4d039), (12, 11, 0xe6db99e5), (15, 16, 0x1fa27cf8), (2, 23, 0xc4ac5665)]"

definition round4 :: "(nat \<times> nat \<times> u32) list" where
  "round4 =
     [(0, 6, 0xf4292244), (7, 10, 0x432aff97), (14, 15, 0xab9423a7), (5, 21, 0xfc93a039),
      (12, 6, 0x655b59c3), (3, 10, 0x8f0ccc92), (10, 15, 0xffeff47d), (1, 21, 0x85845dd1),
      (8, 6, 0x6fa87e4f), (15, 10, 0xfe2ce6e0), (6, 15, 0xa3014314), (13, 21, 0x4e0811a1),
      (4, 6, 0xf7537e82), (11, 10, 0xbd3af235), (2, 15, 0x2ad7d2bb), (9, 21, 0xeb86d391)]"

section \<open>Bytes and words\<close>

text \<open>The loops run while \<open>j < len\<close> in steps of four; reading or writing outside the arrays is undefined.\<close>

function encLoop :: "u8 list \<Rightarrow> u32 list \<Rightarrow> nat \<Rightarrow> nat \<Rightarrow> nat \<Rightarrow> u8 list option" where
  "encLoop out inp i j len =
     (if j < len
      then do {
        ws \<leftarrow> buf_read inp i 1;
        let w = hd ws;
        out' \<leftarrow> buf_write out j [ucast (w AND 0xFF), ucast (drop_bit 8 w AND 0xFF),
                  ucast (drop_bit 16 w AND 0xFF), ucast (drop_bit 24 w AND 0xFF)];
        encLoop out' inp (i + 1) (j + 4) len
      }
      else Some out)"
  by pat_completeness auto
termination
  by (relation "measure (\<lambda>(out, inp, i, j, len). len - j)") auto

declare encLoop.simps [simp del]

definition MD5Encode :: "u8 list \<Rightarrow> u32 list \<Rightarrow> nat \<Rightarrow> u8 list option" where
  "MD5Encode out inp len = encLoop out inp 0 0 len"

definition word_of :: "u8 list \<Rightarrow> u32" where
  "word_of b = ucast (b ! 0) OR push_bit 8 (ucast (b ! 1)) OR push_bit 16 (ucast (b ! 2)) OR push_bit 24 (ucast (b ! 3))"

function decLoop :: "u32 list \<Rightarrow> u8 list \<Rightarrow> nat \<Rightarrow> nat \<Rightarrow> nat \<Rightarrow> u32 list option" where
  "decLoop out inp i j len =
     (if j < len
      then do {
        b \<leftarrow> buf_read inp j 4;
        out' \<leftarrow> buf_write out i [word_of b];
        decLoop out' inp (i + 1) (j + 4) len
      }
      else Some out)"
  by pat_completeness auto
termination
  by (relation "measure (\<lambda>(out, inp, i, j, len). len - j)") auto

declare decLoop.simps [simp del]

definition MD5Decode :: "u32 list \<Rightarrow> u8 list \<Rightarrow> nat \<Rightarrow> u32 list option" where
  "MD5Decode out inp len = decLoop out inp 0 0 len"

definition MD5Transform :: "u32 list \<Rightarrow> u8 list \<Rightarrow> u32 list option" where
  "MD5Transform st block =
     do {
       x \<leftarrow> MD5Decode (replicate 64 0) block 64;
       let v0 = (st ! 0, st ! 1, st ! 2, st ! 3);
       let v1 = fold (round_step F x) round1 v0;
       let v2 = fold (round_step G x) round2 v1;
       let v3 = fold (round_step H x) round3 v2;
       let (a, b, c, d) = fold (round_step I x) round4 v3;
       Some [st ! 0 + a, st ! 1 + b, st ! 2 + c, st ! 3 + d]
     }"

section \<open>The streaming interface\<close>

definition PADDING :: "u8 list" where
  "PADDING = 0x80 # replicate 63 0"

definition MD5Init :: "MD5_CTX \<Rightarrow> MD5_CTX" where
  "MD5Init ctx = ctx\<lparr>count0 := 0, count1 := 0, state := [0x67452301, 0xEFCDAB89, 0x98BADCFE, 0x10325476]\<rparr>"

text \<open>
  The loop over whole blocks.  The counter has 32 bits: where it would wrap around the loop would not end
  properly, and the model is undefined.
\<close>

function blockLoop :: "u32 list \<Rightarrow> u8 list \<Rightarrow> nat \<Rightarrow> nat \<Rightarrow> (nat \<times> u32 list) option" where
  "blockLoop st input i inputlen =
     (if 2 ^ 32 \<le> int i + 64 then None
      else if i + 64 \<le> inputlen
      then do {
        b \<leftarrow> buf_read input i 64;
        st' \<leftarrow> MD5Transform st b;
        blockLoop st' input (i + 64) inputlen
      }
      else Some (i, st))"
  by pat_completeness auto
termination
  by (relation "measure (\<lambda>(st, input, i, inputlen). inputlen - i)") auto

declare blockLoop.simps [simp del]

definition MD5Update :: "MD5_CTX \<Rightarrow> u8 list \<Rightarrow> u32 \<Rightarrow> MD5_CTX option" where
  "MD5Update ctx input inputlen =
     do {
       let index = unat (drop_bit 3 (count0 ctx) AND 0x3F);
       let partlen = 64 - index;
       let n = unat inputlen;
       let c0 = count0 ctx + push_bit 3 inputlen;
       let c1 = (if c0 < push_bit 3 inputlen then count1 ctx + 1 else count1 ctx) + drop_bit 29 inputlen;
       (i, index', st, buf) \<leftarrow>
         (if partlen \<le> n
          then do {
            part \<leftarrow> buf_read input 0 partlen;
            buf \<leftarrow> buf_write (buffer ctx) index part;
            st \<leftarrow> MD5Transform (state ctx) buf;
            (i, st') \<leftarrow> blockLoop st input partlen n;
            Some (i, 0, st', buf)
          }
          else Some (0, index, state ctx, buffer ctx));
       rest \<leftarrow> buf_read input i (n - i);
       buf' \<leftarrow> buf_write buf index' rest;
       Some (ctx\<lparr>count0 := c0, count1 := c1, state := st, buffer := buf'\<rparr>)
     }"

definition MD5Final :: "MD5_CTX \<Rightarrow> u8 list \<Rightarrow> (MD5_CTX \<times> u8 list) option" where
  "MD5Final ctx digest =
     do {
       let index = drop_bit 3 (count0 ctx) AND 0x3F;
       let padlen = (if index < 56 then 56 - index else 120 - index);
       bits \<leftarrow> MD5Encode (replicate 8 0) [count0 ctx, count1 ctx] 8;
       ctx1 \<leftarrow> MD5Update ctx PADDING padlen;
       ctx2 \<leftarrow> MD5Update ctx1 bits 8;
       digest' \<leftarrow> MD5Encode digest (state ctx2) 16;
       Some (ctx2, digest')
     }"

section \<open>The digest of a file\<close>

text \<open>
  \<^verbatim>\<open>vfs_read\<close> copies at most 128 bytes from the position and moves the position behind them; \<open>err\<close> says where it
  fails.  The caller then adds the size of its buffer to the position once more.
\<close>

definition vfs_read :: "u8 list \<Rightarrow> nat \<Rightarrow> u8 list \<times> nat" where
  "vfs_read fc pos = (let chunk = take 128 (drop pos fc) in (chunk, pos + length chunk))"

function readFileLoop ::
  "(nat \<Rightarrow> bool) \<Rightarrow> u8 list \<Rightarrow> nat \<Rightarrow> int \<Rightarrow> u8 list \<Rightarrow> MD5_CTX \<Rightarrow> (int + int \<times> MD5_CTX) option" where
  "readFileLoop err fc pos filelen hexbuf ctx =
     (let (chunk, pos1) = vfs_read fc pos; read_len = length chunk; pos2 = pos1 + 128
      in if err pos then Some (Inl (-1))
         else if read_len = 0 then Some (Inr (filelen, ctx))
         else do {
           hexbuf' \<leftarrow> buf_write hexbuf 0 chunk;
           filelen' \<leftarrow> i32 (filelen + int read_len);
           ctx' \<leftarrow> MD5Update ctx hexbuf' (of_nat read_len);
           readFileLoop err fc pos2 filelen' hexbuf' ctx'
         })"
  by pat_completeness auto
termination
  by (relation "measure (\<lambda>(err, fc, pos, filelen, hexbuf, ctx). length fc - pos)") (auto simp: vfs_read_def Let_def)

declare readFileLoop.simps [simp del]

definition hexdigit :: "nat \<Rightarrow> char" where
  "hexdigit n = (if n < 10 then char_of (48 + n) else char_of (87 + n))"

definition hex02 :: "u8 \<Rightarrow> string" where
  "hex02 x = [hexdigit (unat x div 16), hexdigit (unat x mod 16)]"

text \<open>\<open>opens\<close> is the outcome of \<^verbatim>\<open>filp_open\<close>, \<open>ctx\<close> the uninitialised context on the stack.\<close>

definition calc_md5 ::
  "bool \<Rightarrow> (nat \<Rightarrow> bool) \<Rightarrow> u8 list \<Rightarrow> MD5_CTX \<Rightarrow> string \<Rightarrow> (int \<times> string) option" where
  "calc_md5 opens err fc ctx dest =
     (if \<not> opens then Some (-1, dest)
      else do {
        r \<leftarrow> readFileLoop err fc 0 0 (replicate 128 0) (MD5Init ctx);
        (case r of
           Inl e \<Rightarrow> Some (e, dest)
         | Inr (filelen, ctx1) \<Rightarrow> do {
             (ctx2, decrypt) \<leftarrow> MD5Final ctx1 (replicate 16 0);
             let decrypt32 = concat (map (\<lambda>i. hex02 (decrypt ! i)) [0..<16]);
             Some (filelen, decrypt32)
           })
      })"

definition md5_init :: "bool \<Rightarrow> (nat \<Rightarrow> bool) \<Rightarrow> u8 list \<Rightarrow> MD5_CTX \<Rightarrow> int option" where
  "md5_init opens err fc ctx =
     do {
       (filelen, md5_str) \<leftarrow> calc_md5 opens err fc ctx [];
       Some (if filelen < 0 then -1 else 0)
     }"

section \<open>Reference digest\<close>

definition compress :: "u32 list \<Rightarrow> u8 list \<Rightarrow> u32 list" where
  "compress st b = the (MD5Transform st b)"

definition md5_iv :: "u32 list" where
  "md5_iv = [0x67452301, 0xEFCDAB89, 0x98BADCFE, 0x10325476]"

definition bytes_le :: "u32 \<Rightarrow> u8 list" where
  "bytes_le w = [ucast w, ucast (drop_bit 8 w), ucast (drop_bit 16 w), ucast (drop_bit 24 w)]"

definition padded :: "u8 list \<Rightarrow> u8 list" where
  "padded m = m @ 0x80 # replicate ((119 - length m mod 64) mod 64) 0 @
     bytes_le (of_nat (8 * length m)) @ bytes_le (of_nat (8 * length m div 2 ^ 32))"

fun blocks :: "u8 list \<Rightarrow> u8 list list" where
  "blocks m = (if length m < 64 then [] else take 64 m # blocks (drop 64 m))"

declare blocks.simps [simp del]

definition md5_ref :: "u8 list \<Rightarrow> u8 list" where
  "md5_ref m = concat (map bytes_le (foldl compress md5_iv (blocks (padded m))))"

text \<open>The context stands for the message \<open>m\<close>: whole blocks are compressed, the rest waits in the buffer.\<close>

definition blocks64 :: "u8 list list \<Rightarrow> bool" where
  "blocks64 bs \<longleftrightarrow> (\<forall>b \<in> set bs. length b = 64)"

definition repr :: "MD5_CTX \<Rightarrow> u8 list \<Rightarrow> bool" where
  "repr ctx m \<longleftrightarrow>
     (\<exists>bs r. m = concat bs @ r \<and> blocks64 bs \<and> length r < 64 \<and> state ctx = foldl compress md5_iv bs \<and>
        length (buffer ctx) = 64 \<and> take (length r) (buffer ctx) = r) \<and>
     count0 ctx = of_nat (8 * length m) \<and> count1 ctx = of_nat (8 * length m div 2 ^ 32)"

section \<open>Lemmas\<close>

lemma blocks_concat: "blocks64 bs \<Longrightarrow> length r < 64 \<Longrightarrow> blocks (concat bs @ r) = bs"
  by (induction bs) (subst blocks.simps; simp add: blocks64_def)+

lemma concat_mod: "blocks64 bs \<Longrightarrow> length r < 64 \<Longrightarrow> length (concat bs @ r) mod 64 = length r"
  by (induction bs) (auto simp: blocks64_def)

lemma decLoop_total:
  "len mod 4 = 0 \<Longrightarrow> len \<le> length inp \<Longrightarrow> len \<le> 4 * length out \<Longrightarrow> decLoop out inp i (4 * i) len \<noteq> None"
proof (induction "len - 4 * i" arbitrary: i out rule: less_induct)
  case less
  show ?case
  proof (cases "4 * i < len")
    case True
    then have i: "4 * i + 4 \<le> len" using less.prems(1) by presburger
    define out' where "out' = take i out @ [word_of (take 4 (drop (4 * i) inp))] @ drop (i + 1) out"
    have "length out' = length out" using i less.prems by (simp add: out'_def)
    then have "decLoop out' inp (i + 1) (4 * (i + 1)) len \<noteq> None"
      using less.prems True by (intro less.hyps) auto
    then show ?thesis
      using True i less.prems by (subst decLoop.simps) (simp add: buf_read_def buf_write_def out'_def add.commute)
  qed (simp add: decLoop.simps)
qed

lemma transform_eq: "length b = 64 \<Longrightarrow> MD5Transform st b = Some (compress st b)"
proof -
  assume "length b = 64"
  then have "MD5Decode (replicate 64 0) b 64 \<noteq> None"
    unfolding MD5Decode_def using decLoop_total [of 64 b "replicate 64 0" 0] by simp
  then have "MD5Transform st b \<noteq> None" by (auto simp: MD5Transform_def Let_def case_prod_unfold)
  then show ?thesis by (auto simp: compress_def)
qed

lemma compress_length: "length b = 64 \<Longrightarrow> length (compress st b) = 4"
  using transform_eq [of b st]
  by (auto simp: MD5Transform_def Let_def case_prod_unfold split: bind_splits dest: arg_cong [where f = length])

lemma foldl_compress_length: "blocks64 bs \<Longrightarrow> length st = 4 \<Longrightarrow> length (foldl compress st bs) = 4"
  by (induction bs arbitrary: st) (auto simp: blocks64_def compress_length)

lemma blockLoop_eq:
  "i \<le> n \<Longrightarrow> n \<le> length input \<Longrightarrow> int n + 64 < 2 ^ 32 \<Longrightarrow>
    \<exists>bs r. take (n - i) (drop i input) = concat bs @ r \<and> blocks64 bs \<and> length r < 64 \<and>
      blockLoop st input i n = Some (n - length r, foldl compress st bs)"
proof (induction "n - i" arbitrary: i st rule: less_induct)
  case less
  show ?case
  proof (cases "i + 64 \<le> n")
    case False
    then show ?thesis using less.prems
      by (intro exI [of _ "[]"] exI [of _ "take (n - i) (drop i input)"])
        (simp add: blocks64_def blockLoop.simps)
  next
    case True
    let ?b = "take 64 (drop i input)"
    have b: "length ?b = 64" using True less.prems by simp
    have lt: "n - (i + 64) < n - i" using True by simp
    obtain bs r where IH: "take (n - (i + 64)) (drop (i + 64) input) = concat bs @ r" "blocks64 bs" "length r < 64"
      "blockLoop (compress st ?b) input (i + 64) n = Some (n - length r, foldl compress (compress st ?b) bs)"
      using less.hyps [OF lt True less.prems(2,3), of "compress st ?b"] by blast
    have "take (n - i) (drop i input) = ?b @ take (n - (i + 64)) (drop (i + 64) input)"
    proof -
      have "n - i = 64 + (n - (i + 64))" using True by simp
      then have "take (n - i) (drop i input) = ?b @ take (n - (i + 64)) (drop 64 (drop i input))"
        by (metis take_add)
      then show ?thesis by (simp add: add.commute)
    qed
    then have "take (n - i) (drop i input) = concat (?b # bs) @ r" using IH(1) by simp
    moreover have "blockLoop st input i n = Some (n - length r, foldl compress st (?b # bs))"
      using True less.prems b IH(4) by (subst blockLoop.simps) (simp add: buf_read_def transform_eq)
    ultimately show ?thesis using IH(2,3) b by (intro exI [of _ "?b # bs"] exI [of _ r]) (simp add: blocks64_def)
  qed
qed

subsection \<open>The bit counter\<close>

lemma index_eq: "unat (drop_bit 3 (of_nat (8 * k) :: u32) AND 0x3F) = k mod 64"
proof -
  have m: "(0x3F :: u32) = mask 6" by (simp add: mask_eq_exp_minus_1)
  have "unat (drop_bit 3 (of_nat (8 * k) :: u32)) = 8 * k mod 2 ^ 32 div 8"
    unfolding unat_drop_bit_eq unat_of_nat by (simp add: drop_bit_eq_div)
  also have "\<dots> = k mod 2 ^ 29"
    using mod_mult_mult1 [of 8 k "2 ^ 29"] by simp
  finally have u: "unat (drop_bit 3 (of_nat (8 * k) :: u32)) = k mod 2 ^ 29" .
  have "unat (drop_bit 3 (of_nat (8 * k) :: u32) AND 0x3F) = unat (drop_bit 3 (of_nat (8 * k) :: u32)) mod 64"
    unfolding m take_bit_eq_mask [symmetric] unsigned_take_bit_eq by (simp add: take_bit_eq_mod)
  also have "\<dots> = k mod 64" unfolding u by (rule mod_mod_cancel) simp
  finally show ?thesis .
qed

lemma shift3: "push_bit 3 x = (of_nat (8 * unat x) :: u32)"
  by (simp add: push_bit_eq_mult mult.commute)

lemma count0_eq: "of_nat (8 * k) + push_bit 3 x = (of_nat (8 * (k + unat x)) :: u32)"
  unfolding shift3 by (simp add: algebra_simps)

lemma carry_div:
  fixes a b M :: nat
  assumes "0 < M"
  shows "(a + b) div M = a div M + b div M + (if (a + b) mod M < b mod M then 1 else 0)"
proof -
  define x y where "x = a mod M" and "y = b mod M"
  have l: "x < M" "y < M" using assms by (simp_all add: x_def y_def)
  have s: "(a + b) div M = a div M + b div M + (x + y) div M" unfolding x_def y_def by (rule div_add1_eq)
  have t: "(a + b) mod M = (x + y) mod M" unfolding x_def y_def by (simp add: mod_add_eq)
  show ?thesis unfolding s t y_def [symmetric]
  proof (cases "x + y < M")
    case False
    then have "(x + y) div M = 1" "(x + y) mod M = x + y - M"
      using l by (simp_all add: div_if le_mod_geq)
    then show "a div M + b div M + (x + y) div M = a div M + b div M + (if (x + y) mod M < y then 1 else 0)"
      using False l by simp
  qed simp
qed

lemma count1_eq:
  "(if of_nat (8 * k) + push_bit 3 x < (push_bit 3 x :: u32) then of_nat (8 * k div 2 ^ 32) + 1
     else of_nat (8 * k div 2 ^ 32)) + drop_bit 29 x = (of_nat (8 * (k + unat x) div 2 ^ 32) :: u32)"
proof -
  let ?M = "2 ^ 32 :: nat"
  have d: "drop_bit 29 x = (of_nat (8 * unat x div ?M) :: u32)"
  proof -
    have "8 * unat x div ?M = unat (drop_bit 29 x)" unfolding unat_drop_bit_eq by (simp add: drop_bit_eq_div)
    moreover have "drop_bit 29 x = of_nat (unat (drop_bit 29 x))" by simp
    ultimately show ?thesis by (simp only:)
  qed
  have c: "(of_nat (8 * k) + push_bit 3 x < (push_bit 3 x :: u32)) =
      ((8 * k + 8 * unat x) mod ?M < 8 * unat x mod ?M)"
    unfolding count0_eq unfolding shift3 word_less_nat_alt unat_of_nat distrib_left by simp
  have "8 * (k + unat x) div ?M =
      8 * k div ?M + 8 * unat x div ?M + (if (8 * k + 8 * unat x) mod ?M < 8 * unat x mod ?M then 1 else 0)"
    using carry_div [of ?M "8 * k" "8 * unat x"] unfolding distrib_left by simp
  then show ?thesis unfolding c d by (simp only: of_nat_add) simp
qed

subsection \<open>The context\<close>

lemma repr_init: "length (buffer ctx) = 64 \<Longrightarrow> repr (MD5Init ctx) []"
  unfolding repr_def by (auto simp: MD5Init_def md5_iv_def blocks64_def intro!: exI [of _ "[]"])

text \<open>The body of the update: what is compressed and what stays in the buffer.\<close>

lemma update_body:
  assumes "blocks64 bs" "length r < 64" "st = foldl compress md5_iv bs" "length buf = 64" "take (length r) buf = r"
    and "n \<le> length input" "int n + 64 < 2 ^ 32"
  shows "\<exists>bs' r' i idx st' buf1 buf2.
    (if 64 - length r \<le> n
     then do {
       part \<leftarrow> buf_read input 0 (64 - length r);
       b \<leftarrow> buf_write buf (length r) part;
       s \<leftarrow> MD5Transform st b;
       (i, s') \<leftarrow> blockLoop s input (64 - length r) n;
       Some (i, 0, s', b)
     }
     else Some (0, length r, st, buf)) = Some (i, idx, st', buf1) \<and>
    buf_read input i (n - i) = Some (take (n - i) (drop i input)) \<and>
    buf_write buf1 idx (take (n - i) (drop i input)) = Some buf2 \<and>
    (concat bs @ r) @ take n input = concat bs' @ r' \<and> blocks64 bs' \<and> length r' < 64 \<and>
    st' = foldl compress md5_iv bs' \<and> length buf2 = 64 \<and> take (length r') buf2 = r'"
proof (cases "64 - length r \<le> n")
  case False
  then have l: "length r + n < 64" using assms(2) by simp
  define buf2 where "buf2 = r @ take n input @ drop (length r + n) buf"
  have w: "buf_write buf (length r) (take n input) = Some buf2"
    using l assms(4,5,6) by (simp add: buf_write_def buf2_def)
  have "length buf2 = 64" "take (length (r @ take n input)) buf2 = r @ take n input"
    using l assms(4,6) by (simp_all add: buf2_def)
  with False w l assms show ?thesis
    by (intro exI [of _ bs] exI [of _ "r @ take n input"] exI [of _ 0] exI [of _ "length r"] exI [of _ st]
        exI [of _ buf] exI [of _ buf2]) (simp add: buf_read_def)
next
  case True
  let ?p = "64 - length r"
  define b where "b = r @ take ?p input"
  have b: "length b = 64" using True assms(2,6) by (simp add: b_def)
  have rd: "buf_read input 0 ?p = Some (take ?p input)" using True assms(6) by (simp add: buf_read_def)
  have wr: "buf_write buf (length r) (take ?p input) = Some b"
    using True assms(2,4,5,6) by (simp add: buf_write_def b_def)
  obtain cs q where q: "take (n - ?p) (drop ?p input) = concat cs @ q" "blocks64 cs" "length q < 64"
    "blockLoop (compress st b) input ?p n = Some (n - length q, foldl compress (compress st b) cs)"
    using blockLoop_eq [OF True assms(6,7), of "compress st b"] by blast
  have ql: "length q \<le> n - ?p" using arg_cong [OF q(1), of length] True assms(6) by simp
  have split: "take n input = take ?p input @ take (n - ?p) (drop ?p input)"
    using True take_add [of ?p "n - ?p" input] by simp
  have qt: "take (n - (n - length q)) (drop (n - length q) input) = q"
  proof -
    have "take n input = (take ?p input @ concat cs) @ q" using split q(1) by simp
    moreover have "length (take n input) = n" using assms(6) by simp
    ultimately have "drop (n - length q) (take n input) = q"
      by (metis add_diff_cancel_right' append_eq_conv_conj length_append)
    then show ?thesis by (simp add: drop_take)
  qed
  define buf2 where "buf2 = q @ drop (length q) b"
  have w2: "buf_write b 0 q = Some buf2" using q(3) b by (simp add: buf_write_def buf2_def)
  have m: "(concat bs @ r) @ take n input = concat (bs @ b # cs) @ q"
    using split q(1) by (simp add: b_def)
  have lq: "n - length q + (n - (n - length q)) \<le> length input" using assms(6) ql by simp
  have "blocks64 (bs @ b # cs)" using assms(1) b q(2) by (auto simp: blocks64_def)
  moreover have "length buf2 = 64" "take (length q) buf2 = q" using q(3) b by (simp_all add: buf2_def)
  moreover have "foldl compress (compress st b) cs = foldl compress md5_iv (bs @ b # cs)" by (simp add: assms(3))
  ultimately show ?thesis
    using True q(3,4) rd wr w2 m b qt lq
    by (intro exI [of _ "bs @ b # cs"] exI [of _ q] exI [of _ "n - length q"] exI [of _ 0]
        exI [of _ "foldl compress (compress st b) cs"] exI [of _ b] exI [of _ buf2])
      (simp add: transform_eq buf_read_def)
qed

lemma update_repr:
  assumes "repr ctx m" "unat n \<le> length input" "int (unat n) + 64 < 2 ^ 32"
  shows "\<exists>ctx'. MD5Update ctx input n = Some ctx' \<and> repr ctx' (m @ take (unat n) input)"
proof -
  obtain bs r where m: "m = concat bs @ r" "blocks64 bs" "length r < 64" "state ctx = foldl compress md5_iv bs"
    "length (buffer ctx) = 64" "take (length r) (buffer ctx) = r"
    and c: "count0 ctx = of_nat (8 * length m)" "count1 ctx = of_nat (8 * length m div 2 ^ 32)"
    using assms(1) unfolding repr_def by blast
  have "length m mod 64 = length r" unfolding m(1) by (rule concat_mod [OF m(2,3)])
  then have idx: "unat (drop_bit 3 (count0 ctx) AND 0x3F) = length r" unfolding c(1) index_eq .
  obtain bs' r' i idx' st' buf1 buf2 where
    b: "(if 64 - length r \<le> unat n
     then do {
       part \<leftarrow> buf_read input 0 (64 - length r);
       b \<leftarrow> buf_write (buffer ctx) (length r) part;
       s \<leftarrow> MD5Transform (state ctx) b;
       (i, s') \<leftarrow> blockLoop s input (64 - length r) (unat n);
       Some (i, 0, s', b)
     }
     else Some (0, length r, state ctx, buffer ctx)) = Some (i, idx', st', buf1)"
    "buf_read input i (unat n - i) = Some (take (unat n - i) (drop i input))"
    "buf_write buf1 idx' (take (unat n - i) (drop i input)) = Some buf2"
    and r': "(concat bs @ r) @ take (unat n) input = concat bs' @ r'" "blocks64 bs'" "length r' < 64"
    "st' = foldl compress md5_iv bs'" "length buf2 = 64" "take (length r') buf2 = r'"
    using update_body [OF m(2-6) assms(2,3)] by blast
  let ?ctx = "ctx\<lparr>count0 := of_nat (8 * (length m + unat n)), count1 := of_nat (8 * (length m + unat n) div 2 ^ 32),
    state := st', buffer := buf2\<rparr>"
  have "MD5Update ctx input n = Some ?ctx"
    unfolding MD5Update_def Let_def idx
    unfolding c count1_eq unfolding count0_eq unfolding b(1)
    by (simp add: b(2,3) del: of_nat_mult of_nat_add)
  moreover have "repr ?ctx (m @ take (unat n) input)"
  proof -
    have len: "length (m @ take (unat n) input) = length m + unat n" using assms(2) by simp
    have "m @ take (unat n) input = concat bs' @ r'" using r'(1) m(1) by simp
    with r' show ?thesis unfolding repr_def len by auto
  qed
  ultimately show ?thesis by blast
qed

lemma ucast_low: "(ucast (w AND 0xFF) :: u8) = ucast (w :: u32)"
  by (rule u8_ucast_and_ff)

lemma encode_one:
  assumes "i < length inp" "4 * length inp \<le> length out"
  shows "encLoop out inp i (4 * i) (4 * length inp) =
      encLoop (take (4 * i) out @ bytes_le (inp ! i) @ drop (4 * i + 4) out) inp (i + 1) (4 * (i + 1)) (4 * length inp)"
proof -
  have s4: "Suc (Suc (Suc (Suc x))) = 4 + x" for x by simp
  show ?thesis using assms
    by (subst encLoop.simps)
      (simp add: s4 buf_read_def buf_write_def bytes_le_def ucast_low hd_drop_conv_nth take_Suc add.commute Let_def)
qed

lemma encLoop_eq:
  "i \<le> length inp \<Longrightarrow> length out = 4 * length inp \<Longrightarrow>
    encLoop out inp i (4 * i) (4 * length inp) = Some (take (4 * i) out @ concat (map bytes_le (drop i inp)))"
proof (induction "length inp - i" arbitrary: i out)
  case 0
  then show ?case by (simp add: encLoop.simps)
next
  case (Suc k)
  then have i: "i < length inp" by simp
  let ?out = "take (4 * i) out @ bytes_le (inp ! i) @ drop (4 * i + 4) out"
  have "length ?out = 4 * length inp" using Suc.prems i by (simp add: bytes_le_def)
  then have "encLoop ?out inp (i + 1) (4 * (i + 1)) (4 * length inp) =
      Some (take (4 * (i + 1)) ?out @ concat (map bytes_le (drop (i + 1) inp)))"
    using Suc.hyps i by (intro Suc.hyps(1)) auto
  moreover have "take (4 * (i + 1)) ?out = take (4 * i) out @ bytes_le (inp ! i)"
    using Suc.prems i by (simp add: bytes_le_def)
  moreover have "drop i inp = inp ! i # drop (i + 1) inp" using i by (simp add: Cons_nth_drop_Suc)
  ultimately show ?case using Suc.prems i by (simp add: encode_one)
qed

lemma MD5Encode_eq:
  "length out = 4 * length inp \<Longrightarrow> MD5Encode out inp (4 * length inp) = Some (concat (map bytes_le inp))"
  unfolding MD5Encode_def using encLoop_eq [of 0 inp out] by simp

text \<open>The number of padding bytes.\<close>

lemma padlen_eq:
  fixes idx :: u32
  assumes "unat idx = k" "k < 64"
  shows "unat (if idx < 56 then 56 - idx else 120 - idx) = 1 + (119 - k) mod 64"
proof (cases "k < 56")
  case True
  then have "idx < 56" using assms by (simp add: word_less_nat_alt)
  moreover have "unat (56 - idx) = 56 - k" using True assms by (subst unat_sub) (simp_all add: word_le_nat_alt)
  moreover have "(119 - k) mod 64 = 55 - k" using True by (simp add: mod_if)
  ultimately show ?thesis using True by simp
next
  case False
  then have "\<not> idx < 56" using assms by (simp add: word_less_nat_alt)
  moreover have "unat (120 - idx) = 120 - k" using assms by (subst unat_sub) (simp_all add: word_le_nat_alt)
  moreover have "(119 - k) mod 64 = 119 - k" using False assms by simp
  ultimately show ?thesis using assms by simp
qed

lemma pad_total: "(n + (9 + (119 - n mod 64) mod 64)) mod 64 = (0 :: nat)"
proof -
  define k where "k = n mod 64"
  have k: "k < 64" by (simp add: k_def)
  have "k + (9 + (119 - k) mod 64) = (if k < 56 then 64 else 128)"
  proof (cases "k < 56")
    case True
    then have "(119 - k) mod 64 = 55 - k" by (simp add: mod_if)
    then show ?thesis using True by simp
  qed (use k in simp)
  then have "(k + (9 + (119 - k) mod 64)) mod 64 = 0" by simp
  then show ?thesis unfolding k_def by (simp only: mod_add_left_eq)
qed

lemma take_PADDING: "j < 64 \<Longrightarrow> take (1 + j) PADDING = 0x80 # replicate j 0"
  by (simp add: PADDING_def)

lemma final_repr:
  assumes "repr ctx m" "length digest = 16"
  shows "\<exists>ctx'. MD5Final ctx digest = Some (ctx', md5_ref m)"
proof -
  let ?k = "length m mod 64" and ?j = "(119 - length m mod 64) mod 64"
  have c: "count0 ctx = of_nat (8 * length m)" "count1 ctx = of_nat (8 * length m div 2 ^ 32)"
    using assms(1) by (auto simp: repr_def)
  define idx where "idx = drop_bit 3 (count0 ctx) AND 0x3F"
  have idx: "unat idx = ?k" unfolding idx_def c(1) index_eq ..
  define pl where "pl = (if idx < 56 then 56 - idx else 120 - idx)"
  have pl: "unat pl = 1 + ?j" unfolding pl_def by (rule padlen_eq [OF idx]) simp
  have j: "?j < 64" by simp
  then have pl64: "unat pl \<le> 64" using pl by linarith
  have "unat pl + 64 < 2 ^ 32" using pl64 by simp
  then have "int (unat pl + 64) < int (2 ^ 32)" by (simp only: of_nat_less_iff)
  then have b: "int (unat pl) + 64 < 2 ^ 32" by (simp only: of_nat_add of_nat_power of_nat_numeral)
  let ?bits = "bytes_le (count0 ctx) @ bytes_le (count1 ctx)"
  have bits: "MD5Encode (replicate 8 0) [count0 ctx, count1 ctx] 8 = Some ?bits"
    using MD5Encode_eq [of "replicate 8 0" "[count0 ctx, count1 ctx]"] by simp
  have "length PADDING = 64" by (simp add: PADDING_def)
  then obtain ctx1 where u1: "MD5Update ctx PADDING pl = Some ctx1" "repr ctx1 (m @ take (unat pl) PADDING)"
    using update_repr [OF assms(1) _ b, of PADDING] pl64 by auto
  obtain ctx2 where u2: "MD5Update ctx1 ?bits 8 = Some ctx2" "repr ctx2 ((m @ take (unat pl) PADDING) @ ?bits)"
    using update_repr [OF u1(2), of 8 ?bits] by (auto simp: bytes_le_def)
  have pm: "(m @ take (unat pl) PADDING) @ ?bits = padded m"
    unfolding pl take_PADDING [OF j] padded_def c by simp
  have "length (padded m) = length m + (9 + ?j)" unfolding padded_def by (simp add: bytes_le_def)
  then have m0: "length (padded m) mod 64 = 0" using pad_total [of "length m"] by simp
  obtain bs r where bs: "padded m = concat bs @ r" "blocks64 bs" "length r < 64" "state ctx2 = foldl compress md5_iv bs"
    using u2(2) unfolding pm repr_def by blast
  have "length r = 0" using concat_mod [OF bs(2,3)] m0 unfolding bs(1) by simp
  then have st: "state ctx2 = foldl compress md5_iv (blocks (padded m))" "length (state ctx2) = 4"
    using bs blocks_concat [of bs r] foldl_compress_length [of bs md5_iv] by (simp_all add: md5_iv_def)
  have "MD5Encode digest (state ctx2) 16 = Some (concat (map bytes_le (state ctx2)))"
    using MD5Encode_eq [of digest "state ctx2"] st(2) assms(2) by simp
  then have "MD5Final ctx digest = Some (ctx2, md5_ref m)"
    using u1(1) u2(1) bits st(1)
    by (simp add: MD5Final_def Let_def idx_def [symmetric] pl_def [symmetric] md5_ref_def)
  then show ?thesis by blast
qed

section \<open>Properties\<close>

fun update_all :: "MD5_CTX \<Rightarrow> u8 list list \<Rightarrow> MD5_CTX option" where
  "update_all ctx [] = Some ctx"
| "update_all ctx (p # ps) =
     do {
       ctx' \<leftarrow> MD5Update ctx p (of_nat (length p));
       update_all ctx' ps
     }"

lemma update_piece:
  assumes "repr ctx m" "length p + 64 < 2 ^ 32"
  shows "\<exists>ctx'. MD5Update ctx p (of_nat (length p)) = Some ctx' \<and> repr ctx' (m @ p)"
proof -
  have u: "unat (of_nat (length p) :: u32) = length p" using assms(2) by (simp add: unat_of_nat)
  have "int (length p + 64) < int (2 ^ 32)" using assms(2) by (simp only: of_nat_less_iff)
  then have "int (length p) + 64 < 2 ^ 32" by (simp only: of_nat_add of_nat_power of_nat_numeral)
  with update_repr [OF assms(1), of "of_nat (length p)" p] show ?thesis unfolding u by simp
qed

lemma update_all_repr:
  "repr ctx m \<Longrightarrow> \<forall>p \<in> set ps. length p + 64 < 2 ^ 32 \<Longrightarrow>
    \<exists>ctx'. update_all ctx ps = Some ctx' \<and> repr ctx' (m @ concat ps)"
proof (induction ps arbitrary: ctx m)
  case (Cons p ps)
  obtain ctx1 where c1: "MD5Update ctx p (of_nat (length p)) = Some ctx1" "repr ctx1 (m @ p)"
    using update_piece [OF Cons.prems(1), of p] Cons.prems(2) by auto
  obtain ctx2 where "update_all ctx1 ps = Some ctx2" "repr ctx2 ((m @ p) @ concat ps)"
    using Cons.IH [OF c1(2)] Cons.prems(2) by auto
  with c1 show ?case by simp
qed simp

text \<open>
  C14.  However a message is cut into pieces, feeding the pieces to the streaming interface and
  finishing gives the digest of the whole message: its blocks, padded to a multiple of 64 bytes with a one,
  zeros and the number of bits modulo \<open>2 ^ 64\<close>, are compressed in order.  No array is overrun on the way.
\<close>

theorem md5_streams:
  assumes "length (buffer ctx) = 64" "\<forall>p \<in> set ps. length p + 64 < 2 ^ 32" "length digest = 16"
  shows "\<exists>ctx1 ctx2. update_all (MD5Init ctx) ps = Some ctx1 \<and> MD5Final ctx1 digest = Some (ctx2, md5_ref (concat ps))"
  using update_all_repr [OF repr_init [OF assms(1)] assms(2)] final_repr [OF _ assms(3)] by fastforce

text \<open>What \<open>calc_md5\<close> reads: every other piece of 128 bytes.\<close>

fun seen :: "u8 list \<Rightarrow> u8 list" where
  "seen f = (if f = [] then [] else take 128 f @ seen (drop 256 f))"

declare seen.simps [simp del]

lemma length_seen: "length (seen f) \<le> length f"
proof (induction f rule: seen.induct)
  case (1 f)
  then show ?case by (subst seen.simps) (auto simp: min_def)
qed

lemma readFileLoop_step:
  assumes "vfs_read fc pos = (ch, p1)" "ch \<noteq> []" "\<not> err pos" "buf_write hexbuf 0 ch = Some h'"
    and "i32 (k + int (length ch)) = Some k'" "MD5Update ctx h' (of_nat (length ch)) = Some ctx'"
  shows "readFileLoop err fc pos k hexbuf ctx = readFileLoop err fc (p1 + 128) k' h' ctx'"
  by (subst readFileLoop.simps) (simp add: assms)

lemma readFileLoop_eq:
  assumes "\<And>p. \<not> err p"
  shows "repr ctx m \<Longrightarrow> length hexbuf = 128 \<Longrightarrow> 0 \<le> k \<Longrightarrow> k + int (length fc - pos) < 2 ^ 31 \<Longrightarrow>
    \<exists>ctx'. readFileLoop err fc pos k hexbuf ctx = Some (Inr (k + int (length (seen (drop pos fc))), ctx')) \<and>
      repr ctx' (m @ seen (drop pos fc))"
proof (induction "length fc - pos" arbitrary: pos k hexbuf ctx m rule: less_induct)
  case less
  let ?c = "take 128 (drop pos fc)"
  show ?case
  proof (cases "drop pos fc = []")
    case True
    then show ?thesis using less.prems assms
      by (subst readFileLoop.simps) (simp add: vfs_read_def seen.simps)
  next
    case False
    let ?h = "?c @ drop (length ?c) hexbuf"
    let ?pos = "pos + length ?c + 128"
    have w: "buf_write hexbuf 0 ?c = Some ?h" using less.prems(2) by (simp add: buf_write_def)
    have h: "length ?h = 128" using less.prems(2) by simp
    have ne: "length ?c \<noteq> 0" using False by simp
    have lc: "length ?c \<le> 128" "length ?c \<le> length fc - pos" by simp_all
    have u: "unat (of_nat (length ?c) :: u32) = length ?c" using lc(1) by (simp add: unat_of_nat)
    have t: "take (length x) (x @ y) = x" for x y :: "u8 list" by simp
    have le: "length ?c \<le> length ?h" unfolding h by (rule lc(1))
    have "int (length ?c) + 64 < 4294967296" using lc(1) by linarith
    then have b32: "int (length ?c) + 64 < 2 ^ 32" by simp
    obtain ctx1 where c1: "MD5Update ctx ?h (of_nat (length ?c)) = Some ctx1" "repr ctx1 (m @ ?c)"
      using update_repr [OF less.prems(1), of "of_nat (length ?c)" ?h, unfolded u t, OF le b32] by blast
    have kk: "i32 (k + int (length ?c)) = Some (k + int (length ?c))"
      by (rule i32_fits) (use less.prems(3,4) lc(2) in linarith)
    have d: "drop ?pos fc = drop 256 (drop pos fc)"
      by (cases "length ?c = 128") (auto simp: min_def split: if_splits)
    have lt: "length fc - ?pos < length fc - pos" using ne lc(2) by linarith
    obtain ctx2 where c2: "readFileLoop err fc ?pos (k + int (length ?c)) ?h ctx1 =
        Some (Inr (k + int (length ?c) + int (length (seen (drop ?pos fc))), ctx2))"
      "repr ctx2 ((m @ ?c) @ seen (drop ?pos fc))"
      using less.hyps [OF lt c1(2) h, of "k + int (length ?c)"] less.prems(3,4) lc(2) lt by fastforce
    have s: "seen (drop pos fc) = ?c @ seen (drop ?pos fc)" using False unfolding d by (subst seen.simps) simp
    have "readFileLoop err fc pos k hexbuf ctx = readFileLoop err fc ?pos (k + int (length ?c)) ?h ctx1"
      by (rule readFileLoop_step [OF _ _ assms w kk c1(1)]) (use False in \<open>simp_all add: vfs_read_def\<close>)
    then show ?thesis using c2 unfolding s by simp
  qed
qed

lemma length_md5_ref: "length (md5_ref m) = 16"
proof -
  have b: "length b = 64" if "b \<in> set (blocks x)" for b x
    using that by (induction x rule: blocks.induct) (subst (asm) (2) blocks.simps, auto split: if_splits)
  have "length (foldl compress md5_iv (blocks (padded m))) = 4"
    by (rule foldl_compress_length) (simp_all add: blocks64_def b md5_iv_def)
  then show ?thesis by (simp add: md5_ref_def length_concat bytes_le_def comp_def sum_list_triv)
qed

lemma calc_md5_eq:
  assumes "\<And>p. \<not> err p" "length (buffer ctx) = 64" "length fc < 2 ^ 31"
  shows "calc_md5 True err fc ctx dest = Some (int (length (seen fc)), concat (map hex02 (md5_ref (seen fc))))"
proof -
  have "int (length fc) < 2 ^ 31" using assms(3) by (metis of_nat_less_iff of_nat_numeral of_nat_power)
  then obtain ctx1 where c1: "readFileLoop err fc 0 0 (replicate 128 0) (MD5Init ctx) = Some (Inr (int (length (seen fc)), ctx1))"
    "repr ctx1 (seen fc)"
    using readFileLoop_eq [of err, OF assms(1) repr_init [OF assms(2)], of "replicate 128 0" 0 fc 0] by auto
  obtain ctx2 where c2: "MD5Final ctx1 (replicate 16 0) = Some (ctx2, md5_ref (seen fc))"
    using final_repr [OF c1(2), of "replicate 16 0"] by auto
  have "map (\<lambda>i. hex02 (md5_ref (seen fc) ! i)) [0..<16] = map hex02 (md5_ref (seen fc))"
    by (rule nth_equalityI) (simp_all add: length_md5_ref)
  then show ?thesis by (simp add: calc_md5_def c1 c2)
qed

text \<open>
  Remark.  After every read the position is advanced a second time, so that \<open>calc_md5\<close> digests only
  every other piece of 128 bytes: files that differ in their second 128 bytes have the same digest, and the
  returned length is the number of bytes digested.
\<close>

theorem md5_skips:
  assumes "\<And>p. \<not> err p" "length (buffer ctx) = 64" "length (a @ b @ c) < 2 ^ 31"
    and "length a = 128" "length b = 128" "length b' = 128"
  shows "calc_md5 True err (a @ b @ c) ctx dest = calc_md5 True err (a @ b' @ c) ctx dest \<and>
    calc_md5 True err (a @ b @ c) ctx dest =
      Some (int (length (a @ seen c)), concat (map hex02 (md5_ref (a @ seen c))))"
proof -
  have s: "seen (a @ x @ c) = a @ seen c" if "length x = 128" for x
    using that assms(4) by (subst seen.simps) auto
  have "length (a @ b' @ c) < 2 ^ 31" using assms(3-6) by simp
  from calc_md5_eq [OF assms(1-3)] calc_md5_eq [OF assms(1,2) this] show ?thesis
    using assms(5,6) by (simp add: s)
qed

definition stackCtx :: MD5_CTX where
  "stackCtx = \<lparr>count0 = 7, count1 = 9, state = [], buffer = replicate 64 0xcc\<rparr>"

theorem md5_streams_witness:
  "\<exists>ctx1 ctx2. update_all (MD5Init stackCtx) [[97], [], [98, 99]] = Some ctx1 \<and>
    MD5Final ctx1 (replicate 16 0) = Some (ctx2, md5_ref [97, 98, 99])"
  using md5_streams [of stackCtx "[[97], [], [98, 99]]" "replicate 16 0"] by (simp add: stackCtx_def)

theorem md5_skips_witness:
  "calc_md5 True (\<lambda>_. False) (replicate 128 1 @ replicate 128 2 @ [3]) stackCtx [] =
     calc_md5 True (\<lambda>_. False) (replicate 128 1 @ replicate 128 4 @ [3]) stackCtx [] \<and>
   calc_md5 True (\<lambda>_. False) (replicate 128 1 @ replicate 128 2 @ [3]) stackCtx [] =
     Some (int (length (replicate 128 1 @ seen [3])), concat (map hex02 (md5_ref (replicate 128 1 @ seen [3]))))"
  by (rule md5_skips) (simp_all add: stackCtx_def)
end
