(* ===== verification/Host.thy ===== *)
theory Host
  imports JxDev Rsa Aes
begin

unbundle bit_operations_syntax

text \<open>
  The host program of the first case study (\<^verbatim>\<open>smile-case1/main.c\<close>): it loads the enclave, revokes
  the rights on one of its data and one of its code pages and restores them in a signal handler,
  asks the reporter in the enclave for the state save area, encrypts a copy of the data page, and
  hands the measured pages to the character device.  The SGX runtime, the enclave and the support
  library are the parameter \<open>sgx\<close>.  Time stamps are left out where they are only displayed; the two
  that are passed to the enclave are part of the parameter.
\<close>

section \<open>State\<close>

text \<open>How the process ends when it does not return: a failed assertion, \<open>abort\<close>, undefined behaviour.\<close>

datatype abort = AssertFailed | SgxAssertFailed | Aborted | Undefined

type_synonym 'a res = "abort + 'a"

definition andThen :: "'a res \<Rightarrow> ('a \<Rightarrow> 'b res) \<Rightarrow> 'b res" where
  "andThen r f = (case r of Inl a \<Rightarrow> Inl a | Inr x \<Rightarrow> f x)"

definition defined :: "'a option \<Rightarrow> 'a res" where
  "defined r = (case r of None \<Rightarrow> Inl Undefined | Some x \<Rightarrow> Inr x)"

definition require :: "abort \<Rightarrow> bool \<Rightarrow> unit res" where
  "require a c = (if c then Inr () else Inl a)"

datatype prot = PROT_READ | PROT_WRITE | PROT_EXEC

text \<open>What the program writes to the terminal: text, words, the value of a counter.\<close>

datatype shown = Txt string | Word u64 | Reg string u64 | Count nat | Value int

record host =
  data_pt :: u64
  data_page :: u64
  code_pt :: u64
  fault_fired :: nat
  aep_fired :: nat
  eid :: u64
  global_eid :: u64
  old :: u8
  new :: u8
  ocall_limit :: int
  "output" :: "u64 list"
  cpyopt :: "u64 list"
  argu_list :: "u64 list"
  h_data_tr :: "u8 list"
  code_tr :: "u8 list"
  worker_tr :: "u8 list"
  base :: u64
  rights :: "u64 \<Rightarrow> prot set"
  handler :: bool
  aep_cb :: bool
  encl :: "u64 \<Rightarrow> u8"
  terminal :: "shown list"

text \<open>The errors \<^verbatim>\<open>sgx_create_enclave\<close> reports; their codes belong to the SDK.\<close>

datatype sgx_error =
  UNEXPECTED | INVALID_PARAMETER | OUT_OF_MEMORY | ENCLAVE_LOST | INVALID_ENCLAVE | INVALID_ENCLAVE_ID
| INVALID_SIGNATURE | OUT_OF_EPC | NO_DEVICE | MEMORY_MAP_CONFLICT | INVALID_METADATA | DEVICE_BUSY
| INVALID_VERSION | INVALID_ATTRIBUTE | ENCLAVE_FILE_ACCESS

record sgx =
  err :: "sgx_error \<Rightarrow> u32"
  SGX_SUCCESS :: u32
  create_enclave :: "u32 \<times> u64"
  destroy_enclave :: u32
  dummy_call :: u32
  page_aligned_func :: u32
  get_a_addr :: "u32 \<times> u64"
  get_code_addr :: "u32 \<times> u64"
  enclave_base :: u64
  ssa_addr :: u64
  reporter :: "u64 \<Rightarrow> u64 list \<Rightarrow> u64 list \<Rightarrow> u64 list \<times> u64 list"
  addint :: "u64 \<Rightarrow> u64 \<Rightarrow> u64 \<Rightarrow> u64 list \<Rightarrow> u32 \<times> int \<times> u64 list"
  edbgrd :: "(u64 \<Rightarrow> u8) \<Rightarrow> u64 \<Rightarrow> u8"
  edbgwr :: "(u64 \<Rightarrow> u8) \<Rightarrow> u64 \<Rightarrow> u8 \<Rightarrow> u64 \<Rightarrow> u8"
  gprsgx :: "(u64 \<Rightarrow> u8) \<Rightarrow> u64 list"
  PFN_MASK :: u64
  mapped :: "u64 \<Rightarrow> bool"
  outside :: "u64 \<Rightarrow> u8 list"
  anchor_code :: "u8 list"
  after_eid :: "u8 list"
  stamps :: "u64 \<times> u64"
  output_addr :: u64
  ssa_slot :: u64
  attacked :: u64
  test1_addr :: u64
  test1_bytes :: "u8 list"

section \<open>Loading the enclave\<close>

definition sgx_errlist :: "(sgx_error \<times> string \<times> string option) list" where
  "sgx_errlist =
     [(UNEXPECTED, ''Unexpected error occurred.'', None),
      (INVALID_PARAMETER, ''Invalid parameter.'', None),
      (OUT_OF_MEMORY, ''Out of memory.'', None),
      (ENCLAVE_LOST, ''Power transition occurred.'',
        Some ''Please refer to the sample \"PowerTransition\" for details.''),
      (INVALID_ENCLAVE, ''Invalid enclave image.'', None),
      (INVALID_ENCLAVE_ID, ''Invalid enclave identification.'', None),
      (INVALID_SIGNATURE, ''Invalid enclave signature.'', None),
      (OUT_OF_EPC, ''Out of EPC memory.'', None),
      (NO_DEVICE, ''Invalid SGX device.'',
        Some ''Please make sure SGX module is enabled in the BIOS, and install SGX driver afterwards.''),
      (MEMORY_MAP_CONFLICT, ''Memory map conflicted.'', None),
      (INVALID_METADATA, ''Invalid enclave metadata.'', None),
      (DEVICE_BUSY, ''SGX device was busy.'', None),
      (INVALID_VERSION, ''Enclave version was invalid.'', None),
      (INVALID_ATTRIBUTE, ''Enclave was not authorized.'', None),
      (ENCLAVE_FILE_ACCESS, ''Can't open enclave file.'', None)]"

definition say :: "shown list \<Rightarrow> host \<Rightarrow> host" where
  "say ms h = h\<lparr>terminal := terminal h @ ms\<rparr>"

text \<open>The loop over the table stops at the first entry with the code; the fallback prints the code.\<close>

fun errLoop :: "sgx \<Rightarrow> u32 \<Rightarrow> (sgx_error \<times> string \<times> string option) list \<Rightarrow> shown list" where
  "errLoop g ret [] = [Txt ''Error code is 0x'', Word (ucast ret)]"
| "errLoop g ret ((e, msg, sug) # rest) =
     (if ret = err g e
      then (case sug of None \<Rightarrow> [] | Some s \<Rightarrow> [Txt ''Info: '', Txt s]) @ [Txt ''Error: '', Txt msg]
      else errLoop g ret rest)"

definition print_error_message :: "sgx \<Rightarrow> u32 \<Rightarrow> host \<Rightarrow> host" where
  "print_error_message g ret h = say (errLoop g ret sgx_errlist) h"

definition initialize_enclave :: "sgx \<Rightarrow> host \<Rightarrow> int \<times> host" where
  "initialize_enclave g h =
     (let (ret, e) = create_enclave g; h1 = h\<lparr>eid := e\<rparr>
      in if ret \<noteq> SGX_SUCCESS g then (-1, print_error_message g ret h1)
         else (0, say [Word (enclave_base g)] (h1\<lparr>aep_cb := True\<rparr>)))"

section \<open>Page faults\<close>

definition SIGSEGV :: int where
  "SIGSEGV = 11"

text \<open>\<^verbatim>\<open>mprotect\<close> fails for an address that is not the start of a mapped page.\<close>

definition mprotect :: "sgx \<Rightarrow> u64 \<Rightarrow> prot set \<Rightarrow> host \<Rightarrow> host res" where
  "mprotect g a r h =
     andThen (require AssertFailed (a AND 0xfff = 0 \<and> mapped g a)) (\<lambda>_.
       Inr (h\<lparr>rights := (rights h)(a := r)\<rparr>))"

definition fault_handler :: "sgx \<Rightarrow> int \<Rightarrow> u64 \<Rightarrow> host \<Rightarrow> host res" where
  "fault_handler g signo si_addr h =
     andThen (require AssertFailed (fault_fired h < 5)) (\<lambda>_.
     andThen (require Aborted (signo = SIGSEGV)) (\<lambda>_.
     andThen
       (if si_addr = data_page h then mprotect g (data_page h) {PROT_READ, PROT_WRITE} h
        else if si_addr = code_pt h then mprotect g (code_pt h) {PROT_READ, PROT_EXEC} h
        else Inr (say [Txt ''Unknown #PF address!''] h)) (\<lambda>h1.
     Inr (h1\<lparr>fault_fired := fault_fired h1 + 1\<rparr>))))"

definition attacker_config_page_table :: "sgx \<Rightarrow> host \<Rightarrow> host res" where
  "attacker_config_page_table g h =
     andThen (require SgxAssertFailed (fst (get_a_addr g) = SGX_SUCCESS g)) (\<lambda>_.
     let h1 = h\<lparr>data_pt := snd (get_a_addr g)\<rparr>;
         h2 = h1\<lparr>data_page := data_pt h1 AND NOT (PFN_MASK g)\<rparr>
     in andThen (mprotect g (data_page h2) {} h2) (\<lambda>h3.
     andThen (require SgxAssertFailed (fst (get_code_addr g) = SGX_SUCCESS g)) (\<lambda>_.
     let h4 = h3\<lparr>code_pt := snd (get_code_addr g)\<rparr>
     in andThen (mprotect g (code_pt h4) {} h4) (\<lambda>h5.
     Inr (h5\<lparr>handler := True\<rparr>)))))"

text \<open>
  An access that needs the rights \<open>need\<close> on a page: without them the processor raises a fault on
  the page, the handler runs and the instruction is restarted.  Without a handler the process dies.
\<close>

function touch :: "sgx \<Rightarrow> u64 \<Rightarrow> prot set \<Rightarrow> host \<Rightarrow> host res" where
  "touch g p need h =
     (if need \<subseteq> rights h p then Inr h
      else if \<not> handler h then Inl Aborted
      else case fault_handler g SIGSEGV p h of Inl a \<Rightarrow> Inl a | Inr h1 \<Rightarrow> touch g p need h1)"
  by pat_completeness auto

lemma fault_handler_counts:
  "fault_handler g s p h = Inr h1 \<Longrightarrow> fault_fired h < 5 \<and> fault_fired h1 = Suc (fault_fired h)"
  by (auto simp: fault_handler_def andThen_def require_def mprotect_def say_def split: if_splits sum.splits)

termination touch
  by (relation "measure (\<lambda>(g, p, need, h). 5 - fault_fired h)") (auto dest!: fault_handler_counts)

declare touch.simps [simp del]

section \<open>Attestation\<close>

definition OUTPUT_WORDS :: nat where
  "OUTPUT_WORDS = 0x10000"

definition clear_output :: "host \<Rightarrow> host" where
  "clear_output h = h\<lparr>output := replicate (length (output h)) 0\<rparr>"

text \<open>The request block: \<open>ssa\<close> is the address of the local variable that holds the address.\<close>

definition fill_argu :: "sgx \<Rightarrow> u64 \<Rightarrow> host \<Rightarrow> host" where
  "fill_argu g flag h = h\<lparr>argu_list := [flag, output_addr g, ssa_slot g, 30, ssa_slot g, 40]\<rparr>"

text \<open>The comparison loops: how many of the first \<open>n\<close> words agree.\<close>

fun matches :: "u64 list \<Rightarrow> u64 list \<Rightarrow> nat \<Rightarrow> nat \<Rightarrow> nat \<Rightarrow> nat option" where
  "matches xs ys i 0 s = Some s"
| "matches xs ys i (Suc k) s =
     do {
       x \<leftarrow> buf_read xs i 1;
       y \<leftarrow> buf_read ys i 1;
       matches xs ys (i + 1) k (if x = y then s + 1 else s)
     }"

definition registers :: "u64 list \<Rightarrow> shown list" where
  "registers o1 =
     [Reg ''RCX'' (o1 ! 12), Reg ''RDX'' (o1 ! 13), Reg ''RBX'' (o1 ! 14), Reg ''RSP'' (o1 ! 15),
      Reg ''RBP'' (o1 ! 16), Reg ''RSI'' (o1 ! 17), Reg ''RDI'' (o1 ! 18)]"

definition test_attestation :: "sgx \<Rightarrow> u64 \<Rightarrow> host \<Rightarrow> host res" where
  "test_attestation g flag h =
     (let h1 = clear_output (fill_argu g flag (clear_output h));
          sharebuff = 0x200 # replicate 99 0;
          (o1, b1) = reporter g (sharebuff ! 0) (output h1) sharebuff
      in andThen (defined (matches (cpyopt h1) o1 0 0x40 0)) (\<lambda>s.
         let (o2, b2) = reporter g (b1 ! 0) o1 b1;
             h2 = h1\<lparr>output := o2\<rparr>
         in andThen (defined (buf_read b2 1 5)) (\<lambda>mr.
            andThen (defined (buf_read o2 0 0x40)) (\<lambda>ssa.
            Inr (say ([Count s] @ map Word mr @ map Word ssa @ registers ssa) h2)))))"

definition aep_cb_func :: "sgx \<Rightarrow> host \<Rightarrow> host res" where
  "aep_cb_func g h =
     andThen (test_attestation g 1 h) (\<lambda>h1.
       Inr (say (map Word (gprsgx g (encl h1))) (h1\<lparr>aep_fired := aep_fired h1 + 1\<rparr>)))"

text \<open>The thread variant displays the buffer it has just cleared: its call of the reporter is commented out.\<close>

definition thread_attestation :: "sgx \<Rightarrow> u64 \<Rightarrow> host \<Rightarrow> host res" where
  "thread_attestation g flag h =
     (let h1 = clear_output (fill_argu g flag (clear_output h))
      in andThen (defined (buf_read (output h1) 0 0x200)) (\<lambda>ws. Inr (say (map Word ws) h1)))"

section \<open>Calls into the enclave\<close>

definition mr_encl :: "u64 list" where
  "mr_encl = [0xf586b9df737b6b35, 0x1064f84839ddab91, 0x438e33d4e2792e0d, 0xc577d3a582be92d4]"

text \<open>
  The report of the enclave is compared with the expected measurement, which has four words, in a
  loop over \<open>n\<close> words.
\<close>

definition general_call ::
  "sgx \<Rightarrow> u64 \<Rightarrow> u64 \<Rightarrow> u64 \<Rightarrow> nat \<Rightarrow> host \<Rightarrow> (u32 \<times> int \<times> nat \<times> host) res" where
  "general_call g e a b n h =
     (let h1 = clear_output h;
          (ret, sum, o1) = addint g e a b (output h1)
      in andThen (defined (matches mr_encl o1 0 n 0)) (\<lambda>s. Inr (ret, sum, s, h1\<lparr>output := o1\<rparr>)))"

definition thread_general :: "sgx \<Rightarrow> host \<Rightarrow> host res" where
  "thread_general g h =
     andThen (general_call g (eid h) (data_page h) (code_pt h) 8 h) (\<lambda>(ret, sum, s, h1).
     andThen (defined (buf_read (output h1) 0 0x40)) (\<lambda>ssa.
     let h2 = say ([Count s] @ map Word ssa @ registers ssa @ [Value sum]) h1
     in andThen (require Aborted (ret = SGX_SUCCESS g)) (\<lambda>_. Inr h2)))"

definition thread_general1 :: "sgx \<Rightarrow> host \<Rightarrow> host res" where
  "thread_general1 g h =
     andThen (general_call g (eid h) (data_page h) (code_pt h) 8 h) (\<lambda>(ret, sum, s, h1).
     andThen (defined (buf_read (output h1) 0 0x40)) (\<lambda>ssa.
     let h2 = say (map Word ssa @ registers ssa @ [Value sum]) h1
     in andThen (require Aborted (ret = SGX_SUCCESS g)) (\<lambda>_. Inr h2)))"

definition thread_general2 :: "sgx \<Rightarrow> host \<Rightarrow> host res" where
  "thread_general2 g h =
     andThen (general_call g (global_eid h) 12 13 4 h) (\<lambda>(ret, sum, s, h1).
     andThen (defined (buf_read (output h1) 0 80)) (\<lambda>ssa.
     let h2 = say (Count s # map Word ssa @ [Value sum]) (clear_output h1)
     in andThen (require Aborted (ret = SGX_SUCCESS g)) (\<lambda>_. Inr h2)))"

section \<open>Calls from the enclave\<close>

definition ocall_print_string :: "sgx \<Rightarrow> string \<Rightarrow> host \<Rightarrow> host res" where
  "ocall_print_string g str h =
     (let h1 = say [Txt str] h;
          h2 = h1\<lparr>ocall_limit := ocall_limit h1 - 1\<rparr>
      in if ocall_limit h2 < 2
         then andThen (test_attestation g 1 h2) (\<lambda>h3. Inr (h3\<lparr>ocall_limit := 100\<rparr>))
         else Inr h2)"

definition ocall_get_ptr :: "sgx \<Rightarrow> u64" where
  "ocall_get_ptr g = attacked g"

definition gadgets :: "sgx \<Rightarrow> host \<Rightarrow> u64 list" where
  "gadgets g h = [base h + 0x4084, 0xFFFFFFFFFFFFFFFF, base h + 0x408f, attacked g, base h + 0x4099]"

text \<open>The payload is written without looking at \<open>len\<close>.\<close>

definition ocall_build_payload :: "sgx \<Rightarrow> u64 list \<Rightarrow> nat \<Rightarrow> host \<Rightarrow> (u64 list \<times> host) res" where
  "ocall_build_payload g payload len h =
     andThen (defined (buf_write payload 0 (gadgets g h))) (\<lambda>p.
       Inr (p, say [Word (base h), Word (p ! 0)] h))"

section \<open>The worker\<close>

definition thread_func :: "sgx \<Rightarrow> host \<Rightarrow> host" where
  "thread_func g h =
     (let h1 = h\<lparr>old := edbgrd g (encl h) (data_pt h)\<rparr>;
          h2 = h1\<lparr>encl := edbgwr g (encl h1) (data_pt h1) (new h1)\<rparr>;
          h3 = h2\<lparr>new := edbgrd g (encl h2) (data_pt h2)\<rparr>
      in say [Word (data_pt h3), Word (data_page h3), Word (ucast (old h3)), Word (ucast (new h3))] h3)"

definition test1_code :: "int \<Rightarrow> host \<Rightarrow> host" where
  "test1_code flag h =
     (let opt1 = 2; opt2 = 1; output = (if flag = 0 then opt1 + opt2 else opt1 - opt2)
      in say [Txt ''output='', Value output] h)"

definition test2_code :: "sgx \<Rightarrow> host \<Rightarrow> host res" where
  "test2_code g h =
     andThen (defined (buf_write (replicate 8 0) 0 (gadgets g h))) (\<lambda>shadow.
       Inr (say (map Word shadow) h))"

definition host_key :: "u8 list" where
  "host_key = [0x2b, 0x7e, 0x15, 0x16, 0x28, 0xae, 0xd2, 0xa6, 0xab, 0xf7, 0x15, 0x88, 0x09, 0xcf, 0x4f, 0x3c]"

text \<open>
  The copied page is to be encrypted with AES and the AES key with a fresh RSA key.  The length
  passed to the AES routine is 1.
\<close>

definition create_secret ::
  "(nat \<Rightarrow> int) \<Rightarrow> (nat \<Rightarrow> int) \<Rightarrow> u8 list \<Rightarrow> u8 list \<Rightarrow> (u8 list \<times> int list \<times> int list) option" where
  "create_secret rnd ifill pt ct =
     do {
       let len = 16;
       (r, ct1) \<leftarrow> aesEncrypt (Some host_key) 16 (Some pt) (Some ct) 1;
       ct' \<leftarrow> ct1;
       (key, i) \<leftarrow> keygen rnd 0;
       let bytes = blockBytes key;
       encoded \<leftarrow> encodeMessage ifill len bytes host_key (expE key) (modulusN key);
       pubkey \<leftarrow> buf_read encoded 0 (len div 4);
       decoded \<leftarrow> decodeMessage ifill (len div bytes) bytes encoded (expD key) (modulusN key);
       shown \<leftarrow> buf_read decoded 0 16;
       Some (ct', pubkey, shown)
     }"

text \<open>
  Clearing and copying the pages of the enclave raises the faults the handler resolves.  What the
  host reads there is the parameter \<open>outside\<close>; its stores do not reach the enclave.
\<close>

definition PAGE :: nat where
  "PAGE = 4096"

definition worker :: "sgx \<Rightarrow> (nat \<Rightarrow> int) \<Rightarrow> (nat \<Rightarrow> int) \<Rightarrow> host \<Rightarrow> host res" where
  "worker g rnd ifill h =
     (let h1 = h\<lparr>worker_tr := replicate PAGE 0, h_data_tr := replicate PAGE 0, code_tr := replicate PAGE 0\<rparr>;
          data_crypto = replicate PAGE 0;
          h2 = say [Word (data_pt h1), Word (data_page h1), Word (code_pt h1)] h1
      in andThen (touch g (data_page h2) {PROT_WRITE} h2) (\<lambda>h3.
         andThen (touch g (data_page h3) {PROT_READ} h3) (\<lambda>h4.
         andThen (defined (buf_read (outside g (data_page h4)) 0 PAGE)) (\<lambda>data.
         andThen (touch g (code_pt h4) {PROT_READ} h4) (\<lambda>h5.
         andThen (defined (buf_read (outside g (code_pt h5)) 0 PAGE)) (\<lambda>code.
         andThen (defined (create_secret rnd ifill data data_crypto)) (\<lambda>(crypto, pubkey, decoded).
         andThen (defined (buf_read crypto (8 * 0x119) 1)) (\<lambda>c.
         Inr (say (map Value decoded @ [Value (uint (hd c) - 2)]) h5)))))))))"

section \<open>The device protocol\<close>

text \<open>\<open>open\<close>, \<open>write\<close>, \<open>close\<close>: when the device is not registered all three fail, which nobody checks.\<close>

definition dev_write :: "kconst \<Rightarrow> jxaddr \<Rightarrow> hypercall \<Rightarrow> u8 list \<Rightarrow> jxdev \<Rightarrow> jxdev res" where
  "dev_write k ad hyper page d =
     (if registered d
      then andThen (defined (jxdev_write k ad hyper page PAGE (snd (jxdev_open d)))) (\<lambda>(n, d1).
        Inr (snd (jxdev_release d1)))
      else Inr d)"

text \<open>\<open>rep movsq\<close> with a count of \<open>0x100\<close> copies 2048 bytes to the start of the zeroed page.\<close>

definition movsq_page :: "u8 list \<Rightarrow> u8 list option" where
  "movsq_page src =
     do {
       bytes \<leftarrow> buf_read src 0 (0x100 * 8);
       buf_write (replicate PAGE 0) 0 bytes
     }"

definition measure_writes ::
  "kconst \<Rightarrow> jxaddr \<Rightarrow> hypercall \<Rightarrow> u8 list \<Rightarrow> u8 list \<Rightarrow> host \<Rightarrow> jxdev \<Rightarrow> (host \<times> jxdev) res" where
  "measure_writes k ad hyper ssa anchor h d =
     (let pp0' = ssa[700 := 0xaa];
          pp1' = anchor[700 := 0xbb];
          h1 = h\<lparr>worker_tr := (worker_tr h)[700 := 0xdd]\<rparr>
      in andThen (dev_write k ad hyper pp0' d) (\<lambda>d1.
         andThen (dev_write k ad hyper pp1' d1) (\<lambda>d2.
         andThen (dev_write k ad hyper (worker_tr h1) d2) (\<lambda>d3.
         Inr (h1, d3)))))"

text \<open>\<open>pp\<close> is an array of bytes: every value stored in it is truncated.\<close>

definition trampoline_page :: "sgx \<Rightarrow> u64 \<Rightarrow> host \<Rightarrow> u8 list" where
  "trampoline_page g pnum h =
     (let psize = (0x1000 :: u64)
      in ((replicate PAGE 0)[700 := 0xcc])[0 := ucast (data_page h), 1 := ucast (test1_addr g),
            2 := ucast psize, 3 := ucast pnum])"

definition main ::
  "sgx \<Rightarrow> (nat \<Rightarrow> int) \<Rightarrow> (nat \<Rightarrow> int) \<Rightarrow> kconst \<Rightarrow> jxaddr \<Rightarrow> hypercall \<Rightarrow> u64 \<Rightarrow> host \<Rightarrow> jxdev \<Rightarrow> (host \<times> jxdev) res" where
  "main g rnd ifill k ad hyper pnum h d =
     andThen (require SgxAssertFailed (fst (create_enclave g) = SGX_SUCCESS g)) (\<lambda>_.
     let h0 = h\<lparr>eid := snd (create_enclave g)\<rparr>
     in andThen (require SgxAssertFailed (dummy_call g = SGX_SUCCESS g)) (\<lambda>_.
     andThen (require SgxAssertFailed (page_aligned_func g = SGX_SUCCESS g)) (\<lambda>_.
     andThen (attacker_config_page_table g h0) (\<lambda>h1.
     andThen (defined (movsq_page (outside g (ssa_addr g)))) (\<lambda>ssa.
     andThen (defined (movsq_page (anchor_code g))) (\<lambda>anchor.
     andThen (worker g rnd ifill (h1\<lparr>aep_cb := True\<rparr>)) (\<lambda>h2.
     andThen (defined (buf_read (after_eid g) 0 PAGE)) (\<lambda>encl_id.
     let (rett, sum, o1) = addint g (eid h2) (fst (stamps g)) (snd (stamps g)) (output h2);
         h3 = say (map (\<lambda>b. Word (ucast b)) (take 32 encl_id)) (h2\<lparr>output := o1\<rparr>)
     in andThen (measure_writes k ad hyper ssa anchor h3 d) (\<lambda>(h4, d1).
     andThen (test_attestation g 1 (thread_func g h4)) (\<lambda>h5.
     andThen (dev_write k ad hyper (trampoline_page g pnum h5) d1) (\<lambda>d2.
     andThen (defined (buf_read (test1_bytes g) 0 41)) (\<lambda>code.
     andThen (test2_code g (say (map (\<lambda>b. Word (ucast b)) code) (h5\<lparr>base := enclave_base g\<rparr>))) (\<lambda>h6.
     andThen (require SgxAssertFailed (destroy_enclave g = SGX_SUCCESS g)) (\<lambda>_.
     Inr (h6, d2)))))))))))))))"

section \<open>Events of the running process\<close>

text \<open>
  After its start the process reacts to page faults of the enclave, exits that reach the callback,
  and calls from the enclave.  A step is undefined when the process ends.
\<close>

datatype hevent = Fault u64 | Aep | Ocall string | Attest | Debug

definition host_step :: "sgx \<Rightarrow> hevent \<Rightarrow> host \<Rightarrow> host option" where
  "host_step g e h =
     (case (case e of
         Fault a \<Rightarrow> fault_handler g SIGSEGV a h
       | Aep \<Rightarrow> aep_cb_func g h
       | Ocall s \<Rightarrow> ocall_print_string g s h
       | Attest \<Rightarrow> test_attestation g 1 h
       | Debug \<Rightarrow> Inr (thread_func g h)) of Inl a \<Rightarrow> None | Inr h1 \<Rightarrow> Some h1)"

section \<open>Lemmas\<close>

lemmas res_defs = andThen_def require_def defined_def

lemma andThen_simps [simp]:
  "andThen (Inr x) f = f x" "andThen (Inl a) f = Inl a"
  by (simp_all add: andThen_def)

lemma andThen_eq_Inr: "andThen r f = Inr y \<longleftrightarrow> (\<exists>x. r = Inr x \<and> f x = Inr y)"
  by (auto simp: andThen_def split: sum.splits)

lemma defined_simps [simp]:
  "defined (Some x) = Inr x" "defined None = Inl Undefined" "defined r = Inr x \<longleftrightarrow> r = Some x"
  by (auto simp: defined_def split: option.splits)

lemma require_simps [simp]:
  "require a c = Inr u \<longleftrightarrow> c" "require a True = Inr ()" "require a False = Inl a"
  by (auto simp: require_def)

subsection \<open>Faults\<close>

lemma config_revokes:
  assumes "attacker_config_page_table g h = Inr h1"
  shows "handler h1" "rights h1 (data_page h1) = {}" "rights h1 (code_pt h1) = {}"
    "fault_fired h1 = fault_fired h"
    "data_page h1 AND 0xfff = 0" "mapped g (data_page h1)" "code_pt h1 AND 0xfff = 0" "mapped g (code_pt h1)"
  using assms by (auto simp: attacker_config_page_table_def andThen_eq_Inr mprotect_def Let_def split: if_splits)

lemma touch_data:
  assumes "handler h" "fault_fired h < 5" "data_page h AND 0xfff = 0" "mapped g (data_page h)"
    and "need \<subseteq> {PROT_READ, PROT_WRITE}" "\<not> need \<subseteq> rights h (data_page h)"
  shows "touch g (data_page h) need h = Inr (h\<lparr>rights := (rights h)(data_page h := {PROT_READ, PROT_WRITE}),
    fault_fired := fault_fired h + 1\<rparr>)"
proof -
  have "fault_handler g SIGSEGV (data_page h) h = Inr (h\<lparr>rights := (rights h)(data_page h := {PROT_READ, PROT_WRITE}),
      fault_fired := fault_fired h + 1\<rparr>)"
    using assms by (simp add: fault_handler_def mprotect_def)
  then show ?thesis using assms by (subst touch.simps) (simp add: touch.simps)
qed

lemma touch_code:
  assumes "handler h" "fault_fired h < 5" "code_pt h AND 0xfff = 0" "mapped g (code_pt h)"
    and "code_pt h \<noteq> data_page h" "need \<subseteq> {PROT_READ, PROT_EXEC}" "\<not> need \<subseteq> rights h (code_pt h)"
  shows "touch g (code_pt h) need h = Inr (h\<lparr>rights := (rights h)(code_pt h := {PROT_READ, PROT_EXEC}),
    fault_fired := fault_fired h + 1\<rparr>)"
proof -
  have "fault_handler g SIGSEGV (code_pt h) h = Inr (h\<lparr>rights := (rights h)(code_pt h := {PROT_READ, PROT_EXEC}),
      fault_fired := fault_fired h + 1\<rparr>)"
    using assms by (simp add: fault_handler_def mprotect_def)
  then show ?thesis using assms by (subst touch.simps) (simp add: touch.simps)
qed


lemma touch_stuck:
  "handler h \<Longrightarrow> p \<noteq> data_page h \<Longrightarrow> p \<noteq> code_pt h \<Longrightarrow> \<not> need \<subseteq> rights h p \<Longrightarrow>
    touch g p need h = Inl AssertFailed"
proof (induction g p need h rule: touch.induct)
  case (1 g p need h)
  show ?case
  proof (cases "fault_fired h < 5")
    case True
    define h1 where "h1 = (say [Txt ''Unknown #PF address!''] h)\<lparr>fault_fired := fault_fired h + 1\<rparr>"
    have f: "fault_handler g SIGSEGV p h = Inr h1"
      using 1 True by (simp add: fault_handler_def h1_def say_def)
    have "touch g p need h1 = Inl AssertFailed"
      by (rule "1.IH" [OF _ _ f]) (use 1 in \<open>simp_all add: h1_def say_def\<close>)
    then show ?thesis using 1 f by (subst touch.simps) simp
  next
    case False
    then have "fault_handler g SIGSEGV p h = Inl AssertFailed" by (simp add: fault_handler_def)
    then show ?thesis using 1 by (subst touch.simps) simp
  qed
qed

text \<open>
  Remark.  A fault on any other page is not resolved: the handler is entered again and again
  and its assertion ends the process, whatever the count of faults was; the loop always ends.
\<close>

theorem foreign_fault:
  assumes "handler h" "p \<noteq> data_page h" "p \<noteq> code_pt h" "\<not> need \<subseteq> rights h p"
  shows "touch g p need h = Inl AssertFailed"
  by (rule touch_stuck [OF assms])

subsection \<open>Attestation\<close>

lemma matches_eq:
  "i + n \<le> length xs \<Longrightarrow> i + n \<le> length ys \<Longrightarrow>
    matches xs ys i n s = Some (s + length (filter (\<lambda>j. xs ! j = ys ! j) [i..<i + n]))"
proof (induction n arbitrary: i s)
  case (Suc n)
  have one: "buf_read zs i (Suc 0) = Some [zs ! i]" if "i + Suc n \<le> length zs" for zs :: "u64 list"
    using that by (simp add: buf_read_def hd_drop_conv_nth take_Suc)
  have r: "[i..<Suc (i + n)] = i # [Suc i..<Suc (i + n)]" by (simp add: upt_rec)
  show ?case
    using Suc.prems Suc.IH [of "Suc i" "if xs ! i = ys ! i then s + 1 else s"]
    by (simp add: one r del: upt_Suc)
qed simp

lemma matches_short: "length xs < i + n \<Longrightarrow> i \<le> length xs \<Longrightarrow> matches xs ys i n s = None"
proof (induction n arbitrary: i s)
  case (Suc n)
  show ?case
  proof (cases "i < length xs")
    case True
    then show ?thesis using Suc by (auto simp: Option.bind_eq_None_conv)
  qed (use Suc.prems in \<open>simp add: buf_read_def\<close>)
qed simp

text \<open>The reporter writes within the two buffers it is given.\<close>

definition reporter_ok :: "sgx \<Rightarrow> bool" where
  "reporter_ok g \<longleftrightarrow> (\<forall>n b c. length (fst (reporter g n b c)) = length b \<and> length (snd (reporter g n b c)) = length c)"

definition wf_bufs :: "host \<Rightarrow> bool" where
  "wf_bufs h \<longleftrightarrow> length (output h) = OUTPUT_WORDS \<and> cpyopt h = replicate 1024 0"

definition wf_host :: "host \<Rightarrow> bool" where
  "wf_host h \<longleftrightarrow> wf_bufs h \<and> 2 \<le> ocall_limit h \<and> ocall_limit h \<le> 100 \<and> fault_fired h \<le> 5"

subsection \<open>Error messages\<close>

lemma errLoop_known:
  "inj (err g) \<Longrightarrow> distinct (map fst tab) \<Longrightarrow> (e, msg, sug) \<in> set tab \<Longrightarrow>
    errLoop g (err g e) tab =
      (case sug of None \<Rightarrow> [] | Some s \<Rightarrow> [Txt ''Info: '', Txt s]) @ [Txt ''Error: '', Txt msg]"
  by (induction tab) (force simp: inj_eq image_iff)+

lemma errLoop_unknown:
  "ret \<notin> err g ` fst ` set tab \<Longrightarrow> errLoop g ret tab = [Txt ''Error code is 0x'', Word (ucast ret)]"
  by (induction tab) auto

text \<open>Every error of the SDK's list gets its own message; any other code is printed as a number.\<close>

lemma print_error_message_eq:
  assumes "inj (err g)"
  shows "\<exists>msg sug. (e, msg, sug) \<in> set sgx_errlist \<and> terminal (print_error_message g (err g e) h) =
      terminal h @ (case sug of None \<Rightarrow> [] | Some s \<Rightarrow> [Txt ''Info: '', Txt s]) @ [Txt ''Error: '', Txt msg]"
    and "ret \<notin> range (err g) \<Longrightarrow>
      terminal (print_error_message g ret h) = terminal h @ [Txt ''Error code is 0x'', Word (ucast ret)]"
proof -
  have d: "distinct (map fst sgx_errlist)" by (simp add: sgx_errlist_def)
  have "e \<in> fst ` set sgx_errlist" by (cases e) (simp_all add: sgx_errlist_def)
  then obtain msg sug where m: "(e, msg, sug) \<in> set sgx_errlist" by auto
  from errLoop_known [OF assms d m] m
  show "\<exists>msg sug. (e, msg, sug) \<in> set sgx_errlist \<and> terminal (print_error_message g (err g e) h) =
      terminal h @ (case sug of None \<Rightarrow> [] | Some s \<Rightarrow> [Txt ''Info: '', Txt s]) @ [Txt ''Error: '', Txt msg]"
    by (auto simp: print_error_message_def say_def)
  show "terminal (print_error_message g ret h) = terminal h @ [Txt ''Error code is 0x'', Word (ucast ret)]"
    if "ret \<notin> range (err g)"
    using errLoop_unknown [of ret g sgx_errlist] that by (auto simp: print_error_message_def say_def)
qed

lemma reporter_length:
  "reporter_ok g \<Longrightarrow> length (fst (reporter g n b c)) = length b"
  "reporter_ok g \<Longrightarrow> length (snd (reporter g n b c)) = length c"
  by (simp_all add: reporter_ok_def)

text \<open>What the reporter leaves in the cleared output buffer at its first call, and at its second.\<close>

definition report1 :: "sgx \<Rightarrow> u64 list \<times> u64 list" where
  "report1 g = reporter g 0x200 (replicate OUTPUT_WORDS 0) (0x200 # replicate 99 0)"

definition report2 :: "sgx \<Rightarrow> u64 list \<times> u64 list" where
  "report2 g = reporter g (snd (report1 g) ! 0) (fst (report1 g)) (snd (report1 g))"

definition zero_words :: "u64 list \<Rightarrow> nat" where
  "zero_words xs = length (filter (\<lambda>x. x = 0) xs)"

lemma report_length:
  assumes "reporter_ok g"
  shows "length (fst (report1 g)) = OUTPUT_WORDS" "length (snd (report1 g)) = 100"
    "length (fst (report2 g)) = OUTPUT_WORDS" "length (snd (report2 g)) = 100"
  using reporter_length [OF assms] by (simp_all add: report1_def report2_def)

lemma zero_matches:
  assumes "n \<le> m" "n \<le> length ys"
  shows "matches (replicate m 0) ys 0 n 0 = Some (zero_words (take n ys))"
proof -
  have "take n ys = map (\<lambda>j. ys ! j) [0..<n]"
    using assms by (intro nth_equalityI) auto
  moreover have "filter (\<lambda>j. replicate m 0 ! j = ys ! j) [0..<n] = filter (\<lambda>j. ys ! j = 0) [0..<n]"
    using assms by (intro filter_cong) auto
  ultimately show ?thesis
    using assms by (simp add: matches_eq zero_words_def filter_map comp_def)
qed

text \<open>The state after an attestation.\<close>

definition attested :: "sgx \<Rightarrow> u64 \<Rightarrow> host \<Rightarrow> host" where
  "attested g flag h =
     say (Count (zero_words (take 0x40 (fst (report1 g)))) # map Word (take 5 (drop 1 (snd (report2 g)))) @
        map Word (take 0x40 (fst (report2 g))) @ registers (take 0x40 (fst (report2 g))))
      (h\<lparr>argu_list := [flag, output_addr g, ssa_slot g, 30, ssa_slot g, 40], output := fst (report2 g)\<rparr>)"

lemma test_attestation_run:
  assumes "wf_bufs h" "reporter_ok g"
  shows "test_attestation g flag h = Inr (attested g flag h)"
proof -
  have h: "length (output h) = OUTPUT_WORDS" "cpyopt h = replicate 1024 0"
    using assms by (auto simp: wf_bufs_def)
  have m: "matches (replicate 1024 0) (fst (report1 g)) 0 0x40 0 = Some (zero_words (take 0x40 (fst (report1 g))))"
    by (rule zero_matches) (simp_all add: report_length [OF assms(2)] OUTPUT_WORDS_def)
  have r: "buf_read (snd (report2 g)) (Suc 0) 5 = Some (take 5 (drop 1 (snd (report2 g))))"
    "buf_read (fst (report2 g)) 0 0x40 = Some (take 0x40 (fst (report2 g)))"
    by (simp_all add: buf_read_def report_length [OF assms(2)] OUTPUT_WORDS_def)
  have "reporter g 0x200 (replicate OUTPUT_WORDS 0) (0x200 # replicate 99 0) = report1 g"
    "reporter g (snd (report1 g) ! 0) (fst (report1 g)) (snd (report1 g)) = report2 g"
    by (simp_all add: report1_def report2_def)
  then show ?thesis
    by (simp add: test_attestation_def clear_output_def fill_argu_def Let_def case_prod_unfold h m r attested_def)
qed

lemma attested_simps:
  "wf_bufs h \<Longrightarrow> reporter_ok g \<Longrightarrow> wf_bufs (attested g flag h)"
  "ocall_limit (attested g flag h) = ocall_limit h" "fault_fired (attested g flag h) = fault_fired h"
  by (simp_all add: attested_def say_def wf_bufs_def report_length)

text \<open>
  Remark.  The buffer \<open>cpyopt\<close> with which a report is compared is never filled.
  The displayed result of the verification is therefore the number of zero words among the first 64
  of the report: it depends on no expected measurement, and an all-zero report passes completely.
\<close>

theorem attestation_counts_zeros:
  assumes "wf_host h" "reporter_ok g"
  shows "\<exists>h' rest. test_attestation g flag h = Inr h' \<and> wf_host h' \<and>
    terminal h' = terminal h @ Count (zero_words (take 0x40 (fst (report1 g)))) # rest"
proof -
  have "wf_bufs h" using assms by (simp add: wf_host_def)
  then show ?thesis
    using assms by (simp add: test_attestation_run wf_host_def attested_simps) (simp add: attested_def say_def)
qed

subsection \<open>Runs of the process\<close>

lemma ocall_run:
  assumes "wf_bufs h" "reporter_ok g"
  shows "ocall_print_string g s h =
    Inr (let h1 = (say [Txt s] h)\<lparr>ocall_limit := ocall_limit h - 1\<rparr>
         in if ocall_limit h1 < 2 then (attested g 1 h1)\<lparr>ocall_limit := 100\<rparr> else h1)"
proof -
  have "wf_bufs ((say [Txt s] h)\<lparr>ocall_limit := ocall_limit h - 1\<rparr>)"
    using assms(1) by (simp add: wf_bufs_def say_def)
  then show ?thesis
    using assms(2) by (simp add: ocall_print_string_def test_attestation_run Let_def say_def)
qed

lemma wf_bufs_upd [simp]:
  "wf_bufs (h\<lparr>terminal := t\<rparr>) = wf_bufs h" "wf_bufs (h\<lparr>ocall_limit := l\<rparr>) = wf_bufs h"
  "wf_bufs (h\<lparr>aep_fired := a\<rparr>) = wf_bufs h" "wf_bufs (h\<lparr>fault_fired := n\<rparr>) = wf_bufs h"
  "wf_bufs (h\<lparr>rights := r\<rparr>) = wf_bufs h" "wf_bufs (h\<lparr>old := x\<rparr>) = wf_bufs h"
  "wf_bufs (h\<lparr>new := x\<rparr>) = wf_bufs h" "wf_bufs (h\<lparr>encl := e\<rparr>) = wf_bufs h" "wf_bufs (say ms h) = wf_bufs h"
  by (simp_all add: wf_bufs_def say_def)

lemma host_step_total:
  assumes "wf_host h" "reporter_ok g" "e \<in> {Aep, Attest, Debug} \<union> range Ocall"
  shows "\<exists>h'. host_step g e h = Some h' \<and> wf_host h'"
proof -
  have b: "wf_bufs h" "2 \<le> ocall_limit h" "ocall_limit h \<le> 100" "fault_fired h \<le> 5"
    using assms(1) by (auto simp: wf_host_def)
  note run = test_attestation_run [OF b(1) assms(2)] attested_simps(1) [OF b(1) assms(2)] attested_simps(2,3)
  consider "e = Aep" | "e = Attest" | "e = Debug" | s where "e = Ocall s" using assms(3) by blast
  then show ?thesis
  proof cases
    case 4
    then show ?thesis using b assms(2)
      by (simp add: host_step_def ocall_run wf_host_def attested_simps Let_def say_def)
  qed (use b in \<open>simp_all add: host_step_def aep_cb_func_def run thread_func_def wf_host_def Let_def, simp_all add: say_def run\<close>)
qed

lemma mprotect_wf:
  "mprotect g a r h = Inr h' \<Longrightarrow> wf_bufs h' = wf_bufs h \<and> ocall_limit h' = ocall_limit h"
  by (auto simp: mprotect_def andThen_eq_Inr simp del: fun_upd_apply)

lemma fault_wf:
  assumes "wf_host h" "fault_handler g s a h = Inr h'"
  shows "wf_host h'"
proof -
  obtain h1 where h1: "h' = h1\<lparr>fault_fired := fault_fired h1 + 1\<rparr>"
    and "(if a = data_page h then mprotect g (data_page h) {PROT_READ, PROT_WRITE} h
        else if a = code_pt h then mprotect g (code_pt h) {PROT_READ, PROT_EXEC} h
        else Inr (say [Txt ''Unknown #PF address!''] h)) = Inr h1"
    using assms(2) unfolding fault_handler_def andThen_eq_Inr by blast
  then have "wf_bufs h1 = wf_bufs h" "ocall_limit h1 = ocall_limit h"
    by (auto split: if_splits dest: mprotect_wf simp: say_def)
  then show ?thesis
    using h1 assms(1) fault_handler_counts [OF assms(2)] by (simp add: wf_host_def)
qed

lemma host_machine: "reporter_ok g \<Longrightarrow> machine (host_step g) wf_host (\<lambda>_. True)"
proof
  fix h e h'
  assume "reporter_ok g" "wf_host h" "host_step g e h = Some h'"
  then show "wf_host h'"
    using host_step_total [of h g e] fault_wf [of h g SIGSEGV]
    by (cases e) (auto simp: host_step_def split: sum.splits)
qed

lemma host_total_machine:
  assumes "reporter_ok g"
  shows "total_machine (host_step g) wf_host (\<lambda>e. e \<in> {Aep, Attest, Debug} \<union> range Ocall)"
proof
  fix h e h'
  assume h: "wf_host h" "e \<in> {Aep, Attest, Debug} \<union> range Ocall"
  obtain h1 where h1: "host_step g e h = Some h1" "wf_host h1" using host_step_total [OF h(1) assms h(2)] by blast
  then show "host_step g e h \<noteq> None" by simp
  show "wf_host h'" if "host_step g e h = Some h'" using h1 that by simp
qed


subsection \<open>The call counter\<close>

definition is_count :: "shown \<Rightarrow> bool" where
  "is_count x = (case x of Count n \<Rightarrow> True | _ \<Rightarrow> False)"

definition attestations :: "host \<Rightarrow> nat" where
  "attestations h = length (filter is_count (terminal h))"

lemma filter_words: "filter is_count (map Word xs) = []" "filter is_count (registers xs) = []"
  by (induction xs) (simp_all add: is_count_def registers_def)

lemma attestations_simps:
  "attestations (attested g flag h) = Suc (attestations h)" "attestations (h\<lparr>ocall_limit := l\<rparr>) = attestations h"
  "attestations (say [Txt s] h) = attestations h"
  by (simp_all add: attestations_def attested_def say_def filter_words) (simp_all add: is_count_def)

lemma ocall_step:
  assumes "wf_host h" "reporter_ok g"
  shows "\<exists>h'. host_step g (Ocall s) h = Some h' \<and> wf_host h' \<and>
    (if ocall_limit h = 2 then ocall_limit h' = 100 \<and> attestations h' = Suc (attestations h)
     else ocall_limit h' = ocall_limit h - 1 \<and> attestations h' = attestations h)"
proof -
  have b: "wf_bufs h" "2 \<le> ocall_limit h" "ocall_limit h \<le> 100" using assms by (auto simp: wf_host_def)
  have "wf_host h'" if "host_step g (Ocall s) h = Some h'" for h'
    using host_step_total [OF assms, of "Ocall s"] that by auto
  then show ?thesis
    using b by (simp add: host_step_def ocall_run [OF b(1) assms(2)] Let_def attestations_simps)
qed

lemma ocalls_run:
  assumes "reporter_ok g"
  shows "wf_host h \<Longrightarrow> ocall_limit h = 100 - int k \<Longrightarrow> k < 99 \<Longrightarrow>
    \<exists>h'. run_steps (host_step g) (map Ocall strs) h = Some h' \<and> wf_host h' \<and>
      attestations h' = attestations h + (length strs + k) div 99 \<and>
      ocall_limit h' = 100 - int ((length strs + k) mod 99)"
proof (induction strs arbitrary: h k)
  case (Cons s strs)
  obtain h1 where h1: "host_step g (Ocall s) h = Some h1" "wf_host h1"
    "if ocall_limit h = 2 then ocall_limit h1 = 100 \<and> attestations h1 = Suc (attestations h)
     else ocall_limit h1 = ocall_limit h - 1 \<and> attestations h1 = attestations h"
    using ocall_step [OF Cons.prems(1) assms, of s] by blast
  show ?case
  proof (cases "k = 98")
    case True
    then have "ocall_limit h1 = 100 - int 0" "attestations h1 = Suc (attestations h)"
      using h1(3) Cons.prems(2) by auto
    with Cons.IH [OF h1(2), of 0] True h1(1) show ?thesis by simp
  next
    case False
    then have "ocall_limit h1 = 100 - int (Suc k)" "attestations h1 = attestations h" "Suc k < 99"
      using h1(3) Cons.prems(2,3) by auto
    with Cons.IH [OF h1(2), of "Suc k"] h1(1) show ?thesis by simp
  qed
qed simp

text \<open>
  Remark.  Starting with a full counter, every 99th string the enclave prints triggers one
  attestation, and no other does.
\<close>

theorem ocall_period:
  assumes "wf_host h" "reporter_ok g" "ocall_limit h = 100"
  shows "\<exists>h'. run_steps (host_step g) (map Ocall strs) h = Some h' \<and>
    attestations h' = attestations h + length strs div 99 \<and>
    ocall_limit h' = 100 - int (length strs mod 99)"
  using ocalls_run [OF assms(2,1), of 0 strs] assms(3) by auto

subsection \<open>Calls into the enclave and the secret\<close>

text \<open>
  Remark.  The expected measurement has four words and the loop compares eight: both
  thread functions read past the end of the array, for every enclave and every state.
\<close>

theorem general_overrun:
  "thread_general g h = Inl Undefined \<and> thread_general1 g h = Inl Undefined"
proof -
  have "matches mr_encl o1 0 8 0 = None" for o1
    by (rule matches_short) (simp_all add: mr_encl_def)
  then show ?thesis
    by (simp add: thread_general_def thread_general1_def general_call_def Let_def case_prod_unfold)
qed

lemma aes_nothing: "aesEncrypt (Some host_key) 16 (Some pt) (Some ct) 1 = Some (-1, Some ct)"
  by (simp add: aesEncrypt_def aesCrypt_def)

lemma pack_overrun: "packLoop host_key 15 0 3 0 = None"
  by (simp add: numeral_3_eq_3 buf_read_def host_key_def split: bind_split)

lemma encode_overrun: "encodeMessage ifill 16 3 host_key e n = None"
proof -
  have s: "encodeLoop 16 3 host_key e n i enc = None"
    if "i < 16" "\<And>enc'. encodeLoop 16 3 host_key e n (i + 3) enc' = None" for i enc
    using that by (subst encodeLoop.simps) (simp split: bind_split)
  have e: "encodeLoop 16 3 host_key e n 15 enc = None" for enc
    by (subst encodeLoop.simps) (simp add: pack_overrun)
  have e: "encodeLoop 16 3 host_key e n 12 enc = None" for enc by (rule s) (simp_all add: e)
  have e: "encodeLoop 16 3 host_key e n 9 enc = None" for enc by (rule s) (simp_all add: e)
  have e: "encodeLoop 16 3 host_key e n 6 enc = None" for enc by (rule s) (simp_all add: e)
  have e: "encodeLoop 16 3 host_key e n 3 enc = None" for enc by (rule s) (simp_all add: e)
  have e: "encodeLoop 16 3 host_key e n 0 enc = None" for enc by (rule s) (simp_all add: e)
  show ?thesis by (simp add: encodeMessage_def e)
qed

text \<open>
  Remark.  Whenever \<open>create_secret\<close> returns, the ciphertext buffer holds what it held
  before: the AES routine rejects the length 1 and its return code is not looked at.  When the RSA
  modulus has more than 21 bits, so that blocks have three characters, encoding the 16 bytes of the
  key overruns the key and the result.
\<close>

theorem secret_not_encrypted:
  assumes "pickPrimes rnd 0 = Some (p, q, j)" "\<And>i. 0 \<le> rnd i"
  shows "(create_secret rnd ifill pt ct = Some (ct', pubkey, shown) \<longrightarrow> ct' = ct) \<and>
    (2 ^ 21 \<le> p * q \<longrightarrow> create_secret rnd ifill pt ct = None)"
proof (intro conjI impI)
  assume "create_secret rnd ifill pt ct = Some (ct', pubkey, shown)"
  then show "ct' = ct" by (auto simp: create_secret_def aes_nothing Let_def split: bind_splits)
next
  assume n: "2 ^ 21 \<le> p * q"
  obtain key k where key: "keygen rnd 0 = Some (key, k)" using keygen_valid [OF assms] by blast
  have "blockBytes key = 3" using key n assms(1)
    by (auto simp: keygen_def Let_def drop_bit_eq_div div_eq_0_iff split: bind_splits)
  then show "create_secret rnd ifill pt ct = None"
    by (simp add: create_secret_def aes_nothing encode_overrun Let_def key)
qed

section \<open>A concrete host\<close>

text \<open>An enclave at \<open>0x7f0000000000\<close> whose reporter fills the first register words.\<close>

definition demoSgx :: sgx where
  "demoSgx =
     \<lparr>err = (\<lambda>e. if e = ENCLAVE_LOST then 0x4001 else 1), SGX_SUCCESS = 0, create_enclave = (0, 2), destroy_enclave = 0, dummy_call = 0,
      page_aligned_func = 0, get_a_addr = (0, 0x7f0000003190), get_code_addr = (0, 0x7f0000008000),
      enclave_base = 0x7f0000000000, ssa_addr = 0x7f000000bf48,
      reporter = (\<lambda>n b c. (b[12 := 0x17], c)), addint = (\<lambda>e a b c. (0, 3, c)),
      edbgrd = (\<lambda>m a. m a), edbgwr = (\<lambda>m a v. m(a := v)), gprsgx = (\<lambda>m. []),
      PFN_MASK = 0xfff, mapped = (\<lambda>_. True), outside = (\<lambda>_. replicate PAGE 0xff),
      anchor_code = replicate PAGE 0x90, after_eid = replicate PAGE 0, stamps = (5, 6),
      output_addr = 0x404000, ssa_slot = 0x7ffc0000, attacked = 0x401000, test1_addr = 0x401200,
      test1_bytes = replicate 64 0xcc\<rparr>"

definition demoHost :: host where
  "demoHost =
     \<lparr>data_pt = 0, data_page = 0, code_pt = 0, fault_fired = 0, aep_fired = 0, eid = 0, global_eid = 0,
      old = 0, new = 0xbb, ocall_limit = 100, output = replicate OUTPUT_WORDS 0, cpyopt = replicate 1024 0,
      argu_list = replicate 6 0, h_data_tr = replicate PAGE 0, code_tr = replicate PAGE 0,
      worker_tr = replicate PAGE 0, base = 0, rights = (\<lambda>_. {PROT_READ, PROT_WRITE, PROT_EXEC}),
      handler = False, aep_cb = False, encl = (\<lambda>_. 0), terminal = []\<rparr>"

lemma demo_wf_host: "wf_host demoHost" "ocall_limit demoHost = 100" "attestations demoHost = 0"
  by (simp_all add: wf_host_def wf_bufs_def demoHost_def attestations_def)

lemma demo_reporter_ok: "reporter_ok demoSgx"
  by (simp add: reporter_ok_def demoSgx_def)

definition demoRights :: "u64 \<Rightarrow> prot set" where
  "demoRights = (\<lambda>_. {PROT_READ, PROT_WRITE, PROT_EXEC})(0x7f0000003000 := {}, 0x7f0000008000 := {})"

definition demoConf :: host where
  "demoConf = demoHost\<lparr>data_pt := 0x7f0000003190, data_page := 0x7f0000003000, code_pt := 0x7f0000008000,
     rights := demoRights, handler := True\<rparr>"

lemma demo_config: "attacker_config_page_table demoSgx demoHost = Inr demoConf"
  by (simp add: attacker_config_page_table_def demoSgx_def mprotect_def Let_def demoConf_def demoRights_def
      demoHost_def del: fun_upd_apply)


theorem foreign_fault_witness:
  "touch demoSgx 0x5000 {PROT_READ} (demoConf\<lparr>rights := \<lambda>_. {}\<rparr>) = Inl AssertFailed"
  by (rule foreign_fault) (simp_all add: demoConf_def)

theorem attestation_counts_zeros_witness:
  "\<exists>h' rest. test_attestation demoSgx 1 demoHost = Inr h' \<and> wf_host h' \<and>
    terminal h' = terminal demoHost @ Count (zero_words (take 0x40 (fst (report1 demoSgx)))) # rest"
  by (rule attestation_counts_zeros [OF demo_wf_host(1) demo_reporter_ok])


theorem ocall_period_witness:
  "\<exists>h'. run_steps (host_step demoSgx) (map Ocall (replicate 200 ''x'')) demoHost = Some h' \<and>
    attestations h' = 2 \<and> ocall_limit h' = 98"
  using ocall_period [OF demo_wf_host(1) demo_reporter_ok demo_wf_host(2), of "replicate 200 ''x''"]
  by (simp add: demo_wf_host numeral_2_eq_2)

lemma solovay_4_1451: "solovayPrime 4 1451 = Some 1"
  by code_simp

lemma large_draws: "randPrime (\<lambda>_. 1451) i SINGLE_MAX = Some (1451, i + 6)"
  by (rule randPrime_hit)
    (simp_all add: SINGLE_MAX_def probablePrime_def ACCURACY_def eval_nat_numeral solovay_4_1451)

lemma large_pick: "pickPrimes (\<lambda>_. 1451) 0 = Some (1451, 1451, 12)"
  by (subst pickPrimes.simps) (simp add: large_draws i32_fits)

lemma small_pick: "pickPrimes (\<lambda>_. 13) 0 = Some (13, 13, 12)"
  by (subst pickPrimes.simps) (simp add: equal_draws i32_fits)

lemma small_keygen: "keygen (\<lambda>_. 13) 0 = Some (\<lparr>modulusN = 169, blockBytes = 1, expE = 13, expD = 133\<rparr>, 13)"
proof -
  have "gcd 13 (144 :: int) = 1" by code_simp
  then have "randExponent (\<lambda>_. 13) 12 144 EXPONENT_MAX = Some (13, 13)"
    by (simp add: randExponent_def EXPONENT_MAX_def gcdC_eq randExponentLoop.simps [of 13])
  then show ?thesis by (simp add: keygen_def small_pick i32_fits Let_def equal_key)
qed

lemma small_secret: "create_secret (\<lambda>_. 13) (\<lambda>_. 0) pt ct \<noteq> None"
proof -
  have "Option.bind (encodeMessage (\<lambda>_. 0) 16 1 host_key 13 169) (\<lambda>enc.
      Option.bind (buf_read enc 0 4) (\<lambda>p. Option.bind (decodeMessage (\<lambda>_. 0) 16 1 enc 133 169) (\<lambda>dec.
        buf_read dec 0 16))) \<noteq> None"
    by code_simp
  then show ?thesis
    by (auto simp: create_secret_def aes_nothing small_keygen Let_def split: bind_splits)
qed

theorem secret_not_encrypted_witness:
  "(\<exists>pubkey shown. create_secret (\<lambda>_. 13) (\<lambda>_. 0) [1, 2] [3, 4] = Some ([3, 4], pubkey, shown)) \<and>
   create_secret (\<lambda>_. 1451) (\<lambda>_. 0) [1, 2] [3, 4] = None"
proof (rule conjI)
  obtain ct' pubkey shown where "create_secret (\<lambda>_. 13) (\<lambda>_. 0) [1, 2] [3, 4] = Some (ct', pubkey, shown)"
    using small_secret [of "[1, 2]" "[3, 4]"] by (metis not_Some_eq prod_cases3)
  with secret_not_encrypted [OF small_pick] show
    "\<exists>pubkey shown. create_secret (\<lambda>_. 13) (\<lambda>_. 0) [1, 2] [3, 4] = Some ([3, 4], pubkey, shown)" by fastforce
  show "create_secret (\<lambda>_. 1451) (\<lambda>_. 0) [1, 2] [3, 4] = None"
    using secret_not_encrypted [OF large_pick] by simp
qed

section \<open>The device as the host sees it\<close>

lemma page_size: "PAGE = DEV_PAGE"
  by (simp add: PAGE_def DEV_PAGE_def)

lemma dev_write_ssa:
  assumes "wf_dev d" "registered d" "length page = PAGE" "page ! 700 = 0xaa"
  shows "\<exists>c. crc32 page 0x100 = Some c \<and>
    dev_write k ad hyper page d = Inr (d\<lparr>pp := page, pp0 := page, crc_ssa := ucast c\<rparr>)"
proof -
  have "filled (pp d) page DEV_PAGE = page" "filled (pp0 d) page DEV_PAGE = page"
    using assms by (simp_all add: filled_page page_size wf_dev_def)
  then show ?thesis
    using ssa_run [OF assms(1) order.refl, of page k ad hyper] assms
    by (auto simp: dev_write_def jxdev_open_def jxdev_release_def page_size)
qed

lemma dev_write_anchor:
  assumes "wf_dev d" "registered d" "length page = PAGE" "page ! 700 = 0xbb"
  shows "\<exists>c. crc32 page 40 = Some c \<and>
    dev_write k ad hyper page d = Inr (d\<lparr>pp := page, pp1 := page, crc_anchor := ucast c\<rparr>)"
proof -
  have "filled (pp d) page DEV_PAGE = page" "filled (pp1 d) page DEV_PAGE = page"
    using assms by (simp_all add: filled_page page_size wf_dev_def)
  then show ?thesis
    using anchor_run [OF assms(1) order.refl, of page k ad hyper] assms
    by (auto simp: dev_write_def jxdev_open_def jxdev_release_def page_size)
qed

lemma dev_write_call:
  assumes "wf_dev d" "registered d" "length page = PAGE" "page ! 700 = 0xdd"
  shows "dev_write k ad hyper page d = Inr (ptid ad hyper (d\<lparr>pp := page\<rparr>))"
proof -
  have "filled (pp d) page DEV_PAGE = page" using assms by (simp add: filled_page page_size wf_dev_def)
  then show ?thesis
    using assms
    by (simp add: dev_write_def jxdev_open_def jxdev_release_def page_size jxdev_write_def copy_from_user_eq
        wf_dev_def measure_ssa_def measure_anchor_def do_smp_call_def)
qed

lemma trampoline_nothing:
  "\<exists>t s'. trampoline k p b 0 s = Some (t, s') \<and> mem s' = mem s \<and> pinfo s' = pinfo s"
  by (simp add: trampoline_def Let_def case_prod_unfold laucher_non_v2p_def non_loop.simps launch_en_v2p_def
      urdtsc_def event_def)

text \<open>The host's trampoline request asks for zero pages.\<close>

lemma dev_write_trampoline:
  assumes "wf_dev d" "registered d"
  shows "\<exists>s t. dev_write k ad hyper (trampoline_page g pnum h) d =
      Inr (d\<lparr>pp := trampoline_page g pnum h, kern := s, t_building := t\<rparr>) \<and>
    mem s = mem (kern d) \<and> pinfo s = pinfo (kern d)"
proof -
  let ?p = "trampoline_page g pnum h"
  have p: "length ?p = DEV_PAGE" "?p ! 700 = 0xcc" "?p ! 2 = 0"
    by (simp_all add: trampoline_page_def PAGE_def DEV_PAGE_def Let_def)
  obtain t s where "trampoline k (ucast (?p ! 3)) (ucast (?p ! 0)) 0 (snd (urdtsc (kern d))) = Some (t, s)"
    "mem s = mem (kern d)" "pinfo s = pinfo (kern d)"
    using trampoline_nothing [of k "ucast (?p ! 3)" "ucast (?p ! 0)" "snd (urdtsc (kern d))"]
    by (auto simp: urdtsc_def)
  then show ?thesis
    using assms p
    by (intro exI [of _ "s\<lparr>tsc_pos := Suc (tsc_pos s)\<rparr>"]
          exI [of _ "tsc s (tsc_pos s) - tsc (kern d) (tsc_pos (kern d))"])
      (simp add: dev_write_def jxdev_open_def jxdev_release_def page_size jxdev_write_def copy_from_user_eq
        wf_dev_def filled_page run_trampoline_def Let_def case_prod_unfold urdtsc_def)
qed

text \<open>The measured part of a copied page is the measured part of the source.\<close>

lemma movsq_page_eq:
  "movsq_page src = Some p \<longleftrightarrow> 2048 \<le> length src \<and> p = take 2048 src @ replicate 2048 0"
  by (auto simp: movsq_page_def buf_read_def buf_write_def PAGE_def split: if_splits)

lemma crc_movsq:
  assumes "movsq_page src = Some p" "unat n \<le> 256"
  shows "crc32 (p[700 := x]) n = crc32 src n"
proof -
  have p: "2048 \<le> length src" "p = take 2048 src @ replicate 2048 0" using assms by (auto simp: movsq_page_eq)
  have "take (unat n) (p[700 := x]) = take (unat n) src"
    using p assms(2) by (simp add: take_update_cancel min_def)
  then show ?thesis
    using p assms(2) by (simp add: crc32_def crcLoop_eq)
qed
end
