(* ===== verification/Spec2Isabelle.thy ===== *)
theory Spec2Isabelle
  imports KvmAsyncPf KvmMsr KvmTsc KvmEvents SbRun Enclave AesModes Rsa JxDev KvmHypercall KvmException KvmRegs Md5 Host
begin

text \<open>
  A verification library for SMILE, a prototype that lets a hypervisor look into an SGX enclave.

  \<^bold>\<open>The program.\<close>  A host process (\<^verbatim>\<open>jxsmile19/smile-case1/main.c\<close>) loads an enclave, revokes
  and restores the rights on its pages, obtains a report of the enclave's state save area, and copies
  that area and the code of an anchor into two pages.  It hands the pages to a character device of the
  guest kernel (\<^verbatim>\<open>va_tr23/va_tr/jxdev.c\<close>), which measures them with a checksum (\<^verbatim>\<open>crc.c\<close>), can hide
  and restore the pages of a process (\<^verbatim>\<open>limit.c\<close>, the trampoline; \<^verbatim>\<open>v2p.c\<close> translates addresses) and
  issues a hypercall on another processor; a second module digests files (\<^verbatim>\<open>md5.c\<close>).  The modified hypervisor (\<^verbatim>\<open>kvm/x86.c\<close>) receives the
  hypercall and compares the pages.  Two ciphers encrypt what is reported: AES (\<^verbatim>\<open>aes.h\<close>, with the modes
  of \<^verbatim>\<open>AES128-with-C-master\<close>) and RSA (\<^verbatim>\<open>rsa.h\<close> and its stand-alone copy \<^verbatim>\<open>rsa.c\<close>).  Inside the enclave
  (\<^verbatim>\<open>Enclave/encl.c\<close>) an entry function records which page to inspect and a worker hands it out encrypted.
  The prototype is measured with a copy of the benchmark sysbench, whose lists, options, random numbers, statistics
  and run loop are modelled too.

  \<^bold>\<open>The theories\<close>, in the order in which they build on each other.

  \<^item> \<open>Prelude\<close>: machine integers, buffers (\<open>buf_read\<close>, \<open>buf_write\<close>), signed arithmetic that is
    undefined on overflow, and the locales \<open>machine\<close> and \<open>total_machine\<close> for components that serve requests.
  \<^item> \<open>Aes\<close>: key schedule, the round functions, the block cipher and \<open>aesEncrypt\<close> and \<open>aesDecrypt\<close> of
    \<^verbatim>\<open>aes.h\<close>.  Each round function has an inverse; the locale \<open>block_cipher\<close> lifts that to whole messages.
  \<^item> \<open>AesModes\<close>: padding, ECB and CBC of the second AES program, with its two demonstrations.
  \<^item> \<open>Rsa\<close>: modular powers, Jacobi symbols, the Solovay-Strassen test, random primes and exponents, the
    extended Euclidean algorithm, reading and padding of the file, packing of characters into blocks, and
    the whole program \<open>rsaMain\<close>.  Fermat's theorem is proved here and gives the correctness of decoding.
  \<^item> \<open>Crc\<close>: the bit-serial checksum and the table-driven one of the file benchmark, which are proved equal;
    the locale \<open>incremental\<close> is their common interface.
  \<^item> \<open>Paging\<close>: page table walk, hiding and restoring of a region.  \<open>hide\<close> and \<open>reveal\<close> are the abstract
    specification which the two loops implement.
  \<^item> \<open>JxDev\<close>: the state of the device (record \<open>jxdev\<close>) and its file operations, with the hypercall as a
    parameter whose contract is the locale \<open>jx_hypervisor\<close>.
  \<^item> \<open>KvmHypercall\<close>: \<open>kvm_emulate_hypercall\<close> with the introspection code, the completion of exits, and
    guest and user space as a step relation \<open>hc_step\<close>.
  \<^item> \<open>KvmException\<close>: exceptions queued for the guest, refining the double-fault table of the architecture.
  \<^item> \<open>KvmAsyncPf\<close>: asynchronous page faults.  The open-addressing table of frames, deleted from by backward shift,
    implements a bag (locale \<open>frame_bag\<close>); delivery to the guest and the halted states of a processor.
  \<^item> \<open>KvmRegs\<close>: writes of control, extended control and debug registers, and the switch of the extended state.
  \<^item> \<open>Md5\<close>: the digest of kernel files, whose streaming interface refines the digest of the whole message.
  \<^item> \<open>Host\<close>: the host process (record \<open>host\<close>), its signal handler, attestation, calls into and out of the
    enclave, the worker with its encryption, and its session with the device.
  \<^item> \<open>Enclave\<close>: the enclave (record \<open>enclave\<close>) with its page dump, key transport, messages, exception hooks and
    return-oriented payload; the locale \<open>ctr_cipher\<close> is what it needs of counter mode, which the cipher of
    \<open>Aes\<close> provides.
  \<^item> \<open>SbList\<close>: the circular lists of \<^verbatim>\<open>sb_list.h\<close> on a heap of pointers; the locale \<open>list_impl\<close> states that they
    implement sequences.
  \<^item> \<open>SbOptions\<close>: the options of \<^verbatim>\<open>sb_options.c\<close> as sequences, with configuration files.
  \<^item> \<open>SbRand\<close>: \<^verbatim>\<open>sb_rand.c\<close>.  The modulus of the unique numbers is proved prime by Pocklington's criterion; the
    arithmetic of \<open>double\<close> is written out as rounding to 53 bits.
  \<^item> \<open>SbStats\<close>: timers (locale \<open>collector\<close>), counters and the histogram, whose merging loops take the updates of
    other threads between their atomic fetches as an argument.
  \<^item> \<open>SbRun\<close>: events, reports and limits of \<^verbatim>\<open>sysbench.c\<close>, the barrier of \<^verbatim>\<open>sb_barrier.c\<close> as a step relation
    \<open>bstep\<close> over any number of threads, and the prime number test.
  \<^item> This theory puts the hypervisor under the device, the device under the host and the enclave under the host.

  \<^bold>\<open>Conventions.\<close>  Definitions carry the names of the C functions.  A result \<^term>\<open>None\<close> is undefined
  behaviour, mostly an access outside an array; error codes are ordinary values.  The host process, which
  can also end by a failed assertion or \<open>abort\<close>, returns a sum type \<open>res\<close> instead.  Unsigned C integers
  are words of their width; signed ones are integers with an explicit check of the range.  The time stamp
  counter and the random numbers are streams.  Loops of \<open>randPrime\<close>, \<open>randExponent\<close> and the choice of the
  primes, which may run forever, are partial functions; \<open>randPrime_returns_candidate\<close> and \<open>keygen_keys\<close>
  show that the first two return.  The probing loops of \<open>KvmAsyncPf\<close>, the traversals of \<open>SbList\<close> and the exception hook of the enclave are partial functions too; that the former return is part of \<open>async_pf_refines\<close> and \<open>list_refines\<close>.  Every other loop has a termination proof and no definition uses fuel.

  \<^bold>\<open>Parameters.\<close>  Code outside the repository is an argument of the definitions: constants and
  structures of kernel headers (\<open>kconst\<close>, \<open>abi\<close>), the rest of the hypervisor (\<open>env\<close>, \<open>xenv\<close>, \<open>renv\<close>), the hash
  function and headers behind asynchronous page faults (\<open>aenv\<close>), the SGX
  runtime and support library (\<open>sgx\<close>, \<open>sdk\<close>); for the benchmark the clock, logarithms, file contents and the
  wake-ups of threads.  What a theorem needs of them is a named hypothesis, such as
  \<open>reporter_ok\<close> or \<open>vendor_ok\<close>, and its witness instantiates them with concrete functions.

  \<^bold>\<open>What the theorems show.\<close>  Round trips of the ciphers and of the RSA program; exactness and termination
  of the number theory; equality of the checksums and that they notice every changed byte; that the digest does not depend on how a
  message is cut; that the
  trampoline restores memory; what each device request does, that requests keep the device well formed, and
  that the session of the host leaves the right measurements; that hypercalls are counted exactly and are
  harmless from unprivileged code; that exceptions merge as the architecture says and that register writes
  keep the registers valid; that revoked pages become accessible again after one fault; that the table of
  frames implements a bag and a processor waiting for a page runs again; that a dumped page decrypts to itself;
  that lists implement sequences and options are found again; that unique random numbers do not repeat; that no
  event is lost between concurrent updates and reports, that reports tell what happened, and that threads leave
  a barrier only in complete rounds.  Several theorems state
  weaknesses of the prototype as they are in the code: the introspection compares pages with their own
  copies, the attestation compares the report with an empty buffer, all dumps share one key stream, the data is never encrypted, the
  trampoline is asked to hide no page, and the digest of a file skips half of it.

  \<^bold>\<open>Not modelled.\<close>  The assembly around the enclave and its direct exit; the unmodified
  remainder of \<^verbatim>\<open>kvm/x86.c\<close> (emulation, clocks, migration and the \<open>ioctl\<close> interface, mostly calls into kernel code
  outside the repository) and its older copy \<^verbatim>\<open>x866.c\<close>; displayed time stamps and report files; earlier copies of the
  device; of sysbench the distributions that need logarithms, the database drivers, the Lua interface, thread
  creation and the other tests; UnixBench and third-party libraries.
\<close>

section \<open>The guest device on top of the hypervisor\<close>

text \<open>
  The hypercall instruction of the guest loads the number and the arguments into registers, traps into
  \<open>kvm_emulate_hypercall\<close> and finds the result in \<open>rax\<close>.  The device calls it on processor 1, where
  the hypervisor only reads guest memory, so that the pages of the device stay as they are.
\<close>

definition kvm_hyper :: "env \<Rightarrow> vcpu \<Rightarrow> vm \<Rightarrow> hypercall" where
  "kvm_hyper e c v n a0 a1 a2 a3 d =
     (let (r, c', v') = kvm_emulate_hypercall e (load_regs n a0 a1 a2 a3 c) v in (rax c', d))"

lemma snd_kvm_hyper [simp]: "snd (kvm_hyper e c v n a0 a1 a2 a3 d) = d"
  by (simp add: kvm_hyper_def case_prod_unfold)

interpretation jx: jx_hypervisor kc ad "kvm_hyper e c v" for kc ad e c v
  by unfold_locales simp



section \<open>The whole protocol\<close>

lemma wf_dev_upd [simp]:
  "wf_dev (d\<lparr>crc_ssa := x\<rparr>) = wf_dev d" "wf_dev (d\<lparr>crc_anchor := x\<rparr>) = wf_dev d"
  "wf_dev (d\<lparr>printed := ps\<rparr>) = wf_dev d" "wf_dev (d\<lparr>kern := s\<rparr>) = wf_dev d"
  by (simp_all add: wf_dev_def)

lemma wf_dev_pages:
  "wf_dev d \<Longrightarrow> length p = DEV_PAGE \<Longrightarrow> length q = DEV_PAGE \<Longrightarrow> wf_dev (d\<lparr>pp := p, pp0 := q\<rparr>)"
  "wf_dev d \<Longrightarrow> length p = DEV_PAGE \<Longrightarrow> length q = DEV_PAGE \<Longrightarrow> wf_dev (d\<lparr>pp := p, pp1 := q\<rparr>)"
  "wf_dev d \<Longrightarrow> length p = DEV_PAGE \<Longrightarrow> wf_dev (d\<lparr>pp := p\<rparr>)"
  by (simp_all add: wf_dev_def)

text \<open>The three measuring writes of the host.\<close>

lemma measure_writes_run:
  assumes "wf_dev d" "registered d" "movsq_page src = Some ssa" "movsq_page code = Some anchor"
    and "length (worker_tr h) = PAGE"
  shows "\<exists>h' d' c1 c2. measure_writes k ad (kvm_hyper e c v) ssa anchor h d = Inr (h', d') \<and>
    wf_dev d' \<and> registered d' \<and> kern d' = kern d \<and> printed d' = printed d @ [0xa] \<and>
    crc32 src 0x100 = Some c1 \<and> crc_ssa d' = ucast c1 \<and> crc32 code 40 = Some c2 \<and> crc_anchor d' = ucast c2"
proof -
  let ?hy = "kvm_hyper e c v"
  have len: "length ssa = PAGE" "length anchor = PAGE" using assms(3,4) by (auto simp: movsq_page_eq PAGE_def)
  then have long: "700 < length ssa" "700 < length anchor" "700 < length (worker_tr h)"
    using assms(5) by (simp_all add: PAGE_def)
  obtain c1 where c1: "crc32 src 0x100 = Some c1"
    "dev_write k ad ?hy (ssa[700 := 0xaa]) d = Inr (d\<lparr>pp := ssa[700 := 0xaa], pp0 := ssa[700 := 0xaa], crc_ssa := ucast c1\<rparr>)"
    using dev_write_ssa [OF assms(1,2), of "ssa[700 := 0xaa]" k ad ?hy] len long crc_movsq [OF assms(3), of "0x100"] by auto
  define d1 where "d1 = d\<lparr>pp := ssa[700 := 0xaa], pp0 := ssa[700 := 0xaa], crc_ssa := ucast c1\<rparr>"
  have d1: "wf_dev d1" "registered d1" using assms(1,2) len by (simp_all add: d1_def wf_dev_pages page_size)
  obtain c2 where c2: "crc32 code 40 = Some c2"
    "dev_write k ad ?hy (anchor[700 := 0xbb]) d1 = Inr (d1\<lparr>pp := anchor[700 := 0xbb], pp1 := anchor[700 := 0xbb], crc_anchor := ucast c2\<rparr>)"
    using dev_write_anchor [OF d1, of "anchor[700 := 0xbb]" k ad ?hy] len long crc_movsq [OF assms(4), of "40"] by auto
  define d2 where "d2 = d1\<lparr>pp := anchor[700 := 0xbb], pp1 := anchor[700 := 0xbb], crc_anchor := ucast c2\<rparr>"
  have d2: "wf_dev d2" "registered d2" using d1 len by (simp_all add: d2_def wf_dev_pages page_size)
  let ?w = "(worker_tr h)[700 := 0xdd]"
  have d3: "dev_write k ad ?hy ?w d2 = Inr (ptid ad ?hy (d2\<lparr>pp := ?w\<rparr>))"
    by (rule dev_write_call [OF d2]) (use assms(5) long in simp_all)
  have p: "ptid ad ?hy x = x\<lparr>printed := printed x @ [0xa]\<rparr>" for x
    by (simp add: ptid_def Let_def case_prod_unfold)
  have "wf_dev (d2\<lparr>pp := ?w\<rparr>)" using d2(1) assms(5) by (simp add: wf_dev_pages page_size)
  then show ?thesis
    using c1 c2 d3 d2(2) p by (simp add: measure_writes_def Let_def d1_def [symmetric] d2_def [symmetric])
      (simp add: d1_def d2_def)
qed

text \<open>
  C1.  The session of the host with the device, on top of the modelled hypervisor:
  with the device registered, the three writes succeed and leave in \<open>crc_ssa\<close> and \<open>crc_anchor\<close> the
  checksums of the first 256 bytes of the state save area and of the first 40 bytes of the anchor code
  the host copied.  The trampoline request that follows also succeeds, but asks for zero pages: the
  measurements and the whole of kernel memory, page tables included, are as before.
\<close>

theorem protocol_measures:
  assumes "wf_dev d" "registered d" "movsq_page src = Some ssa" "movsq_page code = Some anchor"
    and "length (worker_tr h) = PAGE"
  shows "\<exists>h' d' d'' c1 c2. measure_writes k ad (kvm_hyper e c v) ssa anchor h d = Inr (h', d') \<and>
    crc32 src 0x100 = Some c1 \<and> crc_ssa d' = ucast c1 \<and> crc32 code 40 = Some c2 \<and> crc_anchor d' = ucast c2 \<and>
    dev_write k ad (kvm_hyper e c v) (trampoline_page g pnum h'') d' = Inr d'' \<and>
    crc_ssa d'' = crc_ssa d' \<and> crc_anchor d'' = crc_anchor d' \<and> mem (kern d'') = mem (kern d)"
proof -
  obtain h' d' c1 c2 where m: "measure_writes k ad (kvm_hyper e c v) ssa anchor h d = Inr (h', d')"
    "wf_dev d'" "registered d'" "kern d' = kern d"
    "crc32 src 0x100 = Some c1" "crc_ssa d' = ucast c1" "crc32 code 40 = Some c2" "crc_anchor d' = ucast c2"
    using measure_writes_run [OF assms, of k ad e c v] by blast
  from dev_write_trampoline [OF m(2,3), of k ad "kvm_hyper e c v" g pnum h''] m show ?thesis by fastforce
qed

theorem protocol_measures_witness:
  "\<exists>h' d' d'' c1 c2.
    measure_writes demoK demoAddr (kvm_hyper (linuxEnv 0 True) (demoVcpu 1) demoVm)
      (replicate 2048 1 @ replicate 2048 0) (replicate 2048 2 @ replicate 2048 0) demoHost demoDev = Inr (h', d') \<and>
    crc32 (replicate 2048 1) 0x100 = Some c1 \<and> crc_ssa d' = ucast c1 \<and>
    crc32 (replicate 2048 2) 40 = Some c2 \<and> crc_anchor d' = ucast c2 \<and>
    dev_write demoK demoAddr (kvm_hyper (linuxEnv 0 True) (demoVcpu 1) demoVm) (trampoline_page demoSgx 4242 demoConf) d' = Inr d'' \<and>
    crc_ssa d'' = crc_ssa d' \<and> crc_anchor d'' = crc_anchor d' \<and> mem (kern d'') = mem (kern demoDev)"
  by (rule protocol_measures [OF wf_demoDev])
    (simp_all add: demoDev_def movsq_page_eq demoHost_def)

section \<open>The host on top of the enclave\<close>

text \<open>The entry function of the enclave, as the host reaches it through the SGX runtime.\<close>

definition with_enclave :: "enclave \<Rightarrow> sgx \<Rightarrow> sgx" where
  "with_enclave st g =
     g\<lparr>addint := (\<lambda>e a b dst. let (sum, dst', st') = encl_addint a b dst st in (SGX_SUCCESS g, sum, dst'))\<rparr>"

lemma matches_zeros:
  "i + n \<le> length xs \<Longrightarrow> i + n \<le> m \<Longrightarrow> 0 \<notin> set xs \<Longrightarrow> matches xs (replicate m 0) i n s = Some s"
proof (induction n arbitrary: i)
  case (Suc n)
  then have "i < length xs" "i < m" by simp_all
  moreover from this have "xs ! i \<noteq> 0" using Suc(4) by (metis nth_mem)
  ultimately show ?case using Suc by (simp add: buf_read_def take_Suc_conv_app_nth hd_drop_conv_nth take_Suc)
qed simp



end
